(* ===== verification/Prelude.thy ===== *)
theory Prelude
  imports Main "HOL-Library.Word" "HOL-Library.Monad_Syntax"
begin

text \<open>
  Vocabulary shared by every component: machine integers of \<^verbatim>\<open>common/defs.h\<close>, the status
  codes, C pointers that may be NULL, memory blocks with bounds-checked access, and the
  modular slices in which all ring structures of the library are read.

  A computation of type \<open>'a option\<close> is \<open>None\<close> where the C code has undefined behaviour
  (an access outside a block, a dangling pointer, a remainder by zero).  A nullable pointer
  is \<open>'a ptr\<close>, with \<open>None\<close> for NULL.
\<close>

section \<open>Integers, pointers and status codes\<close>

type_synonym u8 = "8 word"
type_synonym u16 = "16 word"
type_synonym u32 = "32 word"
type_synonym u64 = "64 word"
type_synonym 'a ptr = "'a option"
type_synonym addr = nat

named_theorems mem_simps \<open>bounds-checked memory and remainder\<close>

text \<open>The status codes of \<^verbatim>\<open>E_StateCode\<close> and their numeric values.\<close>

datatype E_StateCode =
    STATE_CODE_NO_ERROR | STATE_CODE_INIT_FAILURE | STATE_CODE_INVALID_HANDLE
  | STATE_CODE_UNABLE_TO_OPEN_FILE | STATE_CODE_CONFIG_ERROR | STATE_CODE_ALLOCATION_FAILURE
  | STATE_CODE_FREE_MEMORY_FAILURE | STATE_CODE_SOCKET_CREATE_FAILURE
  | STATE_CODE_SOCKET_CLOSE_FAILURE | STATE_CODE_SOCKET_BIND_FAILURE
  | STATE_CODE_FAILED_TO_PROCEED_COMMAND | STATE_CODE_INVALID_COMMAND
  | STATE_CODE_INVALID_PARAM | STATE_CODE_TIME_OUT | STATE_CODE_OBJECT_EXISTED
  | STATE_CODE_OBJECT_NOT_EXIST | STATE_CODE_OBJECT_BEYOND | STATE_CODE_OBJECT_BUSY
  | STATE_CODE_WAIT_MORE_DATA | STATE_CODE_AUTHORIZATION_FAILED | STATE_CODE_OBJECT_LOCKED
  | STATE_CODE_USER_NOT_FOUND | STATE_CODE_STREAM_NOT_FOUND | STATE_CODE_OBJECT_NOT_SUPPORT
  | STATE_CODE_UNDEFINED_ERROR | STATE_CODE_ERROR_MAX

primrec state_code_value :: "E_StateCode \<Rightarrow> int" where
  "state_code_value STATE_CODE_NO_ERROR = 0"
| "state_code_value STATE_CODE_INIT_FAILURE = -1"
| "state_code_value STATE_CODE_INVALID_HANDLE = -2"
| "state_code_value STATE_CODE_UNABLE_TO_OPEN_FILE = -3"
| "state_code_value STATE_CODE_CONFIG_ERROR = -4"
| "state_code_value STATE_CODE_ALLOCATION_FAILURE = -5"
| "state_code_value STATE_CODE_FREE_MEMORY_FAILURE = -6"
| "state_code_value STATE_CODE_SOCKET_CREATE_FAILURE = -7"
| "state_code_value STATE_CODE_SOCKET_CLOSE_FAILURE = -8"
| "state_code_value STATE_CODE_SOCKET_BIND_FAILURE = -9"
| "state_code_value STATE_CODE_FAILED_TO_PROCEED_COMMAND = -10"
| "state_code_value STATE_CODE_INVALID_COMMAND = -11"
| "state_code_value STATE_CODE_INVALID_PARAM = -12"
| "state_code_value STATE_CODE_TIME_OUT = -13"
| "state_code_value STATE_CODE_OBJECT_EXISTED = -14"
| "state_code_value STATE_CODE_OBJECT_NOT_EXIST = -15"
| "state_code_value STATE_CODE_OBJECT_BEYOND = -16"
| "state_code_value STATE_CODE_OBJECT_BUSY = -17"
| "state_code_value STATE_CODE_WAIT_MORE_DATA = -18"
| "state_code_value STATE_CODE_AUTHORIZATION_FAILED = -19"
| "state_code_value STATE_CODE_OBJECT_LOCKED = -20"
| "state_code_value STATE_CODE_USER_NOT_FOUND = -21"
| "state_code_value STATE_CODE_STREAM_NOT_FOUND = -22"
| "state_code_value STATE_CODE_OBJECT_NOT_SUPPORT = -23"
| "state_code_value STATE_CODE_UNDEFINED_ERROR = -999"
| "state_code_value STATE_CODE_ERROR_MAX = -998"

text \<open>
  \<^verbatim>\<open>return_value_if_fail(p != NULL, v)\<close> at the head of an operation on an object: NULL
  gives the value \<open>v\<close> and touches nothing, otherwise the operation runs on the object.
\<close>

definition on_ptr :: "'a ptr \<Rightarrow> 'v \<Rightarrow> ('a \<Rightarrow> ('v \<times> 'a) option) \<Rightarrow> ('v \<times> 'a ptr) option" where
  "on_ptr p v f = (case p of None \<Rightarrow> Some (v, None)
                           | Some x \<Rightarrow> map_option (\<lambda>(y, x'). (y, Some x')) (f x))"

lemma on_ptr_simps [simp]:
  "on_ptr None v f = Some (v, None)"
  "on_ptr (Some x) v f = map_option (\<lambda>(y, x'). (y, Some x')) (f x)"
  by (simp_all add: on_ptr_def)

section \<open>Memory blocks\<close>

definition mem_read :: "'a list \<Rightarrow> nat \<Rightarrow> nat \<Rightarrow> 'a list option" where
  "mem_read m p n = (if p + n \<le> length m then Some (take n (drop p m)) else None)"

definition mem_write :: "'a list \<Rightarrow> nat \<Rightarrow> 'a list \<Rightarrow> 'a list option" where
  "mem_write m p bs =
     (if p + length bs \<le> length m then Some (take p m @ bs @ drop (p + length bs) m) else None)"

definition umod :: "'w::len word \<Rightarrow> 'w word \<Rightarrow> 'w word option" where
  "umod a b = (if b = 0 then None else Some (a mod b))"

lemma mem_read_Some:
  "p + n \<le> length m \<Longrightarrow> mem_read m p n = Some (take n (drop p m))"
  by (simp add: mem_read_def)

lemma mem_write_Some [mem_simps]:
  "p + length bs \<le> length m \<Longrightarrow>
   mem_write m p bs = Some (take p m @ bs @ drop (p + length bs) m)"
  by (simp add: mem_write_def)

lemma length_mem_read: "mem_read m p n = Some bs \<Longrightarrow> length bs = n"
  by (auto simp: mem_read_def split: if_splits)

lemma length_mem_write: "mem_write m p bs = Some m' \<Longrightarrow> length m' = length m"
  by (auto simp: mem_write_def split: if_splits)

lemma umod_Some [mem_simps]: "b \<noteq> 0 \<Longrightarrow> umod a b = Some (a mod b)"
  by (simp add: umod_def)

lemma word_pos_unat: "(b::'w::len word) \<noteq> 0 \<longleftrightarrow> 0 < unat b"
  by (simp add: unat_gt_0)

lemma unat_add_le:
  assumes "unat (a::'w::len word) + unat b \<le> unat (c::'w word)"
  shows "unat (a + b) = unat a + unat b"
proof -
  have "unat c < 2 ^ LENGTH('w)" by (rule unsigned_less)
  with assms have "unat a + unat b < 2 ^ LENGTH('w)" by (rule le_less_trans)
  then show ?thesis by (simp add: unat_word_ariths)
qed

lemma unat_add_lt:
  "unat (a::'w::len word) + unat b < 2 ^ LENGTH('w) \<Longrightarrow> unat (a + b) = unat a + unat b"
  by (simp add: unat_word_ariths)

lemma unat_diff_le: "(b::'w::len word) \<le> a \<Longrightarrow> unat (a - b) = unat a - unat b"
  by (simp add: unat_sub)

lemma less_succ_word: "(x::'w::len word) + 1 \<noteq> 0 \<Longrightarrow> x < x + 1"
proof -
  assume "x + 1 \<noteq> 0"
  then have pos: "0 < unat (x + 1)" by (simp add: unat_gt_0)
  then have "1 \<le> x + 1" by (simp add: word_le_nat_alt Suc_leI)
  then have "unat (x + 1 - 1) = unat (x + 1) - unat (1::'w word)" by (rule unat_diff_le)
  then have "unat x = unat (x + 1) - 1" by simp
  with pos show ?thesis by (simp add: word_less_nat_alt)
qed

lemma eq_of_nat_unat: "unat (x::'w::len word) = n \<Longrightarrow> x = of_nat n"
  by auto

lemma unat_min: "unat (min (a::'w::len word) b) = min (unat a) (unat b)"
  by (simp add: min_def word_le_nat_alt)

lemma min_two_chunks:
  "\<lbrakk>(r::nat) < c; w \<le> r; k1 = c - r; k1 < s\<rbrakk> \<Longrightarrow> min s (c - (r - w)) = k1 + min w (s - k1)"
  by linarith

section \<open>Slices of a ring\<close>

text \<open>The \<open>n\<close> cells of the ring \<open>d\<close> that start at cell \<open>s\<close>, wrapping at the end.\<close>

definition ring_slice :: "'a list \<Rightarrow> nat \<Rightarrow> nat \<Rightarrow> 'a list" where
  "ring_slice d s n = map (\<lambda>i. d ! ((s + i) mod length d)) [0..<n]"

lemma length_ring_slice [simp]: "length (ring_slice d s n) = n"
  by (simp add: ring_slice_def)

lemma ring_slice_0 [simp]: "ring_slice d s 0 = []"
  by (simp add: ring_slice_def)

lemma nth_ring_slice: "i < n \<Longrightarrow> ring_slice d s n ! i = d ! ((s + i) mod length d)"
  by (simp add: ring_slice_def)

lemma ring_slice_mod [simp]: "ring_slice d (s mod length d) n = ring_slice d s n"
  by (simp add: ring_slice_def mod_add_left_eq)

lemma ring_slice_add:
  "ring_slice d s (m + n) = ring_slice d s m @ ring_slice d (s + m) n"
  by (rule nth_equalityI) (auto simp: nth_ring_slice nth_append ac_simps)

lemma take_ring_slice: "m \<le> n \<Longrightarrow> take m (ring_slice d s n) = ring_slice d s m"
  using ring_slice_add [of d s m "n - m"] by simp

lemma drop_ring_slice: "m \<le> n \<Longrightarrow> drop m (ring_slice d s n) = ring_slice d (s + m) (n - m)"
  using ring_slice_add [of d s m "n - m"] by simp

lemma mem_read_ring [mem_simps]:
  assumes "s + n \<le> length d"
  shows "mem_read d s n = Some (ring_slice d s n)"
proof -
  have "take n (drop s d) = ring_slice d s n"
    using assms by (intro nth_equalityI) (auto simp: nth_ring_slice)
  with assms show ?thesis by (simp add: mem_read_def)
qed

text \<open>Two cells of a window shorter than the ring never coincide.\<close>

lemma mod_window_neq:
  assumes "(a::nat) < b" "b - a < L"
  shows "a mod L \<noteq> b mod L"
proof
  assume "a mod L = b mod L"
  with \<open>a < b\<close> have "L dvd b - a" by (metis less_imp_le_nat mod_eq_dvd_iff_nat)
  with assms show False by (auto dest: dvd_imp_le)
qed

lemma nth_block_write:
  assumes "p + length bs \<le> length d" "i < length d"
  shows "(take p d @ bs @ drop (p + length bs) d) ! i
         = (if p \<le> i \<and> i < p + length bs then bs ! (i - p) else d ! i)"
  using assms by (auto simp: nth_append)

text \<open>Writing a contiguous chunk right behind a window extends the window by the chunk.\<close>

lemma ring_slice_extend:
  assumes p: "p = (s + n) mod length d" and fit: "p + length bs \<le> length d"
    and room: "n + length bs \<le> length d"
  shows "ring_slice (take p d @ bs @ drop (p + length bs) d) s (n + length bs)
         = ring_slice d s n @ bs"
proof (rule nth_equalityI)
  let ?d = "take p d @ bs @ drop (p + length bs) d" and ?L = "length d"
  have len: "length ?d = ?L" using fit by simp
  fix i assume "i < length (ring_slice ?d s (n + length bs))"
  then have i: "i < n + length bs" by simp
  with room have L: "0 < ?L" by linarith
  have lhs: "ring_slice ?d s (n + length bs) ! i = ?d ! ((s + i) mod ?L)"
    using i len by (simp only: nth_ring_slice)
  have val: "?d ! ((s + i) mod ?L) = (if p \<le> (s + i) mod ?L \<and> (s + i) mod ?L < p + length bs
        then bs ! ((s + i) mod ?L - p) else d ! ((s + i) mod ?L))"
    using fit L by (intro nth_block_write) auto
  have wrap: "(s + n + j) mod ?L = p + j" if "j < length bs" for j
  proof -
    have "(s + n + j) mod ?L = (p + j) mod ?L" using p by (simp add: mod_add_left_eq)
    with that fit show ?thesis by simp
  qed
  show "ring_slice ?d s (n + length bs) ! i = (ring_slice d s n @ bs) ! i"
  proof (cases "i < n")
    case True
    have "\<not> (p \<le> (s + i) mod ?L \<and> (s + i) mod ?L < p + length bs)"
    proof
      assume a: "p \<le> (s + i) mod ?L \<and> (s + i) mod ?L < p + length bs"
      define j where "j = (s + i) mod ?L - p"
      with a have j: "j < length bs" "(s + i) mod ?L = p + j" by auto
      with wrap [of j] have "(s + i) mod ?L = (s + n + j) mod ?L" by simp
      moreover have "(s + i) mod ?L \<noteq> (s + n + j) mod ?L"
        using True j room by (intro mod_window_neq) auto
      ultimately show False by simp
    qed
    with val have "?d ! ((s + i) mod ?L) = d ! ((s + i) mod ?L)" by (simp only: if_False)
    then show ?thesis using lhs True by (simp add: nth_append nth_ring_slice)
  next
    case False
    then obtain j where ij: "i = n + j" and j: "j < length bs"
      using i by (metis add_less_cancel_left le_Suc_ex not_le)
    have pos: "(s + i) mod ?L = p + j" using wrap [OF j] ij by (simp add: add.assoc)
    have "?d ! ((s + i) mod ?L) = bs ! j" using val pos j by simp
    then show ?thesis using lhs ij by (simp add: nth_append)
  qed
qed simp

text \<open>Writing a chunk at a cell of the ring, wrapping at the end.\<close>

definition ring_write :: "'a list \<Rightarrow> nat \<Rightarrow> 'a list \<Rightarrow> 'a list" where
  "ring_write d p bs =
     (if p + length bs \<le> length d then take p d @ bs @ drop (p + length bs) d
      else (let m = length d - p in
            drop m bs @ drop (length bs - m) (take p d @ take m bs)))"

lemma length_ring_write [simp]:
  "p \<le> length d \<Longrightarrow> length bs \<le> length d \<Longrightarrow> length (ring_write d p bs) = length d"
  by (auto simp: ring_write_def Let_def)

lemma ring_write_Nil [simp]: "p \<le> length d \<Longrightarrow> ring_write d p [] = d"
  by (simp add: ring_write_def)

lemma ring_slice_write:
  assumes p: "p = (s + n) mod length d" and L: "0 < length d" and room: "n + length bs \<le> length d"
  shows "ring_slice (ring_write d p bs) s (n + length bs) = ring_slice d s n @ bs"
proof (cases "p + length bs \<le> length d")
  case True
  then show ?thesis using ring_slice_extend [OF p True room] by (simp add: ring_write_def)
next
  case False
  define m where "m = length d - p"
  define d1 where "d1 = take p d @ take m bs"
  have pl: "p < length d" using p L by simp
  have m: "m \<le> length bs" "p + m = length d" using False pl by (auto simp: m_def)
  have d1: "length d1 = length d" "take p d @ take m bs @ drop (p + length (take m bs)) d = d1"
    using m pl by (auto simp: d1_def)
  have e1: "ring_slice d1 s (n + m) = ring_slice d s n @ take m bs"
    using ring_slice_extend [OF p, of "take m bs"] m room d1 by simp
  have "(s + (n + m)) mod length d = ((s + n) mod length d + m) mod length d"
    by (simp add: mod_add_left_eq add.assoc)
  then have z: "0 = (s + (n + m)) mod length d1" using p m d1 by simp
  have "ring_slice (take 0 d1 @ drop m bs @ drop (0 + length (drop m bs)) d1) s
      (n + m + length (drop m bs)) = ring_slice d1 s (n + m) @ drop m bs"
    using room m d1 by (intro ring_slice_extend z) simp_all
  moreover have "ring_write d p bs = drop m bs @ drop (length bs - m) d1"
    using False by (simp add: ring_write_def Let_def m_def d1_def)
  ultimately show ?thesis using e1 m by simp
qed

text \<open>One cell more, and one cell less.\<close>

lemma ring_slice_update:
  assumes "n < length d"
  shows "ring_slice (d[(s + n) mod length d := x]) s (Suc n) = ring_slice d s n @ [x]"
proof -
  have p: "(s + n) mod length d < length d" by (rule mod_less_divisor) (use assms in linarith)
  then have "d[(s + n) mod length d := x] = take ((s + n) mod length d) d @ [x]
      @ drop ((s + n) mod length d + length [x]) d"
    by (simp add: upd_conv_take_nth_drop)
  then show ?thesis
    using ring_slice_extend [OF refl, of s n d "[x]"] assms p by simp
qed

lemma ring_slice_Suc: "ring_slice d s (Suc n) = d ! (s mod length d) # ring_slice d (Suc s) n"
  using ring_slice_add [of d s 1 n] by (simp add: ring_slice_def)

section \<open>Blocks of slots\<close>

lemma slot_in_block: "i < m \<Longrightarrow> length b = m * n \<Longrightarrow> i * n + n \<le> length (b :: 'a list)"
  using mult_le_mono1 [of "Suc i" m n] by simp

lemma block_disjoint:
  assumes "(i::nat) \<noteq> j" shows "i * n + n \<le> j * n \<or> j * n + n \<le> i * n"
proof -
  have "Suc i \<le> j \<or> Suc j \<le> i" using assms by linarith
  then have "Suc i * n \<le> j * n \<or> Suc j * n \<le> i * n" by (meson mult_le_mono1)
  then show ?thesis by (simp add: add.commute)
qed

lemma nth_take_drop: "\<lbrakk>k < n; p + n \<le> length xs\<rbrakk> \<Longrightarrow> take n (drop p xs) ! k = xs ! (p + k)"
  by simp

lemma slot_after_write:
  assumes "i < m" "j < m" "length b = m * n" "length v = n"
  shows "take n (drop (j * n) (take (i * n) b @ v @ drop (i * n + n) b))
    = (if j = i then v else take n (drop (j * n) b))"
proof (rule nth_equalityI)
  have fit: "i * n + n \<le> length b" "j * n + n \<le> length b"
    using slot_in_block [of i m b n] slot_in_block [of j m b n] assms by auto
  let ?b = "take (i * n) b @ v @ drop (i * n + n) b"
  have len: "length ?b = length b" using fit assms(4) by simp
  have l: "length (take n (drop (j * n) ?b)) = n"
    using fit(2) by (simp only: length_take length_drop len)
  have r: "length (if j = i then v else take n (drop (j * n) b)) = n"
    using fit(2) assms(4) by simp
  show "length (take n (drop (j * n) ?b)) = length (if j = i then v else take n (drop (j * n) b))"
    unfolding l r ..
  fix k assume "k < length (take n (drop (j * n) ?b))"
  then have k: "k < n" unfolding l .
  have "j * n + n \<le> length ?b" using fit(2) len by (simp only:)
  then have lhs: "take n (drop (j * n) ?b) ! k = ?b ! (j * n + k)" by (rule nth_take_drop [OF k])
  have val: "?b ! (j * n + k) = (if i * n \<le> j * n + k \<and> j * n + k < i * n + n
      then v ! (j * n + k - i * n) else b ! (j * n + k))"
    using nth_block_write [of "i * n" v b "j * n + k"] fit k assms(4) by simp
  have "(i * n \<le> j * n + k \<and> j * n + k < i * n + n) = (j = i)"
    using block_disjoint [of i j n] k by (cases "i = j") auto
  with val have "?b ! (j * n + k) = (if j = i then v ! k else b ! (j * n + k))" by simp
  moreover have "take n (drop (j * n) b) ! k = b ! (j * n + k)"
    by (rule nth_take_drop [OF k fit(2)])
  ultimately show "take n (drop (j * n) ?b) ! k
      = (if j = i then v else take n (drop (j * n) b)) ! k"
    unfolding lhs by simp
qed

section \<open>Deadlines\<close>

text \<open>
  \<^verbatim>\<open>struct timespec\<close>, and the absolute deadline of a wait of \<open>ms\<close> milliseconds as the queues
  compute it: seconds and nanoseconds are added separately, and one carry is propagated.
\<close>

record timespec =
  tv_sec :: int
  tv_nsec :: int

definition timespec_ok :: "timespec \<Rightarrow> bool" where
  "timespec_ok ts \<longleftrightarrow> 0 \<le> tv_nsec ts \<and> tv_nsec ts < 1000000000"

definition timespec_nsecs :: "timespec \<Rightarrow> int" where
  "timespec_nsecs ts = tv_sec ts * 1000000000 + tv_nsec ts"

definition timespec_add_ms :: "timespec \<Rightarrow> int \<Rightarrow> timespec" where
  "timespec_add_ms ts ms =
     (let sec = tv_sec ts + ms div 1000; nsec = tv_nsec ts + (ms mod 1000) * 1000000 in
      if 1000000000 \<le> nsec then \<lparr>tv_sec = sec + 1, tv_nsec = nsec - 1000000000\<rparr>
      else \<lparr>tv_sec = sec, tv_nsec = nsec\<rparr>)"

lemma timespec_add_ms_correct:
  assumes "timespec_ok ts" "0 \<le> ms"
  shows "timespec_ok (timespec_add_ms ts ms)
    \<and> timespec_nsecs (timespec_add_ms ts ms) = timespec_nsecs ts + ms * 1000000"
proof -
  have m: "ms mod 1000 * 1000000 \<le> 999000000" by simp
  have "ms div 1000 * 1000 + ms mod 1000 = ms" by (rule div_mult_mod_eq)
  then have "ms * 1000000 = ms div 1000 * 1000000000 + ms mod 1000 * 1000000" by linarith
  with assms m show ?thesis
    by (simp add: timespec_add_ms_def timespec_ok_def timespec_nsecs_def Let_def)
qed

section \<open>The heap\<close>

text \<open>
  Objects of one type are a map from addresses; \<^verbatim>\<open>free\<close> of an address that is not allocated is
  undefined.  \<^verbatim>\<open>malloc\<close> is a parameter: it answers NULL or an address not in use.
\<close>

definition h_free :: "(addr \<rightharpoonup> 'a) \<Rightarrow> addr \<Rightarrow> (addr \<rightharpoonup> 'a) option" where
  "h_free h a = (case h a of None \<Rightarrow> None | Some x \<Rightarrow> Some (h(a := None)))"

definition alloc_fresh :: "((addr \<rightharpoonup> 'a) \<Rightarrow> addr ptr) \<Rightarrow> bool" where
  "alloc_fresh al \<longleftrightarrow> (\<forall>h a. al h = Some a \<longrightarrow> h a = None)"

text \<open>An allocator that never runs out: it answers as long as finitely many addresses are in use.\<close>

definition alloc_total :: "((addr \<rightharpoonup> 'a) \<Rightarrow> addr ptr) \<Rightarrow> bool" where
  "alloc_total al \<longleftrightarrow> (\<forall>h. finite (dom h) \<longrightarrow> (\<exists>a. al h = Some a))"

lemma h_free_Some [mem_simps]: "h a = Some x \<Longrightarrow> h_free h a = Some (h(a := None))"
  by (simp add: h_free_def)

lemma alloc_freshD: "alloc_fresh al \<Longrightarrow> al h = Some a \<Longrightarrow> h a = None"
  by (simp add: alloc_fresh_def)

text \<open>The lowest free address.\<close>

definition alloc0 :: "(addr \<rightharpoonup> 'a) \<Rightarrow> addr ptr" where
  "alloc0 h = (if finite (dom h) then Some (LEAST a. h a = None) else None)"

lemma alloc0_fresh: "alloc_fresh alloc0"
proof -
  have "\<exists>a. h a = None" if "finite (dom h)" for h :: "addr \<rightharpoonup> 'a"
    using ex_new_if_finite [OF infinite_UNIV_nat that] by auto
  then show ?thesis
    by (auto simp: alloc_fresh_def alloc0_def split: if_splits intro: LeastI_ex)
qed

lemma alloc0_total: "alloc_total alloc0"
  by (simp add: alloc_total_def alloc0_def)

text \<open>A call that waits on a condition variable either returns or is still blocked.\<close>

datatype 'a outcome = Blocked | Returned 'a

end
