(* ===== verification/Interfaces.thy ===== *)
theory Interfaces
  imports Prelude
begin

text \<open>
  The contracts shared by the components: a first-in-first-out queue (the ring queue, the
  thread-safe queue, the message queues), and a system whose invariant holds in every reachable
  state (the shared-memory and slot queues).  Clients' theorems are proved once here; every
  component interprets the contract on its own definitions.
\<close>

section \<open>Queues\<close>

datatype 'a qop = Put 'a | Get

primrec puts :: "'a qop list \<Rightarrow> 'a list" where
  "puts [] = []"
| "puts (p # ops) = (case p of Put x \<Rightarrow> x # puts ops | Get \<Rightarrow> puts ops)"

text \<open>What a list queue delivers on a sequence of calls, and what it still holds.\<close>

fun q_spec :: "'a list \<Rightarrow> 'a qop list \<Rightarrow> 'a list \<times> 'a list" where
  "q_spec xs [] = ([], xs)"
| "q_spec xs (Put x # ops) = q_spec (xs @ [x]) ops"
| "q_spec [] (Get # ops) = q_spec [] ops"
| "q_spec (x # xs) (Get # ops) = (let (outs, ys) = q_spec xs ops in (x # outs, ys))"

text \<open>
  The same sequence on an implementation: \<open>put\<close> is \<open>None\<close> when the call is refused or undefined,
  \<open>get\<close> delivers \<open>None\<close> on an empty queue.
\<close>

fun q_run :: "('a \<Rightarrow> 's \<Rightarrow> 's option) \<Rightarrow> ('s \<Rightarrow> ('a ptr \<times> 's) option) \<Rightarrow> 's \<Rightarrow> 'a qop list
    \<Rightarrow> ('a list \<times> 's) option" where
  "q_run put get s [] = Some ([], s)"
| "q_run put get s (Put x # ops) = do { s \<leftarrow> put x s; q_run put get s ops }"
| "q_run put get s (Get # ops) =
     do { (r, s) \<leftarrow> get s; (outs, s) \<leftarrow> q_run put get s ops;
          Some ((case r of None \<Rightarrow> outs | Some x \<Rightarrow> x # outs), s) }"

lemma q_spec_conserves: "q_spec xs ops = (outs, ys) \<Longrightarrow> xs @ puts ops = outs @ ys"
  by (induction xs ops arbitrary: outs rule: q_spec.induct) (auto split: prod.splits)

lemma puts_append: "puts (a @ b) = puts a @ puts b"
  by (induction a) (auto split: qop.split)

lemma puts_map_Put [simp]: "puts (map Put xs) = xs"
  by (induction xs) auto

lemma puts_replicate_Get [simp]: "puts (replicate n Get) = []"
  by (induction n) auto

lemma q_spec_append:
  "q_spec xs (a @ b) = (let (o1, ys) = q_spec xs a; (o2, zs) = q_spec ys b in (o1 @ o2, zs))"
  by (induction xs a rule: q_spec.induct) (auto simp: Let_def split: prod.splits)

lemma q_spec_fill: "q_spec xs (map Put ys) = ([], xs @ ys)"
  by (induction ys arbitrary: xs) auto

lemma q_spec_drain: "n \<le> length xs \<Longrightarrow> q_spec xs (replicate n Get) = (take n xs, drop n xs)"
proof (induction n arbitrary: xs)
  case (Suc n)
  then show ?case by (cases xs) auto
qed simp

text \<open>
  The contract.  \<open>can n s\<close> promises room for \<open>n\<close> more puts, whatever gets happen between
  them; \<open>valid\<close> are the values that may be put.
\<close>

locale fifo =
  fixes inv :: "'s \<Rightarrow> bool"
    and abs :: "'s \<Rightarrow> 'a list"
    and can :: "nat \<Rightarrow> 's \<Rightarrow> bool"
    and valid :: "'a \<Rightarrow> bool"
    and put :: "'a \<Rightarrow> 's \<Rightarrow> 's option"
    and get :: "'s \<Rightarrow> ('a ptr \<times> 's) option"
  assumes put_law: "\<lbrakk>inv s; can (Suc n) s; valid x\<rbrakk> \<Longrightarrow>
      \<exists>s'. put x s = Some s' \<and> inv s' \<and> can n s' \<and> abs s' = abs s @ [x]"
    and get_law: "\<lbrakk>inv s; can n s; abs s = x # xs\<rbrakk> \<Longrightarrow>
      \<exists>s'. get s = Some (Some x, s') \<and> inv s' \<and> can n s' \<and> abs s' = xs"
    and get_empty: "\<lbrakk>inv s; can n s; abs s = []\<rbrakk> \<Longrightarrow>
      \<exists>s'. get s = Some (None, s') \<and> inv s' \<and> can n s' \<and> abs s' = []"
begin

lemma run:
  "\<lbrakk>inv s; can (length (puts ops)) s; \<forall>x \<in> set (puts ops). valid x\<rbrakk> \<Longrightarrow>
   \<exists>s'. q_run put get s ops = Some (fst (q_spec (abs s) ops), s')
      \<and> inv s' \<and> abs s' = snd (q_spec (abs s) ops)"
proof (induction ops arbitrary: s)
  case (Cons p ops)
  show ?case
  proof (cases p)
    case (Put x)
    then obtain s1 where "put x s = Some s1" "inv s1" "can (length (puts ops)) s1"
      "abs s1 = abs s @ [x]"
      using put_law [of s "length (puts ops)" x] Cons.prems by auto
    with Cons.IH [of s1] Cons.prems Put show ?thesis by simp
  next
    case Get
    show ?thesis
    proof (cases "abs s")
      case Nil
      then obtain s1 where "get s = Some (None, s1)" "inv s1" "can (length (puts ops)) s1"
        "abs s1 = []"
        using get_empty [of s "length (puts ops)"] Cons.prems Get by auto
      with Cons.IH [of s1] Cons.prems Get Nil show ?thesis by auto
    next
      case (Cons x xs)
      then obtain s1 where "get s = Some (Some x, s1)" "inv s1" "can (length (puts ops)) s1"
        "abs s1 = xs"
        using get_law [of s "length (puts ops)" x xs] Cons.prems Get by auto
      with Cons.IH [of s1] Cons.prems Get Cons show ?thesis by (auto split: prod.split)
    qed
  qed
qed simp

text \<open>Nothing is lost, duplicated or reordered: delivered then held is held then put.\<close>

lemma conserves:
  assumes "inv s" "can (length (puts ops)) s" "\<forall>x \<in> set (puts ops). valid x"
  shows "\<exists>outs s'. q_run put get s ops = Some (outs, s') \<and> inv s'
    \<and> abs s @ puts ops = outs @ abs s'"
  using run [OF assms] q_spec_conserves [of "abs s" ops] by (metis prod.collapse)

lemma fill_drain:
  assumes "inv s" "abs s = []" "can (length xs) s" "\<forall>x \<in> set xs. valid x"
  shows "\<exists>s'. q_run put get s (map Put xs @ replicate (length xs) Get) = Some (xs, s')
    \<and> inv s' \<and> abs s' = []"
  using run [of s "map Put xs @ replicate (length xs) Get"] assms
  by (simp add: puts_append q_spec_append q_spec_fill q_spec_drain)

end

section \<open>Systems with an invariant\<close>

inductive reachable :: "('s \<Rightarrow> bool) \<Rightarrow> ('s \<Rightarrow> 's \<Rightarrow> bool) \<Rightarrow> 's \<Rightarrow> bool" for init step where
  reach_init: "init s \<Longrightarrow> reachable init step s"
| reach_step: "reachable init step s \<Longrightarrow> step s s' \<Longrightarrow> reachable init step s'"

locale invariant_system =
  fixes init :: "'s \<Rightarrow> bool"
    and step :: "'s \<Rightarrow> 's \<Rightarrow> bool"
    and inv :: "'s \<Rightarrow> bool"
  assumes init_inv: "init s \<Longrightarrow> inv s"
    and step_inv: "\<lbrakk>inv s; step s s'\<rbrakk> \<Longrightarrow> inv s'"
begin

lemma reachable_inv: "reachable init step s \<Longrightarrow> inv s"
  by (induction rule: reachable.induct) (auto intro: init_inv step_inv)

lemma steps_inv: "\<lbrakk>step\<^sup>*\<^sup>* s s'; inv s\<rbrakk> \<Longrightarrow> inv s'"
  by (induction rule: rtranclp_induct) (auto intro: step_inv)

end

section \<open>Tables\<close>

text \<open>A table with one value per key: an update is seen by every later lookup of its key, and by
  no other.\<close>

locale keyed_table =
  fixes inv :: "'t \<Rightarrow> bool"
    and lookup :: "'t \<Rightarrow> 'k \<Rightarrow> 'v option"
    and update :: "'k \<Rightarrow> 'v \<Rightarrow> 't \<Rightarrow> 't"
  assumes update_inv: "inv t \<Longrightarrow> inv (update k v t)"
    and lookup_update: "inv t \<Longrightarrow> lookup (update k v t) = (lookup t)(k \<mapsto> v)"
begin

lemma updates_inv: "inv t \<Longrightarrow> inv (fold (\<lambda>(k, v). update k v) kvs t)"
  by (induction kvs arbitrary: t) (auto simp: update_inv)

lemma lookup_updates:
  "inv t \<Longrightarrow> lookup (fold (\<lambda>(k, v). update k v) kvs t) = lookup t ++ map_of (rev kvs)"
  by (induction kvs arbitrary: t) (auto simp: update_inv lookup_update)

end

end
