(* ===== verification/Ring_Buffer.thy ===== *)
theory Ring_Buffer
  imports Prelude
begin

text \<open>
  \<^verbatim>\<open>common/ring/ring_buffer.c\<close>: the byte ring buffer.  The record has the fields of
  \<^verbatim>\<open>ring_buffer_t\<close> without the mutex and the condition variables; every operation is the
  critical section between lock and unlock.  What the code takes from outside the repository is
  a parameter: the macros \<^verbatim>\<open>tk_min\<close>, \<^verbatim>\<open>tk_max\<close>, \<^verbatim>\<open>TKMEM_ALLOC\<close> (record \<open>awtk\<close>) and the
  answers of the condition variables (record \<open>waits\<close>): whether the wait succeeded, and the
  buffer as the other threads left it when the mutex is held again.
\<close>

section \<open>State and environment\<close>

record ring_buffer =
  rb_r :: u32
  rb_w :: u32
  rb_full :: bool
  rb_capacity :: u32
  rb_max_capacity :: u32
  rb_data :: "u8 list"

record awtk =
  tk_min :: "u32 \<Rightarrow> u32 \<Rightarrow> u32"
  tk_max :: "u32 \<Rightarrow> u32 \<Rightarrow> u32"
  tk_alloc :: "u32 \<Rightarrow> u8 list ptr"

text \<open>Documented behaviour of the macros: minimum, maximum, a block of the requested size or NULL.\<close>

definition awtk_ok :: "awtk \<Rightarrow> bool" where
  "awtk_ok A \<longleftrightarrow> (\<forall>a b. tk_min A a b = min a b) \<and> (\<forall>a b. tk_max A a b = max a b)
     \<and> (\<forall>n d. tk_alloc A n = Some d \<longrightarrow> length d = unat n)"

record 's waits =
  clock_gettime :: timespec
  cond_wait :: "'s \<Rightarrow> bool \<times> 's"
  cond_timedwait :: "timespec \<Rightarrow> 's \<Rightarrow> bool \<times> 's"

definition RING_BUFFER_INFINITE_TIMEOUT :: u32 where "RING_BUFFER_INFINITE_TIMEOUT = -1"
definition RING_BUFFER_NO_TIMEOUT :: u32 where "RING_BUFFER_NO_TIMEOUT = 0"

text \<open>The deadline: the carry out of the nanoseconds by division and remainder.\<close>

definition wait_deadline :: "timespec \<Rightarrow> u32 \<Rightarrow> timespec" where
  "wait_deadline now timeout_ms =
     (let ts = now\<lparr>tv_sec := tv_sec now + uint (timeout_ms div 1000),
                   tv_nsec := tv_nsec now + uint (timeout_ms mod 1000 * 1000000)\<rparr> in
      if 1000000000 \<le> tv_nsec ts
      then \<lparr>tv_sec = tv_sec ts + tv_nsec ts div 1000000000,
            tv_nsec = tv_nsec ts mod 1000000000\<rparr>
      else ts)"

lemma nsec_carry:
  "\<lbrakk>1000000000 \<le> (n::int); n < 2000000000\<rbrakk> \<Longrightarrow>
   n mod 1000000000 = n - 1000000000 \<and> n div 1000000000 = 1"
  using int_mod_pos_eq [of n 1000000000 1 "n - 1000000000"]
    int_div_pos_eq [of n 1000000000 1 "n - 1000000000"] by simp

lemma wait_deadline_eq:
  assumes "timespec_ok now"
  shows "wait_deadline now t = timespec_add_ms now (uint t)"
proof -
  let ?r = "uint t mod 1000"
  have "uint (t mod 1000 * 1000000) = ?r * 1000000"
    by (simp add: uint_word_ariths uint_mod)
  moreover have "uint (t div 1000) = uint t div 1000" by (simp add: uint_div)
  moreover have "?r < 1000" "0 \<le> ?r" by simp_all
  ultimately show ?thesis using assms
    by (auto simp: wait_deadline_def timespec_add_ms_def timespec_ok_def Let_def nsec_carry)
qed

definition wait_condition :: "'s waits \<Rightarrow> u32 \<Rightarrow> 's \<Rightarrow> E_StateCode \<times> 's" where
  "wait_condition W timeout_ms s =
     (if timeout_ms = RING_BUFFER_INFINITE_TIMEOUT then
        (let (ok, s') = cond_wait W s
         in (if ok then STATE_CODE_NO_ERROR else STATE_CODE_TIME_OUT, s'))
      else if timeout_ms = RING_BUFFER_NO_TIMEOUT then (STATE_CODE_TIME_OUT, s)
      else
        (let (ok, s') = cond_timedwait W (wait_deadline (clock_gettime W) timeout_ms) s
         in (if ok then STATE_CODE_NO_ERROR else STATE_CODE_TIME_OUT, s')))"

section \<open>Status queries\<close>

definition ring_buffer_is_full :: "ring_buffer ptr \<Rightarrow> bool" where
  "ring_buffer_is_full p = (case p of None \<Rightarrow> False | Some rb \<Rightarrow> rb_full rb)"

definition ring_buffer_is_empty :: "ring_buffer ptr \<Rightarrow> bool" where
  "ring_buffer_is_empty p =
     (case p of None \<Rightarrow> False | Some rb \<Rightarrow> \<not> rb_full rb \<and> rb_r rb = rb_w rb)"

definition ring_buffer_size :: "ring_buffer ptr \<Rightarrow> u32" where
  "ring_buffer_size p =
     (case p of None \<Rightarrow> 0
      | Some rb \<Rightarrow>
          if rb_full rb then rb_capacity rb
          else if rb_r rb \<le> rb_w rb then rb_w rb - rb_r rb
          else rb_capacity rb - (rb_r rb - rb_w rb))"

definition ring_buffer_free_size :: "ring_buffer ptr \<Rightarrow> u32" where
  "ring_buffer_free_size p =
     (case p of None \<Rightarrow> 0 | Some rb \<Rightarrow> rb_capacity rb - ring_buffer_size (Some rb))"

definition ring_buffer_capacity :: "ring_buffer ptr \<Rightarrow> u32" where
  "ring_buffer_capacity p = (case p of None \<Rightarrow> 0 | Some rb \<Rightarrow> rb_capacity rb)"

definition ring_buffer_wait_for_read ::
    "ring_buffer waits \<Rightarrow> u32 \<Rightarrow> ring_buffer \<Rightarrow> E_StateCode \<times> ring_buffer" where
  "ring_buffer_wait_for_read W timeout_ms rb =
     (if ring_buffer_is_empty (Some rb) then wait_condition W timeout_ms rb
      else (STATE_CODE_NO_ERROR, rb))"

definition ring_buffer_wait_for_write ::
    "ring_buffer waits \<Rightarrow> u32 \<Rightarrow> ring_buffer \<Rightarrow> E_StateCode \<times> ring_buffer" where
  "ring_buffer_wait_for_write W timeout_ms rb =
     (if ring_buffer_is_full (Some rb) then wait_condition W timeout_ms rb
      else (STATE_CODE_NO_ERROR, rb))"

section \<open>Construction\<close>

text \<open>The outcomes of \<^verbatim>\<open>malloc\<close> and of the pthread initialisers, in the order of the calls.\<close>

record rb_create_env =
  rc_malloc_struct :: bool
  rc_malloc_data :: bool
  rc_mutex_init :: bool
  rc_read_cond_init :: bool
  rc_write_cond_init :: bool

definition ring_buffer_create :: "awtk \<Rightarrow> rb_create_env \<Rightarrow> u32 \<Rightarrow> u32 \<Rightarrow> ring_buffer ptr" where
  "ring_buffer_create A e init_capacity max_capacity =
     (if \<not> 32 \<le> init_capacity then None
      else if \<not> rc_malloc_struct e then None
      else if rc_malloc_data e then
        (if \<not> rc_mutex_init e then None
         else if \<not> rc_read_cond_init e then None
         else if \<not> rc_write_cond_init e then None
         else Some \<lparr>rb_r = 0, rb_w = 0, rb_full = False, rb_capacity = init_capacity,
                    rb_max_capacity = tk_max A init_capacity max_capacity,
                    rb_data = replicate (unat init_capacity) 0\<rparr>)
      else None)"

definition ring_buffer_destroy :: "ring_buffer ptr \<Rightarrow> E_StateCode \<times> ring_buffer ptr" where
  "ring_buffer_destroy p =
     (case p of None \<Rightarrow> (STATE_CODE_INVALID_PARAM, None) | Some rb \<Rightarrow> (STATE_CODE_NO_ERROR, None))"

section \<open>Cursors\<close>

definition ring_buffer_reset :: "ring_buffer ptr \<Rightarrow> (E_StateCode \<times> ring_buffer ptr) option" where
  "ring_buffer_reset p = on_ptr p STATE_CODE_INVALID_PARAM (\<lambda>rb.
     do { d \<leftarrow> mem_write (rb_data rb) 0 (replicate (unat (rb_capacity rb)) 0);
          Some (STATE_CODE_NO_ERROR, rb\<lparr>rb_full := False, rb_r := rb_w rb, rb_data := d\<rparr>) })"

definition ring_buffer_set_read_cursor ::
    "ring_buffer ptr \<Rightarrow> u32 \<Rightarrow> (E_StateCode \<times> ring_buffer ptr) option" where
  "ring_buffer_set_read_cursor p r = on_ptr p STATE_CODE_INVALID_PARAM (\<lambda>rb.
     do { r' \<leftarrow> umod r (rb_capacity rb);
          Some (STATE_CODE_NO_ERROR, rb\<lparr>rb_r := r', rb_full := False\<rparr>) })"

definition ring_buffer_set_read_cursor_delta ::
    "ring_buffer ptr \<Rightarrow> u32 \<Rightarrow> (E_StateCode \<times> ring_buffer ptr) option" where
  "ring_buffer_set_read_cursor_delta p r_delta =
     (case p of None \<Rightarrow> Some (STATE_CODE_INVALID_PARAM, None)
      | Some rb \<Rightarrow> ring_buffer_set_read_cursor p (rb_r rb + r_delta))"

definition ring_buffer_set_write_cursor ::
    "ring_buffer ptr \<Rightarrow> u32 \<Rightarrow> (E_StateCode \<times> ring_buffer ptr) option" where
  "ring_buffer_set_write_cursor p w = on_ptr p STATE_CODE_INVALID_PARAM (\<lambda>rb.
     do { w' \<leftarrow> umod w (rb_capacity rb);
          let rb = rb\<lparr>rb_w := w'\<rparr>;
          Some (STATE_CODE_NO_ERROR,
                if rb_r rb = rb_w rb then rb\<lparr>rb_full := True\<rparr> else rb) })"

definition ring_buffer_set_write_cursor_delta ::
    "ring_buffer ptr \<Rightarrow> u32 \<Rightarrow> (E_StateCode \<times> ring_buffer ptr) option" where
  "ring_buffer_set_write_cursor_delta p w_delta =
     (case p of None \<Rightarrow> Some (STATE_CODE_INVALID_PARAM, None)
      | Some rb \<Rightarrow> ring_buffer_set_write_cursor p (rb_w rb + w_delta))"

section \<open>Copying in and out\<close>

text \<open>
  \<open>buff\<close> is the caller's memory block; the result is the count, the block afterwards and
  the ring afterwards.
\<close>

definition ring_buffer_read_internal ::
    "awtk \<Rightarrow> ring_buffer \<Rightarrow> u8 list \<Rightarrow> u32 \<Rightarrow> (u32 \<times> u8 list \<times> ring_buffer) option" where
  "ring_buffer_read_internal A rb buff sz =
     (if sz = 0 then Some (0, buff, rb)
      else if rb_r rb \<noteq> rb_w rb \<or> rb_full rb then
        (let rb = rb\<lparr>rb_full := False\<rparr> in
         if rb_r rb < rb_w rb then
           (let rsize = tk_min A (rb_w rb - rb_r rb) sz in
            do { bs \<leftarrow> mem_read (rb_data rb) (unat (rb_r rb)) (unat rsize);
                 buff \<leftarrow> mem_write buff 0 bs;
                 r' \<leftarrow> umod (rb_r rb + rsize) (rb_capacity rb);
                 Some (rsize, buff, rb\<lparr>rb_r := r'\<rparr>) })
         else
           (let rsize = tk_min A (rb_capacity rb - rb_r rb) sz in
            do { bs \<leftarrow> mem_read (rb_data rb) (unat (rb_r rb)) (unat rsize);
                 buff \<leftarrow> mem_write buff 0 bs;
                 r' \<leftarrow> umod (rb_r rb + rsize) (rb_capacity rb);
                 let rb = rb\<lparr>rb_r := r'\<rparr>;
                 if rsize < sz then
                   (let size' = sz - rsize; rsize' = tk_min A (rb_w rb) size' in
                    if 0 < rsize' then
                      do { bs' \<leftarrow> mem_read (rb_data rb) 0 (unat rsize');
                           buff \<leftarrow> mem_write buff (unat rsize) bs';
                           r'' \<leftarrow> umod (rb_r rb + rsize') (rb_capacity rb);
                           Some (rsize + rsize', buff, rb\<lparr>rb_r := r''\<rparr>) }
                    else Some (rsize, buff, rb))
                 else Some (rsize, buff, rb) }))
      else Some (0, buff, rb))"

definition ring_buffer_write_internal ::
    "awtk \<Rightarrow> ring_buffer \<Rightarrow> u8 list \<Rightarrow> u32 \<Rightarrow> (u32 \<times> ring_buffer) option" where
  "ring_buffer_write_internal A rb buff sz =
     (if sz = 0 then Some (0, rb)
      else if rb_r rb \<noteq> rb_w rb \<or> \<not> rb_full rb then
        (if rb_w rb < rb_r rb then
           (let rsize = tk_min A (rb_r rb - rb_w rb) sz in
            do { bs \<leftarrow> mem_read buff 0 (unat rsize);
                 d \<leftarrow> mem_write (rb_data rb) (unat (rb_w rb)) bs;
                 w' \<leftarrow> umod (rb_w rb + rsize) (rb_capacity rb);
                 Some (rsize, rb\<lparr>rb_data := d, rb_w := w'\<rparr>) })
         else
           (let rsize = tk_min A (rb_capacity rb - rb_w rb) sz in
            do { bs \<leftarrow> mem_read buff 0 (unat rsize);
                 d \<leftarrow> mem_write (rb_data rb) (unat (rb_w rb)) bs;
                 w' \<leftarrow> umod (rb_w rb + rsize) (rb_capacity rb);
                 let rb = rb\<lparr>rb_data := d, rb_w := w'\<rparr>;
                 if rsize < sz then
                   (let size' = sz - rsize; rsize' = tk_min A (rb_r rb) size' in
                    if 0 < rsize' then
                      do { bs' \<leftarrow> mem_read buff (unat rsize) (unat rsize');
                           d' \<leftarrow> mem_write (rb_data rb) 0 bs';
                           w'' \<leftarrow> umod (rb_w rb + rsize') (rb_capacity rb);
                           Some (rsize + rsize', rb\<lparr>rb_data := d', rb_w := w''\<rparr>) }
                    else Some (rsize, rb))
                 else Some (rsize, rb) }))
      else Some (0, rb))"

definition ring_buffer_ensure_write_space ::
    "awtk \<Rightarrow> ring_buffer ptr \<Rightarrow> u32 \<Rightarrow> (E_StateCode \<times> ring_buffer ptr) option" where
  "ring_buffer_ensure_write_space A p sz =
     (let free_size = ring_buffer_free_size p in
      if sz \<le> free_size then Some (STATE_CODE_NO_ERROR, p)
      else case p of None \<Rightarrow> None
      | Some rb \<Rightarrow>
          if rb_capacity rb = rb_max_capacity rb then Some (STATE_CODE_OBJECT_EXISTED, p)
          else
            (let old_size = ring_buffer_size p;
                 capacity = rb_capacity rb + (sz - free_size) in
             if \<not> capacity \<le> rb_max_capacity rb then Some (STATE_CODE_INVALID_PARAM, p)
             else case tk_alloc A capacity of
                    None \<Rightarrow> Some (STATE_CODE_ALLOCATION_FAILURE, p)
                  | Some data \<Rightarrow>
                      do { (read_ret, data, rb) \<leftarrow> ring_buffer_read_internal A rb data old_size;
                           if read_ret \<noteq> old_size then Some (STATE_CODE_INVALID_PARAM, Some rb)
                           else Some (STATE_CODE_NO_ERROR,
                                  Some (rb\<lparr>rb_r := 0, rb_w := old_size, rb_data := data,
                                           rb_capacity := capacity\<rparr>)) }))"

section \<open>The locked operations\<close>

definition ring_buffer_read_timeout ::
    "awtk \<Rightarrow> ring_buffer waits \<Rightarrow> ring_buffer ptr \<Rightarrow> u8 list ptr \<Rightarrow> u32 \<Rightarrow> u32
     \<Rightarrow> ((u32 \<times> u8 list ptr) \<times> ring_buffer ptr) option" where
  "ring_buffer_read_timeout A W p buff sz timeout_ms = on_ptr p (0, buff) (\<lambda>rb.
     case buff of None \<Rightarrow> Some ((0, None), rb)
     | Some b \<Rightarrow>
         (let (code, rb) = ring_buffer_wait_for_read W timeout_ms rb in
          if code \<noteq> STATE_CODE_NO_ERROR then Some ((0, buff), rb)
          else do { (ret, b, rb) \<leftarrow> ring_buffer_read_internal A rb b sz;
                    Some ((ret, Some b), rb) }))"

definition ring_buffer_peek_timeout ::
    "awtk \<Rightarrow> ring_buffer waits \<Rightarrow> ring_buffer ptr \<Rightarrow> u8 list ptr \<Rightarrow> u32 \<Rightarrow> u32
     \<Rightarrow> ((u32 \<times> u8 list ptr) \<times> ring_buffer ptr) option" where
  "ring_buffer_peek_timeout A W p buff sz timeout_ms = on_ptr p (0, buff) (\<lambda>rb.
     case buff of None \<Rightarrow> Some ((0, None), rb)
     | Some b \<Rightarrow>
         (let (code, rb) = ring_buffer_wait_for_read W timeout_ms rb in
          if code \<noteq> STATE_CODE_NO_ERROR then Some ((0, buff), rb)
          else
            (let saved_r = rb_r rb; saved_full = rb_full rb in
             do { (ret, b, rb) \<leftarrow> ring_buffer_read_internal A rb b sz;
                  Some ((ret, Some b), rb\<lparr>rb_r := saved_r, rb_full := saved_full\<rparr>) })))"

definition ring_buffer_write_timeout ::
    "awtk \<Rightarrow> ring_buffer waits \<Rightarrow> ring_buffer ptr \<Rightarrow> u8 list ptr \<Rightarrow> u32 \<Rightarrow> u32
     \<Rightarrow> (u32 \<times> ring_buffer ptr) option" where
  "ring_buffer_write_timeout A W p buff sz timeout_ms = on_ptr p 0 (\<lambda>rb.
     case buff of None \<Rightarrow> Some (0, rb)
     | Some b \<Rightarrow>
         (let (code, rb) = ring_buffer_wait_for_write W timeout_ms rb in
          if code \<noteq> STATE_CODE_NO_ERROR then Some (0, rb)
          else ring_buffer_write_internal A rb b sz))"

definition ring_buffer_read_len_timeout ::
    "awtk \<Rightarrow> ring_buffer waits \<Rightarrow> ring_buffer ptr \<Rightarrow> u8 list ptr \<Rightarrow> u32 \<Rightarrow> u32
     \<Rightarrow> ((E_StateCode \<times> u8 list ptr) \<times> ring_buffer ptr) option" where
  "ring_buffer_read_len_timeout A W p buff sz timeout_ms =
     on_ptr p (STATE_CODE_INVALID_PARAM, buff) (\<lambda>rb.
     case buff of None \<Rightarrow> Some ((STATE_CODE_INVALID_PARAM, None), rb)
     | Some b \<Rightarrow>
         (let (code, rb) = ring_buffer_wait_for_read W timeout_ms rb in
          if code \<noteq> STATE_CODE_NO_ERROR then Some ((STATE_CODE_TIME_OUT, buff), rb)
          else if sz \<le> ring_buffer_size (Some rb) then
            do { (ret, b, rb) \<leftarrow> ring_buffer_read_internal A rb b sz;
                 Some ((if ret = sz then STATE_CODE_NO_ERROR else STATE_CODE_WAIT_MORE_DATA,
                        Some b), rb) }
          else Some ((STATE_CODE_WAIT_MORE_DATA, buff), rb)))"

definition ring_buffer_write_len_timeout ::
    "awtk \<Rightarrow> ring_buffer waits \<Rightarrow> ring_buffer ptr \<Rightarrow> u8 list ptr \<Rightarrow> u32 \<Rightarrow> u32
     \<Rightarrow> (E_StateCode \<times> ring_buffer ptr) option" where
  "ring_buffer_write_len_timeout A W p buff sz timeout_ms =
     (case p of None \<Rightarrow> Some (STATE_CODE_INVALID_PARAM, None)
      | Some rb \<Rightarrow>
     (case buff of None \<Rightarrow> Some (STATE_CODE_INVALID_PARAM, p)
     | Some b \<Rightarrow>
         (let (code, rb) = ring_buffer_wait_for_write W timeout_ms rb in
          if code \<noteq> STATE_CODE_NO_ERROR then Some (STATE_CODE_TIME_OUT, Some rb)
          else do {
            (code, p) \<leftarrow> ring_buffer_ensure_write_space A (Some rb) sz;
            if code = STATE_CODE_NO_ERROR then
              (case p of None \<Rightarrow> None
               | Some rb \<Rightarrow>
                  do { (ret, rb) \<leftarrow> ring_buffer_write_internal A rb b sz;
                       Some (if ret = sz then STATE_CODE_NO_ERROR else STATE_CODE_INVALID_PARAM,
                             Some rb) })
            else Some (STATE_CODE_INVALID_PARAM, p) })))"

definition ring_buffer_skip_timeout ::
    "ring_buffer waits \<Rightarrow> ring_buffer ptr \<Rightarrow> u32 \<Rightarrow> u32
     \<Rightarrow> (E_StateCode \<times> ring_buffer ptr) option" where
  "ring_buffer_skip_timeout W p sz timeout_ms = on_ptr p STATE_CODE_INVALID_PARAM (\<lambda>rb.
     (let (code, rb) = ring_buffer_wait_for_read W timeout_ms rb in
      if code \<noteq> STATE_CODE_NO_ERROR then Some (STATE_CODE_TIME_OUT, rb)
      else if sz \<le> ring_buffer_size (Some rb) \<and> 0 < sz then
        do { r' \<leftarrow> umod (rb_r rb + sz) (rb_capacity rb);
             Some (STATE_CODE_NO_ERROR, rb\<lparr>rb_full := False, rb_r := r'\<rparr>) }
      else Some (STATE_CODE_WAIT_MORE_DATA, rb)))"

definition ring_buffer_read where
  "ring_buffer_read A W p buff sz = ring_buffer_read_timeout A W p buff sz RING_BUFFER_NO_TIMEOUT"

definition ring_buffer_peek where
  "ring_buffer_peek A W p buff sz = ring_buffer_peek_timeout A W p buff sz RING_BUFFER_NO_TIMEOUT"

definition ring_buffer_write where
  "ring_buffer_write A W p buff sz = ring_buffer_write_timeout A W p buff sz RING_BUFFER_NO_TIMEOUT"

definition ring_buffer_read_len where
  "ring_buffer_read_len A W p buff sz =
     ring_buffer_read_len_timeout A W p buff sz RING_BUFFER_NO_TIMEOUT"

definition ring_buffer_write_len where
  "ring_buffer_write_len A W p buff sz =
     ring_buffer_write_len_timeout A W p buff sz RING_BUFFER_NO_TIMEOUT"

definition ring_buffer_skip where
  "ring_buffer_skip W p sz = ring_buffer_skip_timeout W p sz RING_BUFFER_NO_TIMEOUT"

section \<open>Invariant and contents\<close>

text \<open>
  Both cursors are inside the data block, the block has the recorded capacity, and the flag
  \<open>full\<close> is only set when the cursors meet.
\<close>

definition rb_inv :: "ring_buffer \<Rightarrow> bool" where
  "rb_inv rb \<longleftrightarrow> 0 < rb_capacity rb \<and> length (rb_data rb) = unat (rb_capacity rb)
     \<and> rb_r rb < rb_capacity rb \<and> rb_w rb < rb_capacity rb
     \<and> (rb_full rb \<longrightarrow> rb_r rb = rb_w rb) \<and> rb_capacity rb \<le> rb_max_capacity rb"

definition rb_used :: "ring_buffer \<Rightarrow> nat" where
  "rb_used rb = unat (ring_buffer_size (Some rb))"

text \<open>The abstract value: the queue of unread bytes, oldest first.\<close>

definition rb_contents :: "ring_buffer \<Rightarrow> u8 list" where
  "rb_contents rb = ring_slice (rb_data rb) (unat (rb_r rb)) (rb_used rb)"

lemma length_rb_contents [simp]: "length (rb_contents rb) = rb_used rb"
  by (simp add: rb_contents_def)

lemma rb_invD:
  assumes "rb_inv rb"
  shows "0 < unat (rb_capacity rb)" "length (rb_data rb) = unat (rb_capacity rb)"
    "unat (rb_r rb) < unat (rb_capacity rb)" "unat (rb_w rb) < unat (rb_capacity rb)"
    "rb_full rb \<Longrightarrow> rb_r rb = rb_w rb" "rb_capacity rb \<noteq> 0"
    "unat (rb_capacity rb) \<le> unat (rb_max_capacity rb)"
  using assms by (auto simp: rb_inv_def word_less_nat_alt word_le_nat_alt)

lemma rb_used_cases:
  assumes "rb_inv rb"
  shows "rb_used rb = (if rb_full rb then unat (rb_capacity rb)
    else if unat (rb_r rb) \<le> unat (rb_w rb) then unat (rb_w rb) - unat (rb_r rb)
    else unat (rb_capacity rb) - (unat (rb_r rb) - unat (rb_w rb)))"
proof -
  have "rb_r rb - rb_w rb \<le> rb_capacity rb" if "rb_w rb < rb_r rb"
    using rb_invD[OF assms] that by (simp add: word_le_nat_alt unat_sub word_less_nat_alt)
  with rb_invD[OF assms] show ?thesis
    by (auto simp: rb_used_def ring_buffer_size_def unat_sub word_le_nat_alt word_less_nat_alt)
qed

lemma rb_used_le: "rb_inv rb \<Longrightarrow> rb_used rb \<le> unat (rb_capacity rb)"
  using rb_invD [of rb] by (auto simp: rb_used_cases)

lemma rb_w_window:
  assumes "rb_inv rb"
  shows "unat (rb_w rb) = (unat (rb_r rb) + rb_used rb) mod unat (rb_capacity rb)"
proof -
  let ?c = "unat (rb_capacity rb)" and ?r = "unat (rb_r rb)" and ?w = "unat (rb_w rb)"
  have "?r + rb_used rb = ?w \<or> ?r + rb_used rb = ?w + ?c"
    using rb_invD [OF assms] by (auto simp: rb_used_cases [OF assms])
  with rb_invD [OF assms] show ?thesis by auto
qed

lemma rb_windowI:
  assumes "0 < unat (rb_capacity rb)" "length (rb_data rb) = unat (rb_capacity rb)"
    "unat (rb_r rb) < unat (rb_capacity rb)" "n \<le> unat (rb_capacity rb)"
    "unat (rb_w rb) = (unat (rb_r rb) + n) mod unat (rb_capacity rb)"
    "rb_full rb \<longleftrightarrow> n = unat (rb_capacity rb)"
    "rb_capacity rb \<le> rb_max_capacity rb"
  shows "rb_inv rb \<and> rb_used rb = n"
proof -
  let ?c = "unat (rb_capacity rb)" and ?r = "unat (rb_r rb)" and ?w = "unat (rb_w rb)"
  have w: "?w < ?c" using assms(1,5) by simp
  have full: "rb_full rb \<Longrightarrow> rb_r rb = rb_w rb"
    using assms(3,5,6) by (simp add: word_unat_eq_iff)
  have inv: "rb_inv rb"
    using assms w full by (auto simp: rb_inv_def word_less_nat_alt)
  have "?w = (if ?r + n < ?c then ?r + n else ?r + n - ?c)"
    using assms by (auto simp: mod_if)
  then have "rb_used rb = n"
    using assms by (auto simp: rb_used_cases [OF inv])
  with inv show ?thesis by simp
qed

definition rb_advance :: "ring_buffer \<Rightarrow> nat \<Rightarrow> ring_buffer" where
  "rb_advance rb k = rb\<lparr>rb_r := of_nat ((unat (rb_r rb) + k) mod unat (rb_capacity rb)),
                         rb_full := rb_full rb \<and> k = 0\<rparr>"

lemma rb_cap_bound: "unat (rb_capacity rb) < 2 ^ 32"
  using unsigned_less [of "rb_capacity rb"] by simp

lemma unat_of_nat_mod_cap:
  "0 < unat (rb_capacity rb) \<Longrightarrow>
   unat (of_nat (n mod unat (rb_capacity rb)) :: u32) = n mod unat (rb_capacity rb)"
proof -
  assume "0 < unat (rb_capacity rb)"
  then have "n mod unat (rb_capacity rb) < 2 ^ 32"
    using rb_cap_bound [of rb] by (meson less_trans mod_less_divisor)
  then show ?thesis by (simp add: unat_of_nat)
qed

lemma rb_full_iff: "rb_inv rb \<Longrightarrow> rb_full rb \<longleftrightarrow> rb_used rb = unat (rb_capacity rb)"
  using rb_invD [of rb] by (auto simp: rb_used_cases)

lemma rb_advance_spec:
  assumes inv: "rb_inv rb" and k: "k \<le> rb_used rb"
  shows "rb_inv (rb_advance rb k) \<and> rb_contents (rb_advance rb k) = drop k (rb_contents rb)"
proof -
  let ?c = "unat (rb_capacity rb)" and ?r = "unat (rb_r rb)"
  note D = rb_invD [OF inv]
  have r': "unat (rb_r (rb_advance rb k)) = (?r + k) mod ?c"
    using D(1) by (simp add: rb_advance_def unat_of_nat_mod_cap)
  have "(?r + rb_used rb) mod ?c = ((?r + k) + (rb_used rb - k)) mod ?c"
    using k by simp
  also have "\<dots> = ((?r + k) mod ?c + (rb_used rb - k)) mod ?c"
    by (simp only: mod_add_left_eq)
  finally have step: "(?r + rb_used rb) mod ?c = ((?r + k) mod ?c + (rb_used rb - k)) mod ?c" .
  have "rb_inv (rb_advance rb k) \<and> rb_used (rb_advance rb k) = rb_used rb - k"
  proof (intro rb_windowI)
    show "rb_full (rb_advance rb k) \<longleftrightarrow> rb_used rb - k = unat (rb_capacity (rb_advance rb k))"
      using rb_full_iff [OF inv] rb_used_le [OF inv] k D(1) by (auto simp: rb_advance_def)
    show "unat (rb_w (rb_advance rb k)) = (unat (rb_r (rb_advance rb k)) + (rb_used rb - k))
        mod unat (rb_capacity (rb_advance rb k))"
      using step rb_w_window [OF inv] r' by (simp add: rb_advance_def)
  qed (use D r' inv rb_used_le [OF inv] in \<open>auto simp: rb_advance_def rb_inv_def\<close>)
  moreover have "ring_slice (rb_data rb) ((?r + k) mod ?c) (rb_used rb - k)
      = drop k (ring_slice (rb_data rb) ?r (rb_used rb))"
    using k D(2) ring_slice_mod [of "rb_data rb" "?r + k"] by (simp add: drop_ring_slice)
  ultimately show ?thesis
    using r' by (simp add: rb_contents_def) (simp add: rb_advance_def)
qed

lemma rb_advance_0: "rb_inv rb \<Longrightarrow> rb_advance rb 0 = rb"
  using rb_invD [of rb] by (simp add: rb_advance_def)

lemma umod_cap:
  assumes "rb_inv rb" "unat x = n"
  shows "umod x (rb_capacity rb) = Some (of_nat (n mod unat (rb_capacity rb)))"
proof -
  have "x mod rb_capacity rb = of_nat (n mod unat (rb_capacity rb))"
    using assms by (intro eq_of_nat_unat) (simp add: unat_mod)
  then show ?thesis using rb_invD [OF assms(1)] by (simp add: umod_def)
qed

lemma ring_buffer_read_internal_eq:
  assumes A: "awtk_ok A" and inv: "rb_inv rb"
    and k: "k = min (unat sz) (rb_used rb)" and b: "k \<le> length b"
  shows "ring_buffer_read_internal A rb b sz
         = Some (of_nat k, take k (rb_contents rb) @ drop k b, rb_advance rb k)"
proof -
  let ?c = "unat (rb_capacity rb)" and ?r = "unat (rb_r rb)" and ?w = "unat (rb_w rb)"
  note D = rb_invD [OF inv] and U = rb_used_cases [OF inv]
  have tk: "tk_min A x y = min x y" for x y using A by (simp add: awtk_ok_def)
  have contents: "take k (rb_contents rb) = ring_slice (rb_data rb) ?r k"
    using k by (simp add: rb_contents_def take_ring_slice)
  consider (none) "sz = 0 \<or> rb_used rb = 0"
    | (straight) "sz \<noteq> 0" "?r < ?w"
    | (wrap) "sz \<noteq> 0" "?w \<le> ?r" "rb_used rb = ?c - (?r - ?w)"
    using U D by (cases "rb_full rb"; cases "?r < ?w"; cases "?r = ?w"; auto)
  then show ?thesis
  proof cases
    case none
    then have "k = 0" using k by auto
    moreover have "sz = 0 \<or> (rb_r rb = rb_w rb \<and> \<not> rb_full rb)"
      using none U D by (auto simp: word_unat_eq_iff split: if_splits)
    ultimately show ?thesis
      using rb_advance_0 [OF inv] by (auto simp: ring_buffer_read_internal_def)
  next
    case straight
    then have nf: "\<not> rb_full rb" "rb_r rb < rb_w rb" using D(5) by (auto simp: word_less_nat_alt)
    then have n: "unat (min (rb_w rb - rb_r rb) sz) = k"
      using k U by (simp add: unat_min unat_sub word_le_nat_alt word_less_nat_alt min.commute)
    have kw: "?r + k \<le> ?w" using k U straight nf by simp
    have sum: "unat (rb_r rb + min (rb_w rb - rb_r rb) sz) = ?r + k"
      using n kw by (metis unat_add_le)
    have "min (rb_w rb - rb_r rb) sz = of_nat k" using n by (rule eq_of_nat_unat)
    moreover have "k \<noteq> 0" using k straight U nf unat_gt_0 [of sz] by (auto simp: min_def)
    ultimately show ?thesis
      using straight nf kw D b contents umod_cap [OF inv sum] n
      by (auto simp: ring_buffer_read_internal_def tk Let_def mem_simps rb_advance_def)
  next
    case wrap
    have kpos: "0 < k" using k wrap D(3) by (auto simp: unat_gt_0)
    have ne: "rb_r rb \<noteq> rb_w rb \<or> rb_full rb" using wrap U D kpos k by (auto split: if_splits)
    have nlt: "\<not> rb_r rb < rb_w rb" using wrap by (simp add: word_less_nat_alt)
    define k1 where "k1 = min (?c - ?r) (unat sz)"
    have n1: "unat (min (rb_capacity rb - rb_r rb) sz) = k1"
      using D(3) by (simp add: unat_min unat_sub word_le_nat_alt k1_def)
    have w1: "min (rb_capacity rb - rb_r rb) sz = of_nat k1" using n1 by (rule eq_of_nat_unat)
    have s1: "unat (rb_r rb + min (rb_capacity rb - rb_r rb) sz) = ?r + k1"
      using n1 D(3) by (metis (no_types, lifting) unat_add_le k1_def le_diff_conv2 min.cobounded1 add.commute less_imp_le_nat)
    have k1b: "?r + k1 \<le> ?c" using D(3) by (simp add: k1_def)
    show ?thesis
    proof (cases "k1 = unat sz")
      case True
      then have "k1 = k" using k wrap D(3) k1b by (auto simp: k1_def)
      moreover have "\<not> (min (rb_capacity rb - rb_r rb) sz < sz)" using True n1
        by (simp add: word_less_nat_alt)
      ultimately show ?thesis
        using wrap ne nlt D b contents umod_cap [OF inv s1] n1 k1b kpos w1
        by (simp add: ring_buffer_read_internal_def tk Let_def mem_simps rb_advance_def)
    next
      case False
      then have lt: "k1 < unat sz" and k1: "k1 = ?c - ?r" "?r + k1 = ?c"
        using D(3) by (auto simp: k1_def min_def split: if_splits)
      define k2 where "k2 = min ?w (unat sz - k1)"
      have kk: "k = k1 + k2" unfolding k2_def k wrap(3) by (rule min_two_chunks) (use wrap(2) D(3) k1(1) lt in simp_all)
      have ws: "min (rb_capacity rb - rb_r rb) sz < sz" using lt n1 by (simp add: word_less_nat_alt)
      have n2: "unat (min (rb_w rb) (sz - of_nat k1)) = k2"
        using n1 w1 lt ws by (simp add: unat_min unat_sub k2_def less_imp_le)
      have w2: "min (rb_w rb) (sz - of_nat k1) = of_nat k2" using n2 by (rule eq_of_nat_unat)
      have un: "unat (of_nat k1 :: u32) = k1" "unat (of_nat k2 :: u32) = k2"
        using n1 w1 n2 w2 by auto
      have pos2: "(0 < (of_nat k2 :: u32)) = (0 < k2)"
        using un(2) by (metis unat_gt_0 unat_0 word_gt_0)
      have k2b: "k2 \<le> length (rb_data rb)" using D(2,4) by (simp add: k2_def)
      have u1: "umod (rb_r rb + of_nat k1) (rb_capacity rb) = Some 0"
        using umod_cap [OF inv s1] w1 k1(2) by simp
      have u2: "umod (of_nat k2) (rb_capacity rb) = Some (of_nat (k2 mod ?c))"
        using umod_cap [OF inv un(2)] .
      have "ring_slice (rb_data rb) (?r + k1) k2 = ring_slice (rb_data rb) 0 k2"
        using k1(2) D(2) ring_slice_mod [of "rb_data rb" "?r + k1" k2] by simp
      then have split: "take k (rb_contents rb)
          = ring_slice (rb_data rb) ?r k1 @ ring_slice (rb_data rb) 0 k2"
        using contents by (simp add: kk ring_slice_add)
      have adv: "(?r + k) mod ?c = k2 mod ?c" using k1(2) by (simp add: kk flip: add.assoc)
      have blen: "k1 + k2 \<le> length b" using b kk by simp
      note red = ring_buffer_read_internal_def tk w1 w2 Let_def un u1 u2 ne nlt wrap(1)
      have k1le: "?r + k1 \<le> length (rb_data rb)" using k1(2) D(2) by simp
      have k1pos: "0 < k1" "k1 \<le> length b" using D(3) k1(1) blen by simp_all
      have ws': "of_nat k1 < sz" using ws w1 by simp
      have un0: "sz \<noteq> 0" "k \<noteq> 0" using wrap(1) kpos by simp_all
      note red = ring_buffer_read_internal_def tk w1 w2 Let_def un(1) u1 nlt mem_simps rb_advance_def
      have mp: "(0 < rb_w rb \<and> 0 < sz - of_nat k1) = (0 < k2)"
        using pos2 w2 by (metis min_less_iff_conj)
      show ?thesis
      proof (cases "k2 = 0")
        case True
        then have z: "(0 < rb_w rb \<and> 0 < sz - of_nat k1) = False" "k = k1" "take k1 (rb_contents rb)
            = ring_slice (rb_data rb) ?r k1" "(?r + k1) mod ?c = 0"
          using mp kk split k1(2) by auto
        then show ?thesis using ws' k1le k1pos un0 ne
          by (cases "rb_full rb") (simp_all add: red z)
      next
        case False
        then have z: "0 < rb_w rb" "0 < sz - of_nat k1" using mp by simp_all
        show ?thesis using ws' k1le k1pos un0 ne blen k2b z
          by (cases "rb_full rb") (simp_all add: red split [unfolded kk] adv [unfolded kk] kk u2 un(2) add.commute [of k2 k1])
      qed
    qed
  qed
qed

definition rb_fill :: "ring_buffer \<Rightarrow> u8 list \<Rightarrow> ring_buffer" where
  "rb_fill rb bs = rb\<lparr>rb_data := ring_write (rb_data rb) (unat (rb_w rb)) bs,
     rb_w := of_nat ((unat (rb_w rb) + length bs) mod unat (rb_capacity rb))\<rparr>"

definition rb_free :: "ring_buffer \<Rightarrow> nat" where
  "rb_free rb = unat (rb_capacity rb) - rb_used rb"

lemma rb_fill_append:
  assumes inv: "rb_inv rb" and nf: "\<not> rb_full rb" and room: "length bs < rb_free rb"
  shows "rb_inv (rb_fill rb bs) \<and> rb_contents (rb_fill rb bs) = rb_contents rb @ bs"
proof -
  let ?c = "unat (rb_capacity rb)" and ?r = "unat (rb_r rb)" and ?w = "unat (rb_w rb)"
  note D = rb_invD [OF inv]
  have fit: "rb_used rb + length bs < ?c" using room by (simp add: rb_free_def)
  have w': "unat (rb_w (rb_fill rb bs)) = (?w + length bs) mod ?c"
    using D(1) by (simp add: rb_fill_def unat_of_nat_mod_cap)
  have "(?w + length bs) mod ?c = (?r + (rb_used rb + length bs)) mod ?c"
    using rb_w_window [OF inv] by (simp add: mod_add_left_eq add.assoc)
  then have "rb_inv (rb_fill rb bs) \<and> rb_used (rb_fill rb bs) = rb_used rb + length bs"
  proof (intro rb_windowI)
    assume "(?w + length bs) mod ?c = (?r + (rb_used rb + length bs)) mod ?c"
    then show "unat (rb_w (rb_fill rb bs)) = (unat (rb_r (rb_fill rb bs)) + (rb_used rb + length bs))
        mod unat (rb_capacity (rb_fill rb bs))"
      using w' by (simp add: rb_fill_def)
  qed (use D inv nf fit in \<open>auto simp: rb_fill_def rb_inv_def\<close>)
  moreover have "ring_slice (ring_write (rb_data rb) ?w bs) ?r (rb_used rb + length bs)
      = ring_slice (rb_data rb) ?r (rb_used rb) @ bs"
    using rb_w_window [OF inv] D(1,2) fit by (intro ring_slice_write) auto
  ultimately show ?thesis by (simp add: rb_contents_def) (simp add: rb_fill_def)
qed

lemma rb_fill_exact:
  assumes inv: "rb_inv rb" and nf: "\<not> rb_full rb" and room: "length bs = rb_free rb"
  shows "rb_inv (rb_fill rb bs) \<and> rb_contents (rb_fill rb bs) = []"
proof -
  let ?c = "unat (rb_capacity rb)" and ?r = "unat (rb_r rb)" and ?w = "unat (rb_w rb)"
  note D = rb_invD [OF inv]
  have sum: "rb_used rb + length bs = ?c" using room rb_used_le [OF inv] by (simp add: rb_free_def)
  have "(?w + length bs) mod ?c = (?r + (rb_used rb + length bs)) mod ?c"
    using rb_w_window [OF inv] by (simp add: mod_add_left_eq add.assoc)
  then have "(?w + length bs) mod ?c = ?r" using sum D(3) by simp
  then have w': "rb_w (rb_fill rb bs) = rb_r rb" by (simp add: rb_fill_def)
  have "rb_inv (rb_fill rb bs) \<and> rb_used (rb_fill rb bs) = 0"
    using D inv nf w' sum
    by (intro rb_windowI) (auto simp: rb_inv_def rb_fill_def)
  then show ?thesis by (simp add: rb_contents_def)
qed

lemma ring_buffer_write_internal_eq:
  assumes A: "awtk_ok A" and inv: "rb_inv rb"
    and k: "k = min (unat sz) (rb_free rb)" and b: "k \<le> length b"
  shows "ring_buffer_write_internal A rb b sz = Some (of_nat k, rb_fill rb (take k b))"
proof -
  let ?c = "unat (rb_capacity rb)" and ?r = "unat (rb_r rb)" and ?w = "unat (rb_w rb)"
  note D = rb_invD [OF inv] and U = rb_used_cases [OF inv]
  have tk: "tk_min A x y = min x y" for x y using A by (simp add: awtk_ok_def)
  have len: "length (take k b) = k" and mb: "min (length b) k = k" using b by simp_all
  consider (none) "sz = 0 \<or> rb_full rb"
    | (straight) "sz \<noteq> 0" "\<not> rb_full rb" "?w < ?r" "rb_free rb = ?r - ?w"
    | (wrap) "sz \<noteq> 0" "\<not> rb_full rb" "?r \<le> ?w" "rb_free rb = ?c - (?w - ?r)"
    using U D unfolding rb_free_def
    by (cases "rb_full rb"; cases "?w < ?r"; auto)
  then show ?thesis
  proof cases
    case none
    then have "k = 0" using k rb_full_iff [OF inv] by (auto simp: rb_free_def)
    moreover have "sz = 0 \<or> (rb_r rb = rb_w rb \<and> rb_full rb)" using none D(5) by auto
    moreover have "rb_fill rb [] = rb" using D by (simp add: rb_fill_def)
    ultimately show ?thesis by (auto simp: ring_buffer_write_internal_def)
  next
    case straight
    have lt: "rb_w rb < rb_r rb" using straight(3) by (simp add: word_less_nat_alt)
    then have n: "unat (min (rb_r rb - rb_w rb) sz) = k"
      using k straight(4) by (simp add: unat_min unat_sub min.commute)
    have w1: "min (rb_r rb - rb_w rb) sz = of_nat k" using n by (rule eq_of_nat_unat)
    have un: "unat (of_nat k :: u32) = k" using n w1 by simp
    have kw: "?w + k \<le> ?r" using k straight by simp
    have sum: "unat (rb_w rb + of_nat k) = ?w + k"
      using un kw by (metis unat_add_le)
    have fits: "?w + length (take k b) \<le> length (rb_data rb)" using kw D(2,3) len by simp
    have rd: "mem_read b 0 k = Some (take k b)" using b by (simp add: mem_read_def)
    have mw: "mem_write (rb_data rb) ?w (take k b) = Some (ring_write (rb_data rb) ?w (take k b))"
      using fits by (simp only: mem_write_Some ring_write_def if_True)
    show ?thesis
      using straight lt len
      by (auto simp: ring_buffer_write_internal_def tk w1 Let_def un rd mw umod_cap [OF inv sum]
            rb_fill_def)
  next
    case wrap
    have ne: "rb_r rb \<noteq> rb_w rb \<or> \<not> rb_full rb" and nlt: "\<not> rb_w rb < rb_r rb"
      using wrap by (simp_all add: word_less_nat_alt)
    define k1 where "k1 = min (?c - ?w) (unat sz)"
    have n1: "unat (min (rb_capacity rb - rb_w rb) sz) = k1"
      using D(4) by (simp add: unat_min unat_sub word_le_nat_alt k1_def)
    then have w1: "min (rb_capacity rb - rb_w rb) sz = of_nat k1" by (rule eq_of_nat_unat)
    have un: "unat (of_nat k1 :: u32) = k1" using n1 w1 by simp
    have k1b: "?w + k1 \<le> ?c" using D(4) by (simp add: k1_def)
    then have s1: "unat (rb_w rb + of_nat k1) = ?w + k1" using un by (metis unat_add_le)
    have kk: "k1 \<le> k" using k wrap(3,4) D(4) unfolding k1_def by simp
    then have k1l: "k1 \<le> length b" using b by simp
    let ?d1 = "take ?w (rb_data rb) @ take k1 b @ drop (?w + k1) (rb_data rb)"
    have rd: "mem_read b 0 k1 = Some (take k1 b)" using k1l by (simp add: mem_read_def)
    have mw: "mem_write (rb_data rb) ?w (take k1 b) = Some ?d1"
      using k1b D(2) k1l by (simp add: mem_write_def min_absorb2)
    note red = ring_buffer_write_internal_def tk w1 Let_def un rd mw umod_cap [OF inv s1] ne nlt
      wrap(1) rb_fill_def mb
    show ?thesis
    proof (cases "k1 = unat sz")
      case True
      then have kk1: "k = k1" using kk k by simp
      have "\<not> of_nat k1 < sz" using True un by (simp add: word_less_nat_alt)
      moreover have "ring_write (rb_data rb) ?w (take k b) = ?d1"
        using k1b D(2) k1l by (simp add: ring_write_def kk1 min_absorb2)
      ultimately show ?thesis using wrap(2) by (simp add: red) (simp add: kk1 k1l min_absorb2)
    next
      case False
      then have lt: "k1 < unat sz" and k1e: "k1 = ?c - ?w" "?w + k1 = ?c"
        using D(4) by (auto simp: k1_def min_def split: if_splits)
      define k2 where "k2 = min ?r (unat sz - k1)"
      have ksum: "k = k1 + k2"
        unfolding k2_def k wrap(4) by (rule min_two_chunks) (use wrap(3) D(4) k1e(1) lt in simp_all)
      have ws: "of_nat k1 < sz" using lt un by (simp add: word_less_nat_alt)
      have n2: "unat (min (rb_r rb) (sz - of_nat k1)) = k2"
        using un lt ws by (simp add: unat_min unat_sub k2_def less_imp_le)
      then have w2: "min (rb_r rb) (sz - of_nat k1) = of_nat k2" by (rule eq_of_nat_unat)
      have un2: "unat (of_nat k2 :: u32) = k2" using n2 w2 by simp
      have "(0 < (of_nat k2 :: u32)) = (0 < k2)" using un2 by (metis unat_gt_0 unat_0 word_gt_0)
      then have mp: "(0 < rb_r rb \<and> 0 < sz - of_nat k1) = (0 < k2)"
        using w2 by (metis min_less_iff_conj)
      have z0: "(?w + k1) mod ?c = 0" using k1e(2) by simp
      show ?thesis
      proof (cases "k2 = 0")
        case True
        then have kk1: "k = k1" using ksum by simp
        have mp': "(0 < rb_r rb \<and> 0 < sz - of_nat k1) = False" using mp True by simp
        have "ring_write (rb_data rb) ?w (take k b) = ?d1"
          using k1b D(2) k1l by (simp add: ring_write_def kk1 min_absorb2)
        then show ?thesis using ws wrap(2) by (simp add: red mp') (simp add: kk1 k1l min_absorb2)
      next
        case False
        then have mp': "0 < rb_r rb" "0 < sz - of_nat k1" using mp by simp_all
        have d1: "?d1 = take ?w (rb_data rb) @ take k1 b" "length ?d1 = ?c"
          using k1e(2) D(2,4) k1l by simp_all
        have k2b: "k1 + k2 \<le> length b" "k2 \<le> ?c" using b ksum D(3) by (simp_all add: k2_def)
        have rd2: "mem_read b k1 k2 = Some (take k2 (drop k1 b))" using k2b by (simp add: mem_read_def)
        have mw2: "mem_write (take ?w (rb_data rb) @ take k1 b) 0 (take k2 (drop k1 b))
          = Some (take k2 (drop k1 b) @ drop k2 (take ?w (rb_data rb) @ take k1 b))"
          using d1 k2b by (simp add: mem_write_def min_absorb2)
        have rw: "ring_write (rb_data rb) ?w (take k b)
          = take k2 (drop k1 b) @ drop k2 (take ?w (rb_data rb) @ take k1 b)"
          using False k1e D(2,4) k2b len
          by (simp add: ring_write_def Let_def ksum drop_take min_absorb1)
        have u2: "umod (of_nat k2) (rb_capacity rb) = Some (of_nat (k2 mod ?c))"
          by (rule umod_cap [OF inv un2])
        have adv: "(?w + k) mod ?c = k2 mod ?c" using k1e(2) by (simp add: ksum flip: add.assoc)
        show ?thesis using ws wrap(2) mp'
          by (simp add: red w2 un2 rd2 mw2 rw u2 z0 d1(1) adv) (simp add: ksum)
      qed
    qed
  qed
qed

section \<open>Waiting\<close>

definition waits_keep :: "('s \<Rightarrow> bool) \<Rightarrow> 's waits \<Rightarrow> bool" where
  "waits_keep I W \<longleftrightarrow> (\<forall>s. I s \<longrightarrow> I (snd (cond_wait W s)))
     \<and> (\<forall>t s. I s \<longrightarrow> I (snd (cond_timedwait W t s)))"

lemma wait_condition_keep:
  "waits_keep I W \<Longrightarrow> I s \<Longrightarrow> I (snd (wait_condition W t s))"
  by (auto simp: waits_keep_def wait_condition_def split: prod.split)
     (metis snd_conv)+

lemma wait_condition_no_timeout [simp]:
  "wait_condition W RING_BUFFER_NO_TIMEOUT s = (STATE_CODE_TIME_OUT, s)"
  by (simp add: wait_condition_def RING_BUFFER_NO_TIMEOUT_def RING_BUFFER_INFINITE_TIMEOUT_def)

lemma is_empty_iff: "rb_inv rb \<Longrightarrow> ring_buffer_is_empty (Some rb) \<longleftrightarrow> rb_contents rb = []"
proof -
  assume inv: "rb_inv rb"
  have "rb_contents rb = [] \<longleftrightarrow> rb_used rb = 0"
    by (metis length_0_conv length_rb_contents)
  then show ?thesis
    using rb_invD [OF inv] rb_used_cases [OF inv]
    by (auto simp: ring_buffer_is_empty_def word_unat_eq_iff split: if_splits)
qed

lemma wait_for_read_ready:
  "rb_inv rb \<Longrightarrow> rb_contents rb \<noteq> [] \<Longrightarrow>
   ring_buffer_wait_for_read W t rb = (STATE_CODE_NO_ERROR, rb)"
  by (simp add: ring_buffer_wait_for_read_def is_empty_iff)

lemma wait_for_write_ready:
  "\<not> rb_full rb \<Longrightarrow> ring_buffer_wait_for_write W t rb = (STATE_CODE_NO_ERROR, rb)"
  by (simp add: ring_buffer_wait_for_write_def ring_buffer_is_full_def)

lemma wait_for_read_keep:
  "waits_keep I W \<Longrightarrow> I rb \<Longrightarrow> I (snd (ring_buffer_wait_for_read W t rb))"
  by (auto simp: ring_buffer_wait_for_read_def intro: wait_condition_keep)

lemma wait_for_write_keep:
  "waits_keep I W \<Longrightarrow> I rb \<Longrightarrow> I (snd (ring_buffer_wait_for_write W t rb))"
  by (auto simp: ring_buffer_wait_for_write_def intro: wait_condition_keep)

section \<open>Growing\<close>

lemma unat_size: "unat (ring_buffer_size (Some rb)) = rb_used rb"
  by (simp add: rb_used_def)

lemma unat_free_size: "rb_inv rb \<Longrightarrow> unat (ring_buffer_free_size (Some rb)) = rb_free rb"
  using rb_used_le [of rb]
  by (simp add: ring_buffer_free_size_def rb_free_def unat_sub word_le_nat_alt unat_size)

definition rb_grown :: "ring_buffer \<Rightarrow> u32 \<Rightarrow> u8 list \<Rightarrow> ring_buffer" where
  "rb_grown rb sz d = rb\<lparr>rb_r := 0, rb_w := ring_buffer_size (Some rb), rb_full := False,
     rb_data := rb_contents rb @ drop (rb_used rb) d,
     rb_capacity := ring_buffer_size (Some rb) + sz\<rparr>"

lemma ensure_write_space_eq:
  assumes A: "awtk_ok A" and inv: "rb_inv rb" and nov: "rb_used rb + unat sz < 2 ^ 32"
  shows "ring_buffer_ensure_write_space A (Some rb) sz =
    (if unat sz \<le> rb_free rb then Some (STATE_CODE_NO_ERROR, Some rb)
     else if rb_capacity rb = rb_max_capacity rb then Some (STATE_CODE_OBJECT_EXISTED, Some rb)
     else if unat (rb_max_capacity rb) < rb_used rb + unat sz
       then Some (STATE_CODE_INVALID_PARAM, Some rb)
     else case tk_alloc A (ring_buffer_size (Some rb) + sz) of
         None \<Rightarrow> Some (STATE_CODE_ALLOCATION_FAILURE, Some rb)
       | Some d \<Rightarrow> Some (STATE_CODE_NO_ERROR, Some (rb_grown rb sz d)))"
proof (cases "unat sz \<le> rb_free rb")
  case True
  then show ?thesis
    by (simp add: ring_buffer_ensure_write_space_def word_le_nat_alt unat_free_size [OF inv])
next
  case False
  let ?cap = "ring_buffer_size (Some rb) + sz"
  have cap: "rb_capacity rb + (sz - ring_buffer_free_size (Some rb)) = ?cap"
    by (simp add: ring_buffer_free_size_def)
  have ucap: "unat ?cap = rb_used rb + unat sz"
    using nov by (subst unat_add_lt) (simp_all add: unat_size)
  have nle: "\<not> sz \<le> ring_buffer_free_size (Some rb)"
    using False by (simp add: word_le_nat_alt unat_free_size [OF inv])
  have grow: "ring_buffer_read_internal A rb d (ring_buffer_size (Some rb))
      = Some (ring_buffer_size (Some rb), rb_contents rb @ drop (rb_used rb) d,
              rb_advance rb (rb_used rb))"
    if "length d = unat ?cap" for d
  proof -
    have "of_nat (rb_used rb) = ring_buffer_size (Some rb)" by (simp add: rb_used_def)
    moreover have "rb_used rb \<le> length d" using that ucap by simp
    ultimately show ?thesis
      using ring_buffer_read_internal_eq [OF A inv, of "rb_used rb" "ring_buffer_size (Some rb)" d]
      by (simp add: unat_size)
  qed
  have nf: "\<not> (rb_full rb \<and> rb_used rb = 0)"
    using rb_full_iff [OF inv] rb_invD(1) [OF inv] by auto
  have "(rb_advance rb (rb_used rb))\<lparr>rb_r := 0, rb_w := ring_buffer_size (Some rb),
      rb_data := rb_contents rb @ drop (rb_used rb) d, rb_capacity := ?cap\<rparr> = rb_grown rb sz d" for d
    using nf by (auto simp: rb_advance_def rb_grown_def)
  moreover have "length d = unat ?cap" if "tk_alloc A ?cap = Some d" for d
    using A that by (auto simp: awtk_ok_def)
  ultimately show ?thesis
    using False nle
    by (auto simp: ring_buffer_ensure_write_space_def Let_def cap word_le_nat_alt ucap grow
        split: option.split)
qed

lemma rb_grown_spec:
  assumes A: "awtk_ok A" and inv: "rb_inv rb" and nov: "rb_used rb + unat sz < 2 ^ 32"
    and big: "rb_free rb < unat sz" and mx: "rb_used rb + unat sz \<le> unat (rb_max_capacity rb)"
    and d: "tk_alloc A (ring_buffer_size (Some rb) + sz) = Some d"
  shows "rb_inv (rb_grown rb sz d) \<and> rb_contents (rb_grown rb sz d) = rb_contents rb
    \<and> rb_free (rb_grown rb sz d) = unat sz \<and> \<not> rb_full (rb_grown rb sz d)"
proof -
  let ?g = "rb_grown rb sz d"
  have ucap: "unat (rb_capacity ?g) = rb_used rb + unat sz"
    using nov by (simp add: rb_grown_def) (subst unat_add_lt, simp_all add: unat_size)
  have len: "length d = rb_used rb + unat sz"
    using A d ucap by (auto simp: awtk_ok_def rb_grown_def)
  have "rb_inv ?g \<and> rb_used ?g = rb_used rb"
  proof (rule rb_windowI)
    show "rb_capacity ?g \<le> rb_max_capacity ?g"
      using mx ucap by (simp add: word_le_nat_alt) (simp add: rb_grown_def)
  qed (use ucap len big in \<open>auto simp: rb_grown_def unat_size\<close>)
  moreover have "ring_slice (rb_data ?g) 0 (rb_used rb) = rb_contents rb"
    using len by (intro nth_equalityI) (auto simp: nth_ring_slice rb_grown_def nth_append)
  ultimately show ?thesis
    using ucap by (simp add: rb_contents_def rb_free_def) (simp add: rb_grown_def)
qed

section \<open>What the operations do\<close>

lemma of_nat_min_unat [simp]: "(of_nat (min (unat (a::u32)) n) :: u32) = a \<longleftrightarrow> unat a \<le> n"
proof -
  have "unat a < 2 ^ 32" using unsigned_less [of a] by simp
  then have "min (unat a) n < 2 ^ 32" by simp
  then have "unat (of_nat (min (unat a) n) :: u32) = min (unat a) n" by (simp add: unat_of_nat)
  then show ?thesis by (auto simp: word_unat_eq_iff)
qed

lemma read_len_ready:
  assumes "awtk_ok A" "rb_inv rb" "rb_contents rb \<noteq> []" "unat sz \<le> length b"
  shows "ring_buffer_read_len_timeout A W (Some rb) (Some b) sz t =
    Some (if unat sz \<le> rb_used rb
          then ((STATE_CODE_NO_ERROR, Some (take (unat sz) (rb_contents rb) @ drop (unat sz) b)),
                Some (rb_advance rb (unat sz)))
          else ((STATE_CODE_WAIT_MORE_DATA, Some b), Some rb))"
  using ring_buffer_read_internal_eq [OF assms(1,2) refl, of sz b] assms
  by (auto simp: ring_buffer_read_len_timeout_def wait_for_read_ready word_le_nat_alt unat_size
      min_absorb1)

lemma write_len_ready:
  assumes A: "awtk_ok A" and inv: "rb_inv rb" and nf: "\<not> rb_full rb"
    and sz: "unat sz \<le> rb_free rb" and b: "unat sz \<le> length b"
  shows "ring_buffer_write_len_timeout A W (Some rb) (Some b) sz t =
    Some (STATE_CODE_NO_ERROR, Some (rb_fill rb (take (unat sz) b)))"
proof -
  have "ring_buffer_ensure_write_space A (Some rb) sz = Some (STATE_CODE_NO_ERROR, Some rb)"
    using sz by (simp add: ring_buffer_ensure_write_space_def word_le_nat_alt unat_free_size [OF inv])
  moreover have "ring_buffer_write_internal A rb b sz = Some (sz, rb_fill rb (take (unat sz) b))"
    using ring_buffer_write_internal_eq [OF A inv, of "unat sz" sz b] sz b by (simp add: min_absorb1)
  ultimately show ?thesis
    using nf by (simp add: ring_buffer_write_len_timeout_def wait_for_write_ready)
qed

lemma write_len_grow:
  assumes A: "awtk_ok A" and inv: "rb_inv rb" and nf: "\<not> rb_full rb" and b: "unat sz \<le> length b"
    and big: "rb_free rb < unat sz" and mx: "rb_used rb + unat sz \<le> unat (rb_max_capacity rb)"
    and d: "tk_alloc A (ring_buffer_size (Some rb) + sz) = Some d"
  shows "ring_buffer_write_len_timeout A W (Some rb) (Some b) sz t =
    Some (STATE_CODE_NO_ERROR, Some (rb_fill (rb_grown rb sz d) (take (unat sz) b)))"
proof -
  let ?g = "rb_grown rb sz d"
  have nov: "rb_used rb + unat sz < 2 ^ 32"
    using mx unsigned_less [of "rb_max_capacity rb", where 'a=nat] by simp
  have "rb_capacity rb \<noteq> rb_max_capacity rb"
    using mx big rb_used_le [OF inv] by (auto simp: rb_free_def)
  then have e: "ring_buffer_ensure_write_space A (Some rb) sz = Some (STATE_CODE_NO_ERROR, Some ?g)"
    using big mx d by (simp add: ensure_write_space_eq [OF A inv nov])
  note G = rb_grown_spec [OF A inv nov big mx d]
  have "ring_buffer_write_internal A ?g b sz = Some (sz, rb_fill ?g (take (unat sz) b))"
    using ring_buffer_write_internal_eq [OF A, of ?g "unat sz" sz b] G b by simp
  then show ?thesis
    using nf e by (simp add: ring_buffer_write_len_timeout_def wait_for_write_ready)
qed

text \<open>C3: a read takes the oldest unread bytes, in order, and leaves the rest.\<close>

theorem ring_buffer_read_fifo:
  assumes "awtk_ok A" "rb_inv rb" "rb_contents rb \<noteq> []" "unat sz \<le> length b"
  shows "\<exists>rb'. ring_buffer_read_timeout A W (Some rb) (Some b) sz t
      = Some ((of_nat (min (unat sz) (rb_used rb)),
               Some (take (unat sz) (rb_contents rb) @ drop (min (unat sz) (rb_used rb)) b)), Some rb')
    \<and> rb_inv rb' \<and> rb_contents rb' = drop (unat sz) (rb_contents rb)"
proof -
  let ?k = "min (unat sz) (rb_used rb)"
  have "ring_buffer_read_timeout A W (Some rb) (Some b) sz t
      = Some ((of_nat ?k, Some (take ?k (rb_contents rb) @ drop ?k b)), Some (rb_advance rb ?k))"
    using assms ring_buffer_read_internal_eq [OF assms(1,2) refl, of sz b]
    by (simp add: ring_buffer_read_timeout_def wait_for_read_ready)
  moreover have "take ?k (rb_contents rb) = take (unat sz) (rb_contents rb)"
    "drop ?k (rb_contents rb) = drop (unat sz) (rb_contents rb)"
    by (simp_all add: min_def)
  ultimately show ?thesis
    using rb_advance_spec [OF assms(2), of ?k] by auto
qed

text \<open>a peek returns what a read would return and leaves the buffer as it was.\<close>

theorem ring_buffer_peek_pure:
  assumes "awtk_ok A" "rb_inv rb" "rb_contents rb \<noteq> []" "unat sz \<le> length b"
  shows "ring_buffer_peek_timeout A W (Some rb) (Some b) sz t
      = Some ((of_nat (min (unat sz) (rb_used rb)),
               Some (take (unat sz) (rb_contents rb) @ drop (min (unat sz) (rb_used rb)) b)), Some rb)"
proof -
  let ?k = "min (unat sz) (rb_used rb)"
  have "(rb_advance rb ?k)\<lparr>rb_r := rb_r rb, rb_full := rb_full rb\<rparr> = rb"
    by (simp add: rb_advance_def)
  then have "ring_buffer_peek_timeout A W (Some rb) (Some b) sz t
      = Some ((of_nat ?k, Some (take ?k (rb_contents rb) @ drop ?k b)), Some rb)"
    using assms ring_buffer_read_internal_eq [OF assms(1,2) refl, of sz b]
    by (simp add: ring_buffer_peek_timeout_def wait_for_read_ready Let_def)
  then show ?thesis by (simp add: min_def)
qed

text \<open>C4: a write that leaves at least one cell free appends its bytes to the queue.\<close>

theorem ring_buffer_write_append:
  assumes "awtk_ok A" "rb_inv rb" "unat sz < rb_free rb" "unat sz \<le> length b"
  shows "\<exists>rb'. ring_buffer_write_timeout A W (Some rb) (Some b) sz t = Some (sz, Some rb')
    \<and> rb_inv rb' \<and> rb_contents rb' = rb_contents rb @ take (unat sz) b"
proof -
  have nf: "\<not> rb_full rb" using assms(3) rb_full_iff [OF assms(2)] by (simp add: rb_free_def)
  have "ring_buffer_write_timeout A W (Some rb) (Some b) sz t
      = Some (sz, Some (rb_fill rb (take (unat sz) b)))"
    using ring_buffer_write_internal_eq [OF assms(1,2), of "unat sz" sz b] assms nf
    by (simp add: ring_buffer_write_timeout_def wait_for_write_ready)
  with rb_fill_append [OF assms(2) nf, of "take (unat sz) b"] assms(3,4) show ?thesis
    by (auto simp: min_absorb2)
qed

text \<open>
  a write that takes exactly the free space reports complete success, but the code never
  sets \<open>full\<close>: the cursors meet, and every unread byte, old and new, is lost.\<close>

theorem ring_buffer_exact_fill_empties:
  assumes "awtk_ok A" "rb_inv rb" "\<not> rb_full rb" "unat sz = rb_free rb" "unat sz \<le> length b"
  shows "\<exists>rb'. ring_buffer_write_timeout A W (Some rb) (Some b) sz t = Some (sz, Some rb')
    \<and> rb_inv rb' \<and> rb_contents rb' = []"
proof -
  have "ring_buffer_write_timeout A W (Some rb) (Some b) sz t
      = Some (sz, Some (rb_fill rb (take (unat sz) b)))"
    using ring_buffer_write_internal_eq [OF assms(1,2), of "unat sz" sz b] assms
      eq_of_nat_unat [OF assms(4), symmetric]
    by (simp add: ring_buffer_write_timeout_def wait_for_write_ready)
  with rb_fill_exact [OF assms(2,3), of "take (unat sz) b"] assms(4,5) show ?thesis
    by (auto simp: min_absorb2)
qed

text \<open>
  \<^verbatim>\<open>write_len\<close> that has to grow the buffer grows it to exactly the needed size, so the
  write fills it: success is reported and the buffer reads as empty.\<close>

theorem ring_buffer_write_len_growth_empties:
  assumes "awtk_ok A" "rb_inv rb" "\<not> rb_full rb" "unat sz \<le> length b"
    "rb_free rb < unat sz" "rb_used rb + unat sz \<le> unat (rb_max_capacity rb)"
    "tk_alloc A (ring_buffer_size (Some rb) + sz) = Some d"
  shows "\<exists>rb'. ring_buffer_write_len_timeout A W (Some rb) (Some b) sz t
      = Some (STATE_CODE_NO_ERROR, Some rb')
    \<and> rb_inv rb' \<and> rb_contents rb' = [] \<and> rb_capacity rb' = ring_buffer_size (Some rb) + sz"
proof -
  have nov: "rb_used rb + unat sz < 2 ^ 32"
    using assms(6) unsigned_less [of "rb_max_capacity rb", where 'a=nat] by simp
  note G = rb_grown_spec [OF assms(1,2) nov assms(5,6,7)]
  have "length (take (unat sz) b) = rb_free (rb_grown rb sz d)" using G assms(4) by simp
  then have "rb_inv (rb_fill (rb_grown rb sz d) (take (unat sz) b))
      \<and> rb_contents (rb_fill (rb_grown rb sz d) (take (unat sz) b)) = []"
    using G by (intro rb_fill_exact) simp_all
  then show ?thesis
    using write_len_grow [OF assms(1-7), of W t] by (simp add: rb_fill_def rb_grown_def)
qed

section \<open>Runs of operations\<close>

text \<open>The operations a client may call in any order, with their arguments.\<close>

datatype rb_op =
    RB_read "u8 list" u32 u32 | RB_peek "u8 list" u32 u32 | RB_write "u8 list" u32 u32
  | RB_read_len "u8 list" u32 u32 | RB_write_len "u8 list" u32 u32 | RB_skip u32 u32
  | RB_reset | RB_set_read_cursor u32 | RB_set_read_cursor_delta u32

fun rb_exec :: "awtk \<Rightarrow> ring_buffer waits \<Rightarrow> ring_buffer ptr \<Rightarrow> rb_op \<Rightarrow> ring_buffer ptr option" where
  "rb_exec A W p (RB_read b n t) = map_option snd (ring_buffer_read_timeout A W p (Some b) n t)"
| "rb_exec A W p (RB_peek b n t) = map_option snd (ring_buffer_peek_timeout A W p (Some b) n t)"
| "rb_exec A W p (RB_write b n t) = map_option snd (ring_buffer_write_timeout A W p (Some b) n t)"
| "rb_exec A W p (RB_read_len b n t) =
     map_option snd (ring_buffer_read_len_timeout A W p (Some b) n t)"
| "rb_exec A W p (RB_write_len b n t) =
     map_option snd (ring_buffer_write_len_timeout A W p (Some b) n t)"
| "rb_exec A W p (RB_skip n t) = map_option snd (ring_buffer_skip_timeout W p n t)"
| "rb_exec A W p RB_reset = map_option snd (ring_buffer_reset p)"
| "rb_exec A W p (RB_set_read_cursor n) = map_option snd (ring_buffer_set_read_cursor p n)"
| "rb_exec A W p (RB_set_read_cursor_delta n) =
     map_option snd (ring_buffer_set_read_cursor_delta p n)"

text \<open>Each call has its own clock and its own answers of the condition variables.\<close>

fun rb_run :: "awtk \<Rightarrow> ring_buffer ptr \<Rightarrow> (ring_buffer waits \<times> rb_op) list \<Rightarrow> ring_buffer ptr option" where
  "rb_run A p [] = Some p"
| "rb_run A p ((W, x) # xs) = do { p \<leftarrow> rb_exec A W p x; rb_run A p xs }"

text \<open>The caller's blocks hold the bytes asked for, and no length exceeds two gigabytes.\<close>

fun rb_op_ok :: "rb_op \<Rightarrow> bool" where
  "rb_op_ok (RB_read b n t) = (unat n \<le> length b)"
| "rb_op_ok (RB_peek b n t) = (unat n \<le> length b)"
| "rb_op_ok (RB_write b n t) = (unat n \<le> length b)"
| "rb_op_ok (RB_read_len b n t) = (unat n \<le> length b)"
| "rb_op_ok (RB_write_len b n t) = (unat n \<le> length b \<and> n < 2 ^ 31)"
| "rb_op_ok _ = True"

definition rb_small :: "ring_buffer \<Rightarrow> bool" where
  "rb_small rb \<longleftrightarrow> rb_inv rb \<and> unat (rb_max_capacity rb) \<le> 2 ^ 31"

lemma rb_small_advance: "rb_small rb \<Longrightarrow> k \<le> rb_used rb \<Longrightarrow> rb_small (rb_advance rb k)"
  using rb_advance_spec [of rb k] by (simp add: rb_small_def) (simp add: rb_advance_def)

lemma rb_small_fill: "rb_small rb \<Longrightarrow> length bs \<le> rb_free rb \<Longrightarrow> rb_small (rb_fill rb bs)"
proof -
  assume rb: "rb_small rb" and le: "length bs \<le> rb_free rb"
  have inv: "rb_inv rb" using rb by (simp add: rb_small_def)
  have "rb_inv (rb_fill rb bs)"
  proof (cases "rb_full rb")
    case True
    then have "bs = []" using le rb_full_iff [OF inv] by (simp add: rb_free_def)
    with inv rb_invD [OF inv] show ?thesis by (simp add: rb_fill_def)
  next
    case False
    then show ?thesis
      using rb_fill_append [OF inv False] rb_fill_exact [OF inv False] le
      by (cases "length bs = rb_free rb") auto
  qed
  with rb show ?thesis by (simp add: rb_small_def) (simp add: rb_fill_def)
qed

lemma read_internal_small:
  assumes "awtk_ok A" "rb_small rb" "unat n \<le> length b"
  shows "\<exists>ret b' rb'. ring_buffer_read_internal A rb b n = Some (ret, b', rb') \<and> rb_small rb'
    \<and> rb_small (rb'\<lparr>rb_r := rb_r rb, rb_full := rb_full rb\<rparr>)"
proof -
  have inv: "rb_inv rb" using assms(2) by (simp add: rb_small_def)
  have "(rb_advance rb k)\<lparr>rb_r := rb_r rb, rb_full := rb_full rb\<rparr> = rb" for k
    by (simp add: rb_advance_def)
  then show ?thesis
    using ring_buffer_read_internal_eq [OF assms(1) inv refl, of n b] assms
    by (auto intro: rb_small_advance)
qed

lemma write_internal_small:
  assumes "awtk_ok A" "rb_small rb" "unat n \<le> length b"
  shows "\<exists>ret rb'. ring_buffer_write_internal A rb b n = Some (ret, rb') \<and> rb_small rb'"
proof -
  have inv: "rb_inv rb" using assms(2) by (simp add: rb_small_def)
  show ?thesis
    using ring_buffer_write_internal_eq [OF assms(1) inv refl, of n b] assms
    by (auto intro: rb_small_fill)
qed

lemma ensure_small:
  assumes A: "awtk_ok A" and small: "rb_small rb" and n: "n < 2 ^ 31"
  shows "\<exists>c rb'. ring_buffer_ensure_write_space A (Some rb) n = Some (c, Some rb') \<and> rb_small rb'"
proof -
  have inv: "rb_inv rb" and mx: "unat (rb_max_capacity rb) \<le> 2 ^ 31"
    using small by (simp_all add: rb_small_def)
  have "unat n < 2 ^ 31" using n by (simp add: word_less_nat_alt)
  moreover have "rb_used rb \<le> 2 ^ 31" using rb_used_le [OF inv] rb_invD(7) [OF inv] mx by simp
  ultimately have nov: "rb_used rb + unat n < 2 ^ 32" by simp
  have "rb_small (rb_grown rb n d)"
    if "tk_alloc A (ring_buffer_size (Some rb) + n) = Some d" "rb_free rb < unat n"
      "rb_used rb + unat n \<le> unat (rb_max_capacity rb)" for d
    using rb_grown_spec [OF A inv nov that(2,3,1)] mx
    by (simp add: rb_small_def) (simp add: rb_grown_def)
  then show ?thesis
    using small by (auto simp: ensure_write_space_eq [OF A inv nov] not_le not_less split: option.split)
qed

lemma rb_small_cursor:
  assumes "rb_small rb"
  shows "rb_small (rb\<lparr>rb_r := n mod rb_capacity rb, rb_full := False\<rparr>)"
proof -
  have "rb_capacity rb \<noteq> 0" using assms rb_invD(6) by (simp add: rb_small_def)
  then have "n mod rb_capacity rb < rb_capacity rb" by (simp add: word_mod_less_divisor word_gt_0)
  then show ?thesis using assms by (simp add: rb_small_def rb_inv_def)
qed

lemma ring_buffer_create_inv:
  assumes "awtk_ok A" "ring_buffer_create A e init mx = Some rb"
  shows "rb_inv rb \<and> rb_used rb = 0 \<and> rb_capacity rb = init \<and> rb_max_capacity rb = max init mx"
proof -
  have "32 \<le> init" using assms(2) by (simp add: ring_buffer_create_def split: if_splits)
  then have "0 < init" by (simp add: word_le_nat_alt word_less_nat_alt)
  then show ?thesis using assms
    by (auto simp: ring_buffer_create_def awtk_ok_def rb_inv_def rb_used_def ring_buffer_size_def
        split: if_splits)
qed

lemma rb_small_skip:
  assumes "rb_small rb"
  shows "rb_small (rb\<lparr>rb_full := False, rb_r := n mod rb_capacity rb\<rparr>)"
proof -
  have "rb_capacity rb \<noteq> 0" using assms rb_invD(6) by (simp add: rb_small_def)
  then have "n mod rb_capacity rb < rb_capacity rb" by (simp add: word_mod_less_divisor word_gt_0)
  then show ?thesis using assms by (simp add: rb_small_def rb_inv_def)
qed

lemma rb_exec_safe:
  assumes A: "awtk_ok A" and W: "waits_keep rb_small W" and rb: "rb_small rb" and ok: "rb_op_ok x"
  shows "\<exists>rb'. rb_exec A W (Some rb) x = Some (Some rb') \<and> rb_small rb'"
proof -
  have wr: "rb_small rb1" if "ring_buffer_wait_for_read W t rb = (c, rb1)" for t c rb1
    using wait_for_read_keep [OF W rb, of t] that by simp
  have ww: "rb_small rb1" if "ring_buffer_wait_for_write W t rb = (c, rb1)" for t c rb1
    using wait_for_write_keep [OF W rb, of t] that by simp
  have cap: "rb_capacity rb \<noteq> 0" if "rb_small rb" for rb
    using that rb_invD(6) by (simp add: rb_small_def)
  show ?thesis
  proof (cases x)
    case (RB_read b n t)
    then show ?thesis using ok wr read_internal_small [OF A, of _ n b]
      by (fastforce simp: ring_buffer_read_timeout_def split: prod.split)
  next
    case (RB_peek b n t)
    then show ?thesis using ok wr read_internal_small [OF A, of _ n b]
      by (fastforce simp: ring_buffer_peek_timeout_def Let_def split: prod.split)
  next
    case (RB_write b n t)
    then show ?thesis using ok ww write_internal_small [OF A, of _ n b]
      by (fastforce simp: ring_buffer_write_timeout_def split: prod.split)
  next
    case (RB_read_len b n t)
    then show ?thesis using ok wr read_internal_small [OF A, of _ n b]
      by (fastforce simp: ring_buffer_read_len_timeout_def split: prod.split)
  next
    case (RB_write_len b n t)
    obtain c rb1 where w: "ring_buffer_wait_for_write W t rb = (c, rb1)" by fastforce
    obtain c2 rb2 where e: "ring_buffer_ensure_write_space A (Some rb1) n = Some (c2, Some rb2)"
      "rb_small rb2"
      using ensure_small [OF A ww [OF w], of n] ok RB_write_len by auto
    obtain r3 rb3 where "ring_buffer_write_internal A rb2 b n = Some (r3, rb3)" "rb_small rb3"
      using write_internal_small [OF A e(2), of n b] ok RB_write_len by auto
    then show ?thesis using RB_write_len w e ww [OF w]
      by (simp add: ring_buffer_write_len_timeout_def)
  next
    case (RB_skip n t)
    obtain c rb1 where w: "ring_buffer_wait_for_read W t rb = (c, rb1)" by fastforce
    note s1 = wr [OF w]
    then show ?thesis using RB_skip w cap [OF s1] rb_small_skip [OF s1]
      by (simp add: ring_buffer_skip_timeout_def umod_def)
  next
    case RB_reset
    have "length (rb_data rb) = unat (rb_capacity rb)"
      using rb rb_invD(2) by (simp add: rb_small_def)
    then show ?thesis using RB_reset rb
      by (simp add: ring_buffer_reset_def mem_write_def rb_small_def rb_inv_def)
  next
    case (RB_set_read_cursor n)
    then show ?thesis using cap [OF rb] rb_small_cursor [OF rb]
      by (simp add: ring_buffer_set_read_cursor_def umod_def)
  next
    case (RB_set_read_cursor_delta n)
    then show ?thesis using cap [OF rb] rb_small_cursor [OF rb]
      by (simp add: ring_buffer_set_read_cursor_delta_def ring_buffer_set_read_cursor_def umod_def)
  qed
qed


section \<open>Witnesses\<close>

text \<open>Concrete macros and a four-byte ring that wraps.\<close>

definition awtk0 :: awtk where
  "awtk0 = \<lparr>tk_min = min, tk_max = max, tk_alloc = (\<lambda>n. Some (replicate (unat n) 0))\<rparr>"

definition waits0 :: "'s waits" where
  "waits0 = \<lparr>clock_gettime = \<lparr>tv_sec = 0, tv_nsec = 0\<rparr>, cond_wait = (\<lambda>s. (True, s)), cond_timedwait = (\<lambda>t s. (False, s))\<rparr>"

definition rb0 :: ring_buffer where
  "rb0 = \<lparr>rb_r = 3, rb_w = 1, rb_full = False, rb_capacity = 4, rb_max_capacity = 8,
          rb_data = [10, 20, 30, 40]\<rparr>"

lemma awtk0_ok: "awtk_ok awtk0"
  by (simp add: awtk_ok_def awtk0_def)

lemma rb0_size: "ring_buffer_size (Some rb0) = 2"
  by (simp add: ring_buffer_size_def rb0_def word_le_nat_alt)

lemma rb0_used: "rb_used rb0 = 2"
  by (simp add: rb_used_def rb0_size)

lemma rb0_inv: "rb_inv rb0"
  by (simp add: rb_inv_def rb0_def word_le_nat_alt word_less_nat_alt)

lemma rb0_contents: "rb_contents rb0 = [40, 10]"
  unfolding rb_contents_def rb0_used ring_slice_def by (simp add: rb0_def upt_rec)

lemma rb0_free: "rb_free rb0 = 2"
  by (simp add: rb_free_def rb0_used) (simp add: rb0_def)

lemma rb0_fields: "\<not> rb_full rb0" "rb_max_capacity rb0 = 8"
  by (simp_all add: rb0_def)

lemmas rb0_facts = rb0_size rb0_used rb0_inv rb0_contents rb0_free rb0_fields

lemma ring_buffer_read_fifo_witness:
  "\<exists>rb'. ring_buffer_read_timeout awtk0 waits0 (Some rb0) (Some [0, 0, 0]) 3 0
      = Some ((2, Some [40, 10, 0]), Some rb') \<and> rb_inv rb' \<and> rb_contents rb' = []"
  using ring_buffer_read_fifo [OF awtk0_ok rb0_inv, of 3 "[0, 0, 0]" waits0 0]
  by (simp add: rb0_facts)

lemma ring_buffer_peek_pure_witness:
  "ring_buffer_peek_timeout awtk0 waits0 (Some rb0) (Some [0, 0, 0]) 3 0
      = Some ((2, Some [40, 10, 0]), Some rb0)"
  using ring_buffer_peek_pure [OF awtk0_ok rb0_inv, of 3 "[0, 0, 0]" waits0 0]
  by (simp add: rb0_facts)

lemma ring_buffer_write_append_witness:
  "\<exists>rb'. ring_buffer_write_timeout awtk0 waits0 (Some rb0) (Some [7]) 1 0 = Some (1, Some rb')
      \<and> rb_inv rb' \<and> rb_contents rb' = [40, 10, 7]"
  using ring_buffer_write_append [OF awtk0_ok rb0_inv, of 1 "[7]" waits0 0]
  by (simp add: rb0_facts)

lemma ring_buffer_exact_fill_empties_witness:
  "\<exists>rb'. ring_buffer_write_timeout awtk0 waits0 (Some rb0) (Some [7, 8]) 2 0 = Some (2, Some rb')
      \<and> rb_inv rb' \<and> rb_contents rb' = []"
  using ring_buffer_exact_fill_empties [OF awtk0_ok rb0_inv rb0_fields(1), of 2 "[7, 8]" waits0 0]
  by (simp add: rb0_facts)

lemma ring_buffer_write_len_growth_empties_witness:
  "\<exists>rb'. ring_buffer_write_len_timeout awtk0 waits0 (Some rb0) (Some [5, 6, 7]) 3 0
      = Some (STATE_CODE_NO_ERROR, Some rb') \<and> rb_inv rb' \<and> rb_contents rb' = []
      \<and> rb_capacity rb' = 5"
  using ring_buffer_write_len_growth_empties [OF awtk0_ok rb0_inv rb0_fields(1), of 3 "[5, 6, 7]"
      "replicate 5 0" waits0 0]
  by (simp add: rb0_facts awtk0_def)


end
