(* ===== verification/Ring_Queue.thy ===== *)
theory Ring_Queue
  imports Ring_Buffer Interfaces
begin

text \<open>
  \<^verbatim>\<open>common/ring/ring_queue.c\<close>: fixed-size elements on top of the byte ring.  Element
  arguments are the memory blocks the caller passes; the result of an operation on a queue is
  the return value (with the block it filled) and the queue.
\<close>

section \<open>State\<close>

record ring_queue =
  rq_buffer :: "ring_buffer ptr"
  rq_element_size :: u32
  rq_max_elements :: u32

definition RING_QUEUE_NO_TIMEOUT :: u32 where
  "RING_QUEUE_NO_TIMEOUT = RING_BUFFER_NO_TIMEOUT"

text \<open>\<open>m\<close> is the outcome of the queue's own \<^verbatim>\<open>malloc\<close>, \<open>e\<close> the outcomes inside the ring.\<close>

definition ring_queue_create :: "awtk \<Rightarrow> bool \<Rightarrow> rb_create_env \<Rightarrow> u32 \<Rightarrow> u32 \<Rightarrow> ring_queue ptr" where
  "ring_queue_create A m e element_size max_elements =
     (if \<not> (0 < element_size \<and> 0 < max_elements) then None
      else if \<not> m then None
      else
        (let init_capacity = tk_max A 32 (element_size * (max_elements div 2));
             max_capacity = element_size * max_elements in
         case ring_buffer_create A e init_capacity max_capacity of
           None \<Rightarrow> None
         | Some rb \<Rightarrow> Some \<lparr>rq_buffer = Some rb, rq_element_size = element_size,
                           rq_max_elements = max_elements\<rparr>))"

definition ring_queue_destroy :: "ring_queue ptr \<Rightarrow> E_StateCode \<times> ring_queue ptr" where
  "ring_queue_destroy p =
     (case p of None \<Rightarrow> (STATE_CODE_INVALID_PARAM, None)
      | Some q \<Rightarrow> (let (_, b) = ring_buffer_destroy (rq_buffer q) in (STATE_CODE_NO_ERROR, None)))"

section \<open>Operations with a timeout\<close>

definition ring_queue_push_timeout ::
    "awtk \<Rightarrow> ring_buffer waits \<Rightarrow> ring_queue ptr \<Rightarrow> u8 list ptr \<Rightarrow> u32
     \<Rightarrow> (E_StateCode \<times> ring_queue ptr) option" where
  "ring_queue_push_timeout A W p element timeout_ms = on_ptr p STATE_CODE_INVALID_PARAM (\<lambda>q.
     if element = None then Some (STATE_CODE_INVALID_PARAM, q)
     else do { (code, b) \<leftarrow> ring_buffer_write_len_timeout A W (rq_buffer q) element
                            (rq_element_size q) timeout_ms;
               Some (code, q\<lparr>rq_buffer := b\<rparr>) })"

definition ring_queue_pop_timeout ::
    "awtk \<Rightarrow> ring_buffer waits \<Rightarrow> ring_queue ptr \<Rightarrow> u8 list ptr \<Rightarrow> u32
     \<Rightarrow> ((E_StateCode \<times> u8 list ptr) \<times> ring_queue ptr) option" where
  "ring_queue_pop_timeout A W p element timeout_ms =
     on_ptr p (STATE_CODE_INVALID_PARAM, element) (\<lambda>q.
     if element = None then Some ((STATE_CODE_INVALID_PARAM, element), q)
     else do { (ret, b) \<leftarrow> ring_buffer_read_len_timeout A W (rq_buffer q) element
                           (rq_element_size q) timeout_ms;
               Some (ret, q\<lparr>rq_buffer := b\<rparr>) })"

definition ring_queue_peek_front_timeout ::
    "awtk \<Rightarrow> ring_buffer waits \<Rightarrow> ring_queue ptr \<Rightarrow> u8 list ptr \<Rightarrow> u32
     \<Rightarrow> ((E_StateCode \<times> u8 list ptr) \<times> ring_queue ptr) option" where
  "ring_queue_peek_front_timeout A W p element timeout_ms =
     on_ptr p (STATE_CODE_INVALID_PARAM, element) (\<lambda>q.
     if element = None then Some ((STATE_CODE_INVALID_PARAM, element), q)
     else do { ((bytes_read, element), b) \<leftarrow> ring_buffer_peek_timeout A W (rq_buffer q) element
                 (rq_element_size q) timeout_ms;
               Some ((if bytes_read = rq_element_size q then STATE_CODE_NO_ERROR
                      else STATE_CODE_TIME_OUT, element), q\<lparr>rq_buffer := b\<rparr>) })"

text \<open>
  The newest element is copied by one \<^verbatim>\<open>memcpy\<close> from the cursor \<open>w - element_size\<close>, taken
  modulo the capacity; the copy itself does not wrap.
\<close>

definition ring_queue_peek_back_timeout ::
    "ring_buffer waits \<Rightarrow> ring_queue ptr \<Rightarrow> u8 list ptr \<Rightarrow> u32
     \<Rightarrow> ((E_StateCode \<times> u8 list ptr) \<times> ring_queue ptr) option" where
  "ring_queue_peek_back_timeout W p element timeout_ms =
     on_ptr p (STATE_CODE_INVALID_PARAM, element) (\<lambda>q.
     case element of None \<Rightarrow> Some ((STATE_CODE_INVALID_PARAM, None), q)
     | Some el \<Rightarrow>
       (case rq_buffer q of None \<Rightarrow> None
        | Some buffer \<Rightarrow>
          (let (code, buffer) = ring_buffer_wait_for_read W timeout_ms buffer;
               q = q\<lparr>rq_buffer := Some buffer\<rparr> in
           if code \<noteq> STATE_CODE_NO_ERROR then Some ((STATE_CODE_TIME_OUT, element), q)
           else if ring_buffer_size (Some buffer) < rq_element_size q
           then Some ((STATE_CODE_WAIT_MORE_DATA, element), q)
           else
             (let saved_r = rb_r buffer; saved_full = rb_full buffer in
              do { r' \<leftarrow> umod (rb_w buffer - rq_element_size q + rb_capacity buffer)
                             (rb_capacity buffer);
                   let buffer = buffer\<lparr>rb_r := r', rb_full := False\<rparr>;
                   bs \<leftarrow> mem_read (rb_data buffer) (unat (rb_r buffer)) (unat (rq_element_size q));
                   el \<leftarrow> mem_write el 0 bs;
                   let bytes_read = rq_element_size q;
                   let buffer = buffer\<lparr>rb_r := saved_r, rb_full := saved_full\<rparr>;
                   Some ((if bytes_read = rq_element_size q then STATE_CODE_NO_ERROR
                          else STATE_CODE_INVALID_PARAM, Some el),
                         q\<lparr>rq_buffer := Some buffer\<rparr>) }))))"

definition ring_queue_push_array_timeout ::
    "awtk \<Rightarrow> ring_buffer waits \<Rightarrow> ring_queue ptr \<Rightarrow> u8 list ptr \<Rightarrow> u32 \<Rightarrow> u32
     \<Rightarrow> (E_StateCode \<times> ring_queue ptr) option" where
  "ring_queue_push_array_timeout A W p elements count timeout_ms =
     on_ptr p STATE_CODE_INVALID_PARAM (\<lambda>q.
     if elements = None then Some (STATE_CODE_INVALID_PARAM, q)
     else (let bytes_to_write = rq_element_size q * count in
       do { (code, b) \<leftarrow> ring_buffer_write_len_timeout A W (rq_buffer q) elements
                         bytes_to_write timeout_ms;
            Some (code, q\<lparr>rq_buffer := b\<rparr>) }))"

definition ring_queue_pop_array_timeout ::
    "awtk \<Rightarrow> ring_buffer waits \<Rightarrow> ring_queue ptr \<Rightarrow> u8 list ptr \<Rightarrow> u32 \<Rightarrow> u32
     \<Rightarrow> ((E_StateCode \<times> u8 list ptr) \<times> ring_queue ptr) option" where
  "ring_queue_pop_array_timeout A W p elements count timeout_ms =
     on_ptr p (STATE_CODE_INVALID_PARAM, elements) (\<lambda>q.
     if elements = None then Some ((STATE_CODE_INVALID_PARAM, elements), q)
     else (let bytes_to_read = rq_element_size q * count in
       do { (ret, b) \<leftarrow> ring_buffer_read_len_timeout A W (rq_buffer q) elements
                        bytes_to_read timeout_ms;
            Some (ret, q\<lparr>rq_buffer := b\<rparr>) }))"

section \<open>Operations without a timeout\<close>

definition ring_queue_push ::
    "awtk \<Rightarrow> ring_buffer waits \<Rightarrow> ring_queue ptr \<Rightarrow> u8 list ptr \<Rightarrow> (bool \<times> ring_queue ptr) option" where
  "ring_queue_push A W p element =
     map_option (\<lambda>(code, p). (code = STATE_CODE_NO_ERROR, p))
       (ring_queue_push_timeout A W p element RING_QUEUE_NO_TIMEOUT)"

definition ring_queue_pop ::
    "awtk \<Rightarrow> ring_buffer waits \<Rightarrow> ring_queue ptr \<Rightarrow> u8 list ptr
     \<Rightarrow> ((bool \<times> u8 list ptr) \<times> ring_queue ptr) option" where
  "ring_queue_pop A W p element =
     map_option (\<lambda>((code, el), p). ((code = STATE_CODE_NO_ERROR, el), p))
       (ring_queue_pop_timeout A W p element RING_QUEUE_NO_TIMEOUT)"

definition ring_queue_peek_front ::
    "awtk \<Rightarrow> ring_buffer waits \<Rightarrow> ring_queue ptr \<Rightarrow> u8 list ptr
     \<Rightarrow> ((bool \<times> u8 list ptr) \<times> ring_queue ptr) option" where
  "ring_queue_peek_front A W p element =
     map_option (\<lambda>((code, el), p). ((code = STATE_CODE_NO_ERROR, el), p))
       (ring_queue_peek_front_timeout A W p element RING_QUEUE_NO_TIMEOUT)"

definition ring_queue_peek_back ::
    "ring_buffer waits \<Rightarrow> ring_queue ptr \<Rightarrow> u8 list ptr
     \<Rightarrow> ((bool \<times> u8 list ptr) \<times> ring_queue ptr) option" where
  "ring_queue_peek_back W p element =
     map_option (\<lambda>((code, el), p). ((code = STATE_CODE_NO_ERROR, el), p))
       (ring_queue_peek_back_timeout W p element RING_QUEUE_NO_TIMEOUT)"

definition ring_queue_push_array ::
    "awtk \<Rightarrow> ring_buffer waits \<Rightarrow> ring_queue ptr \<Rightarrow> u8 list ptr \<Rightarrow> u32
     \<Rightarrow> (u32 \<times> ring_queue ptr) option" where
  "ring_queue_push_array A W p elements count =
     map_option (\<lambda>(code, p). (if code = STATE_CODE_NO_ERROR then count else 0, p))
       (ring_queue_push_array_timeout A W p elements count RING_QUEUE_NO_TIMEOUT)"

definition ring_queue_pop_array ::
    "awtk \<Rightarrow> ring_buffer waits \<Rightarrow> ring_queue ptr \<Rightarrow> u8 list ptr \<Rightarrow> u32
     \<Rightarrow> ((u32 \<times> u8 list ptr) \<times> ring_queue ptr) option" where
  "ring_queue_pop_array A W p elements count =
     map_option (\<lambda>((code, el), p). ((if code = STATE_CODE_NO_ERROR then count else 0, el), p))
       (ring_queue_pop_array_timeout A W p elements count RING_QUEUE_NO_TIMEOUT)"

section \<open>Status queries\<close>

definition ring_queue_is_full :: "ring_queue ptr \<Rightarrow> bool" where
  "ring_queue_is_full p = (case p of None \<Rightarrow> False
     | Some q \<Rightarrow> ring_buffer_free_size (rq_buffer q) < rq_element_size q)"

definition ring_queue_is_empty :: "ring_queue ptr \<Rightarrow> bool" where
  "ring_queue_is_empty p = (case p of None \<Rightarrow> False
     | Some q \<Rightarrow> ring_buffer_size (rq_buffer q) < rq_element_size q)"

definition udiv :: "'w::len word \<Rightarrow> 'w word \<Rightarrow> 'w word option" where
  "udiv a b = (if b = 0 then None else Some (a div b))"

definition ring_queue_size :: "ring_queue ptr \<Rightarrow> u32 option" where
  "ring_queue_size p = (case p of None \<Rightarrow> Some 0
     | Some q \<Rightarrow> udiv (ring_buffer_size (rq_buffer q)) (rq_element_size q))"

definition ring_queue_capacity :: "ring_queue ptr \<Rightarrow> u32 option" where
  "ring_queue_capacity p = (case p of None \<Rightarrow> Some 0
     | Some q \<Rightarrow> udiv (ring_buffer_capacity (rq_buffer q)) (rq_element_size q))"

definition ring_queue_clear :: "ring_queue ptr \<Rightarrow> (E_StateCode \<times> ring_queue ptr) option" where
  "ring_queue_clear p = on_ptr p STATE_CODE_INVALID_PARAM (\<lambda>q.
     do { (code, b) \<leftarrow> ring_buffer_reset (rq_buffer q); Some (code, q\<lparr>rq_buffer := b\<rparr>) })"

definition ring_queue_get_buffer :: "ring_queue ptr \<Rightarrow> ring_buffer ptr" where
  "ring_queue_get_buffer p = (case p of None \<Rightarrow> None | Some q \<Rightarrow> rq_buffer q)"

section \<open>Elements\<close>

text \<open>The byte sequence cut into blocks of \<open>n\<close>; an incomplete rest is dropped.\<close>

fun chunks :: "nat \<Rightarrow> 'a list \<Rightarrow> 'a list list" where
  "chunks n xs = (if n = 0 \<or> length xs < n then [] else take n xs # chunks n (drop n xs))"

declare chunks.simps [simp del]

lemma chunks_Nil [simp]: "chunks n [] = []"
  by (subst chunks.simps) auto

lemma chunks_one: "0 < n \<Longrightarrow> length x = n \<Longrightarrow> chunks n x = [x]"
  by (subst chunks.simps) auto

lemma chunks_block: "0 < n \<Longrightarrow> n \<le> length xs \<Longrightarrow> chunks n xs = take n xs # chunks n (drop n xs)"
  by (subst chunks.simps) auto

lemma chunks_append:
  "n dvd length xs \<Longrightarrow> chunks n (xs @ ys) = chunks n xs @ chunks n ys"
proof (induction n xs rule: chunks.induct)
  case (1 n xs)
  show ?case
  proof (cases "n = 0 \<or> length xs < n")
    case True
    with 1 have "xs = []" by (cases "n = 0") (auto dest: dvd_imp_le)
    then show ?thesis by simp
  next
    case False
    have "n dvd length (drop n xs)" using 1(2) False by (simp add: dvd_diff_nat)
    with 1(1) [OF False] have "chunks n (drop n xs @ ys) = chunks n (drop n xs) @ chunks n ys" .
    with False show ?thesis by (simp add: chunks_block)
  qed
qed

lemma chunks_eq_Nil: "0 < n \<Longrightarrow> n dvd length xs \<Longrightarrow> chunks n xs = [] \<longleftrightarrow> xs = []"
  by (subst chunks.simps) (auto dest: dvd_imp_le)

definition rq_inv :: "u32 \<Rightarrow> ring_queue \<Rightarrow> bool" where
  "rq_inv es q \<longleftrightarrow> rq_element_size q = es \<and> 0 < unat es \<and>
     (case rq_buffer q of None \<Rightarrow> False | Some rb \<Rightarrow> rb_inv rb \<and> unat es dvd rb_used rb)"

definition rq_elements :: "ring_queue \<Rightarrow> u8 list list" where
  "rq_elements q = (case rq_buffer q of None \<Rightarrow> []
     | Some rb \<Rightarrow> chunks (unat (rq_element_size q)) (rb_contents rb))"

text \<open>Room for \<open>n\<close> further elements with one byte to spare, without growing.\<close>

definition rq_can :: "nat \<Rightarrow> ring_queue \<Rightarrow> bool" where
  "rq_can n q = (case rq_buffer q of None \<Rightarrow> False
     | Some rb \<Rightarrow> rb_used rb + n * unat (rq_element_size q) < unat (rb_capacity rb))"

definition rq_put :: "awtk \<Rightarrow> ring_buffer waits \<Rightarrow> u8 list \<Rightarrow> ring_queue \<Rightarrow> ring_queue option" where
  "rq_put A W x q = do { (ok, p) \<leftarrow> ring_queue_push A W (Some q) (Some x);
                         if ok then p else None }"

definition rq_get :: "awtk \<Rightarrow> ring_buffer waits \<Rightarrow> ring_queue \<Rightarrow> (u8 list ptr \<times> ring_queue) option" where
  "rq_get A W q =
     do { ((ok, el), p) \<leftarrow> ring_queue_pop A W (Some q)
                             (Some (replicate (unat (rq_element_size q)) 0));
          q' \<leftarrow> p;
          Some (if ok then el else None, q') }"

lemma push_appends:
  assumes A: "awtk_ok A" and inv: "rb_inv rb" and sz: "unat sz < rb_free rb"
    and b: "unat sz \<le> length b"
  shows "\<exists>rb'. ring_buffer_write_len_timeout A W (Some rb) (Some b) sz t
      = Some (STATE_CODE_NO_ERROR, Some rb') \<and> rb_inv rb' \<and> rb_capacity rb' = rb_capacity rb
    \<and> rb_contents rb' = rb_contents rb @ take (unat sz) b"
proof -
  have nf: "\<not> rb_full rb" using sz rb_full_iff [OF inv] by (simp add: rb_free_def)
  have "rb_capacity (rb_fill rb (take (unat sz) b)) = rb_capacity rb" by (simp add: rb_fill_def)
  then show ?thesis
    using write_len_ready [OF A inv nf, of sz b] sz b
      rb_fill_append [OF inv nf, of "take (unat sz) b"] by (auto simp: min_absorb2)
qed

lemma used_contents: "rb_contents rb' = xs \<Longrightarrow> rb_used rb' = length xs"
  using length_rb_contents [of rb'] by simp

lemma rq_put_law:
  assumes A: "awtk_ok A" and inv: "rq_inv es q" and can: "rq_can (Suc n) q"
    and x: "length x = unat es"
  shows "\<exists>q'. rq_put A W x q = Some q' \<and> rq_inv es q' \<and> rq_can n q'
    \<and> rq_elements q' = rq_elements q @ [x]"
proof -
  obtain rb where rb: "rq_buffer q = Some rb" "rb_inv rb" "unat es dvd rb_used rb"
    and es: "rq_element_size q = es" "0 < unat es"
    using inv by (auto simp: rq_inv_def split: option.splits)
  have room: "rb_used rb + (unat es + n * unat es) < unat (rb_capacity rb)"
    using can rb es by (simp add: rq_can_def)
  then have "unat es < rb_free rb" by (simp add: rb_free_def)
  then obtain rb' where rb': "ring_buffer_write_len_timeout A W (Some rb) (Some x) es
        RING_QUEUE_NO_TIMEOUT = Some (STATE_CODE_NO_ERROR, Some rb')"
      "rb_inv rb'" "rb_capacity rb' = rb_capacity rb" "rb_contents rb' = rb_contents rb @ x"
    using push_appends [OF A rb(2), of es x W RING_QUEUE_NO_TIMEOUT] x by auto
  have used: "rb_used rb' = rb_used rb + unat es" using used_contents [OF rb'(4)] x by simp
  have "rq_put A W x q = Some (q\<lparr>rq_buffer := Some rb'\<rparr>)"
    using rb'(1) rb es by (simp add: rq_put_def ring_queue_push_def ring_queue_push_timeout_def)
  moreover have "chunks (unat es) (rb_contents rb @ x) = chunks (unat es) (rb_contents rb) @ [x]"
    using rb(3) es x by (simp add: chunks_append chunks_one)
  ultimately show ?thesis
    using rb es rb'(2-4) used room by (auto simp: rq_inv_def rq_can_def rq_elements_def)
qed

lemma rq_get_law:
  assumes A: "awtk_ok A" and inv: "rq_inv es q" and can: "rq_can n q"
    and xs: "rq_elements q = x # xs"
  shows "\<exists>q'. rq_get A W q = Some (Some x, q') \<and> rq_inv es q' \<and> rq_can n q' \<and> rq_elements q' = xs"
proof -
  obtain rb where rb: "rq_buffer q = Some rb" "rb_inv rb" "unat es dvd rb_used rb"
    and es: "rq_element_size q = es" "0 < unat es"
    using inv by (auto simp: rq_inv_def split: option.splits)
  have ne: "rb_contents rb \<noteq> []" using xs rb es by (auto simp: rq_elements_def)
  then have le: "unat es \<le> rb_used rb" using rb(3)
    by (metis dvd_imp_le length_greater_0_conv length_rb_contents)
  have x: "x = take (unat es) (rb_contents rb)"
      "xs = chunks (unat es) (drop (unat es) (rb_contents rb))"
    using xs rb es le by (auto simp: rq_elements_def chunks_block)
  let ?rb = "rb_advance rb (unat es)"
  have adv: "rb_inv ?rb" "rb_contents ?rb = drop (unat es) (rb_contents rb)"
    using rb_advance_spec [OF rb(2) le] by auto
  have cap: "rb_capacity ?rb = rb_capacity rb" by (simp add: rb_advance_def)
  have used: "rb_used ?rb = rb_used rb - unat es" using used_contents [OF adv(2)] by simp
  have "rq_get A W q = Some (Some x, q\<lparr>rq_buffer := Some ?rb\<rparr>)"
    using read_len_ready [OF A rb(2) ne, of es "replicate (unat es) 0" W RING_QUEUE_NO_TIMEOUT]
      rb es le x
    by (simp add: rq_get_def ring_queue_pop_def ring_queue_pop_timeout_def)
  then show ?thesis
    using rb es adv cap used can x by (auto simp: rq_inv_def rq_can_def rq_elements_def dvd_diff_nat)
qed

lemma rq_get_empty:
  assumes inv: "rq_inv es q" and e: "rq_elements q = []"
  shows "rq_get A W q = Some (None, q)"
proof -
  obtain rb where rb: "rq_buffer q = Some rb" "rb_inv rb" "unat es dvd rb_used rb"
    and es: "rq_element_size q = es" "0 < unat es"
    using inv by (auto simp: rq_inv_def split: option.splits)
  have "rb_contents rb = []" using e rb es by (simp add: rq_elements_def chunks_eq_Nil)
  then have "ring_buffer_is_empty (Some rb)" using is_empty_iff [OF rb(2)] by simp
  moreover have "q\<lparr>rq_buffer := Some rb\<rparr> = q" using rb by simp
  ultimately show ?thesis
    using rb by (simp add: rq_get_def ring_queue_pop_def ring_queue_pop_timeout_def
        ring_buffer_read_len_timeout_def ring_buffer_wait_for_read_def RING_QUEUE_NO_TIMEOUT_def)
qed

interpretation rq: fifo "\<lambda>q. awtk_ok A \<and> rq_inv es q" rq_elements rq_can
    "\<lambda>x. length x = unat es" "rq_put A W" "rq_get A W"
  by unfold_locales (auto simp: rq_put_law rq_get_law rq_get_empty)

text \<open>
  C5: whatever sequence of pushes and pops runs on the queue, every push of it succeeds and the
  pops deliver exactly what a list queue delivers, as long as the elements pushed fit with a
  byte to spare.\<close>

theorem ring_queue_fifo:
  assumes "awtk_ok A" "rq_inv es q" "rq_can (length (puts ops)) q"
    "\<forall>x \<in> set (puts ops). length x = unat es"
  shows "\<exists>q'. q_run (rq_put A W) (rq_get A W) q ops = Some (fst (q_spec (rq_elements q) ops), q')
    \<and> rq_inv es q' \<and> rq_elements q' = snd (q_spec (rq_elements q) ops)"
  using rq.run [of A es q ops W] assms by auto

lemma last_chunks:
  assumes "0 < n" "n dvd length xs" "xs \<noteq> []"
  shows "last (chunks n xs) = drop (length xs - n) xs"
proof -
  have le: "n \<le> length xs" using assms by (auto dest: dvd_imp_le)
  then have "n dvd length (take (length xs - n) xs)" using assms by (simp add: dvd_diff_nat)
  then have "chunks n (take (length xs - n) xs @ drop (length xs - n) xs)
      = chunks n (take (length xs - n) xs) @ chunks n (drop (length xs - n) xs)"
    by (rule chunks_append)
  moreover have "chunks n (drop (length xs - n) xs) = [drop (length xs - n) xs]"
    using le assms(1) by (intro chunks_one) auto
  ultimately show ?thesis by simp
qed

lemma back_cursor:
  assumes inv: "rb_inv rb" and es: "0 < unat es" "unat es \<le> unat (rb_capacity rb)"
    and cap: "unat (rb_capacity rb) \<le> 2 ^ 31"
  shows "unat ((rb_w rb - es + rb_capacity rb) mod rb_capacity rb)
    = (if es \<le> rb_w rb then unat (rb_w rb) - unat es
       else (unat (rb_capacity rb) - (unat es - unat (rb_w rb))) mod unat (rb_capacity rb))"
proof (cases "es \<le> rb_w rb")
  case True
  then have d: "unat (rb_w rb - es) = unat (rb_w rb) - unat es" by (rule unat_diff_le)
  have "unat (rb_w rb - es) + unat (rb_capacity rb) < 2 ^ 32"
    using d rb_invD [OF inv] cap by simp
  then have "unat (rb_w rb - es + rb_capacity rb) = unat (rb_w rb) - unat es + unat (rb_capacity rb)"
    using d by (simp add: unat_add_lt)
  moreover have "unat (rb_w rb) - unat es < unat (rb_capacity rb)"
    using rb_invD(4) [OF inv] by simp
  ultimately show ?thesis using True by (simp add: unat_mod)
next
  case False
  then have lt: "rb_w rb \<le> es" by simp
  then have d: "unat (es - rb_w rb) = unat es - unat (rb_w rb)" by (rule unat_diff_le)
  then have "es - rb_w rb \<le> rb_capacity rb" using es by (simp add: word_le_nat_alt)
  then have "unat (rb_capacity rb - (es - rb_w rb)) = unat (rb_capacity rb) - (unat es - unat (rb_w rb))"
    using d by (simp add: unat_diff_le)
  moreover have "rb_w rb - es + rb_capacity rb = rb_capacity rb - (es - rb_w rb)" by simp
  ultimately show ?thesis using False by (simp only: unat_mod if_False)
qed

lemma back_slice:
  assumes inv: "rb_inv rb" and es: "0 < n" "n \<le> rb_used rb" and w: "unat (rb_w rb) = 0 \<or> n \<le> unat (rb_w rb)"
    and p: "p = (if n \<le> unat (rb_w rb) then unat (rb_w rb) - n else unat (rb_capacity rb) - n)"
  shows "drop (rb_used rb - n) (rb_contents rb) = ring_slice (rb_data rb) p n"
proof -
  let ?c = "unat (rb_capacity rb)" and ?s = "unat (rb_r rb) + rb_used rb"
  note D = rb_invD [OF inv]
  have le: "rb_used rb \<le> ?c" by (rule rb_used_le [OF inv])
  have "?s = unat (rb_w rb) \<or> ?s = unat (rb_w rb) + ?c"
    using rb_w_window [OF inv] D(1,3) le by (auto simp: mod_if split: if_splits)
  then have "?s - n = p \<or> ?s - n = p + ?c"
    using p es w le by auto
  then have "(?s - n) mod ?c = p mod ?c" by auto
  then have "ring_slice (rb_data rb) (?s - n) n = ring_slice (rb_data rb) p n"
    using D(2) by (metis ring_slice_mod)
  moreover have "drop (rb_used rb - n) (rb_contents rb) = ring_slice (rb_data rb) (?s - n) n"
    using es by (simp add: rb_contents_def drop_ring_slice)
  ultimately show ?thesis by simp
qed

text \<open>
  \<^verbatim>\<open>ring_queue_peek_back_timeout\<close> on a nonempty queue delivers the newest element and
  changes nothing, except when that element wraps around the end of the block: then its single
  \<^verbatim>\<open>memcpy\<close> reads past the block.\<close>

theorem ring_queue_peek_back_newest:
  assumes "rq_inv es q" "rq_buffer q = Some rb" "rq_elements q \<noteq> []"
    "unat es \<le> length b" "unat (rb_capacity rb) \<le> 2 ^ 31"
  shows "ring_queue_peek_back_timeout W (Some q) (Some b) t =
    (if unat (rb_w rb) = 0 \<or> unat es \<le> unat (rb_w rb)
     then Some ((STATE_CODE_NO_ERROR, Some (last (rq_elements q) @ drop (unat es) b)), Some q)
     else None)"
proof -
  let ?c = "unat (rb_capacity rb)" and ?n = "unat es" and ?w = "unat (rb_w rb)"
  have inv: "rb_inv rb" "?n dvd rb_used rb" and es: "rq_element_size q = es" "0 < ?n"
    using assms by (auto simp: rq_inv_def)
  note D = rb_invD [OF inv(1)]
  have ne: "rb_contents rb \<noteq> []" using assms es by (auto simp: rq_elements_def)
  then have le: "?n \<le> rb_used rb"
    using inv(2) by (metis dvd_imp_le length_greater_0_conv length_rb_contents)
  then have lec: "?n \<le> ?c" using rb_used_le [OF inv(1)] by simp
  have lst: "last (rq_elements q) = drop (rb_used rb - ?n) (rb_contents rb)"
    using last_chunks [of ?n "rb_contents rb"] assms(2) es inv(2) ne by (simp add: rq_elements_def)
  define p where "p = unat ((rb_w rb - es + rb_capacity rb) mod rb_capacity rb)"
  have pe: "p = (if ?n \<le> ?w then ?w - ?n else (?c - (?n - ?w)) mod ?c)"
    using back_cursor [OF inv(1) es(2) lec assms(5)] by (simp add: p_def word_le_nat_alt)
  have sz: "\<not> ring_buffer_size (Some rb) < es"
    using le by (simp add: word_less_nat_alt unat_size)
  have wt: "ring_buffer_wait_for_read W t rb = (STATE_CODE_NO_ERROR, rb)"
    using wait_for_read_ready [OF inv(1) ne] by simp
  have same: "q\<lparr>rq_buffer := Some (rb\<lparr>rb_r := rb_r rb, rb_full := rb_full rb\<rparr>)\<rparr> = q"
    "q\<lparr>rq_buffer := Some rb\<rparr> = q" using assms(2) by simp_all
  show ?thesis
  proof (cases "?w = 0 \<or> ?n \<le> ?w")
    case True
    then have pc: "p = (if ?n \<le> ?w then ?w - ?n else ?c - ?n)" using pe es lec by auto
    have fit: "p + ?n \<le> length (rb_data rb)" using pc D(2,4) lec by auto
    have "ring_slice (rb_data rb) p ?n = last (rq_elements q)"
      using back_slice [OF inv(1) es(2) le True pc] lst by simp
    moreover have "length (last (rq_elements q)) = ?n" using lst le by simp
    ultimately show ?thesis
      using True fit wt sz same assms(2,4) es D(6)
      by (simp add: ring_queue_peek_back_timeout_def mem_simps p_def Let_def)
  next
    case False
    then have "?c - (?n - ?w) < ?c" using lec D(1) by linarith
    with pe False have "p = ?c - (?n - ?w)" by (metis mod_less)
    then have "\<not> p + ?n \<le> length (rb_data rb)" using False D(2) lec by simp
    then show ?thesis
      using False wt sz assms(2) es D(6)
      by (simp add: ring_queue_peek_back_timeout_def umod_def mem_read_def p_def Let_def)
  qed
qed

text \<open>
  pushing an array appends its elements in order.\<close>

theorem ring_queue_push_array_appends:
  assumes "awtk_ok A" "rq_inv es q" "unat es * unat n < 2 ^ 32" "rq_can (unat n) q"
    "unat es * unat n \<le> length b"
  shows "\<exists>q'. ring_queue_push_array_timeout A W (Some q) (Some b) n t
      = Some (STATE_CODE_NO_ERROR, Some q')
    \<and> rq_inv es q' \<and> rq_elements q' = rq_elements q @ chunks (unat es) (take (unat es * unat n) b)"
proof -
  obtain rb where rb: "rq_buffer q = Some rb" "rb_inv rb" "unat es dvd rb_used rb"
    and es: "rq_element_size q = es" "0 < unat es"
    using assms(2) by (auto simp: rq_inv_def split: option.splits)
  have n: "unat (es * n) = unat es * unat n" using assms(3) by (simp add: unat_word_ariths)
  have "unat (es * n) < rb_free rb"
    using assms(4) rb es n by (simp add: rq_can_def rb_free_def mult.commute)
  then obtain rb' where rb': "ring_buffer_write_len_timeout A W (Some rb) (Some b) (es * n) t
      = Some (STATE_CODE_NO_ERROR, Some rb')" "rb_inv rb'"
      "rb_contents rb' = rb_contents rb @ take (unat (es * n)) b"
    using push_appends [OF assms(1) rb(2), of "es * n" b W t] assms(5) n by auto
  have "rb_used rb' = rb_used rb + unat es * unat n"
    using used_contents [OF rb'(3)] assms(5) n by (simp add: min_absorb2)
  then show ?thesis
    using rb es rb' n by (auto simp: ring_queue_push_array_timeout_def rq_inv_def rq_elements_def
        chunks_append)
qed

text \<open>a created queue is empty and holds every number of elements below its first capacity.\<close>

theorem ring_queue_create_empty:
  assumes "awtk_ok A" "ring_queue_create A m e es mx = Some q" "unat es * unat mx < 2 ^ 32"
  shows "rq_inv es q \<and> rq_elements q = []
    \<and> (\<forall>n. n * unat es < max 32 (unat es * (unat mx div 2)) \<longrightarrow> rq_can n q)"
proof -
  have le: "unat es * (unat mx div 2) \<le> unat es * unat mx" by simp
  have half: "unat (mx div 2) = unat mx div 2" by (simp add: unat_div)
  have "unat es * (unat mx div 2) < 2 ^ 32" using le assms(3) by (rule le_less_trans)
  then have i: "unat (es * (mx div 2)) = unat es * (unat mx div 2)"
    using assms(3) half by (simp add: unat_word_ariths(2))
  have A: "tk_max A x y = max x y" for x y using assms(1) by (simp add: awtk_ok_def)
  obtain rb where rb: "ring_buffer_create A e (max 32 (es * (mx div 2))) (es * mx) = Some rb"
    and q: "q = \<lparr>rq_buffer = Some rb, rq_element_size = es, rq_max_elements = mx\<rparr>" "0 < es"
    using assms(2) by (auto simp: ring_queue_create_def A Let_def split: if_splits option.splits)
  have inv: "rb_inv rb" "rb_used rb = 0" "rb_capacity rb = max 32 (es * (mx div 2))"
    using ring_buffer_create_inv [OF assms(1) rb] by simp_all
  have "unat (rb_capacity rb) = max 32 (unat es * (unat mx div 2))"
    using inv(3) i by (auto simp: max_def word_le_nat_alt)
  moreover have "rb_contents rb = []" using inv(2) by (simp add: rb_contents_def)
  ultimately show ?thesis
    using q inv by (auto simp: rq_inv_def rq_elements_def rq_can_def word_less_nat_alt)
qed

section \<open>Witnesses\<close>

text \<open>Two-byte elements in an eight-byte ring: the elements (3,4) and (5,6).\<close>

definition rq0 :: ring_queue where
  "rq0 = \<lparr>rq_buffer = Some \<lparr>rb_r = 2, rb_w = 6, rb_full = False, rb_capacity = 8,
            rb_max_capacity = 8, rb_data = [1, 2, 3, 4, 5, 6, 7, 8]\<rparr>,
          rq_element_size = 2, rq_max_elements = 4\<rparr>"

abbreviation "rq0_rb \<equiv> \<lparr>rb_r = 2, rb_w = 6, rb_full = False, rb_capacity = 8,
            rb_max_capacity = 8, rb_data = [1, 2, 3, 4, 5, 6, 7, 8]\<rparr> :: ring_buffer"

lemma rq0_used: "rb_used rq0_rb = 4"
  by (simp add: rb_used_def ring_buffer_size_def word_le_nat_alt)

lemma rq0_inv: "rq_inv 2 rq0"
  by (simp add: rq_inv_def rq0_def rq0_used) (simp add: rb_inv_def)

lemma rq0_contents: "rb_contents rq0_rb = [3, 4, 5, 6]"
  unfolding rb_contents_def rq0_used ring_slice_def by (simp add: upt_rec)

lemma rq0_elements: "rq_elements rq0 = [[3, 4], [5, 6]]"
  by (simp add: rq_elements_def rq0_def rq0_contents chunks.simps)

lemma rq0_can: "rq_can n rq0 \<longleftrightarrow> n < 2"
  by (auto simp: rq_can_def rq0_def rq0_used)

lemma ring_queue_fifo_witness:
  "\<exists>q'. q_run (rq_put awtk0 waits0) (rq_get awtk0 waits0) rq0 [Put [7, 8], Get, Get, Get, Get]
      = Some ([[3, 4], [5, 6], [7, 8]], q') \<and> rq_inv 2 q' \<and> rq_elements q' = []"
  using ring_queue_fifo [OF awtk0_ok rq0_inv, of "[Put [7, 8], Get, Get, Get, Get]" waits0]
  by (simp add: rq0_can rq0_elements)

lemma ring_queue_peek_back_newest_witness:
  "ring_queue_peek_back_timeout waits0 (Some rq0) (Some [0, 0]) 0
     = Some ((STATE_CODE_NO_ERROR, Some [5, 6]), Some rq0)"
  using ring_queue_peek_back_newest [of 2 rq0 rq0_rb "[0, 0]" waits0 0] rq0_inv
  by (simp add: rq0_elements) (simp add: rq0_def)

lemma ring_queue_push_array_appends_witness:
  "\<exists>q'. ring_queue_push_array_timeout awtk0 waits0 (Some rq0) (Some [9, 10]) 1 0
      = Some (STATE_CODE_NO_ERROR, Some q') \<and> rq_elements q' = [[3, 4], [5, 6], [9, 10]]"
  using ring_queue_push_array_appends [OF awtk0_ok rq0_inv, of 1 "[9, 10]" waits0 0]
  by (auto simp: rq0_can rq0_elements chunks.simps)

lemma ring_queue_create_empty_witness:
  "\<exists>q. ring_queue_create awtk0 True \<lparr>rc_malloc_struct = True, rc_malloc_data = True,
      rc_mutex_init = True, rc_read_cond_init = True, rc_write_cond_init = True\<rparr> 8 16 = Some q
    \<and> rq_inv 8 q \<and> rq_elements q = [] \<and> rq_can 7 q"
proof -
  let ?e = "\<lparr>rc_malloc_struct = True, rc_malloc_data = True, rc_mutex_init = True,
    rc_read_cond_init = True, rc_write_cond_init = True\<rparr>"
  obtain q where c: "ring_queue_create awtk0 True ?e 8 16 = Some q"
    by (simp add: ring_queue_create_def ring_buffer_create_def awtk0_def)
  from ring_queue_create_empty [OF awtk0_ok c] show ?thesis unfolding c by simp
qed

end
