(* ===== verification/Thread_Safe_Queue.thy ===== *)
theory Thread_Safe_Queue
  imports Interfaces
begin

text \<open>
  \<^verbatim>\<open>common/thread_safe_queue.c\<close>: the linked queue of data pointers.  The heap holds the nodes and
  the data blocks (\<open>'b\<close> is what a block contains); the record has the fields of \<^verbatim>\<open>Queue\<close> without
  the mutex and the condition variable.  Every operation is its critical section; a wait is
  answered by a function that is given the deadline (none for an untimed wait) and returns the
  return code and the queue and heap as the other threads left them.
\<close>

section \<open>State\<close>

record qnode =
  qn_data :: addr
  qn_data_size :: u64
  qn_next :: "addr ptr"

record 'b qheap =
  hp_nodes :: "addr \<rightharpoonup> qnode"
  hp_blocks :: "addr \<rightharpoonup> 'b"

record tqueue =
  q_front :: "addr ptr"
  q_rear :: "addr ptr"
  q_size :: u64
  q_is_destroyed :: bool

type_synonym 'b q_answer = "timespec ptr \<Rightarrow> int \<times> tqueue \<times> 'b qheap"

definition ETIMEDOUT :: int where "ETIMEDOUT = 110"

definition queue_create :: "bool \<Rightarrow> bool \<Rightarrow> bool \<Rightarrow> tqueue ptr" where
  "queue_create malloc_ok mutex_init_ok cond_init_ok =
     (if \<not> malloc_ok then None
      else (let queue = \<lparr>q_front = None, q_rear = None, q_size = 0, q_is_destroyed = False\<rparr> in
        if \<not> mutex_init_ok then None
        else if \<not> cond_init_ok then None
        else Some queue))"

section \<open>Enqueue\<close>

definition set_next :: "(addr \<rightharpoonup> qnode) \<Rightarrow> addr \<Rightarrow> addr ptr \<Rightarrow> (addr \<rightharpoonup> qnode) option" where
  "set_next h a v = (case h a of None \<Rightarrow> None | Some n \<Rightarrow> Some (h(a \<mapsto> n\<lparr>qn_next := v\<rparr>)))"

definition queue_enqueue_timeout ::
    "((addr \<rightharpoonup> qnode) \<Rightarrow> addr ptr) \<Rightarrow> bool \<Rightarrow> tqueue ptr \<Rightarrow> 'b qheap \<Rightarrow> addr ptr \<Rightarrow> u64 \<Rightarrow> int
     \<Rightarrow> (int \<times> tqueue ptr \<times> 'b qheap) option" where
  "queue_enqueue_timeout malloc lock_ok p hp data data_size timeout_ms =
     (case (p, data) of
        (Some queue, Some d) \<Rightarrow>
          if data_size = 0 then Some (-1, p, hp)
          else if \<not> lock_ok then Some (-1, p, hp)
          else if q_is_destroyed queue then Some (-1, p, hp)
          else (case malloc (hp_nodes hp) of
            None \<Rightarrow> Some (-1, p, hp)
          | Some node \<Rightarrow>
              (let h = (hp_nodes hp)(node \<mapsto>
                   \<lparr>qn_data = d, qn_data_size = data_size, qn_next = None\<rparr>) in
               do { (h, queue) \<leftarrow> (case q_rear queue of
                        Some r \<Rightarrow> do { h \<leftarrow> set_next h r (Some node); Some (h, queue) }
                      | None \<Rightarrow> Some (h, queue\<lparr>q_front := Some node\<rparr>));
                    Some (0, Some (queue\<lparr>q_rear := Some node, q_size := q_size queue + 1\<rparr>),
                          hp\<lparr>hp_nodes := h\<rparr>) }))
      | _ \<Rightarrow> Some (-1, p, hp))"

definition queue_enqueue where
  "queue_enqueue malloc lock_ok p hp data data_size =
     queue_enqueue_timeout malloc lock_ok p hp data data_size (-1)"

section \<open>Dequeue\<close>

text \<open>The wait loop: \<open>Inl\<close> is the early return with NULL, \<open>Inr\<close> the state after the loop.\<close>

fun dequeue_wait :: "int \<Rightarrow> timespec ptr \<Rightarrow> 'b q_answer list \<Rightarrow> tqueue \<Rightarrow> 'b qheap
    \<Rightarrow> (tqueue \<times> 'b qheap + tqueue \<times> 'b qheap) outcome" where
  "dequeue_wait timeout_ms abs_timeout [] queue hp =
     (if q_size queue = 0 \<and> \<not> q_is_destroyed queue \<and> timeout_ms \<noteq> 0 then Blocked
      else Returned (Inr (queue, hp)))"
| "dequeue_wait timeout_ms abs_timeout (answer # answers) queue hp =
     (if q_size queue = 0 \<and> \<not> q_is_destroyed queue \<and> timeout_ms \<noteq> 0 then
        (if 0 < timeout_ms then
           (let (ret, queue, hp) = answer abs_timeout in
            if ret = ETIMEDOUT then Returned (Inl (queue, hp))
            else if ret \<noteq> 0 then Returned (Inl (queue, hp))
            else dequeue_wait timeout_ms abs_timeout answers queue hp)
         else
           (let (ret, queue, hp) = answer None in
            if ret \<noteq> 0 then Returned (Inl (queue, hp))
            else dequeue_wait timeout_ms abs_timeout answers queue hp))
      else Returned (Inr (queue, hp)))"

text \<open>The part after the loop: unlink the front node.  The result is the data and its size.\<close>

definition dequeue_take :: "tqueue \<Rightarrow> 'b qheap \<Rightarrow> ((addr ptr \<times> u64) \<times> tqueue \<times> 'b qheap) option" where
  "dequeue_take queue hp =
     (if q_is_destroyed queue \<or> q_size queue = 0 then Some ((None, 0), queue, hp)
      else do {
        node \<leftarrow> q_front queue;
        n \<leftarrow> hp_nodes hp node;
        let queue = queue\<lparr>q_front := qn_next n\<rparr>;
        let queue = (if q_front queue = None then queue\<lparr>q_rear := None\<rparr> else queue);
        let queue = queue\<lparr>q_size := q_size queue - 1\<rparr>;
        h \<leftarrow> h_free (hp_nodes hp) node;
        Some ((Some (qn_data n), qn_data_size n), queue, hp\<lparr>hp_nodes := h\<rparr>) })"

text \<open>\<open>now\<close> is the answer of \<^verbatim>\<open>clock_gettime\<close>, NULL when it fails.\<close>

definition queue_dequeue_timeout ::
    "bool \<Rightarrow> timespec ptr \<Rightarrow> 'b q_answer list \<Rightarrow> tqueue ptr \<Rightarrow> 'b qheap \<Rightarrow> int
     \<Rightarrow> ((addr ptr \<times> u64) \<times> tqueue ptr \<times> 'b qheap) outcome option" where
  "queue_dequeue_timeout lock_ok now answers p hp timeout_ms =
     (case p of None \<Rightarrow> Some (Returned ((None, 0), None, hp))
      | Some queue \<Rightarrow>
          if \<not> lock_ok then Some (Returned ((None, 0), p, hp))
          else if 0 < timeout_ms \<and> now = None then Some (Returned ((None, 0), p, hp))
          else
            (let abs_timeout = (if 0 < timeout_ms
                   then map_option (\<lambda>ts. timespec_add_ms ts timeout_ms) now else None) in
             case dequeue_wait timeout_ms abs_timeout answers queue hp of
               Blocked \<Rightarrow> Some Blocked
             | Returned (Inl (queue, hp)) \<Rightarrow> Some (Returned ((None, 0), Some queue, hp))
             | Returned (Inr (queue, hp)) \<Rightarrow>
                 map_option (\<lambda>(r, queue, hp). Returned (r, Some queue, hp))
                   (dequeue_take queue hp)))"

definition queue_dequeue where
  "queue_dequeue lock_ok now answers p hp = queue_dequeue_timeout lock_ok now answers p hp (-1)"

section \<open>Search and removal by pattern\<close>

text \<open>
  \<^verbatim>\<open>match_func\<close> sees the contents of the data block.  The copy is made by \<^verbatim>\<open>memcpy\<close> of
  \<^verbatim>\<open>data_size\<close> bytes into a block of that size.
\<close>

partial_function (option) find_loop ::
    "((addr \<rightharpoonup> u8 list) \<Rightarrow> addr ptr) \<Rightarrow> (u8 list \<Rightarrow> u64 \<Rightarrow> bool) \<Rightarrow> addr ptr \<Rightarrow> u8 list qheap
     \<Rightarrow> ((addr ptr \<times> u64) \<times> u8 list qheap) option" where
  "find_loop malloc match current hp =
     (case current of
        None \<Rightarrow> Some ((None, 0), hp)
      | Some c \<Rightarrow> do {
          n \<leftarrow> hp_nodes hp c;
          b \<leftarrow> hp_blocks hp (qn_data n);
          if match b (qn_data_size n) then
            (case malloc (hp_blocks hp) of
               None \<Rightarrow> find_loop malloc match (qn_next n) hp
             | Some f \<Rightarrow> do {
                 bs \<leftarrow> mem_read b 0 (unat (qn_data_size n));
                 Some ((Some f, qn_data_size n),
                       hp\<lparr>hp_blocks := (hp_blocks hp)(f \<mapsto> bs)\<rparr>) })
          else find_loop malloc match (qn_next n) hp })"

definition queue_find_wildcard ::
    "((addr \<rightharpoonup> u8 list) \<Rightarrow> addr ptr) \<Rightarrow> tqueue ptr \<Rightarrow> u8 list qheap
     \<Rightarrow> (u8 list \<Rightarrow> u64 \<Rightarrow> 'p \<Rightarrow> bool) ptr \<Rightarrow> 'p \<Rightarrow> ((addr ptr \<times> u64) \<times> u8 list qheap) option" where
  "queue_find_wildcard malloc p hp match_func pattern =
     (case (p, match_func) of
        (Some queue, Some match) \<Rightarrow>
          find_loop malloc (\<lambda>b n. match b n pattern) (q_front queue) hp
      | _ \<Rightarrow> Some ((None, 0), hp))"

partial_function (option) count_loop ::
    "('b \<Rightarrow> u64 \<Rightarrow> bool) \<Rightarrow> 'b qheap \<Rightarrow> addr ptr \<Rightarrow> nat \<Rightarrow> nat option" where
  "count_loop match hp current count =
     (case current of
        None \<Rightarrow> Some count
      | Some c \<Rightarrow> do {
          n \<leftarrow> hp_nodes hp c;
          b \<leftarrow> hp_blocks hp (qn_data n);
          count_loop match hp (qn_next n) (if match b (qn_data_size n) then count + 1 else count) })"

text \<open>
  \<^verbatim>\<open>QueueNode **prev\<close> points at \<^verbatim>\<open>queue->front\<close> or at the \<^verbatim>\<open>next\<close> field of a node.
\<close>

datatype prev_link = AtFront | AtNext addr

definition store_link :: "prev_link \<Rightarrow> addr ptr \<Rightarrow> tqueue \<Rightarrow> 'b qheap \<Rightarrow> (tqueue \<times> 'b qheap) option" where
  "store_link l v queue hp =
     (case l of AtFront \<Rightarrow> Some (queue\<lparr>q_front := v\<rparr>, hp)
      | AtNext a \<Rightarrow> do { h \<leftarrow> set_next (hp_nodes hp) a v; Some (queue, hp\<lparr>hp_nodes := h\<rparr>) })"

text \<open>The result arrays have \<open>count\<close> cells; \<open>out\<close> are the cells filled so far.\<close>

partial_function (option) remove_loop ::
    "('b \<Rightarrow> u64 \<Rightarrow> bool) \<Rightarrow> nat \<Rightarrow> prev_link \<Rightarrow> addr ptr \<Rightarrow> (addr \<times> u64) list \<Rightarrow> tqueue \<Rightarrow> 'b qheap
     \<Rightarrow> ((addr \<times> u64) list \<times> tqueue \<times> 'b qheap) option" where
  "remove_loop match count prev current out queue hp =
     (case current of
        None \<Rightarrow> Some (out, queue, hp)
      | Some c \<Rightarrow> do {
          n \<leftarrow> hp_nodes hp c;
          b \<leftarrow> hp_blocks hp (qn_data n);
          if match b (qn_data_size n) then
            (if \<not> length out < count then None
             else do {
               (queue, hp) \<leftarrow> store_link prev (qn_next n) queue hp;
               let queue = (if current = q_rear queue
                            then queue\<lparr>q_rear := (case prev of AtFront \<Rightarrow> None | AtNext a \<Rightarrow> Some a)\<rparr>
                            else queue);
               h \<leftarrow> h_free (hp_nodes hp) c;
               remove_loop match count prev (qn_next n) (out @ [(qn_data n, qn_data_size n)])
                 (queue\<lparr>q_size := q_size queue - 1\<rparr>) (hp\<lparr>hp_nodes := h\<rparr>) })
          else remove_loop match count (AtNext c) (qn_next n) out queue hp })"

text \<open>
  \<open>alloc1\<close> and \<open>alloc2\<close> are the outcomes of the two array allocations.  The result is the
  count and the two arrays, as one list of pairs, NULL when nothing was handed out.
\<close>

definition queue_remove_wildcard ::
    "bool \<Rightarrow> bool \<Rightarrow> tqueue ptr \<Rightarrow> 'b qheap \<Rightarrow> ('b \<Rightarrow> u64 \<Rightarrow> 'p \<Rightarrow> bool) ptr \<Rightarrow> 'p
     \<Rightarrow> ((nat \<times> (addr \<times> u64) list ptr) \<times> tqueue ptr \<times> 'b qheap) option" where
  "queue_remove_wildcard alloc1 alloc2 p hp match_func pattern =
     (case (p, match_func) of
        (Some queue, Some match) \<Rightarrow> do {
          count \<leftarrow> count_loop (\<lambda>b n. match b n pattern) hp (q_front queue) 0;
          if 0 < count then
            (if \<not> (alloc1 \<and> alloc2) then Some ((0, None), p, hp)
             else do {
               (out, queue, hp) \<leftarrow> remove_loop (\<lambda>b n. match b n pattern) count AtFront
                                     (q_front queue) [] queue hp;
               Some ((count, Some out), Some queue, hp) })
          else Some ((count, None), p, hp) }
      | _ \<Rightarrow> Some ((0, None), p, hp))"

section \<open>Status, clearing, destruction\<close>

definition queue_is_empty :: "tqueue ptr \<Rightarrow> bool" where
  "queue_is_empty p = (case p of None \<Rightarrow> True | Some queue \<Rightarrow> q_size queue = 0)"

definition queue_size :: "tqueue ptr \<Rightarrow> u64" where
  "queue_size p = (case p of None \<Rightarrow> 0 | Some queue \<Rightarrow> q_size queue)"

definition destroy_node :: "addr ptr \<Rightarrow> 'b qheap \<Rightarrow> 'b qheap option" where
  "destroy_node p hp =
     (case p of None \<Rightarrow> Some hp
      | Some node \<Rightarrow> do {
          n \<leftarrow> hp_nodes hp node;
          bl \<leftarrow> h_free (hp_blocks hp) (qn_data n);
          h \<leftarrow> h_free (hp_nodes hp) node;
          Some (hp\<lparr>hp_nodes := h, hp_blocks := bl\<rparr>) })"

partial_function (option) clear_loop :: "addr ptr \<Rightarrow> 'b qheap \<Rightarrow> 'b qheap option" where
  "clear_loop current hp =
     (case current of
        None \<Rightarrow> Some hp
      | Some c \<Rightarrow> do {
          n \<leftarrow> hp_nodes hp c;
          hp \<leftarrow> destroy_node current hp;
          clear_loop (qn_next n) hp })"

definition queue_clear :: "tqueue ptr \<Rightarrow> 'b qheap \<Rightarrow> (tqueue ptr \<times> 'b qheap) option" where
  "queue_clear p hp =
     (case p of None \<Rightarrow> Some (None, hp)
      | Some queue \<Rightarrow>
          if q_size queue = 0 then Some (p, hp)
          else do {
            hp \<leftarrow> clear_loop (q_front queue) hp;
            Some (Some (queue\<lparr>q_front := None, q_rear := None, q_size := 0\<rparr>), hp) })"

text \<open>The queue structure itself is freed: the pointer is dead afterwards.\<close>

definition queue_destroy :: "tqueue ptr \<Rightarrow> 'b qheap \<Rightarrow> 'b qheap option" where
  "queue_destroy p hp =
     (case p of None \<Rightarrow> Some hp
      | Some queue \<Rightarrow> map_option snd (queue_clear (Some (queue\<lparr>q_is_destroyed := True\<rparr>)) hp))"

text \<open>The two arrays of \<^verbatim>\<open>queue_remove_wildcard\<close>, through the pointers to their variables.\<close>

definition queue_free_removed_elements :: "'x ptr ptr \<Rightarrow> 'y ptr ptr \<Rightarrow> nat \<Rightarrow> 'x ptr ptr \<times> 'y ptr ptr" where
  "queue_free_removed_elements elements sizes count =
     (if elements = None \<or> sizes = None \<or> elements = Some None \<or> sizes = Some None \<or> count = 0
      then (elements, sizes) else (Some None, Some None))"

section \<open>The linked list\<close>

text \<open>A path of nodes from \<open>p\<close> to \<open>e\<close>: for each node its address, its data and the data size.\<close>

type_synonym q_item = "addr \<times> addr \<times> u64"

fun seg :: "(addr \<rightharpoonup> qnode) \<Rightarrow> addr ptr \<Rightarrow> q_item list \<Rightarrow> addr ptr \<Rightarrow> bool" where
  "seg h p [] e = (p = e)"
| "seg h p ((a, d, s) # xs) e =
     (p = Some a \<and> (\<exists>n. h a = Some n \<and> qn_data n = d \<and> qn_data_size n = s \<and> seg h (qn_next n) xs e))"

definition tq_inv :: "'b qheap \<Rightarrow> tqueue \<Rightarrow> q_item list \<Rightarrow> bool" where
  "tq_inv hp q xs \<longleftrightarrow> seg (hp_nodes hp) (q_front q) xs None \<and> distinct (map fst xs)
     \<and> q_rear q = (if xs = [] then None else Some (fst (last xs)))
     \<and> q_size q = of_nat (length xs) \<and> length xs < 2 ^ 64 \<and> finite (dom (hp_nodes hp))"

lemma seg_append: "seg h p (xs @ ys) e \<longleftrightarrow> (\<exists>m. seg h p xs m \<and> seg h m ys e)"
  by (induction h p xs e rule: seg.induct) auto

lemma seg_frame: "a \<notin> fst ` set xs \<Longrightarrow> seg (h(a := v)) p xs e = seg h p xs e"
  by (induction h p xs e rule: seg.induct) auto

lemma seg_snoc_update:
  "\<lbrakk>seg h p (xs @ [(b, d, s)]) e; b \<notin> fst ` set xs\<rbrakk> \<Longrightarrow>
   \<exists>h'. set_next h b v = Some h' \<and> seg h' p (xs @ [(b, d, s)]) v \<and> dom h' = dom h
     \<and> (\<forall>a. a \<noteq> b \<longrightarrow> h' a = h a)"
  by (auto simp: seg_append set_next_def seg_frame)

lemma seg_cong: "(\<And>a. a \<in> fst ` set xs \<Longrightarrow> h' a = h a) \<Longrightarrow> seg h' p xs e = seg h p xs e"
proof (induction xs arbitrary: p)
  case (Cons x xs)
  obtain a d s where "x = (a, d, s)" by (cases x)
  with Cons show ?case by simp
qed simp

lemma seg_dom: "seg h p xs e \<Longrightarrow> fst ` set xs \<subseteq> dom h"
  by (induction h p xs e rule: seg.induct) auto

lemma unat_of_nat64: "n < 2 ^ 64 \<Longrightarrow> unat (of_nat n :: u64) = n"
  by (simp add: unat_of_nat)

lemma of_nat64_eq_0: "n < 2 ^ 64 \<Longrightarrow> (of_nat n :: u64) = 0 \<longleftrightarrow> n = 0"
proof
  assume "n < 2 ^ 64" "(of_nat n :: u64) = 0"
  with unat_of_nat64 [of n] show "n = 0" by (simp only: unat_0)
qed simp

lemma enqueue_appends:
  assumes inv: "tq_inv hp q xs" and nd: "\<not> q_is_destroyed q" and s: "s \<noteq> 0"
    and al: "malloc (hp_nodes hp) = Some a" "hp_nodes hp a = None" and len: "Suc (length xs) < 2 ^ 64"
  shows "\<exists>q' hp'. queue_enqueue_timeout malloc True (Some q) hp (Some d) s t = Some (0, Some q', hp')
    \<and> tq_inv hp' q' (xs @ [(a, d, s)]) \<and> hp_blocks hp' = hp_blocks hp
    \<and> q_is_destroyed q' = q_is_destroyed q"
proof -
  let ?n = "\<lparr>qn_data = d, qn_data_size = s, qn_next = None\<rparr>"
  let ?h = "(hp_nodes hp)(a \<mapsto> ?n)"
  have notin: "a \<notin> fst ` set xs"
    using inv al(2) seg_dom [of "hp_nodes hp" "q_front q" xs None] by (auto simp: tq_inv_def)
  show ?thesis
  proof (cases xs rule: rev_cases)
    case Nil
    then show ?thesis using inv nd s al
      by (simp add: queue_enqueue_timeout_def tq_inv_def)
  next
    case (snoc ys y)
    obtain b e u where y: "y = (b, e, u)" by (cases y)
    have seg: "seg ?h (q_front q) (ys @ [(b, e, u)]) None" "b \<notin> fst ` set ys" "b \<noteq> a"
      using inv snoc y notin by (auto simp: tq_inv_def seg_frame simp flip: fun_upd_def)
    obtain h' where h': "set_next ?h b (Some a) = Some h'" "seg h' (q_front q) (ys @ [(b, e, u)]) (Some a)"
      "dom h' = dom ?h" "\<forall>x. x \<noteq> b \<longrightarrow> h' x = ?h x"
      using seg_snoc_update [OF seg(1,2), of "Some a"] by blast
    have "h' a = Some ?n" using h'(4) seg(3) by simp
    then have "seg h' (q_front q) (xs @ [(a, d, s)]) None"
      using h'(2) snoc y by (simp only: seg_append) auto
    moreover have "finite (dom h')" using h'(3) inv by (simp add: tq_inv_def)
    moreover have rear: "q_rear q = Some b" using inv snoc y by (simp add: tq_inv_def)
    then have "queue_enqueue_timeout malloc True (Some q) hp (Some d) s t
        = Some (0, Some (q\<lparr>q_rear := Some a, q_size := q_size q + 1\<rparr>), hp\<lparr>hp_nodes := h'\<rparr>)"
      using nd s al h'(1) by (simp add: queue_enqueue_timeout_def)
    ultimately show ?thesis using inv nd notin len by (simp add: tq_inv_def)
  qed
qed

lemma dequeue_take_front:
  assumes inv: "tq_inv hp q ((a, d, s) # xs)" and nd: "\<not> q_is_destroyed q"
  shows "\<exists>q'. dequeue_take q hp = Some ((Some d, s), q', hp\<lparr>hp_nodes := (hp_nodes hp)(a := None)\<rparr>)
    \<and> tq_inv (hp\<lparr>hp_nodes := (hp_nodes hp)(a := None)\<rparr>) q' xs
    \<and> q_is_destroyed q' = q_is_destroyed q"
proof -
  let ?h = "(hp_nodes hp)(a := None)"
  obtain n where n: "hp_nodes hp a = Some n" "qn_data n = d" "qn_data_size n = s"
    "seg (hp_nodes hp) (qn_next n) xs None" and front: "q_front q = Some a"
    and notin: "a \<notin> fst ` set xs"
    using inv by (auto simp: tq_inv_def)
  have seg: "seg ?h (qn_next n) xs None" using n(4) notin by (simp add: seg_frame)
  have nz: "q_size q \<noteq> 0" using inv of_nat64_eq_0 [of "length ((a, d, s) # xs)"] by (simp add: tq_inv_def)
  have null: "qn_next n = None \<longleftrightarrow> xs = []" using n(4) by (cases xs) auto
  show ?thesis
    using inv n front seg nz null nd
    by (auto simp: dequeue_take_def tq_inv_def mem_simps Let_def)
qed

lemma dequeue_take_empty:
  "tq_inv hp q [] \<Longrightarrow> dequeue_take q hp = Some ((None, 0), q, hp)"
  by (simp add: dequeue_take_def tq_inv_def)

section \<open>A first-in-first-out queue\<close>

text \<open>The items read off the heap, as many as the size says.\<close>

fun walk :: "(addr \<rightharpoonup> qnode) \<Rightarrow> nat \<Rightarrow> addr ptr \<Rightarrow> q_item list" where
  "walk h 0 p = []"
| "walk h (Suc n) p = (case p of None \<Rightarrow> []
     | Some a \<Rightarrow> (case h a of None \<Rightarrow> []
         | Some nd \<Rightarrow> (a, qn_data nd, qn_data_size nd) # walk h n (qn_next nd)))"

definition tq_items :: "tqueue \<Rightarrow> 'b qheap \<Rightarrow> q_item list" where
  "tq_items q hp = walk (hp_nodes hp) (unat (q_size q)) (q_front q)"

lemma walk_seg: "seg h p xs None \<Longrightarrow> walk h (length xs) p = xs"
  by (induction h p xs "None :: addr ptr" rule: seg.induct) auto

lemma tq_items_eq: "tq_inv hp q xs \<Longrightarrow> tq_items q hp = xs"
  by (simp add: tq_items_def tq_inv_def unat_of_nat64 walk_seg)

text \<open>Successful puts and non-blocking gets.\<close>

definition tq_put :: "((addr \<rightharpoonup> qnode) \<Rightarrow> addr ptr) \<Rightarrow> addr \<times> u64 \<Rightarrow> tqueue \<times> 'b qheap
    \<Rightarrow> (tqueue \<times> 'b qheap) option" where
  "tq_put malloc x s =
     do { (r, p, hp) \<leftarrow> queue_enqueue malloc True (Some (fst s)) (snd s) (Some (fst x)) (snd x);
          q \<leftarrow> p; if r = 0 then Some (q, hp) else None }"

definition tq_get :: "tqueue \<times> 'b qheap \<Rightarrow> ((addr \<times> u64) ptr \<times> tqueue \<times> 'b qheap) option" where
  "tq_get s =
     do { out \<leftarrow> queue_dequeue_timeout True None [] (Some (fst s)) (snd s) 0;
          (case out of Blocked \<Rightarrow> None
           | Returned ((d, n), p, hp) \<Rightarrow>
               do { q \<leftarrow> p; Some (map_option (\<lambda>a. (a, n)) d, (q, hp)) }) }"

definition tq_ready :: "((addr \<rightharpoonup> qnode) \<Rightarrow> addr ptr) \<Rightarrow> tqueue \<times> 'b qheap \<Rightarrow> bool" where
  "tq_ready malloc s \<longleftrightarrow> alloc_fresh malloc \<and> alloc_total malloc
     \<and> tq_inv (snd s) (fst s) (tq_items (fst s) (snd s)) \<and> \<not> q_is_destroyed (fst s)"

definition tq_values :: "tqueue \<times> 'b qheap \<Rightarrow> (addr \<times> u64) list" where
  "tq_values s = map snd (tq_items (fst s) (snd s))"

definition tq_can :: "nat \<Rightarrow> tqueue \<times> 'b qheap \<Rightarrow> bool" where
  "tq_can n s \<longleftrightarrow> length (tq_values s) + n < 2 ^ 64"

lemma tq_readyI: "\<lbrakk>alloc_fresh malloc; alloc_total malloc; tq_inv hp q xs; \<not> q_is_destroyed q\<rbrakk>
    \<Longrightarrow> tq_ready malloc (q, hp) \<and> tq_values (q, hp) = map snd xs"
  by (simp add: tq_ready_def tq_values_def tq_items_eq)

lemma tq_put_law:
  assumes "tq_ready malloc s" "tq_can (Suc n) s" "snd x \<noteq> 0"
  shows "\<exists>s'. tq_put malloc x s = Some s' \<and> tq_ready malloc s' \<and> tq_can n s'
    \<and> tq_values s' = tq_values s @ [x]"
proof -
  obtain q hp where s: "s = (q, hp)" by (cases s)
  let ?xs = "tq_items q hp"
  have inv: "tq_inv hp q ?xs" and al: "alloc_fresh malloc" "alloc_total malloc"
    and nd: "\<not> q_is_destroyed q" using assms(1) s by (auto simp: tq_ready_def)
  obtain a where a: "malloc (hp_nodes hp) = Some a"
    using al(2) inv by (auto simp: alloc_total_def tq_inv_def)
  have len: "Suc (length ?xs) < 2 ^ 64" using assms(2) s by (simp add: tq_can_def tq_values_def)
  obtain q' hp' where e: "queue_enqueue_timeout malloc True (Some q) hp (Some (fst x)) (snd x) (-1)
      = Some (0, Some q', hp')" "tq_inv hp' q' (?xs @ [(a, fst x, snd x)])" "\<not> q_is_destroyed q'"
    using enqueue_appends [where malloc = malloc and a = a and t = "-1" and d = "fst x", OF inv nd assms(3) a alloc_freshD [OF al(1) a] len] nd by metis
  have "tq_values (q, hp) = map snd ?xs" by (simp add: tq_values_def)
  with tq_readyI [OF al e(2,3)] e(1) s assms(2) show ?thesis
    by (simp add: tq_put_def queue_enqueue_def tq_can_def)
qed

lemma dequeue_now:
  "queue_dequeue_timeout True None [] (Some q) hp 0
   = map_option (\<lambda>(r, q, hp). Returned (r, Some q, hp)) (dequeue_take q hp)"
  by (simp add: queue_dequeue_timeout_def)

lemma tq_get_law:
  assumes "tq_ready malloc s" "tq_can n s" "tq_values s = x # xs"
  shows "\<exists>s'. tq_get s = Some (Some x, s') \<and> tq_ready malloc s' \<and> tq_can n s' \<and> tq_values s' = xs"
proof -
  obtain q hp where s: "s = (q, hp)" by (cases s)
  have inv: "tq_inv hp q (tq_items q hp)" and al: "alloc_fresh malloc" "alloc_total malloc"
    and nd: "\<not> q_is_destroyed q" using assms(1) s by (auto simp: tq_ready_def)
  obtain a d n ys where it: "tq_items q hp = (a, d, n) # ys" "x = (d, n)" "xs = map snd ys"
    using assms(3) s by (auto simp: tq_values_def)
  obtain q' hp' where e: "dequeue_take q hp = Some ((Some d, n), q', hp')" "tq_inv hp' q' ys"
      "\<not> q_is_destroyed q'"
    using dequeue_take_front [of hp q a d n ys] inv it(1) nd by auto
  have "tq_values (q, hp) = x # xs" using it by (simp add: tq_values_def)
  with tq_readyI [OF al e(2,3)] e(1) s it assms(2) show ?thesis
    by (simp add: tq_get_def dequeue_now tq_can_def)
qed

lemma tq_get_empty:
  assumes "tq_ready malloc s" "tq_values s = []"
  shows "tq_get s = Some (None, s)"
proof -
  have "tq_inv (snd s) (fst s) []" using assms by (simp add: tq_ready_def tq_values_def)
  from dequeue_take_empty [OF this] show ?thesis by (cases s) (simp add: tq_get_def dequeue_now)
qed

interpretation tsq: fifo "tq_ready malloc" tq_values tq_can "\<lambda>x. snd x \<noteq> 0" "tq_put malloc" tq_get
  by unfold_locales (rule tq_put_law tq_get_law; assumption | simp add: tq_get_empty)+


section \<open>Removal\<close>

definition matches :: "('b \<Rightarrow> u64 \<Rightarrow> bool) \<Rightarrow> (addr \<rightharpoonup> 'b) \<Rightarrow> q_item \<Rightarrow> bool" where
  "matches match bl x = (case bl (fst (snd x)) of None \<Rightarrow> False | Some b \<Rightarrow> match b (snd (snd x)))"

lemma matches_item: "bl d = Some b \<Longrightarrow> matches match bl (a, d, s) = match b s"
  by (simp add: matches_def)

text \<open>Every data pointer in the queue is allocated.\<close>

definition data_live :: "(addr \<rightharpoonup> 'b) \<Rightarrow> q_item list \<Rightarrow> bool" where
  "data_live bl xs \<longleftrightarrow> (\<forall>x \<in> set xs. bl (fst (snd x)) \<noteq> None)"

lemma data_live_simps [simp]:
  "data_live bl []"
  "data_live bl (x # xs) \<longleftrightarrow> bl (fst (snd x)) \<noteq> None \<and> data_live bl xs"
  by (auto simp: data_live_def)

lemma count_loop_eq:
  "\<lbrakk>seg (hp_nodes hp) p xs None; data_live (hp_blocks hp) xs\<rbrakk> \<Longrightarrow>
   count_loop match hp p c = Some (c + length (filter (matches match (hp_blocks hp)) xs))"
proof (induction xs arbitrary: p c)
  case Nil
  then show ?case by (subst count_loop.simps) simp
next
  case (Cons x xs)
  obtain a d s where x: "x = (a, d, s)" by (cases x)
  from Cons x show ?case by (subst count_loop.simps) (auto simp: matches_item)
qed

definition link_of :: "q_item list \<Rightarrow> prev_link" where
  "link_of ks = (if ks = [] then AtFront else AtNext (fst (last ks)))"

lemma store_link_seg:
  assumes "seg (hp_nodes hp) (q_front q) ks c" "distinct (map fst ks)"
  shows "\<exists>q' hp'. store_link (link_of ks) v q hp = Some (q', hp')
    \<and> seg (hp_nodes hp') (q_front q') ks v \<and> q_rear q' = q_rear q \<and> q_size q' = q_size q
    \<and> q_is_destroyed q' = q_is_destroyed q \<and> hp_blocks hp' = hp_blocks hp
    \<and> dom (hp_nodes hp') = dom (hp_nodes hp)
    \<and> (\<forall>a. a \<notin> fst ` set ks \<longrightarrow> hp_nodes hp' a = hp_nodes hp a)"
proof (cases ks rule: rev_cases)
  case Nil
  then show ?thesis by (simp add: store_link_def link_of_def)
next
  case (snoc ys y)
  obtain b d s where y: "y = (b, d, s)" by (cases y)
  obtain h' where h': "set_next (hp_nodes hp) b v = Some h'" "seg h' (q_front q) (ys @ [(b, d, s)]) v"
    "dom h' = dom (hp_nodes hp)" "\<forall>a. a \<noteq> b \<longrightarrow> h' a = hp_nodes hp a"
    using seg_snoc_update [of "hp_nodes hp" "q_front q" ys b d s c v] assms snoc y by auto
  then show ?thesis using snoc y by (auto simp: store_link_def link_of_def)
qed

text \<open>\<open>ks\<close> are the nodes kept so far, \<open>rs\<close> the nodes still to visit.\<close>

definition removing :: "'b qheap \<Rightarrow> tqueue \<Rightarrow> q_item list \<Rightarrow> q_item list \<Rightarrow> addr ptr \<Rightarrow> bool" where
  "removing hp q ks rs current \<longleftrightarrow> seg (hp_nodes hp) (q_front q) ks current
     \<and> seg (hp_nodes hp) current rs None \<and> distinct (map fst (ks @ rs))
     \<and> q_rear q = (if ks @ rs = [] then None else Some (fst (last (ks @ rs))))
     \<and> q_size q = of_nat (length (ks @ rs)) \<and> length (ks @ rs) < 2 ^ 64
     \<and> finite (dom (hp_nodes hp))"

lemma removing_done: "removing hp q ks [] None \<Longrightarrow> tq_inv hp q ks"
  by (simp add: removing_def tq_inv_def)

lemma removing_start: "tq_inv hp q xs \<Longrightarrow> removing hp q [] xs (q_front q)"
  by (simp add: removing_def tq_inv_def)

lemma removing_keep:
  "\<lbrakk>removing hp q ks ((a, d, s) # rs) current; hp_nodes hp a = Some n\<rbrakk>
   \<Longrightarrow> removing hp q (ks @ [(a, d, s)]) rs (qn_next n)"
  by (auto simp: removing_def seg_append)

lemma removing_unlink:
  assumes r: "removing hp q ks ((a, d, s) # rs) current" and n: "hp_nodes hp a = Some n"
  shows "\<exists>q1 hp1 h. store_link (link_of ks) (qn_next n) q hp = Some (q1, hp1)
    \<and> h_free (hp_nodes hp1) a = Some h \<and> hp_blocks hp1 = hp_blocks hp
    \<and> q_rear q1 = q_rear q \<and> q_size q1 = q_size q \<and> q_is_destroyed q1 = q_is_destroyed q
    \<and> removing (hp1\<lparr>hp_nodes := h\<rparr>)
        ((if current = q_rear q
          then q1\<lparr>q_rear := (case link_of ks of AtFront \<Rightarrow> None | AtNext b \<Rightarrow> Some b)\<rparr>
          else q1)\<lparr>q_size := q_size q - 1\<rparr>) ks rs (qn_next n)"
proof -
  have segs: "seg (hp_nodes hp) (q_front q) ks current" "current = Some a"
    "seg (hp_nodes hp) (qn_next n) rs None"
    and dist: "distinct (map fst ks)" "a \<notin> fst ` set ks" "a \<notin> fst ` set rs"
      "fst ` set ks \<inter> fst ` set rs = {}" "distinct (map fst rs)"
    using r n by (auto simp: removing_def)
  obtain q1 hp1 where s: "store_link (link_of ks) (qn_next n) q hp = Some (q1, hp1)"
    "seg (hp_nodes hp1) (q_front q1) ks (qn_next n)" "q_rear q1 = q_rear q" "q_size q1 = q_size q"
    "q_is_destroyed q1 = q_is_destroyed q" "hp_blocks hp1 = hp_blocks hp"
    "dom (hp_nodes hp1) = dom (hp_nodes hp)"
    "\<forall>b. b \<notin> fst ` set ks \<longrightarrow> hp_nodes hp1 b = hp_nodes hp b"
    using store_link_seg [OF segs(1) dist(1), of "qn_next n"] by metis
  let ?h = "(hp_nodes hp1)(a := None)"
  have h: "h_free (hp_nodes hp1) a = Some ?h"
    using s(8) dist(2) n by (simp add: mem_simps)
  have "seg (hp_nodes hp1) (qn_next n) rs None"
    using segs(3) s(8) dist(4) by (subst seg_cong [of rs _ "hp_nodes hp"]) blast+
  then have segs': "seg ?h (q_front q1) ks (qn_next n)" "seg ?h (qn_next n) rs None"
    using s(2) dist by (simp_all add: seg_frame)
  have fin: "finite (dom ?h)" using s(7) r by (simp add: removing_def)
  have last: "current = q_rear q \<longleftrightarrow> rs = []"
  proof (cases rs rule: rev_cases)
    case Nil
    then show ?thesis using r segs(2) by (simp add: removing_def)
  next
    case (snoc ys y)
    then have "fst y \<noteq> a" using dist(3) by auto
    then show ?thesis using r segs(2) snoc by (simp add: removing_def)
  qed
  have "removing (hp1\<lparr>hp_nodes := ?h\<rparr>)
        ((if current = q_rear q
          then q1\<lparr>q_rear := (case link_of ks of AtFront \<Rightarrow> None | AtNext b \<Rightarrow> Some b)\<rparr>
          else q1)\<lparr>q_size := q_size q - 1\<rparr>) ks rs (qn_next n)"
    using r segs' fin last dist s(3) by (cases "rs = []") (simp_all add: removing_def link_of_def)
  then show ?thesis using s h by auto
qed

lemma remove_loop_eq:
  "\<lbrakk>removing hp q ks rs current; data_live (hp_blocks hp) rs;
    length out + length (filter (matches match (hp_blocks hp)) rs) \<le> count\<rbrakk> \<Longrightarrow>
   \<exists>q' hp'. remove_loop match count (link_of ks) current out q hp
       = Some (out @ map snd (filter (matches match (hp_blocks hp)) rs), q', hp')
     \<and> tq_inv hp' q' (ks @ filter (\<lambda>x. \<not> matches match (hp_blocks hp) x) rs)
     \<and> hp_blocks hp' = hp_blocks hp \<and> q_is_destroyed q' = q_is_destroyed q"
proof (induction rs arbitrary: hp q ks current out)
  case Nil
  then have "current = None" by (simp add: removing_def)
  with Nil show ?case by (subst remove_loop.simps) (auto dest: removing_done)
next
  case (Cons x rs)
  obtain a d s where x: "x = (a, d, s)" by (cases x)
  obtain n b where n: "hp_nodes hp a = Some n" "qn_data n = d" "qn_data_size n = s" "current = Some a"
    and b: "hp_blocks hp d = Some b"
    using Cons.prems(1,2) x by (auto simp: removing_def)
  have m: "matches match (hp_blocks hp) x = match b s" using b x by (simp add: matches_def)
  show ?case
  proof (cases "match b s")
    case False
    have "AtNext a = link_of (ks @ [(a, d, s)])" by (simp add: link_of_def)
    moreover have "removing hp q (ks @ [(a, d, s)]) rs (qn_next n)"
      using removing_keep [OF _ n(1)] Cons.prems(1) x by simp
    ultimately show ?thesis
      using Cons.IH [of hp q "ks @ [(a, d, s)]" "qn_next n" out] Cons.prems n b m False x
      by (subst remove_loop.simps) simp
  next
    case True
    let ?q = "\<lambda>q1. (if current = q_rear q
          then q1\<lparr>q_rear := (case link_of ks of AtFront \<Rightarrow> None | AtNext b \<Rightarrow> Some b)\<rparr>
          else q1)\<lparr>q_size := q_size q - 1\<rparr>"
    obtain q1 hp1 h where u: "store_link (link_of ks) (qn_next n) q hp = Some (q1, hp1)"
      "h_free (hp_nodes hp1) a = Some h" "hp_blocks hp1 = hp_blocks hp"
      "q_rear q1 = q_rear q" "q_size q1 = q_size q" "q_is_destroyed q1 = q_is_destroyed q"
      "removing (hp1\<lparr>hp_nodes := h\<rparr>) (?q q1) ks rs (qn_next n)"
      using removing_unlink [OF _ n(1), of q ks d s rs current] Cons.prems(1) x by blast
    have "length out < count" using Cons.prems(3) m True by simp
    moreover have "q_size (if current = q_rear q then q1\<lparr>q_rear := r\<rparr> else q1) = q_size q" for r
      using u(5) by simp
    ultimately have step: "remove_loop match count (link_of ks) current out q hp
        = remove_loop match count (link_of ks) (qn_next n) (out @ [(d, s)]) (?q q1)
            (hp1\<lparr>hp_nodes := h\<rparr>)"
      using u(1-4) n b True by (subst remove_loop.simps) (simp add: Let_def del: if_split)
    have "q_is_destroyed (?q q1) = q_is_destroyed q" using u(6) by simp
    then show ?thesis
      using Cons.IH [OF u(7), of "out @ [(d, s)]"] Cons.prems(2,3) u(3) m True x
      unfolding step by (simp del: if_split)
  qed
qed

text \<open>
  C7: \<^verbatim>\<open>queue_remove_wildcard\<close> takes out exactly the matching elements, hands them out in queue
  order, and leaves the others in order in a well-formed queue (rear pointer and size repaired).\<close>

theorem queue_remove_wildcard_partitions:
  assumes "tq_inv hp q xs" "data_live (hp_blocks hp) xs"
    "filter (matches (\<lambda>b n. m b n pat) (hp_blocks hp)) xs \<noteq> []"
  shows "\<exists>q' hp'. queue_remove_wildcard True True (Some q) hp (Some m) pat
      = Some ((length (filter (matches (\<lambda>b n. m b n pat) (hp_blocks hp)) xs),
               Some (map snd (filter (matches (\<lambda>b n. m b n pat) (hp_blocks hp)) xs))), Some q', hp')
    \<and> tq_inv hp' q' (filter (\<lambda>x. \<not> matches (\<lambda>b n. m b n pat) (hp_blocks hp) x) xs)
    \<and> hp_blocks hp' = hp_blocks hp"
proof -
  let ?m = "\<lambda>b n. m b n pat"
  let ?n = "length (filter (matches ?m (hp_blocks hp)) xs)"
  have "seg (hp_nodes hp) (q_front q) xs None" using assms(1) by (simp add: tq_inv_def)
  then have "count_loop ?m hp (q_front q) 0 = Some ?n"
    using count_loop_eq [OF _ assms(2), of "q_front q" ?m 0] by simp
  moreover have "link_of [] = AtFront" by (simp add: link_of_def)
  ultimately show ?thesis
    using remove_loop_eq [OF removing_start [OF assms(1)] assms(2), of "[]" ?m ?n] assms(3)
    by (auto simp: queue_remove_wildcard_def)
qed

section \<open>Search\<close>

text \<open>The copy a search makes: as many bytes as the data size says.\<close>

definition found_copy :: "addr \<Rightarrow> u8 list qheap \<Rightarrow> q_item ptr \<Rightarrow> (addr ptr \<times> u64) \<times> u8 list qheap" where
  "found_copy f hp r = (case r of None \<Rightarrow> ((None, 0), hp)
     | Some (a, d, s) \<Rightarrow> ((Some f, s), hp\<lparr>hp_blocks := (hp_blocks hp)
         (f \<mapsto> take (unat s) (case hp_blocks hp d of None \<Rightarrow> [] | Some b \<Rightarrow> b))\<rparr>))"

lemma find_loop_eq:
  "\<lbrakk>seg (hp_nodes hp) p xs None;
    \<forall>(a, d, s) \<in> set xs. \<exists>b. hp_blocks hp d = Some b \<and> unat s \<le> length b;
    malloc (hp_blocks hp) = Some f\<rbrakk> \<Longrightarrow>
   find_loop malloc match p hp = Some (found_copy f hp (find (matches match (hp_blocks hp)) xs))"
proof (induction xs arbitrary: p)
  case Nil
  then show ?case by (subst find_loop.simps) (simp add: found_copy_def)
next
  case (Cons x xs)
  obtain a d s where x: "x = (a, d, s)" by (cases x)
  obtain b where b: "hp_blocks hp d = Some b" "unat s \<le> length b"
    using Cons.prems(2) x by auto
  from Cons x b show ?case
    by (subst find_loop.simps) (auto simp: matches_item found_copy_def mem_read_def)
qed

text \<open>
  \<^verbatim>\<open>queue_find_wildcard\<close> returns a fresh copy of the first matching element, or NULL when
  none matches; queue and existing blocks stay as they are.\<close>

theorem queue_find_wildcard_first:
  assumes "tq_inv hp q xs"
    "\<forall>(a, d, s) \<in> set xs. \<exists>b. hp_blocks hp d = Some b \<and> unat s \<le> length b"
    "malloc (hp_blocks hp) = Some f"
  shows "queue_find_wildcard malloc (Some q) hp (Some m) pat
    = Some (found_copy f hp (find (matches (\<lambda>b n. m b n pat) (hp_blocks hp)) xs))"
  using find_loop_eq [of hp "q_front q" xs malloc f "\<lambda>b n. m b n pat"] assms
  by (simp add: queue_find_wildcard_def tq_inv_def)

section \<open>Clearing\<close>

lemma restrict_map_UNIV [simp]: "m |` UNIV = m"
  by (rule ext) (simp add: restrict_map_def)

lemma restrict_map_insert: "(\<lambda>b. if b = a then None else f b) |` (- S) = f |` (- insert a S)"
  by (rule ext) (auto simp: restrict_map_def)

lemma clear_loop_eq:
  "\<lbrakk>seg (hp_nodes hp) p xs None; distinct (map fst xs); data_live (hp_blocks hp) xs;
    distinct (map (fst \<circ> snd) xs)\<rbrakk> \<Longrightarrow>
   clear_loop p hp = Some (hp\<lparr>hp_nodes := hp_nodes hp |` (- fst ` set xs),
                             hp_blocks := hp_blocks hp |` (- (fst \<circ> snd) ` set xs)\<rparr>)"
proof (induction xs arbitrary: p hp)
  case Nil
  then show ?case by (subst clear_loop.simps) simp
next
  case (Cons x xs)
  obtain a d s where x: "x = (a, d, s)" by (cases x)
  obtain n b where n: "p = Some a" "hp_nodes hp a = Some n" "qn_data n = d"
      "seg (hp_nodes hp) (qn_next n) xs None" and b: "hp_blocks hp d = Some b"
    using Cons.prems(1,3) x by auto
  let ?hp = "hp\<lparr>hp_nodes := (hp_nodes hp)(a := None), hp_blocks := (hp_blocks hp)(d := None)\<rparr>"
  have "destroy_node p hp = Some ?hp" using n b by (simp add: destroy_node_def mem_simps)
  then have step: "clear_loop p hp = clear_loop (qn_next n) ?hp"
    using n by (subst clear_loop.simps) simp
  have seg: "seg (hp_nodes ?hp) (qn_next n) xs None"
    using n(4) Cons.prems(2) x by (simp add: seg_frame)
  have live: "data_live (hp_blocks ?hp) xs"
    using Cons.prems(3,4) x by (auto simp: data_live_def)
  have dist: "distinct (map fst xs)" "distinct (map (fst \<circ> snd) xs)"
    using Cons.prems(2,4) by (simp_all add: comp_def)
  from Cons.IH [OF seg dist(1) live dist(2)] show ?case using step x by (simp add: comp_def restrict_map_insert)
qed

text \<open>
  C33: \<^verbatim>\<open>queue_destroy\<close> frees every node and every data block of the queue, each once, and nothing
  else.\<close>

theorem queue_destroy_frees_all:
  assumes "tq_inv hp q xs" "data_live (hp_blocks hp) xs" "distinct (map (fst \<circ> snd) xs)"
  shows "queue_destroy (Some q) hp = Some (hp\<lparr>hp_nodes := hp_nodes hp |` (- fst ` set xs),
                             hp_blocks := hp_blocks hp |` (- (fst \<circ> snd) ` set xs)\<rparr>)"
proof (cases "xs = []")
  case True
  then show ?thesis using assms(1) by (simp add: queue_destroy_def queue_clear_def tq_inv_def)
next
  case False
  then have "q_size q \<noteq> 0" using assms(1) of_nat64_eq_0 [of "length xs"] by (simp add: tq_inv_def)
  then show ?thesis
    using clear_loop_eq [of hp "q_front q" xs] assms
    by (simp add: queue_destroy_def queue_clear_def tq_inv_def)
qed

section \<open>Blocking\<close>

definition spurious :: "'b q_answer \<Rightarrow> bool" where
  "spurious f \<longleftrightarrow> (\<forall>ts. \<exists>q hp. f ts = (0, q, hp) \<and> q_size q = 0 \<and> \<not> q_is_destroyed q)"

lemma dequeue_wait_spurious:
  assumes t: "t \<noteq> 0" and f: "f ts = (0, q1, hp1)" "f None = (0, q1, hp1)" and nz: "q_size q1 \<noteq> 0"
  shows "\<lbrakk>\<forall>f \<in> set fs. spurious f; q_size q = 0; \<not> q_is_destroyed q\<rbrakk>
    \<Longrightarrow> dequeue_wait t ts (fs @ f # rest) q hp = Returned (Inr (q1, hp1))"
proof (induction fs arbitrary: q hp)
  case Nil
  have "dequeue_wait t ts rest q1 hp1 = Returned (Inr (q1, hp1))"
    using nz by (cases rest) simp_all
  then show ?case using Nil t f by (simp add: ETIMEDOUT_def)
next
  case (Cons g fs)
  have g: "spurious g" using Cons.prems(1) by simp
  obtain qa ha where a: "g ts = (0, qa, ha)" "q_size qa = 0" "\<not> q_is_destroyed qa"
    using g unfolding spurious_def by blast
  obtain qb hb where b: "g None = (0, qb, hb)" "q_size qb = 0" "\<not> q_is_destroyed qb"
    using g unfolding spurious_def by blast
  have "dequeue_wait t ts (fs @ f # rest) qa ha = Returned (Inr (q1, hp1))"
    "dequeue_wait t ts (fs @ f # rest) qb hb = Returned (Inr (q1, hp1))"
    using Cons.IH a b Cons.prems(1) by simp_all
  then show ?case using a b Cons.prems(2,3) t by (simp add: ETIMEDOUT_def)
qed

text \<open>
  C32: a blocked \<^verbatim>\<open>queue_dequeue_timeout\<close> goes back to waiting on every wake-up that finds the
  queue empty, and delivers the front element at the first wake-up that finds one.\<close>

theorem queue_dequeue_survives_spurious_wakeups:
  assumes "tq_inv hp q []" "\<not> q_is_destroyed q" "t \<noteq> 0" "\<forall>f \<in> set fs. spurious f"
    "\<And>ts. f ts = (0, q1, hp1)" "tq_inv hp1 q1 ((a, d, s) # xs)" "\<not> q_is_destroyed q1"
  shows "\<exists>q' hp'. queue_dequeue_timeout True (Some now) (fs @ f # rest) (Some q) hp t
      = Some (Returned ((Some d, s), Some q', hp')) \<and> tq_inv hp' q' xs"
proof -
  have nz: "q_size q1 \<noteq> 0"
    using assms(6) of_nat64_eq_0 [of "length ((a, d, s) # xs)"] by (simp add: tq_inv_def)
  have z: "q_size q = 0" using assms(1) by (simp add: tq_inv_def)
  have "dequeue_wait t ts (fs @ f # rest) q hp = Returned (Inr (q1, hp1))" for ts
    using assms(2-5) z nz by (intro dequeue_wait_spurious) simp_all
  then show ?thesis
    using dequeue_take_front [OF assms(6,7)] by (auto simp: queue_dequeue_timeout_def)
qed

section \<open>Witnesses\<close>

text \<open>Two elements: a block of two bytes, then a block of one byte.\<close>

definition tq0 :: tqueue where
  "tq0 = \<lparr>q_front = Some 1, q_rear = Some 2, q_size = 2, q_is_destroyed = False\<rparr>"

definition qheap0 :: "u8 list qheap" where
  "qheap0 = \<lparr>hp_nodes = [1 \<mapsto> \<lparr>qn_data = 10, qn_data_size = 2, qn_next = Some 2\<rparr>,
                         2 \<mapsto> \<lparr>qn_data = 20, qn_data_size = 1, qn_next = None\<rparr>],
             hp_blocks = [10 \<mapsto> [5, 6], 20 \<mapsto> [7]]\<rparr>"

abbreviation "items0 \<equiv> [(1, 10, 2), (2, 20, 1)] :: q_item list"

lemma tq0_inv: "tq_inv qheap0 tq0 items0"
  by (simp add: tq_inv_def qheap0_def tq0_def)

lemma tq0_live: "data_live (hp_blocks qheap0) items0"
  by (simp add: qheap0_def)

lemma tq0_ready: "tq_ready alloc0 (tq0, qheap0)" "tq_values (tq0, qheap0) = [(10, 2), (20, 1)]"
  using tq_readyI [OF alloc0_fresh alloc0_total tq0_inv] by (simp_all add: tq0_def)


lemma queue_remove_wildcard_partitions_witness:
  "\<exists>q' hp'. queue_remove_wildcard True True (Some tq0) qheap0 (Some (\<lambda>b n k. n = k)) 1
      = Some ((1, Some [(20, 1)]), Some q', hp') \<and> tq_inv hp' q' [(1, 10, 2)]
      \<and> hp_blocks hp' = hp_blocks qheap0"
proof -
  have "matches (\<lambda>b n. n = 1) (hp_blocks qheap0) (1, 10, 2) = False"
    "matches (\<lambda>b n. n = 1) (hp_blocks qheap0) (2, 20, 1) = True"
    by (simp_all add: matches_def qheap0_def)
  then show ?thesis
    using queue_remove_wildcard_partitions [OF tq0_inv tq0_live, of "\<lambda>b n k. n = k" 1] by simp
qed

lemma queue_find_wildcard_first_witness:
  "queue_find_wildcard (\<lambda>_. Some 40) (Some tq0) qheap0 (Some (\<lambda>b n k. n = k)) 1
    = Some ((Some 40, 1), qheap0\<lparr>hp_blocks := (hp_blocks qheap0)(40 \<mapsto> [7])\<rparr>)"
proof -
  have "\<forall>(a, d, s) \<in> set items0. \<exists>b. hp_blocks qheap0 d = Some b \<and> unat s \<le> length b"
    by (simp add: qheap0_def)
  from queue_find_wildcard_first [OF tq0_inv this, of "\<lambda>_. Some 40" 40 "\<lambda>b n k. n = k" 1]
  show ?thesis by (simp add: found_copy_def matches_def qheap0_def)
qed

lemma queue_destroy_frees_all_witness:
  "queue_destroy (Some tq0) qheap0 = Some (qheap0\<lparr>hp_nodes := Map.empty, hp_blocks := Map.empty\<rparr>)"
proof -
  have "hp_nodes qheap0 |` (- fst ` set items0) = Map.empty"
    "hp_blocks qheap0 |` (- (fst \<circ> snd) ` set items0) = Map.empty"
    by (auto simp: qheap0_def restrict_map_def fun_eq_iff)
  then show ?thesis using queue_destroy_frees_all [OF tq0_inv tq0_live] by simp
qed

lemma queue_dequeue_survives_spurious_wakeups_witness:
  "\<exists>q' hp'. queue_dequeue_timeout True (Some \<lparr>tv_sec = 0, tv_nsec = 0\<rparr>)
      ([\<lambda>_. (0, tq0\<lparr>q_front := None, q_rear := None, q_size := 0\<rparr>, qheap0)] @ (\<lambda>_. (0, tq0, qheap0)) # [])
      (Some (tq0\<lparr>q_front := None, q_rear := None, q_size := 0\<rparr>)) qheap0 5
    = Some (Returned ((Some 10, 2), Some q', hp')) \<and> tq_inv hp' q' [(2, 20, 1)]"
proof (rule queue_dequeue_survives_spurious_wakeups [OF _ _ _ _ _ tq0_inv])
  show "tq_inv qheap0 (tq0\<lparr>q_front := None, q_rear := None, q_size := 0\<rparr>) []"
    by (simp add: tq_inv_def qheap0_def)
qed (simp_all add: tq0_def spurious_def)

end
