(* ===== verification/Comm_Que.thy ===== *)
theory Comm_Que
  imports Interfaces "HOL-Library.Signed_Division"
begin

text \<open>
  \<^verbatim>\<open>common/comm_que.c\<close>: a ring of fixed-size slots handed out to producers (\<^verbatim>\<open>GetEmpty\<close>, then
  \<^verbatim>\<open>PutFull\<close>) and consumers (\<^verbatim>\<open>GetFull\<close>, then \<^verbatim>\<open>PutEmpty\<close>).  The record has the fields of
  \<^verbatim>\<open>CommQue_t\<close> without the mutex, the condition variables and the free function; an element
  pointer is its byte offset in the buffer.  A wait is answered by a function from the deadline
  (none for an untimed wait) to the return code and the queue as the other threads left it.
\<close>

section \<open>State\<close>

record comm_que =
  cq_buffer :: "u8 list"
  cq_maxCount :: u32
  cq_elementSize :: u64
  cq_write :: u32
  cq_read :: u32
  cq_fullCount :: u32
  cq_emptyCount :: u32
  cq_isDestroyed :: bool

type_synonym cq_answer = "timespec ptr \<Rightarrow> int \<times> comm_que"

definition OSAL_TIMEOUT_NONE :: int where "OSAL_TIMEOUT_NONE = 0"
definition OSAL_TIMEOUT_FOREVER :: int where "OSAL_TIMEOUT_FOREVER = -1"
definition CQ_ETIMEDOUT :: int where "CQ_ETIMEDOUT = 110"

text \<open>Seconds and milliseconds are split by the division of C, which truncates.\<close>

definition calculate_timeout :: "timespec \<Rightarrow> timespec \<Rightarrow> int \<Rightarrow> timespec" where
  "calculate_timeout now ts timeout_ms =
     (if timeout_ms = OSAL_TIMEOUT_FOREVER then ts
      else
        (let ts = \<lparr>tv_sec = tv_sec now + timeout_ms sdiv 1000,
                   tv_nsec = tv_nsec now + (timeout_ms smod 1000) * 1000000\<rparr> in
         if 1000000000 \<le> tv_nsec ts
         then \<lparr>tv_sec = tv_sec ts + 1, tv_nsec = tv_nsec ts - 1000000000\<rparr> else ts))"

lemma calculate_timeout_eq:
  "0 \<le> ms \<Longrightarrow> calculate_timeout now ts ms = timespec_add_ms now ms"
  by (simp add: calculate_timeout_def timespec_add_ms_def Let_def OSAL_TIMEOUT_FOREVER_def
      signed_divide_int_def signed_modulo_int_def sgn_if minus_div_mult_eq_mod)

section \<open>Creation and deletion\<close>

text \<open>
  \<open>alloc\<close> is the allocator: the outcome for the control structure, and the buffer of the size it
  is asked for (a 64-bit product) or NULL.
\<close>

record cq_create_env =
  cc_alloc_struct :: bool
  cc_mutex_init :: bool
  cc_cond_full_init :: bool
  cc_cond_empty_init :: bool
  cc_alloc_buffer :: "u64 \<Rightarrow> u8 list ptr"

definition CommQue_Create :: "cq_create_env \<Rightarrow> u32 \<Rightarrow> u64 \<Rightarrow> comm_que ptr option" where
  "CommQue_Create e maxCount elementSize =
     (if \<not> cc_alloc_struct e then Some None
      else if \<not> cc_mutex_init e then Some None
      else if \<not> cc_cond_full_init e then Some None
      else if \<not> cc_cond_empty_init e then Some None
      else (case cc_alloc_buffer e (ucast maxCount * elementSize) of
          None \<Rightarrow> Some None
        | Some b \<Rightarrow> do {
            b \<leftarrow> mem_write b 0 (replicate (unat (ucast maxCount * elementSize)) 0);
            Some (Some \<lparr>cq_buffer = b, cq_maxCount = maxCount, cq_elementSize = elementSize,
                        cq_write = 0, cq_read = 0, cq_fullCount = 0, cq_emptyCount = maxCount,
                        cq_isDestroyed = False\<rparr>) }))"

text \<open>
  \<^verbatim>\<open>CommQue_Delete\<close> first publishes the flag (what the woken threads see), then frees the
  queue: the result is the state between the two and the dead pointer.
\<close>

definition CommQue_Delete :: "comm_que ptr \<Rightarrow> comm_que ptr \<times> comm_que ptr" where
  "CommQue_Delete p = (case p of None \<Rightarrow> (None, None)
     | Some q \<Rightarrow> (Some (q\<lparr>cq_isDestroyed := True\<rparr>), None))"

definition CommQue_Clear :: "comm_que ptr \<Rightarrow> comm_que ptr" where
  "CommQue_Clear p = map_option
     (\<lambda>q. q\<lparr>cq_write := 0, cq_read := 0, cq_fullCount := 0, cq_emptyCount := cq_maxCount q\<rparr>) p"

section \<open>Taking slots\<close>

text \<open>
  The wait loop of \<^verbatim>\<open>GetFull\<close> and \<^verbatim>\<open>GetEmpty\<close> on the counter \<open>cnt\<close>: \<open>Inl\<close> is the early return
  with NULL, \<open>Inr\<close> the queue after the loop.  Only \<^verbatim>\<open>ETIMEDOUT\<close> leaves the loop; any other
  answer is a wake-up.
\<close>

fun cq_wait :: "(comm_que \<Rightarrow> u32) \<Rightarrow> int \<Rightarrow> timespec \<Rightarrow> cq_answer list \<Rightarrow> comm_que
    \<Rightarrow> (comm_que + comm_que) outcome" where
  "cq_wait cnt timeout ts [] q =
     (if cnt q = 0 \<and> \<not> cq_isDestroyed q then
        (if timeout = OSAL_TIMEOUT_NONE then Returned (Inl q) else Blocked)
      else Returned (Inr q))"
| "cq_wait cnt timeout ts (answer # answers) q =
     (if cnt q = 0 \<and> \<not> cq_isDestroyed q then
        (if timeout = OSAL_TIMEOUT_NONE then Returned (Inl q)
         else if timeout \<noteq> OSAL_TIMEOUT_FOREVER then
           (let (ret, q) = answer (Some ts) in
            if ret = CQ_ETIMEDOUT then Returned (Inl q) else cq_wait cnt timeout ts answers q)
         else (let (ret, q) = answer None in cq_wait cnt timeout ts answers q))
      else Returned (Inr q))"

definition cq_deadline :: "timespec \<Rightarrow> int \<Rightarrow> timespec" where
  "cq_deadline now timeout =
     (if timeout \<noteq> OSAL_TIMEOUT_NONE \<and> timeout \<noteq> OSAL_TIMEOUT_FOREVER
      then calculate_timeout now \<lparr>tv_sec = 0, tv_nsec = 0\<rparr> timeout else \<lparr>tv_sec = 0, tv_nsec = 0\<rparr>)"

definition CommQue_GetFull :: "comm_que ptr \<Rightarrow> int \<Rightarrow> timespec \<Rightarrow> cq_answer list
    \<Rightarrow> (u64 ptr \<times> comm_que ptr) outcome option" where
  "CommQue_GetFull p timeout now answers =
     (case p of None \<Rightarrow> Some (Returned (None, None))
      | Some q \<Rightarrow>
        (case cq_wait cq_fullCount timeout (cq_deadline now timeout) answers q of
           Blocked \<Rightarrow> Some Blocked
         | Returned (Inl q) \<Rightarrow> Some (Returned (None, Some q))
         | Returned (Inr q) \<Rightarrow>
             if cq_isDestroyed q then Some (Returned (None, Some q))
             else
               (let pElement = ucast (cq_read q) * cq_elementSize q in
                do { r' \<leftarrow> umod (cq_read q + 1) (cq_maxCount q);
                     Some (Returned (Some pElement,
                       Some (q\<lparr>cq_read := r', cq_fullCount := cq_fullCount q - 1\<rparr>))) })))"

definition CommQue_PeekFull :: "comm_que ptr \<Rightarrow> u64 ptr" where
  "CommQue_PeekFull p = (case p of None \<Rightarrow> None
     | Some q \<Rightarrow> if cq_fullCount q = 0 \<or> cq_isDestroyed q then None
                else Some (ucast (cq_read q) * cq_elementSize q))"

definition CommQue_GetEmpty :: "comm_que ptr \<Rightarrow> int \<Rightarrow> timespec \<Rightarrow> cq_answer list
    \<Rightarrow> (u64 ptr \<times> comm_que ptr) outcome option" where
  "CommQue_GetEmpty p timeout now answers =
     (case p of None \<Rightarrow> Some (Returned (None, None))
      | Some q \<Rightarrow>
        (case cq_wait cq_emptyCount timeout (cq_deadline now timeout) answers q of
           Blocked \<Rightarrow> Some Blocked
         | Returned (Inl q) \<Rightarrow> Some (Returned (None, Some q))
         | Returned (Inr q) \<Rightarrow>
             if cq_isDestroyed q then Some (Returned (None, Some q))
             else
               (let pElement = ucast (cq_write q) * cq_elementSize q in
                do { w' \<leftarrow> umod (cq_write q + 1) (cq_maxCount q);
                     Some (Returned (Some pElement,
                       Some (q\<lparr>cq_write := w', cq_emptyCount := cq_emptyCount q - 1\<rparr>))) })))"

section \<open>Giving slots back\<close>

definition CommQue_PutEmpty :: "comm_que ptr \<Rightarrow> u64 ptr \<Rightarrow> int \<times> comm_que ptr" where
  "CommQue_PutEmpty p pElement =
     (case (p, pElement) of
        (Some q, Some el) \<Rightarrow> (0, Some (q\<lparr>cq_emptyCount := cq_emptyCount q + 1\<rparr>))
      | _ \<Rightarrow> (-1, p))"

definition CommQue_PutFull :: "comm_que ptr \<Rightarrow> u64 ptr \<Rightarrow> int \<times> comm_que ptr" where
  "CommQue_PutFull p pElement =
     (case (p, pElement) of
        (Some q, Some el) \<Rightarrow> (0, Some (q\<lparr>cq_fullCount := cq_fullCount q + 1\<rparr>))
      | _ \<Rightarrow> (-1, p))"

definition CommQue_PutFullFront :: "comm_que ptr \<Rightarrow> u64 ptr \<Rightarrow> (int \<times> comm_que ptr) option" where
  "CommQue_PutFullFront p pElement =
     (case (p, pElement) of
        (Some q, Some el) \<Rightarrow>
          if cq_maxCount q \<le> cq_fullCount q \<or> cq_isDestroyed q then Some (-1, p)
          else do {
            r' \<leftarrow> umod (cq_read q + cq_maxCount q - 1) (cq_maxCount q);
            Some (0, Some (q\<lparr>cq_read := r', cq_fullCount := cq_fullCount q + 1\<rparr>)) }
      | _ \<Rightarrow> Some (-1, p))"

definition CommQue_PutEmptyFront :: "comm_que ptr \<Rightarrow> u64 ptr \<Rightarrow> (int \<times> comm_que ptr) option" where
  "CommQue_PutEmptyFront p pElement =
     (case (p, pElement) of
        (Some q, Some el) \<Rightarrow>
          if cq_maxCount q \<le> cq_emptyCount q \<or> cq_isDestroyed q then Some (-1, p)
          else do {
            w' \<leftarrow> umod (cq_write q + cq_maxCount q - 1) (cq_maxCount q);
            Some (0, Some (q\<lparr>cq_write := w', cq_emptyCount := cq_emptyCount q + 1\<rparr>)) }
      | _ \<Rightarrow> Some (-1, p))"

section \<open>Queries\<close>

definition CommQue_GetFullCount :: "comm_que ptr \<Rightarrow> u32" where
  "CommQue_GetFullCount p = (case p of None \<Rightarrow> 0 | Some q \<Rightarrow> cq_fullCount q)"

definition CommQue_GetEmptyCount :: "comm_que ptr \<Rightarrow> u32" where
  "CommQue_GetEmptyCount p = (case p of None \<Rightarrow> 0 | Some q \<Rightarrow> cq_emptyCount q)"

definition CommQue_IsFull :: "comm_que ptr \<Rightarrow> bool" where
  "CommQue_IsFull p = (case p of None \<Rightarrow> True | Some q \<Rightarrow> cq_fullCount q = cq_maxCount q)"

definition CommQue_IsEmpty :: "comm_que ptr \<Rightarrow> bool" where
  "CommQue_IsEmpty p = (case p of None \<Rightarrow> True | Some q \<Rightarrow> cq_fullCount q = 0)"

section \<open>The slot discipline\<close>

text \<open>
  \<open>w\<close> slots are held by producers and \<open>r\<close> by consumers.  Going around the ring from \<open>read\<close>
  there are the full slots, the producers' slots, the empty slots, the consumers' slots.
\<close>

definition cq_inv :: "comm_que \<Rightarrow> nat \<Rightarrow> nat \<Rightarrow> bool" where
  "cq_inv q w r \<longleftrightarrow> 0 < unat (cq_maxCount q) \<and> unat (cq_maxCount q) \<le> 2 ^ 31
     \<and> unat (cq_fullCount q) + unat (cq_emptyCount q) + w + r = unat (cq_maxCount q)
     \<and> unat (cq_read q) < unat (cq_maxCount q)
     \<and> unat (cq_write q)
         = (unat (cq_read q) + unat (cq_fullCount q) + w) mod unat (cq_maxCount q)
     \<and> length (cq_buffer q) = unat (cq_maxCount q) * unat (cq_elementSize q)
     \<and> length (cq_buffer q) < 2 ^ 64"

lemma cq_invD:
  assumes "cq_inv q w r"
  shows "0 < unat (cq_maxCount q)" "unat (cq_maxCount q) \<le> 2 ^ 31" "cq_maxCount q \<noteq> 0"
    "unat (cq_fullCount q) + unat (cq_emptyCount q) + w + r = unat (cq_maxCount q)"
    "unat (cq_read q) < unat (cq_maxCount q)" "unat (cq_write q) < unat (cq_maxCount q)"
    "unat (cq_write q) = (unat (cq_read q) + unat (cq_fullCount q) + w) mod unat (cq_maxCount q)"
    "length (cq_buffer q) = unat (cq_maxCount q) * unat (cq_elementSize q)"
    "length (cq_buffer q) < 2 ^ 64"
  using assms by (auto simp: cq_inv_def)

lemma unat_succ_mod:
  assumes "unat (i::u32) < unat m" "unat m \<le> 2 ^ 31"
  shows "unat ((i + 1) mod m) = (unat i + 1) mod unat m"
proof -
  have "unat (i + 1) = unat i + unat (1::u32)"
    by (rule unat_add_lt) (use assms in simp)
  then show ?thesis by (simp add: unat_mod)
qed

lemma unat_pred_mod:
  assumes "unat (i::u32) < unat m" "unat m \<le> 2 ^ 31"
  shows "unat ((i + m - 1) mod m) = (unat i + unat m - 1) mod unat m"
proof -
  have s: "unat (i + m) = unat i + unat m"
    by (rule unat_add_lt) (use assms in simp)
  then have "1 \<le> i + m" using assms by (simp add: word_le_nat_alt)
  then have "unat (i + m - 1) = unat i + unat m - 1" using s by (simp add: unat_diff_le)
  then show ?thesis by (simp add: unat_mod)
qed

lemma unat_incr: "unat (c::u32) < unat (m::u32) \<Longrightarrow> unat (c + 1) = unat c + 1"
  using unsigned_less [of m, where 'a = nat] unat_add_lt [of c 1] by simp

lemma unat_decr: "(c::u32) \<noteq> 0 \<Longrightarrow> unat (c - 1) = unat c - 1"
  using unat_diff_le [of 1 c] by (simp add: word_le_nat_alt Suc_leI unat_gt_0)

lemma get_empty_now:
  "CommQue_GetEmpty (Some q) OSAL_TIMEOUT_NONE now answers
   = (if cq_emptyCount q = 0 \<or> cq_isDestroyed q then Some (Returned (None, Some q))
      else do { w' \<leftarrow> umod (cq_write q + 1) (cq_maxCount q);
                Some (Returned (Some (ucast (cq_write q) * cq_elementSize q),
                  Some (q\<lparr>cq_write := w', cq_emptyCount := cq_emptyCount q - 1\<rparr>))) })"
  by (cases answers) (simp_all add: CommQue_GetEmpty_def)

lemma get_full_now:
  "CommQue_GetFull (Some q) OSAL_TIMEOUT_NONE now answers
   = (if cq_fullCount q = 0 \<or> cq_isDestroyed q then Some (Returned (None, Some q))
      else do { r' \<leftarrow> umod (cq_read q + 1) (cq_maxCount q);
                Some (Returned (Some (ucast (cq_read q) * cq_elementSize q),
                  Some (q\<lparr>cq_read := r', cq_fullCount := cq_fullCount q - 1\<rparr>))) })"
  by (cases answers) (simp_all add: CommQue_GetFull_def)

text \<open>The protocol: who takes a slot gives it back; clearing is for a queue nobody holds a slot of.\<close>

inductive cq_step :: "comm_que \<times> nat \<times> nat \<Rightarrow> comm_que \<times> nat \<times> nat \<Rightarrow> bool" where
  cs_get_empty:
    "CommQue_GetEmpty (Some q) OSAL_TIMEOUT_NONE now answers = Some (Returned (Some el, Some q'))
     \<Longrightarrow> cq_step (q, w, r) (q', Suc w, r)"
| cs_put_full:
    "CommQue_PutFull (Some q) (Some el) = (0, Some q') \<Longrightarrow> cq_step (q, Suc w, r) (q', w, r)"
| cs_get_full:
    "CommQue_GetFull (Some q) OSAL_TIMEOUT_NONE now answers = Some (Returned (Some el, Some q'))
     \<Longrightarrow> cq_step (q, w, r) (q', w, Suc r)"
| cs_put_empty:
    "CommQue_PutEmpty (Some q) (Some el) = (0, Some q') \<Longrightarrow> cq_step (q, w, Suc r) (q', w, r)"
| cs_put_full_front:
    "CommQue_PutFullFront (Some q) (Some el) = Some (0, Some q')
     \<Longrightarrow> cq_step (q, w, Suc r) (q', w, r)"
| cs_put_empty_front:
    "CommQue_PutEmptyFront (Some q) (Some el) = Some (0, Some q')
     \<Longrightarrow> cq_step (q, Suc w, r) (q', w, r)"
| cs_clear: "CommQue_Clear (Some q) = Some q' \<Longrightarrow> cq_step (q, 0, 0) (q', 0, 0)"
| cs_delete: "fst (CommQue_Delete (Some q)) = Some q' \<Longrightarrow> cq_step (q, w, r) (q', w, r)"

inductive_cases cq_stepE: "cq_step s s'"

definition cq_init :: "comm_que \<times> nat \<times> nat \<Rightarrow> bool" where
  "cq_init s \<longleftrightarrow> (\<exists>e mx es q. CommQue_Create e mx es = Some (Some q) \<and> s = (q, 0, 0)
     \<and> 0 < unat mx \<and> unat mx \<le> 2 ^ 31 \<and> unat mx * unat es < 2 ^ 64
     \<and> (\<forall>n b. cc_alloc_buffer e n = Some b \<longrightarrow> length b = unat n))"

lemma unat_slot_offset:
  assumes "unat (i::u32) * unat (es::u64) < 2 ^ 64"
  shows "unat (ucast i * es) = unat i * unat es"
proof -
  have "unat (ucast i :: u64) = unat i" 
    using unsigned_less [of i, where 'a = nat] by (simp add: unsigned_ucast_eq take_bit_nat_eq_self)
  with assms show ?thesis by (simp add: unat_word_ariths)
qed

lemma cq_init_inv: "cq_init (q, w, r) \<Longrightarrow> cq_inv q w r"
  by (auto simp: cq_init_def CommQue_Create_def cq_inv_def unat_slot_offset mem_write_def
      split: if_splits option.splits)

lemma cq_step_inv:
  assumes "cq_step (q, w, r) (q', w', r')" "cq_inv q w r"
  shows "cq_inv q' w' r'"
proof -
  let ?m = "unat (cq_maxCount q)"
  note D = cq_invD [OF assms(2)]
  have up: "unat ((cq_read q + 1) mod cq_maxCount q) = (unat (cq_read q) + 1) mod ?m"
    "unat ((cq_write q + 1) mod cq_maxCount q) = (unat (cq_write q) + 1) mod ?m"
    using D by (simp_all add: unat_succ_mod)
  have down: "unat ((cq_read q + cq_maxCount q - 1) mod cq_maxCount q) = (unat (cq_read q) + ?m - 1) mod ?m"
    "unat ((cq_write q + cq_maxCount q - 1) mod cq_maxCount q) = (unat (cq_write q) + ?m - 1) mod ?m"
    using D by (simp_all add: unat_pred_mod)
  have fwd: "((a + 1) mod ?m + b) mod ?m = (a + (b + 1)) mod ?m" for a b
    by (simp only: mod_add_left_eq) (simp add: ac_simps)
  have bwd: "((a + ?m - 1) mod ?m + (b + 1)) mod ?m = (a + b) mod ?m" for a b
  proof -
    have "((a + ?m - 1) mod ?m + (b + 1)) mod ?m = (a + ?m - 1 + (b + 1)) mod ?m"
      by (rule mod_add_left_eq)
    also have "a + ?m - 1 + (b + 1) = a + b + ?m" using D(1) by simp
    finally show ?thesis by simp
  qed
  show ?thesis
    using assms(1)
  proof (cases rule: cq_step.cases)
    case (cs_get_empty now answers el)
    then have e: "cq_emptyCount q \<noteq> 0" "q' = q\<lparr>cq_write := (cq_write q + 1) mod cq_maxCount q,
        cq_emptyCount := cq_emptyCount q - 1\<rparr>"
      using D(3) by (auto simp: get_empty_now umod_def split: if_splits)
    have pos: "0 < unat (cq_emptyCount q)" using e(1) by (simp add: unat_gt_0)
    have "(unat (cq_write q) + 1) mod ?m = (unat (cq_read q) + unat (cq_fullCount q) + Suc w) mod ?m"
      using D(7) by (simp add: mod_Suc_eq)
    then show ?thesis
      using e cs_get_empty(1,2) D up unat_decr [OF e(1)] pos by (simp add: cq_inv_def)
  next
    case (cs_put_full el)
    then have "unat (cq_fullCount q + 1) = unat (cq_fullCount q) + 1"
      using D(4) by (intro unat_incr [of _ "cq_maxCount q"]) simp
    then show ?thesis using cs_put_full D by (auto simp: CommQue_PutFull_def cq_inv_def)
  next
    case (cs_get_full now answers el)
    then have e: "cq_fullCount q \<noteq> 0" "q' = q\<lparr>cq_read := (cq_read q + 1) mod cq_maxCount q,
        cq_fullCount := cq_fullCount q - 1\<rparr>"
      using D(3) by (auto simp: get_full_now umod_def split: if_splits)
    have pos: "0 < unat (cq_fullCount q)" using e(1) by (simp add: unat_gt_0)
    then obtain f where f: "unat (cq_fullCount q) = Suc f" using gr0_implies_Suc by blast
    have "(unat (cq_read q) + unat (cq_fullCount q) + w) mod ?m
        = ((unat (cq_read q) + 1) mod ?m + (f + w)) mod ?m"
      using fwd [of "unat (cq_read q)" "f + w"] f by (simp add: ac_simps)
    then show ?thesis
      using e cs_get_full D up unat_decr [OF e(1)] f by (simp add: cq_inv_def ac_simps)
  next
    case (cs_put_empty el)
    then have "unat (cq_emptyCount q + 1) = unat (cq_emptyCount q) + 1"
      using D(4) by (intro unat_incr [of _ "cq_maxCount q"]) simp
    then show ?thesis using cs_put_empty D by (auto simp: CommQue_PutEmpty_def cq_inv_def)
  next
    case (cs_put_full_front el)
    then have e: "q' = q\<lparr>cq_read := (cq_read q + cq_maxCount q - 1) mod cq_maxCount q,
        cq_fullCount := cq_fullCount q + 1\<rparr>"
      using D(3) by (auto simp: CommQue_PutFullFront_def umod_def split: if_splits)
    have inc: "unat (cq_fullCount q + 1) = unat (cq_fullCount q) + 1"
      using D(4) cs_put_full_front by (intro unat_incr [of _ "cq_maxCount q"]) simp
    have "(unat (cq_read q) + unat (cq_fullCount q) + w) mod ?m
        = ((unat (cq_read q) + ?m - 1) mod ?m + (unat (cq_fullCount q) + w + 1)) mod ?m"
      by (simp only: bwd) (simp add: ac_simps)
    then show ?thesis
      using e cs_put_full_front D down inc by (simp add: cq_inv_def ac_simps)
  next
    case (cs_put_empty_front el)
    then have e: "q' = q\<lparr>cq_write := (cq_write q + cq_maxCount q - 1) mod cq_maxCount q,
        cq_emptyCount := cq_emptyCount q + 1\<rparr>"
      using D(3) by (auto simp: CommQue_PutEmptyFront_def umod_def split: if_splits)
    have inc: "unat (cq_emptyCount q + 1) = unat (cq_emptyCount q) + 1"
      using D(4) cs_put_empty_front by (intro unat_incr [of _ "cq_maxCount q"]) simp
    have "(unat (cq_write q) + ?m - 1) mod ?m = (unat (cq_write q) + (?m - 1)) mod ?m"
      using D(1) by simp
    also have "\<dots> = (unat (cq_read q) + unat (cq_fullCount q) + w + (?m - 1)) mod ?m"
      using D(7) by (simp only: mod_add_left_eq)
    also have "unat (cq_read q) + unat (cq_fullCount q) + w + (?m - 1)
        = unat (cq_read q) + unat (cq_fullCount q) + w' + ?m"
      using cs_put_empty_front D(1) by simp
    finally have "(unat (cq_write q) + ?m - 1) mod ?m
        = (unat (cq_read q) + unat (cq_fullCount q) + w') mod ?m" by simp
    then show ?thesis
      using e cs_put_empty_front D down inc by (simp add: cq_inv_def)
  next
    case cs_clear
    then show ?thesis using D by (auto simp: CommQue_Clear_def cq_inv_def)
  next
    case cs_delete
    then show ?thesis using assms(2) by (auto simp: CommQue_Delete_def cq_inv_def)
  qed
qed

interpretation cq: invariant_system cq_init cq_step "\<lambda>(q, w, r). cq_inv q w r"
  by unfold_locales (auto dest: cq_init_inv cq_step_inv)

text \<open>The slots in use: full ones and producers' ones from \<open>read\<close> on, consumers' ones before it.\<close>

definition cq_in_use :: "comm_que \<Rightarrow> nat \<Rightarrow> nat \<Rightarrow> nat set" where
  "cq_in_use q w r =
     (\<lambda>k. (unat (cq_read q) + k) mod unat (cq_maxCount q)) ` {..< unat (cq_fullCount q) + w}
     \<union> (\<lambda>k. (unat (cq_read q) + unat (cq_maxCount q) - 1 - k) mod unat (cq_maxCount q)) ` {..< r}"

lemma write_slot_free:
  assumes inv: "cq_inv q w r" and e: "0 < unat (cq_emptyCount q)"
  shows "unat (cq_write q) \<notin> cq_in_use q w r"
proof -
  let ?m = "unat (cq_maxCount q)" and ?s = "unat (cq_read q) + (unat (cq_fullCount q) + w)"
  note D = cq_invD [OF inv]
  have w: "unat (cq_write q) = ?s mod ?m" using D(7) by (simp add: add.assoc)
  have full: "?s mod ?m \<noteq> (unat (cq_read q) + k) mod ?m" if "k < unat (cq_fullCount q) + w" for k
  proof -
    have "unat (cq_read q) + k < ?s" "?s - (unat (cq_read q) + k) < ?m"
      using that D(4) e by linarith+
    then show ?thesis by (metis mod_window_neq)
  qed
  have behind: "?s mod ?m \<noteq> (unat (cq_read q) + ?m - 1 - k) mod ?m" if "k < r" for k
    using that D(1,4,5) e by (intro mod_window_neq) linarith+
  show ?thesis
    unfolding cq_in_use_def w using full behind by blast
qed


section \<open>A first-in-first-out queue\<close>

definition cq_slot :: "comm_que \<Rightarrow> nat \<Rightarrow> u8 list" where
  "cq_slot q i = take (unat (cq_elementSize q)) (drop (i * unat (cq_elementSize q)) (cq_buffer q))"

text \<open>The contents of the full slots, oldest first.\<close>

definition cq_items :: "comm_que \<Rightarrow> u8 list list" where
  "cq_items q = map (\<lambda>k. cq_slot q ((unat (cq_read q) + k) mod unat (cq_maxCount q)))
                    [0..< unat (cq_fullCount q)]"

text \<open>A producer fills the slot between the two calls, a consumer reads it between the two calls.\<close>

definition cq_put :: "timespec \<Rightarrow> u8 list \<Rightarrow> comm_que \<Rightarrow> comm_que option" where
  "cq_put now v q =
     do { out \<leftarrow> CommQue_GetEmpty (Some q) OSAL_TIMEOUT_NONE now [];
          (case out of
             Returned (Some el, Some q) \<Rightarrow>
               do { b \<leftarrow> mem_write (cq_buffer q) (unat el) v;
                    snd (CommQue_PutFull (Some (q\<lparr>cq_buffer := b\<rparr>)) (Some el)) }
           | _ \<Rightarrow> None) }"

definition cq_get :: "timespec \<Rightarrow> comm_que \<Rightarrow> (u8 list ptr \<times> comm_que) option" where
  "cq_get now q =
     do { out \<leftarrow> CommQue_GetFull (Some q) OSAL_TIMEOUT_NONE now [];
          (case out of
             Returned (Some el, Some q) \<Rightarrow>
               do { v \<leftarrow> mem_read (cq_buffer q) (unat el) (unat (cq_elementSize q));
                    q \<leftarrow> snd (CommQue_PutEmpty (Some q) (Some el));
                    Some (Some v, q) }
           | Returned (None, Some q) \<Rightarrow> Some (None, q)
           | _ \<Rightarrow> None) }"

definition cq_quiet :: "u64 \<Rightarrow> comm_que \<Rightarrow> bool" where
  "cq_quiet es q \<longleftrightarrow> cq_inv q 0 0 \<and> \<not> cq_isDestroyed q \<and> cq_elementSize q = es"

definition cq_can :: "nat \<Rightarrow> comm_que \<Rightarrow> bool" where
  "cq_can n q \<longleftrightarrow> n \<le> unat (cq_emptyCount q)"

lemma cq_put_law:
  assumes inv: "cq_quiet es q" and can: "cq_can (Suc n) q" and v: "length v = unat es"
  shows "\<exists>q'. cq_put now v q = Some q' \<and> cq_quiet es q' \<and> cq_can n q'
    \<and> cq_items q' = cq_items q @ [v]"
proof -
  let ?m = "unat (cq_maxCount q)" and ?n = "unat es" and ?f = "unat (cq_fullCount q)"
  have i0: "cq_inv q 0 0" and nd: "\<not> cq_isDestroyed q" and es: "cq_elementSize q = es"
    using inv by (auto simp: cq_quiet_def)
  note D = cq_invD [OF i0]
  have e: "cq_emptyCount q \<noteq> 0" using can by (auto simp: cq_can_def)
  define el :: u64 where "el = ucast (cq_write q) * es"
  define q1 where "q1 = q\<lparr>cq_write := (cq_write q + 1) mod cq_maxCount q,
      cq_emptyCount := cq_emptyCount q - 1\<rparr>"
  have get: "CommQue_GetEmpty (Some q) OSAL_TIMEOUT_NONE now [] = Some (Returned (Some el, Some q1))"
    using e nd D(3) es by (simp add: get_empty_now umod_def el_def q1_def)
  have inv1: "cq_inv q1 1 0" using cq_step_inv [OF cs_get_empty [OF get] i0] by simp
  have fit: "unat (cq_write q) * ?n + ?n \<le> length (cq_buffer q)"
    using slot_in_block [OF D(6,8)] es by simp
  have el: "unat el = unat (cq_write q) * ?n"
    unfolding el_def using fit D(9) by (intro unat_slot_offset) simp
  define b where "b = take (unat (cq_write q) * ?n) (cq_buffer q) @ v
      @ drop (unat (cq_write q) * ?n + ?n) (cq_buffer q)"
  have wr: "mem_write (cq_buffer q1) (unat el) v = Some b"
    using fit v el by (simp add: q1_def b_def mem_simps)
  have lb: "length b = length (cq_buffer q)" using fit v by (simp add: b_def)
  define q2 where "q2 = q1\<lparr>cq_buffer := b, cq_fullCount := cq_fullCount q1 + 1\<rparr>"
  have put: "CommQue_PutFull (Some (q1\<lparr>cq_buffer := b\<rparr>)) (Some el) = (0, Some q2)"
    by (simp add: CommQue_PutFull_def q2_def)
  have "cq_inv (q1\<lparr>cq_buffer := b\<rparr>) 1 0" using inv1 lb by (simp add: cq_inv_def q1_def)
  from cq_step_inv [OF cs_put_full [OF put] this [unfolded One_nat_def]]
  have inv2: "cq_inv q2 0 0" .
  have pos: "0 < unat (cq_emptyCount q)" using e by (simp add: unat_gt_0)
  have "unat (cq_fullCount q + 1) = ?f + 1"
    by (rule unat_incr [of _ "cq_maxCount q"]) (use D(4) pos in linarith)
  then have full: "unat (cq_fullCount q2) = Suc ?f" by (simp add: q2_def q1_def)
  have w: "unat (cq_write q) = (unat (cq_read q) + ?f) mod ?m" using D(7) by simp
  have slot: "cq_slot q2 j = (if j = unat (cq_write q) then v else cq_slot q j)" if "j < ?m" for j
    using slot_after_write [OF D(6) that _ v, of "cq_buffer q"] D(8) es
    by (simp add: cq_slot_def q2_def q1_def b_def)
  have "(unat (cq_read q) + k) mod ?m \<noteq> unat (cq_write q)" if "k < ?f" for k
    unfolding w using that D(4) pos by (intro mod_window_neq) auto
  then have "cq_items q2 = cq_items q @ [v]"
    using full slot D(1) w by (auto simp: cq_items_def) (simp_all add: q2_def q1_def)
  moreover have "cq_put now v q = Some q2" using get wr put by (simp add: cq_put_def)
  moreover have "cq_can n q2" using can e unat_decr [OF e] by (auto simp: cq_can_def q2_def q1_def)
  moreover have "cq_quiet es q2" using inv2 nd es by (simp add: cq_quiet_def q2_def q1_def)
  ultimately show ?thesis by blast
qed

lemma cq_get_law:
  assumes inv: "cq_quiet es q" and can: "cq_can n q" and x: "cq_items q = x # xs"
  shows "\<exists>q'. cq_get now q = Some (Some x, q') \<and> cq_quiet es q' \<and> cq_can n q' \<and> cq_items q' = xs"
proof -
  let ?m = "unat (cq_maxCount q)" and ?n = "unat es"
  have i0: "cq_inv q 0 0" and nd: "\<not> cq_isDestroyed q" and es: "cq_elementSize q = es"
    using inv by (auto simp: cq_quiet_def)
  note D = cq_invD [OF i0]
  obtain f where f: "unat (cq_fullCount q) = Suc f"
    using x by (cases "unat (cq_fullCount q)") (auto simp: cq_items_def)
  then have nz: "cq_fullCount q \<noteq> 0" by auto
  define el :: u64 where "el = ucast (cq_read q) * es"
  define q1 where "q1 = q\<lparr>cq_read := (cq_read q + 1) mod cq_maxCount q,
      cq_fullCount := cq_fullCount q - 1\<rparr>"
  have get: "CommQue_GetFull (Some q) OSAL_TIMEOUT_NONE now [] = Some (Returned (Some el, Some q1))"
    using nz nd D(3) es by (simp add: get_full_now umod_def el_def q1_def)
  have inv1: "cq_inv q1 0 (Suc 0)" by (rule cq_step_inv [OF cs_get_full [OF get] i0])
  define q2 where "q2 = q1\<lparr>cq_emptyCount := cq_emptyCount q1 + 1\<rparr>"
  have put: "CommQue_PutEmpty (Some q1) (Some el) = (0, Some q2)"
    by (simp add: CommQue_PutEmpty_def q2_def)
  have inv2: "cq_inv q2 0 0" by (rule cq_step_inv [OF cs_put_empty [OF put] inv1])
  have fit: "unat (cq_read q) * ?n + ?n \<le> length (cq_buffer q)"
    using slot_in_block [OF D(5,8)] es by simp
  have el: "unat el = unat (cq_read q) * ?n"
    unfolding el_def using fit D(9) by (intro unat_slot_offset) simp
  have "mem_read (cq_buffer q1) (unat el) ?n = Some (cq_slot q (unat (cq_read q)))"
    using fit el es by (simp add: mem_read_def cq_slot_def q1_def)
  moreover have items: "cq_items q = cq_slot q (unat (cq_read q))
      # map (\<lambda>k. cq_slot q ((unat (cq_read q) + Suc k) mod ?m)) [0..<f]"
    using D(5) by (simp only: cq_items_def f map_upt_Suc) simp
  ultimately have run: "cq_get now q = Some (Some x, q2)"
    using get put x es by (simp add: cq_get_def) (simp add: q1_def)
  have rd: "unat (cq_read q2) = (unat (cq_read q) + 1) mod ?m"
    using D(2,5) by (simp add: q2_def q1_def unat_succ_mod)
  have "((unat (cq_read q) + 1) mod ?m + k) mod ?m = (unat (cq_read q) + Suc k) mod ?m" for k
    by (simp only: mod_add_left_eq) simp
  moreover have "unat (cq_fullCount q2) = f"
    using unat_decr [OF nz] f by (simp add: q2_def q1_def)
  moreover have "cq_slot q2 = cq_slot q" "cq_maxCount q2 = cq_maxCount q"
    by (simp_all add: cq_slot_def q2_def q1_def fun_eq_iff)
  ultimately have "cq_items q2 = xs"
    using items x rd by (simp add: cq_items_def)
  moreover have "unat (cq_emptyCount q + 1) = unat (cq_emptyCount q) + 1"
    by (rule unat_incr [of _ "cq_maxCount q"]) (use D(4) f in linarith)
  then have "cq_can n q2" using can by (simp add: cq_can_def q2_def q1_def)
  moreover have "cq_quiet es q2" using inv2 nd es by (simp add: cq_quiet_def q2_def q1_def)
  ultimately show ?thesis using run by blast
qed

lemma cq_get_empty:
  assumes "cq_quiet es q" "cq_items q = []"
  shows "cq_get now q = Some (None, q)"
proof -
  have "cq_fullCount q = 0"
    using assms(2) unat_gt_0 [of "cq_fullCount q"] by (auto simp: cq_items_def)
  then show ?thesis by (simp add: cq_get_def get_full_now)
qed

interpretation cqf: fifo "cq_quiet es" cq_items cq_can "\<lambda>v. length v = unat es" "cq_put now" "cq_get now"
  by unfold_locales (use cq_put_law cq_get_law cq_get_empty in blast)+


text \<open>
  \<^verbatim>\<open>CommQue_PutFull\<close> does not look at the element it is given: with two producers the one that
  commits first publishes the slot of the one that took first, which may still be writing it.\<close>

theorem comm_que_commit_publishes_oldest:
  assumes "cq_inv q 0 0" "\<not> cq_isDestroyed q" "cq_fullCount q = 0" "1 < cq_emptyCount q"
  shows "\<exists>el1 el2 q1 q2 q3 q4.
      CommQue_GetEmpty (Some q) OSAL_TIMEOUT_NONE now [] = Some (Returned (Some el1, Some q1))
    \<and> CommQue_GetEmpty (Some q1) OSAL_TIMEOUT_NONE now [] = Some (Returned (Some el2, Some q2))
    \<and> CommQue_PutFull (Some q2) (Some el2) = (0, Some q3)
    \<and> CommQue_GetFull (Some q3) OSAL_TIMEOUT_NONE now [] = Some (Returned (Some el1, Some q4))"
proof -
  note D = cq_invD [OF assms(1)]
  have "unat (cq_write q) = unat (cq_read q)" using D(5,7) assms(3) by simp
  then have wr: "cq_write q = cq_read q" by (simp add: word_unat_eq_iff)
  have e: "cq_emptyCount q \<noteq> 0" "cq_emptyCount q - 1 \<noteq> 0"
    using assms(4) by (auto simp: word_less_nat_alt)
  show ?thesis
    using assms(2,3) D(3) e wr
    by (simp add: get_empty_now get_full_now CommQue_PutFull_def umod_def)
qed

text \<open>
  clearing the queue while a producer holds a slot forgets the slot but not the producer: its
  commit counts one element more than the queue has slots.\<close>

theorem comm_que_clear_overcounts:
  assumes "cq_inv q 0 0" "\<not> cq_isDestroyed q" "cq_emptyCount q \<noteq> 0"
  shows "\<exists>el q1 q2 q3.
      CommQue_GetEmpty (Some q) OSAL_TIMEOUT_NONE now [] = Some (Returned (Some el, Some q1))
    \<and> CommQue_Clear (Some q1) = Some q2
    \<and> CommQue_PutFull (Some q2) (Some el) = (0, Some q3)
    \<and> CommQue_GetEmptyCount (Some q3) = cq_maxCount q3 \<and> CommQue_GetFullCount (Some q3) = 1"
  using assms cq_invD(3) [OF assms(1)]
  by (simp add: get_empty_now CommQue_Clear_def CommQue_PutFull_def CommQue_GetEmptyCount_def
      CommQue_GetFullCount_def umod_def)

section \<open>Witnesses\<close>

definition cq_env0 :: cq_create_env where
  "cq_env0 = \<lparr>cc_alloc_struct = True, cc_mutex_init = True, cc_cond_full_init = True,
     cc_cond_empty_init = True, cc_alloc_buffer = (\<lambda>n. Some (replicate (unat n) 7))\<rparr>"

text \<open>Three slots of two bytes, none in use.\<close>

definition cq0 :: comm_que where
  "cq0 = \<lparr>cq_buffer = [0, 0, 0, 0, 0, 0], cq_maxCount = 3, cq_elementSize = 2, cq_write = 0,
          cq_read = 0, cq_fullCount = 0, cq_emptyCount = 3, cq_isDestroyed = False\<rparr>"

abbreviation "now0 \<equiv> \<lparr>tv_sec = 0, tv_nsec = 0\<rparr>"

lemma cq0_create: "CommQue_Create cq_env0 3 2 = Some (Some cq0)"
proof -
  have "replicate 6 0 = [0, 0, 0, 0, 0, 0 :: u8]" by (simp add: numeral_eq_Suc)
  then show ?thesis by (simp add: CommQue_Create_def cq_env0_def mem_write_def cq0_def)
qed

lemma cq0_inv: "cq_inv cq0 0 0"
  by (simp add: cq_inv_def cq0_def)

lemma cq0_reach: "reachable cq_init cq_step (cq0, 0, 0)"
proof (rule reach_init)
  have "cc_alloc_buffer cq_env0 n = Some b \<Longrightarrow> length b = unat n" for n b
    by (auto simp: cq_env0_def)
  then show "cq_init (cq0, 0, 0)" unfolding cq_init_def
    by (intro exI [of _ cq_env0] exI [of _ 3] exI [of _ 2] exI [of _ cq0])
       (auto simp: cq0_create)
qed



lemma comm_que_commit_publishes_oldest_witness:
  "\<exists>el1 el2 q1 q2 q3 q4.
      CommQue_GetEmpty (Some cq0) OSAL_TIMEOUT_NONE now0 [] = Some (Returned (Some el1, Some q1))
    \<and> CommQue_GetEmpty (Some q1) OSAL_TIMEOUT_NONE now0 [] = Some (Returned (Some el2, Some q2))
    \<and> CommQue_PutFull (Some q2) (Some el2) = (0, Some q3)
    \<and> CommQue_GetFull (Some q3) OSAL_TIMEOUT_NONE now0 [] = Some (Returned (Some el1, Some q4))"
  by (rule comm_que_commit_publishes_oldest [OF cq0_inv]) (simp_all add: cq0_def)

lemma comm_que_clear_overcounts_witness:
  "\<exists>el q1 q2 q3.
      CommQue_GetEmpty (Some cq0) OSAL_TIMEOUT_NONE now0 [] = Some (Returned (Some el, Some q1))
    \<and> CommQue_Clear (Some q1) = Some q2
    \<and> CommQue_PutFull (Some q2) (Some el) = (0, Some q3)
    \<and> CommQue_GetEmptyCount (Some q3) = cq_maxCount q3 \<and> CommQue_GetFullCount (Some q3) = 1"
  by (rule comm_que_clear_overcounts [OF cq0_inv]) (simp_all add: cq0_def)

end
