(* ===== verification/Share_Mem_Queue.thy ===== *)
theory Share_Mem_Queue
  imports Interfaces
begin

text \<open>
  \<^verbatim>\<open>common/shareMem/share_mem_queue.c\<close>: a slot ring in System V shared memory with two counting
  semaphores.  The system holds the segments by identifier and the identifiers by key; a segment
  is the control block (its fields, the semaphore values, the data area).  The results of the
  system calls that may fail are parameters (record \<open>smq_env\<close>); log output is left out.
\<close>

section \<open>State\<close>

record smq_cb =
  cb_strId :: string
  cb_elementSize :: u64
  cb_maxElements :: u64
  cb_capacity :: u64
  cb_writeIndex :: u64
  cb_readIndex :: u64
  cb_elementCount :: u64
  cb_isValid :: bool
  cb_notEmpty :: nat
  cb_notFull :: nat
  cb_data :: "u8 list"

record smq_handle =
  sh_shmFd :: nat
  sh_shmSize :: u64
  sh_isCreator :: bool

record smq_sys =
  sys_keys :: "int \<rightharpoonup> nat"
  sys_segs :: "nat \<rightharpoonup> smq_cb"

text \<open>
  \<^verbatim>\<open>ftok\<close> gives a key or -1.  \<open>se_cb_size\<close> is the size of the control block, \<open>se_new_id\<close> the
  identifier of a new segment; the truth values say whether a call succeeds.
\<close>

record smq_env =
  se_ftok :: "string \<Rightarrow> int \<Rightarrow> int"
  se_cb_size :: u64
  se_new_id :: nat
  se_malloc :: bool
  se_shmget :: bool
  se_shmat :: bool
  se_mutexattr_init :: bool
  se_setpshared :: bool
  se_mutex_init :: bool
  se_sem_notEmpty :: bool
  se_sem_notFull :: bool
  se_shmdt :: bool
  se_shmctl :: bool

definition generate_key :: "smq_env \<Rightarrow> string ptr \<Rightarrow> int" where
  "generate_key e strId =
     (case strId of None \<Rightarrow> -1 | Some s \<Rightarrow> if length s = 0 then -1 else se_ftok e s 0x4150)"

definition calculate_shm_size :: "smq_env \<Rightarrow> u64 \<Rightarrow> u64 \<Rightarrow> u64" where
  "calculate_shm_size e elementSize maxElements = se_cb_size e + elementSize * maxElements"

text \<open>\<^verbatim>\<open>sem_init\<close> takes an \<^verbatim>\<open>unsigned int\<close>: the element count is truncated to 32 bits.\<close>

definition init_sync_primitives ::
    "smq_env \<Rightarrow> smq_cb \<Rightarrow> bool \<Rightarrow> E_StateCode \<times> smq_cb" where
  "init_sync_primitives e cb isCreate =
     (if \<not> se_mutexattr_init e then (STATE_CODE_INIT_FAILURE, cb)
      else if \<not> se_setpshared e then (STATE_CODE_INIT_FAILURE, cb)
      else if isCreate then
        (if \<not> se_mutex_init e then (STATE_CODE_INIT_FAILURE, cb)
         else if \<not> se_sem_notEmpty e then (STATE_CODE_INIT_FAILURE, cb)
         else (let cb = cb\<lparr>cb_notEmpty := 0\<rparr> in
           if \<not> se_sem_notFull e then (STATE_CODE_INIT_FAILURE, cb)
           else (STATE_CODE_NO_ERROR, cb\<lparr>cb_notFull := unat (ucast (cb_maxElements cb) :: u32)\<rparr>)))
      else (STATE_CODE_NO_ERROR, cb))"

section \<open>Creation and deletion\<close>

text \<open>\<^verbatim>\<open>strncpy\<close> into the zeroed 64-byte field, which keeps its last byte zero.\<close>

definition copy_id :: "string \<Rightarrow> string" where
  "copy_id s = take 63 s"

text \<open>The segment as \<^verbatim>\<open>shmget\<close> creates it for a given size, zero-filled.\<close>

definition fresh_segment :: "smq_env \<Rightarrow> u64 \<Rightarrow> smq_cb" where
  "fresh_segment e sz =
     \<lparr>cb_strId = [], cb_elementSize = 0, cb_maxElements = 0, cb_capacity = 0, cb_writeIndex = 0,
      cb_readIndex = 0, cb_elementCount = 0, cb_isValid = False, cb_notEmpty = 0, cb_notFull = 0,
      cb_data = replicate (unat (sz - se_cb_size e)) 0\<rparr>"

definition remove_id :: "nat \<Rightarrow> smq_sys \<Rightarrow> smq_sys" where
  "remove_id i sys = sys\<lparr>sys_keys := (\<lambda>k. if sys_keys sys k = Some i then None else sys_keys sys k)\<rparr>"

definition segment_size :: "smq_env \<Rightarrow> smq_cb \<Rightarrow> nat" where
  "segment_size e cb = unat (se_cb_size e) + length (cb_data cb)"

definition ShareMemQue_Create ::
    "smq_env \<Rightarrow> u32 \<Rightarrow> u32 \<Rightarrow> string ptr \<Rightarrow> smq_sys \<Rightarrow> smq_handle ptr \<times> smq_sys" where
  "ShareMemQue_Create e uiFrameCount uiFrameSize strId sys =
     (case strId of None \<Rightarrow> (None, sys)
      | Some s \<Rightarrow>
        if uiFrameSize = 0 \<or> uiFrameCount = 0 then (None, sys)
        else if \<not> se_malloc e then (None, sys)
        else
          (let elementSize = ucast uiFrameSize; maxElements = ucast uiFrameCount;
               shmKey = generate_key e strId in
           if shmKey = -1 then (None, sys)
           else
             (let shmSize = calculate_shm_size e elementSize maxElements in
              case sys_keys sys shmKey of
                None \<Rightarrow>
                  if \<not> se_shmget e then (None, sys)
                  else
                    (let i = se_new_id e;
                         sys = sys\<lparr>sys_keys := (sys_keys sys)(shmKey \<mapsto> i),
                                   sys_segs := (sys_segs sys)(i \<mapsto> fresh_segment e shmSize)\<rparr> in
                     if \<not> se_shmat e then (None, remove_id i sys)
                     else
                       (let cb = (fresh_segment e shmSize)
                              \<lparr>cb_strId := copy_id s, cb_elementSize := elementSize,
                               cb_maxElements := maxElements,
                               cb_capacity := shmSize - se_cb_size e,
                               cb_writeIndex := 0, cb_readIndex := 0, cb_elementCount := 0,
                               cb_isValid := True\<rparr>;
                            (initResult, cb) = init_sync_primitives e cb True;
                            sys = sys\<lparr>sys_segs := (sys_segs sys)(i \<mapsto> cb)\<rparr> in
                        if initResult \<noteq> STATE_CODE_NO_ERROR then (None, remove_id i sys)
                        else (Some \<lparr>sh_shmFd = i, sh_shmSize = shmSize, sh_isCreator = True\<rparr>, sys)))
              | Some i \<Rightarrow>
                  (case sys_segs sys i of None \<Rightarrow> (None, sys)
                   | Some cb \<Rightarrow>
                     if segment_size e cb < unat shmSize then (None, sys)
                     else if \<not> se_shmat e then (None, remove_id i sys)
                     else if \<not> cb_isValid cb \<or> cb_strId cb \<noteq> s
                          \<or> cb_elementSize cb \<noteq> elementSize \<or> cb_maxElements cb \<noteq> maxElements
                     then (None, sys)
                     else
                       (let (initResult, cb) = init_sync_primitives e cb False in
                        if initResult \<noteq> STATE_CODE_NO_ERROR then (None, sys)
                        else (Some \<lparr>sh_shmFd = i, sh_shmSize = shmSize, sh_isCreator = False\<rparr>,
                              sys))))))"

definition ShareMemQue_Delete ::
    "smq_env \<Rightarrow> smq_handle ptr \<Rightarrow> smq_sys \<Rightarrow> (E_StateCode \<times> smq_handle ptr \<times> smq_sys) option" where
  "ShareMemQue_Delete e handle sys =
     (case handle of None \<Rightarrow> Some (STATE_CODE_INVALID_PARAM, None, sys)
      | Some h \<Rightarrow> do {
          cb \<leftarrow> sys_segs sys (sh_shmFd h);
          let sys = sys\<lparr>sys_segs := (sys_segs sys)(sh_shmFd h \<mapsto> cb\<lparr>cb_isValid := False\<rparr>)\<rparr>;
          let result = (if se_shmdt e then STATE_CODE_NO_ERROR else STATE_CODE_INIT_FAILURE);
          if sh_isCreator h
          then Some (if se_shmctl e then result else STATE_CODE_INIT_FAILURE, None,
                     if se_shmctl e then remove_id (sh_shmFd h) sys else sys)
          else Some (result, None, sys) })"

definition ShareMemQue_GetID :: "smq_env \<Rightarrow> string ptr \<Rightarrow> smq_sys \<Rightarrow> smq_handle ptr" where
  "ShareMemQue_GetID e strId sys =
     (case strId of None \<Rightarrow> None
      | Some s \<Rightarrow>
        (let shmKey = generate_key e strId in
         if shmKey = -1 then None
         else
           (case sys_keys sys shmKey of None \<Rightarrow> None
            | Some i \<Rightarrow>
              (case sys_segs sys i of None \<Rightarrow> None
               | Some cb \<Rightarrow>
                 if \<not> se_shmat e then None
                 else
                   (let elementSize = cb_elementSize cb; maxElements = cb_maxElements cb in
                    if \<not> se_malloc e then None
                    else if \<not> cb_isValid cb \<or> cb_strId cb \<noteq> s
                         \<or> cb_elementSize cb \<noteq> elementSize \<or> cb_maxElements cb \<noteq> maxElements
                    then None
                    else if fst (init_sync_primitives e cb False) \<noteq> STATE_CODE_NO_ERROR then None
                    else Some \<lparr>sh_shmFd = i,
                               sh_shmSize = calculate_shm_size e elementSize maxElements,
                               sh_isCreator = False\<rparr>)))))"

section \<open>Access\<close>

text \<open>
  The head of every access function: no handle, or a queue that is not valid, gives \<open>v\<close>; then the
  operation runs on the control block.  \<open>None\<close> is a segment that is not attached.
\<close>

definition on_queue :: "smq_handle ptr \<Rightarrow> smq_sys \<Rightarrow> 'v \<Rightarrow> (smq_cb \<Rightarrow> ('v \<times> smq_cb) outcome option)
    \<Rightarrow> ('v \<times> smq_sys) outcome option" where
  "on_queue handle sys v f =
     (case handle of None \<Rightarrow> Some (Returned (v, sys))
      | Some h \<Rightarrow> do {
          cb \<leftarrow> sys_segs sys (sh_shmFd h);
          if \<not> cb_isValid cb then Some (Returned (v, sys))
          else do {
            out \<leftarrow> f cb;
            Some (case out of Blocked \<Rightarrow> Blocked
                  | Returned (y, cb) \<Rightarrow>
                      Returned (y, sys\<lparr>sys_segs := (sys_segs sys)(sh_shmFd h \<mapsto> cb)\<rparr>)) } })"

text \<open>
  \<open>wait_ok\<close>: \<^verbatim>\<open>sem_wait\<close> was not interrupted; \<open>lock_ok\<close>: the mutex was locked.  A wait on a
  semaphore at zero blocks.  The result is the byte offset in the data area.
\<close>

definition ShareMemQue_GetWritePtr ::
    "bool \<Rightarrow> bool \<Rightarrow> smq_handle ptr \<Rightarrow> smq_sys \<Rightarrow> (u64 ptr \<times> smq_sys) outcome option" where
  "ShareMemQue_GetWritePtr wait_ok lock_ok handle sys = on_queue handle sys None (\<lambda>cb.
     if \<not> wait_ok then Some (Returned (None, cb))
     else if cb_notFull cb = 0 then Some Blocked
     else
       (let cb = cb\<lparr>cb_notFull := cb_notFull cb - 1\<rparr> in
        if \<not> lock_ok then Some (Returned (None, cb\<lparr>cb_notFull := cb_notFull cb + 1\<rparr>))
        else Some (Returned (Some (cb_writeIndex cb * cb_elementSize cb), cb))))"

definition ShareMemQue_PutWritePtr ::
    "bool \<Rightarrow> bool \<Rightarrow> smq_handle ptr \<Rightarrow> smq_sys \<Rightarrow> (E_StateCode \<times> smq_sys) outcome option" where
  "ShareMemQue_PutWritePtr lock_ok post_ok handle sys =
     on_queue handle sys STATE_CODE_INVALID_PARAM (\<lambda>cb.
     if \<not> lock_ok then Some (Returned (STATE_CODE_INIT_FAILURE, cb))
     else do {
       w' \<leftarrow> umod (cb_writeIndex cb + 1) (cb_maxElements cb);
       let cb = cb\<lparr>cb_writeIndex := w', cb_elementCount := cb_elementCount cb + 1\<rparr>;
       Some (Returned (if \<not> post_ok then (STATE_CODE_INIT_FAILURE, cb)
             else (STATE_CODE_NO_ERROR, cb\<lparr>cb_notEmpty := cb_notEmpty cb + 1\<rparr>))) })"

definition ShareMemQue_GetReadPtr ::
    "bool \<Rightarrow> bool \<Rightarrow> smq_handle ptr \<Rightarrow> smq_sys \<Rightarrow> (u64 ptr \<times> smq_sys) outcome option" where
  "ShareMemQue_GetReadPtr wait_ok lock_ok handle sys = on_queue handle sys None (\<lambda>cb.
     if \<not> wait_ok then Some (Returned (None, cb))
     else if cb_notEmpty cb = 0 then Some Blocked
     else
       (let cb = cb\<lparr>cb_notEmpty := cb_notEmpty cb - 1\<rparr> in
        if \<not> lock_ok then Some (Returned (None, cb\<lparr>cb_notEmpty := cb_notEmpty cb + 1\<rparr>))
        else Some (Returned (Some (cb_readIndex cb * cb_elementSize cb), cb))))"

definition ShareMemQue_PutReadPtr ::
    "bool \<Rightarrow> bool \<Rightarrow> smq_handle ptr \<Rightarrow> smq_sys \<Rightarrow> (E_StateCode \<times> smq_sys) outcome option" where
  "ShareMemQue_PutReadPtr lock_ok post_ok handle sys =
     on_queue handle sys STATE_CODE_INVALID_PARAM (\<lambda>cb.
     if \<not> lock_ok then Some (Returned (STATE_CODE_INIT_FAILURE, cb))
     else do {
       r' \<leftarrow> umod (cb_readIndex cb + 1) (cb_maxElements cb);
       let cb = cb\<lparr>cb_readIndex := r', cb_elementCount := cb_elementCount cb - 1\<rparr>;
       Some (Returned (if \<not> post_ok then (STATE_CODE_INIT_FAILURE, cb)
             else (STATE_CODE_NO_ERROR, cb\<lparr>cb_notFull := cb_notFull cb + 1\<rparr>))) })"

text \<open>The count is converted from \<^verbatim>\<open>size_t\<close> to \<^verbatim>\<open>int\<close>.\<close>

definition ShareMemQue_GetCount :: "smq_handle ptr \<Rightarrow> smq_sys \<Rightarrow> int option" where
  "ShareMemQue_GetCount handle sys =
     (case handle of None \<Rightarrow> Some (-1)
      | Some h \<Rightarrow> do {
          cb \<leftarrow> sys_segs sys (sh_shmFd h);
          Some (if \<not> cb_isValid cb then -1 else sint (ucast (cb_elementCount cb) :: u32)) })"

section \<open>The protocol\<close>

text \<open>
  \<open>w\<close> write pointers and \<open>r\<close> read pointers are outstanding: the semaphores count the free and the
  committed slots that nobody has reserved.
\<close>

definition cb_inv :: "smq_cb \<Rightarrow> nat \<Rightarrow> nat \<Rightarrow> bool" where
  "cb_inv cb w r \<longleftrightarrow> cb_isValid cb \<and> 0 < unat (cb_maxElements cb) \<and> unat (cb_maxElements cb) < 2 ^ 32
     \<and> cb_notFull cb + w + unat (cb_elementCount cb) = unat (cb_maxElements cb)
     \<and> cb_notEmpty cb + r = unat (cb_elementCount cb)
     \<and> unat (cb_readIndex cb) < unat (cb_maxElements cb)
     \<and> unat (cb_writeIndex cb)
         = (unat (cb_readIndex cb) + unat (cb_elementCount cb)) mod unat (cb_maxElements cb)
     \<and> length (cb_data cb) = unat (cb_maxElements cb) * unat (cb_elementSize cb)
     \<and> length (cb_data cb) < 2 ^ 64"

lemma cb_invD:
  assumes "cb_inv cb w r"
  shows "cb_isValid cb" "0 < unat (cb_maxElements cb)" "unat (cb_maxElements cb) < 2 ^ 32"
    "cb_maxElements cb \<noteq> 0"
    "cb_notFull cb + w + unat (cb_elementCount cb) = unat (cb_maxElements cb)"
    "cb_notEmpty cb + r = unat (cb_elementCount cb)"
    "unat (cb_readIndex cb) < unat (cb_maxElements cb)"
    "unat (cb_writeIndex cb) < unat (cb_maxElements cb)"
    "unat (cb_writeIndex cb)
         = (unat (cb_readIndex cb) + unat (cb_elementCount cb)) mod unat (cb_maxElements cb)"
    "length (cb_data cb) = unat (cb_maxElements cb) * unat (cb_elementSize cb)"
    "length (cb_data cb) < 2 ^ 64"
  using assms by (auto simp: cb_inv_def)

definition with_cb :: "smq_handle \<Rightarrow> smq_sys \<Rightarrow> smq_cb \<Rightarrow> smq_sys" where
  "with_cb h sys cb = sys\<lparr>sys_segs := (sys_segs sys)(sh_shmFd h \<mapsto> cb)\<rparr>"

lemma with_cb_simps [simp]:
  "sys_segs (with_cb h sys cb) (sh_shmFd h) = Some cb"
  "with_cb h (with_cb h sys cb) cb' = with_cb h sys cb'"
  by (simp_all add: with_cb_def)

lemma get_write_eq:
  "\<lbrakk>sys_segs sys (sh_shmFd h) = Some cb; cb_isValid cb\<rbrakk> \<Longrightarrow>
   ShareMemQue_GetWritePtr True True (Some h) sys
   = (if cb_notFull cb = 0 then Some Blocked
      else Some (Returned (Some (cb_writeIndex cb * cb_elementSize cb),
                           with_cb h sys (cb\<lparr>cb_notFull := cb_notFull cb - 1\<rparr>))))"
  by (simp add: ShareMemQue_GetWritePtr_def on_queue_def with_cb_def)

lemma put_write_eq:
  "\<lbrakk>sys_segs sys (sh_shmFd h) = Some cb; cb_isValid cb; cb_maxElements cb \<noteq> 0\<rbrakk> \<Longrightarrow>
   ShareMemQue_PutWritePtr True True (Some h) sys
   = Some (Returned (STATE_CODE_NO_ERROR, with_cb h sys (cb
       \<lparr>cb_writeIndex := (cb_writeIndex cb + 1) mod cb_maxElements cb,
        cb_elementCount := cb_elementCount cb + 1, cb_notEmpty := cb_notEmpty cb + 1\<rparr>)))"
  by (simp add: ShareMemQue_PutWritePtr_def on_queue_def with_cb_def umod_def)

lemma get_read_eq:
  "\<lbrakk>sys_segs sys (sh_shmFd h) = Some cb; cb_isValid cb\<rbrakk> \<Longrightarrow>
   ShareMemQue_GetReadPtr True True (Some h) sys
   = (if cb_notEmpty cb = 0 then Some Blocked
      else Some (Returned (Some (cb_readIndex cb * cb_elementSize cb),
                           with_cb h sys (cb\<lparr>cb_notEmpty := cb_notEmpty cb - 1\<rparr>))))"
  by (simp add: ShareMemQue_GetReadPtr_def on_queue_def with_cb_def)

lemma put_read_eq:
  "\<lbrakk>sys_segs sys (sh_shmFd h) = Some cb; cb_isValid cb; cb_maxElements cb \<noteq> 0\<rbrakk> \<Longrightarrow>
   ShareMemQue_PutReadPtr True True (Some h) sys
   = Some (Returned (STATE_CODE_NO_ERROR, with_cb h sys (cb
       \<lparr>cb_readIndex := (cb_readIndex cb + 1) mod cb_maxElements cb,
        cb_elementCount := cb_elementCount cb - 1, cb_notFull := cb_notFull cb + 1\<rparr>)))"
  by (simp add: ShareMemQue_PutReadPtr_def on_queue_def with_cb_def umod_def)

lemma unat_succ_mod64:
  assumes "unat (i::u64) < unat m" "unat m < 2 ^ 32"
  shows "unat ((i + 1) mod m) = (unat i + 1) mod unat m"
proof -
  have "unat (i + 1) = unat i + unat (1::u64)"
    by (rule unat_add_lt) (use assms in simp)
  then show ?thesis by (simp add: unat_mod)
qed

lemma get_write_inv: "cb_inv cb w r \<Longrightarrow> cb_notFull cb \<noteq> 0 \<Longrightarrow>
    cb_inv (cb\<lparr>cb_notFull := cb_notFull cb - 1\<rparr>) (Suc w) r"
  by (auto simp: cb_inv_def)

lemma get_read_inv: "cb_inv cb w r \<Longrightarrow> cb_notEmpty cb \<noteq> 0 \<Longrightarrow>
    cb_inv (cb\<lparr>cb_notEmpty := cb_notEmpty cb - 1\<rparr>) w (Suc r)"
  by (auto simp: cb_inv_def)

lemma put_write_inv:
  assumes inv: "cb_inv cb (Suc w) r"
  shows "cb_inv (cb\<lparr>cb_writeIndex := (cb_writeIndex cb + 1) mod cb_maxElements cb,
        cb_elementCount := cb_elementCount cb + 1, cb_notEmpty := cb_notEmpty cb + 1\<rparr>) w r"
proof -
  note D = cb_invD [OF inv]
  have "unat (cb_elementCount cb + 1) = unat (cb_elementCount cb) + unat (1::u64)"
    by (rule unat_add_lt) (use D(3,5) in simp)
  moreover have "unat ((cb_writeIndex cb + 1) mod cb_maxElements cb)
      = (unat (cb_readIndex cb) + Suc (unat (cb_elementCount cb))) mod unat (cb_maxElements cb)"
    using D(3,8,9) by (simp add: unat_succ_mod64 mod_Suc_eq)
  ultimately show ?thesis using D by (simp add: cb_inv_def)
qed

lemma put_read_inv:
  assumes inv: "cb_inv cb w (Suc r)"
  shows "cb_inv (cb\<lparr>cb_readIndex := (cb_readIndex cb + 1) mod cb_maxElements cb,
        cb_elementCount := cb_elementCount cb - 1, cb_notFull := cb_notFull cb + 1\<rparr>) w r"
proof -
  note D = cb_invD [OF inv]
  let ?m = "unat (cb_maxElements cb)"
  obtain c where c: "unat (cb_elementCount cb) = Suc c" using D(6) by (metis add_Suc_right)
  then have "1 \<le> cb_elementCount cb" by (simp add: word_le_nat_alt)
  then have dec: "unat (cb_elementCount cb - 1) = c" using c by (simp add: unat_diff_le)
  have rd: "unat ((cb_readIndex cb + 1) mod cb_maxElements cb) = (unat (cb_readIndex cb) + 1) mod ?m"
    using D(3,7) by (simp add: unat_succ_mod64)
  have "((unat (cb_readIndex cb) + 1) mod ?m + c) mod ?m = (unat (cb_readIndex cb) + 1 + c) mod ?m"
    by (rule mod_add_left_eq)
  then show ?thesis using D c dec rd by (simp add: cb_inv_def)
qed

text \<open>Reserving and committing on one handle, in any interleaving.\<close>

inductive smq_step :: "smq_handle \<Rightarrow> smq_sys \<times> nat \<times> nat \<Rightarrow> smq_sys \<times> nat \<times> nat \<Rightarrow> bool" for h where
  ss_get_write:
    "ShareMemQue_GetWritePtr True True (Some h) sys = Some (Returned (Some off, sys'))
     \<Longrightarrow> smq_step h (sys, w, r) (sys', Suc w, r)"
| ss_put_write:
    "ShareMemQue_PutWritePtr True True (Some h) sys = Some (Returned (STATE_CODE_NO_ERROR, sys'))
     \<Longrightarrow> smq_step h (sys, Suc w, r) (sys', w, r)"
| ss_get_read:
    "ShareMemQue_GetReadPtr True True (Some h) sys = Some (Returned (Some off, sys'))
     \<Longrightarrow> smq_step h (sys, w, r) (sys', w, Suc r)"
| ss_put_read:
    "ShareMemQue_PutReadPtr True True (Some h) sys = Some (Returned (STATE_CODE_NO_ERROR, sys'))
     \<Longrightarrow> smq_step h (sys, w, Suc r) (sys', w, r)"

definition smq_init :: "smq_handle \<Rightarrow> smq_sys \<times> nat \<times> nat \<Rightarrow> bool" where
  "smq_init h s \<longleftrightarrow> (\<exists>e n es strId sys0 sys.
     ShareMemQue_Create e n es strId sys0 = (Some h, sys) \<and> sh_isCreator h \<and> s = (sys, 0, 0)
     \<and> unat (se_cb_size e) + unat n * unat es < 2 ^ 64)"

definition smq_ok :: "smq_handle \<Rightarrow> smq_sys \<times> nat \<times> nat \<Rightarrow> bool" where
  "smq_ok h s = (case s of (sys, w, r) \<Rightarrow>
     (case sys_segs sys (sh_shmFd h) of None \<Rightarrow> False | Some cb \<Rightarrow> cb_inv cb w r))"

lemma smq_step_ok:
  assumes "smq_step h s s'" "smq_ok h s"
  shows "smq_ok h s'"
proof -
  obtain sys w r cb where s: "s = (sys, w, r)" and cb: "sys_segs sys (sh_shmFd h) = Some cb"
    and inv: "cb_inv cb w r"
    using assms(2) by (cases s) (auto simp: smq_ok_def split: option.splits)
  note D = cb_invD [OF inv]
  show ?thesis
    using assms(1)
  proof (cases rule: smq_step.cases)
    case (ss_get_write sys off sys' w r)
    then show ?thesis using s cb inv D(1) get_write_inv
      by (auto simp: get_write_eq smq_ok_def split: if_splits)
  next
    case (ss_put_write sys sys' w r)
    then show ?thesis using s cb inv D(1,4) put_write_inv
      by (auto simp: put_write_eq smq_ok_def)
  next
    case (ss_get_read sys off sys' w r)
    then show ?thesis using s cb inv D(1) get_read_inv
      by (auto simp: get_read_eq smq_ok_def split: if_splits)
  next
    case (ss_put_read sys sys' w r)
    then show ?thesis using s cb inv D(1,4) put_read_inv
      by (auto simp: put_read_eq smq_ok_def)
  qed
qed

lemma unat_ucast32: "unat (ucast (i::u32) :: u64) = unat i"
  using unsigned_less [of i, where 'a = nat] by (simp add: unsigned_ucast_eq take_bit_nat_eq_self)

lemma ucast_ucast32: "(ucast (ucast (i::u32) :: u64) :: u32) = i"
  by transfer (simp add: take_bit_take_bit)

lemma create_new:
  assumes c: "ShareMemQue_Create e n es strId sys0 = (Some h, sys)" and cr: "sh_isCreator h"
    and fit: "unat (se_cb_size e) + unat n * unat es < 2 ^ 64"
  shows "\<exists>s cb. strId = Some s \<and> sys_keys sys (generate_key e strId) = Some (sh_shmFd h)
    \<and> generate_key e strId \<noteq> -1
    \<and> sys_segs sys (sh_shmFd h) = Some cb \<and> cb_inv cb 0 0 \<and> cb_strId cb = copy_id s
    \<and> cb_maxElements cb = ucast n \<and> cb_elementSize cb = ucast es \<and> cb_elementCount cb = 0"
proof -
  have prod: "unat (ucast es * ucast n :: u64) = unat es * unat n"
    using fit by (simp add: unat_word_ariths unat_ucast32 mult.commute)
  have size: "unat (calculate_shm_size e (ucast es) (ucast n) - se_cb_size e) = unat n * unat es"
    by (simp add: calculate_shm_size_def prod)
  have pos: "0 < unat n" using c by (auto simp: ShareMemQue_Create_def unat_gt_0 split: if_splits option.splits)
  have n: "unat n < 2 ^ 32" using unsigned_less [of n, where 'a = nat] by simp
  obtain s where s: "strId = Some s" "generate_key e strId \<noteq> -1"
    using c by (auto simp: ShareMemQue_Create_def Let_def split: option.splits if_splits)
  show ?thesis
  proof (cases "sys_keys sys0 (generate_key e strId)")
    case None
    then show ?thesis using c s size pos n fit
      by (auto simp: ShareMemQue_Create_def Let_def init_sync_primitives_def cb_inv_def
          fresh_segment_def unat_ucast32 ucast_ucast32 split: if_splits)
  next
    case (Some i)
    then show ?thesis using c s cr
      by (auto simp: ShareMemQue_Create_def Let_def split: if_splits option.splits prod.splits)
  qed
qed

lemma smq_init_ok: "smq_init h s \<Longrightarrow> smq_ok h s"
  using create_new by (fastforce simp: smq_init_def smq_ok_def)

interpretation smq: invariant_system "smq_init h" "smq_step h" "smq_ok h"
  by unfold_locales (use smq_init_ok smq_step_ok in blast)+

lemma offset64:
  assumes "unat (i::u64) * unat es < 2 ^ 64"
  shows "unat (i * es) = unat i * unat es"
  using assms by (simp add: unat_word_ariths)

text \<open>
  C17: in every state reachable by reserving and committing, the write pointer handed out while no
  other write pointer is outstanding lies in the data area and is not a slot that holds a
  committed element, read or not.\<close>

theorem share_mem_write_slot_free:
  assumes "reachable (smq_init h) (smq_step h) (sys, 0, r)" "sys_segs sys (sh_shmFd h) = Some cb"
    "ShareMemQue_GetWritePtr True True (Some h) sys = Some (Returned (Some off, sys'))"
  shows "\<exists>i. unat off = i * unat (cb_elementSize cb)
    \<and> unat off + unat (cb_elementSize cb) \<le> length (cb_data cb)
    \<and> (\<forall>k < unat (cb_elementCount cb).
          i \<noteq> (unat (cb_readIndex cb) + k) mod unat (cb_maxElements cb))"
proof -
  have inv: "cb_inv cb 0 r"
    using smq.reachable_inv [OF assms(1)] assms(2) by (simp add: smq_ok_def)
  note D = cb_invD [OF inv]
  have off: "off = cb_writeIndex cb * cb_elementSize cb" and nf: "cb_notFull cb \<noteq> 0"
    using assms(2,3) D(1) by (auto simp: get_write_eq split: if_splits)
  have fit: "unat (cb_writeIndex cb) * unat (cb_elementSize cb) + unat (cb_elementSize cb)
      \<le> length (cb_data cb)"
    by (rule slot_in_block [OF D(8,10)])
  have "unat off = unat (cb_writeIndex cb) * unat (cb_elementSize cb)"
    unfolding off using fit D(11) by (intro offset64) simp
  moreover have "(unat (cb_readIndex cb) + k) mod unat (cb_maxElements cb) \<noteq> unat (cb_writeIndex cb)"
    if "k < unat (cb_elementCount cb)" for k
    unfolding D(9) using that D(5) nf by (intro mod_window_neq) auto
  ultimately show ?thesis using fit by metis
qed

text \<open>
  reserving does not move the write index: two producers that both reserve before the first
  commits are handed the same slot.\<close>

theorem share_mem_two_writers_same_slot:
  assumes "sys_segs sys (sh_shmFd h) = Some cb" "cb_inv cb 0 r" "2 \<le> cb_notFull cb"
  shows "\<exists>off sys1 sys2.
      ShareMemQue_GetWritePtr True True (Some h) sys = Some (Returned (Some off, sys1))
    \<and> ShareMemQue_GetWritePtr True True (Some h) sys1 = Some (Returned (Some off, sys2))"
  using assms cb_invD(1) [OF assms(2)] by (simp add: get_write_eq)

text \<open>
  a created queue is found again by its name exactly when the name fits the 63 characters
  that the control block keeps.\<close>

theorem share_mem_open_by_name:
  assumes "ShareMemQue_Create e n es (Some s) sys0 = (Some h, sys)" "sh_isCreator h"
    "unat (se_cb_size e) + unat n * unat es < 2 ^ 64"
    "se_shmat e" "se_malloc e" "se_mutexattr_init e" "se_setpshared e"
  shows "ShareMemQue_GetID e (Some s) sys
    = (if length s \<le> 63
       then Some \<lparr>sh_shmFd = sh_shmFd h,
                  sh_shmSize = calculate_shm_size e (ucast es) (ucast n), sh_isCreator = False\<rparr>
       else None)"
proof -
  obtain cb where cb: "sys_keys sys (generate_key e (Some s)) = Some (sh_shmFd h)"
    "generate_key e (Some s) \<noteq> -1" "sys_segs sys (sh_shmFd h) = Some cb" "cb_inv cb 0 0"
    "cb_strId cb = copy_id s" "cb_maxElements cb = ucast n" "cb_elementSize cb = ucast es"
    using create_new [OF assms(1-3)] by auto
  have "copy_id s = s \<longleftrightarrow> length s \<le> 63"
    by (auto simp: copy_id_def)
  then show ?thesis
    using cb assms(4-7) cb_invD(1) [OF cb(4)]
    by (simp add: ShareMemQue_GetID_def init_sync_primitives_def)
qed

section \<open>A first-in-first-out queue\<close>

definition cb_slot :: "smq_cb \<Rightarrow> nat \<Rightarrow> u8 list" where
  "cb_slot cb i = take (unat (cb_elementSize cb)) (drop (i * unat (cb_elementSize cb)) (cb_data cb))"

definition cb_items :: "smq_cb \<Rightarrow> u8 list list" where
  "cb_items cb = map (\<lambda>k. cb_slot cb ((unat (cb_readIndex cb) + k) mod unat (cb_maxElements cb)))
                     [0..< unat (cb_elementCount cb)]"

definition smq_items :: "smq_handle \<Rightarrow> smq_sys \<Rightarrow> u8 list list" where
  "smq_items h sys = (case sys_segs sys (sh_shmFd h) of None \<Rightarrow> [] | Some cb \<Rightarrow> cb_items cb)"

text \<open>The caller fills the slot before it commits, and copies it out before it releases.\<close>

definition smq_fill :: "smq_handle \<Rightarrow> u64 \<Rightarrow> u8 list \<Rightarrow> smq_sys \<Rightarrow> smq_sys option" where
  "smq_fill h off v sys = do { cb \<leftarrow> sys_segs sys (sh_shmFd h);
     d \<leftarrow> mem_write (cb_data cb) (unat off) v; Some (with_cb h sys (cb\<lparr>cb_data := d\<rparr>)) }"

definition smq_copy :: "smq_handle \<Rightarrow> u64 \<Rightarrow> smq_sys \<Rightarrow> u8 list option" where
  "smq_copy h off sys = do { cb \<leftarrow> sys_segs sys (sh_shmFd h);
     mem_read (cb_data cb) (unat off) (unat (cb_elementSize cb)) }"

definition smq_put :: "smq_handle \<Rightarrow> u8 list \<Rightarrow> smq_sys \<Rightarrow> smq_sys option" where
  "smq_put h v sys = do {
     out \<leftarrow> ShareMemQue_GetWritePtr True True (Some h) sys;
     (case out of
        Returned (Some off, sys) \<Rightarrow> do {
          sys \<leftarrow> smq_fill h off v sys;
          out \<leftarrow> ShareMemQue_PutWritePtr True True (Some h) sys;
          (case out of Returned (c, sys) \<Rightarrow> if c = STATE_CODE_NO_ERROR then Some sys else None
           | _ \<Rightarrow> None) }
      | _ \<Rightarrow> None) }"

text \<open>A consumer asks for the count first, so that it never blocks.\<close>

definition smq_get :: "smq_handle \<Rightarrow> smq_sys \<Rightarrow> (u8 list ptr \<times> smq_sys) option" where
  "smq_get h sys = do {
     n \<leftarrow> ShareMemQue_GetCount (Some h) sys;
     if n = 0 then Some (None, sys)
     else do {
       out \<leftarrow> ShareMemQue_GetReadPtr True True (Some h) sys;
       (case out of
          Returned (Some off, sys) \<Rightarrow> do {
            v \<leftarrow> smq_copy h off sys;
            out \<leftarrow> ShareMemQue_PutReadPtr True True (Some h) sys;
            (case out of Returned (c, sys) \<Rightarrow>
                if c = STATE_CODE_NO_ERROR then Some (Some v, sys) else None
             | _ \<Rightarrow> None) }
        | _ \<Rightarrow> None) } }"

definition smq_quiet :: "smq_handle \<Rightarrow> u64 \<Rightarrow> smq_sys \<Rightarrow> bool" where
  "smq_quiet h es sys \<longleftrightarrow> (case sys_segs sys (sh_shmFd h) of None \<Rightarrow> False
     | Some cb \<Rightarrow> cb_inv cb 0 0 \<and> cb_elementSize cb = es)"

definition smq_can :: "smq_handle \<Rightarrow> nat \<Rightarrow> smq_sys \<Rightarrow> bool" where
  "smq_can h n sys \<longleftrightarrow> (case sys_segs sys (sh_shmFd h) of None \<Rightarrow> False | Some cb \<Rightarrow> n \<le> cb_notFull cb)"

lemma smq_put_law:
  assumes q: "smq_quiet h es sys" and can: "smq_can h (Suc n) sys" and v: "length v = unat es"
  shows "\<exists>sys'. smq_put h v sys = Some sys' \<and> smq_quiet h es sys' \<and> smq_can h n sys'
    \<and> smq_items h sys' = smq_items h sys @ [v]"
proof -
  obtain cb where cb: "sys_segs sys (sh_shmFd h) = Some cb" and inv: "cb_inv cb 0 0"
    and es: "cb_elementSize cb = es" and nf: "Suc n \<le> cb_notFull cb"
    using q can by (auto simp: smq_quiet_def smq_can_def split: option.splits)
  note D = cb_invD [OF inv]
  let ?m = "unat (cb_maxElements cb)" and ?i = "unat (cb_writeIndex cb)" and ?n = "unat es"
  have fit: "?i * ?n + ?n \<le> length (cb_data cb)" using slot_in_block [OF D(8,10)] es by simp
  have off: "unat (cb_writeIndex cb * es) = ?i * ?n"
    using fit D(11) by (intro offset64) simp
  define d where "d = take (?i * ?n) (cb_data cb) @ v @ drop (?i * ?n + ?n) (cb_data cb)"
  define cb1 where "cb1 = cb\<lparr>cb_notFull := cb_notFull cb - 1\<rparr>"
  define cb2 where "cb2 = cb1\<lparr>cb_data := d\<rparr>"
  define cb3 where "cb3 = cb2\<lparr>cb_writeIndex := (cb_writeIndex cb2 + 1) mod cb_maxElements cb2,
      cb_elementCount := cb_elementCount cb2 + 1, cb_notEmpty := cb_notEmpty cb2 + 1\<rparr>"
  have inv1: "cb_inv cb1 (Suc 0) 0" unfolding cb1_def using get_write_inv [OF inv] nf by simp
  then have inv2: "cb_inv cb2 (Suc 0) 0"
    using fit v by (simp add: cb_inv_def cb2_def cb1_def d_def)
  then have inv3: "cb_inv cb3 0 0" unfolding cb3_def by (rule put_write_inv)
  have "smq_fill h (cb_writeIndex cb * es) v (with_cb h sys cb1) = Some (with_cb h sys cb2)"
    using fit v off by (simp add: smq_fill_def cb2_def d_def cb1_def mem_simps)
  then have run: "smq_put h v sys = Some (with_cb h sys cb3)"
    using cb D(1) nf es cb_invD(1,4) [OF inv2]
    by (simp add: smq_put_def get_write_eq put_write_eq cb1_def cb3_def)
  have cnt: "unat (cb_elementCount cb3) = Suc (unat (cb_elementCount cb))"
    using cb_invD(5) [OF inv3] D(5) nf by (simp add: cb3_def cb2_def cb1_def)
  have w: "?i = (unat (cb_readIndex cb) + unat (cb_elementCount cb)) mod ?m" by (rule D(9))
  have slot: "cb_slot cb3 j = (if j = ?i then v else cb_slot cb j)" if "j < ?m" for j
    using slot_after_write [OF D(8) that _ v, of "cb_data cb"] D(10) es
    by (simp add: cb_slot_def cb3_def cb2_def cb1_def d_def)
  have "(unat (cb_readIndex cb) + k) mod ?m \<noteq> ?i" if "k < unat (cb_elementCount cb)" for k
    unfolding w using that D(5) nf by (intro mod_window_neq) auto
  then have "cb_items cb3 = cb_items cb @ [v]"
    using cnt slot D(2) w by (auto simp: cb_items_def) (simp_all add: cb3_def cb2_def cb1_def)
  moreover have "cb_elementSize cb3 = es" "cb_notFull cb3 = cb_notFull cb - 1"
    using es by (simp_all add: cb3_def cb2_def cb1_def)
  ultimately show ?thesis using run cb inv3 nf
    by (auto simp: smq_quiet_def smq_can_def smq_items_def)
qed

lemma get_count_zero:
  assumes "sys_segs sys (sh_shmFd h) = Some cb" "cb_inv cb 0 0"
  shows "(ShareMemQue_GetCount (Some h) sys = Some 0) = (unat (cb_elementCount cb) = 0)
    \<and> ShareMemQue_GetCount (Some h) sys \<noteq> None"
proof -
  note D = cb_invD [OF assms(2)]
  let ?c = "ucast (cb_elementCount cb) :: u32"
  have "unat ?c = unat (cb_elementCount cb)"
    using D(3,5) by (simp add: unsigned_ucast_eq take_bit_nat_eq_self)
  moreover have "(?c = 0) = (unat ?c = 0)" by (simp add: word_unat_eq_iff del: unsigned_ucast_eq)
  ultimately have "(?c = 0) = (unat (cb_elementCount cb) = 0)" by (simp only:)
  moreover have "(sint ?c = 0) = (?c = 0)" by (metis sint_0 signed_word_eqI)
  ultimately show ?thesis using assms(1) D(1) by (simp add: ShareMemQue_GetCount_def)
qed

lemma smq_get_law:
  assumes q: "smq_quiet h es sys" and can: "smq_can h n sys" and x: "smq_items h sys = x # xs"
  shows "\<exists>sys'. smq_get h sys = Some (Some x, sys') \<and> smq_quiet h es sys' \<and> smq_can h n sys'
    \<and> smq_items h sys' = xs"
proof -
  obtain cb where cb: "sys_segs sys (sh_shmFd h) = Some cb" and inv: "cb_inv cb 0 0"
    and es: "cb_elementSize cb = es" and nf: "n \<le> cb_notFull cb" and it: "cb_items cb = x # xs"
    using q can x by (auto simp: smq_quiet_def smq_can_def smq_items_def split: option.splits)
  note D = cb_invD [OF inv]
  let ?m = "unat (cb_maxElements cb)" and ?i = "unat (cb_readIndex cb)" and ?n = "unat es"
  obtain c where c: "unat (cb_elementCount cb) = Suc c"
    using it by (cases "unat (cb_elementCount cb)") (auto simp: cb_items_def)
  then obtain k where k: "ShareMemQue_GetCount (Some h) sys = Some k" "k \<noteq> 0"
    using get_count_zero [OF cb inv] by auto
  have fit: "?i * ?n + ?n \<le> length (cb_data cb)" using slot_in_block [OF D(7,10)] es by simp
  have off: "unat (cb_readIndex cb * es) = ?i * ?n"
    using fit D(11) by (intro offset64) simp
  define cb1 where "cb1 = cb\<lparr>cb_notEmpty := cb_notEmpty cb - 1\<rparr>"
  define cb2 where "cb2 = cb1\<lparr>cb_readIndex := (cb_readIndex cb1 + 1) mod cb_maxElements cb1,
      cb_elementCount := cb_elementCount cb1 - 1, cb_notFull := cb_notFull cb1 + 1\<rparr>"
  have ne: "cb_notEmpty cb \<noteq> 0" using D(6) c by simp
  have inv1: "cb_inv cb1 0 (Suc 0)" unfolding cb1_def by (rule get_read_inv [OF inv ne])
  then have inv2: "cb_inv cb2 0 0" unfolding cb2_def by (rule put_read_inv)
  have "smq_copy h (cb_readIndex cb * es) (with_cb h sys cb1) = Some (cb_slot cb ?i)"
    using fit off es by (simp add: smq_copy_def cb1_def mem_read_def cb_slot_def)
  moreover have items: "cb_items cb = cb_slot cb ?i
      # map (\<lambda>k. cb_slot cb ((?i + Suc k) mod ?m)) [0..<c]"
    using D(7) by (simp only: cb_items_def c map_upt_Suc) simp
  ultimately have run: "smq_get h sys = Some (Some x, with_cb h sys cb2)"
    using cb D(1) ne es k it cb_invD(1,4) [OF inv1]
    by (simp add: smq_get_def get_read_eq put_read_eq cb1_def cb2_def)
  have rd: "unat (cb_readIndex cb2) = (?i + 1) mod ?m"
    using D(3,7) by (simp add: cb2_def cb1_def unat_succ_mod64)
  have "((?i + 1) mod ?m + k) mod ?m = (?i + Suc k) mod ?m" for k
    by (simp only: mod_add_left_eq) simp
  moreover have "unat (cb_elementCount cb2) = c"
    using cb_invD(5) [OF inv2] D(5) c by (simp add: cb2_def cb1_def)
  moreover have "cb_slot cb2 = cb_slot cb" "cb_maxElements cb2 = cb_maxElements cb"
    by (simp_all add: cb_slot_def cb2_def cb1_def fun_eq_iff)
  ultimately have "cb_items cb2 = xs" using items it rd by (simp add: cb_items_def)
  moreover have "cb_elementSize cb2 = es" "cb_notFull cb2 = cb_notFull cb + 1"
    using es by (simp_all add: cb2_def cb1_def)
  ultimately show ?thesis using run inv2 nf
    by (auto simp: smq_quiet_def smq_can_def smq_items_def)
qed

lemma smq_get_empty:
  assumes "smq_quiet h es sys" "smq_items h sys = []"
  shows "smq_get h sys = Some (None, sys)"
proof -
  obtain cb where cb: "sys_segs sys (sh_shmFd h) = Some cb" "cb_inv cb 0 0" "cb_items cb = []"
    using assms by (auto simp: smq_quiet_def smq_items_def split: option.splits)
  then have "unat (cb_elementCount cb) = 0" by (simp add: cb_items_def)
  then show ?thesis using get_count_zero [OF cb(1,2)] by (simp add: smq_get_def)
qed

interpretation smqf: fifo "smq_quiet h es" "smq_items h" "smq_can h" "\<lambda>v. length v = unat es"
    "smq_put h" "smq_get h"
  by unfold_locales (use smq_put_law smq_get_law smq_get_empty in blast)+


section \<open>Witnesses\<close>

text \<open>A system without segments; a queue of two elements of two bytes.\<close>

definition smq_env0 :: smq_env where
  "smq_env0 = \<lparr>se_ftok = (\<lambda>s p. 7), se_cb_size = 224, se_new_id = 5, se_malloc = True,
     se_shmget = True, se_shmat = True, se_mutexattr_init = True, se_setpshared = True,
     se_mutex_init = True, se_sem_notEmpty = True, se_sem_notFull = True, se_shmdt = True,
     se_shmctl = True\<rparr>"

definition sys0 :: smq_sys where
  "sys0 = \<lparr>sys_keys = Map.empty, sys_segs = Map.empty\<rparr>"

definition handle0 :: smq_handle where
  "handle0 = \<lparr>sh_shmFd = 5, sh_shmSize = 228, sh_isCreator = True\<rparr>"

definition cb0 :: smq_cb where
  "cb0 = \<lparr>cb_strId = ''q'', cb_elementSize = 2, cb_maxElements = 2, cb_capacity = 4,
     cb_writeIndex = 0, cb_readIndex = 0, cb_elementCount = 0, cb_isValid = True,
     cb_notEmpty = 0, cb_notFull = 2, cb_data = [0, 0, 0, 0]\<rparr>"

definition sys1 :: smq_sys where
  "sys1 = \<lparr>sys_keys = [7 \<mapsto> 5], sys_segs = [5 \<mapsto> cb0]\<rparr>"

lemma create0: "ShareMemQue_Create smq_env0 2 2 (Some ''q'') sys0 = (Some handle0, sys1)"
proof -
  have "replicate 4 0 = [0, 0, 0, 0 :: u8]" by (simp add: numeral_eq_Suc)
  then show ?thesis
    by (simp add: ShareMemQue_Create_def smq_env0_def sys0_def generate_key_def
        calculate_shm_size_def fresh_segment_def init_sync_primitives_def copy_id_def handle0_def
        sys1_def cb0_def Let_def)
qed

lemma seg1: "sys_segs sys1 (sh_shmFd handle0) = Some cb0" "sh_isCreator handle0"
  by (simp_all add: sys1_def handle0_def)

lemma cb0_inv: "cb_inv cb0 0 0"
  by (simp add: cb_inv_def cb0_def)

lemma reach1: "reachable (smq_init handle0) (smq_step handle0) (sys1, 0, 0)"
proof (rule reach_init)
  have "unat (se_cb_size smq_env0) + unat (2::u32) * unat (2::u32) < 2 ^ 64"
    by (simp add: smq_env0_def)
  then show "smq_init handle0 (sys1, 0, 0)"
    unfolding smq_init_def using create0 seg1(2) by blast
qed

lemma share_mem_write_slot_free_witness:
  "\<exists>i. unat (0::u64) = i * unat (cb_elementSize cb0)
    \<and> unat (0::u64) + unat (cb_elementSize cb0) \<le> length (cb_data cb0)
    \<and> (\<forall>k < unat (cb_elementCount cb0).
          i \<noteq> (unat (cb_readIndex cb0) + k) mod unat (cb_maxElements cb0))"
proof (rule share_mem_write_slot_free [OF reach1 seg1(1)])
  show "ShareMemQue_GetWritePtr True True (Some handle0) sys1
      = Some (Returned (Some 0, with_cb handle0 sys1 (cb0\<lparr>cb_notFull := 1\<rparr>)))"
    by (subst get_write_eq [OF seg1(1)]) (simp_all add: cb0_def)
qed

lemma share_mem_two_writers_same_slot_witness:
  "\<exists>off sys1' sys2.
      ShareMemQue_GetWritePtr True True (Some handle0) sys1 = Some (Returned (Some off, sys1'))
    \<and> ShareMemQue_GetWritePtr True True (Some handle0) sys1' = Some (Returned (Some off, sys2))"
  by (rule share_mem_two_writers_same_slot [OF seg1(1) cb0_inv]) (simp add: cb0_def)

lemma share_mem_open_by_name_witness:
  "ShareMemQue_GetID smq_env0 (Some ''q'') sys1
    = Some \<lparr>sh_shmFd = 5, sh_shmSize = 228, sh_isCreator = False\<rparr>"
  using share_mem_open_by_name [OF create0 seg1(2)]
  by (simp add: smq_env0_def handle0_def calculate_shm_size_def)


end
