(* ===== verification/Msg_Queue.thy ===== *)
theory Msg_Queue
  imports Comm_Que
begin

text \<open>
  \<^verbatim>\<open>common/msgqueue.c\<close>: messages in the slots of a \<^verbatim>\<open>CommQue\<close>.  The element buffer is viewed as
  an array of \<^verbatim>\<open>T_Msg\<close>; an element pointer is its byte offset, the index is the offset divided
  by \<^verbatim>\<open>sizeof(T_Msg)\<close>.  The answers of a wait change the counters of the ring; what other threads
  write meanwhile goes to slots they hold, not to the slot of this caller.  The bodies are heap
  blocks.
\<close>

section \<open>Data\<close>

record T_Msg =
  msg_uiCommand :: u32
  msg_strMsgId :: string
  msg_pcBody :: "addr ptr"
  msg_uiCallId :: u32

record msgq =
  mq_que_id :: "comm_que ptr"
  mq_slots :: "T_Msg list"

text \<open>On a 64-bit target: 4 + 32 + 4 (padding) + 8 + 4 + 4 (padding) bytes.\<close>

definition sizeof_T_Msg :: u64 where "sizeof_T_Msg = 56"

definition zero_msg :: T_Msg where
  "zero_msg = \<lparr>msg_uiCommand = 0, msg_strMsgId = [], msg_pcBody = None, msg_uiCallId = 0\<rparr>"

text \<open>\<^verbatim>\<open>SAFESTRCPY\<close> into a buffer of \<open>n > 0\<close> characters, which is not NULL.\<close>

definition SAFESTRCPY :: "string ptr \<Rightarrow> nat \<Rightarrow> string" where
  "SAFESTRCPY src n = (case src of None \<Rightarrow> []
     | Some s \<Rightarrow> if n \<le> length s then take (n - 1) s else s)"

definition msg_index :: "u64 \<Rightarrow> nat" where
  "msg_index el = unat el div unat sizeof_T_Msg"

definition read_msg :: "u64 \<Rightarrow> T_Msg list \<Rightarrow> T_Msg option" where
  "read_msg el slots = (if msg_index el < length slots then Some (slots ! msg_index el) else None)"

definition write_msg :: "u64 \<Rightarrow> T_Msg \<Rightarrow> T_Msg list \<Rightarrow> T_Msg list option" where
  "write_msg el m slots =
     (if msg_index el < length slots then Some (slots[msg_index el := m]) else None)"

section \<open>Operations\<close>

definition msg_queue_create :: "bool \<Rightarrow> cq_create_env \<Rightarrow> u32 \<Rightarrow> msgq ptr option" where
  "msg_queue_create malloc_ok e max_msg_count =
     (if max_msg_count = 0 then Some None
      else if \<not> malloc_ok then Some None
      else do {
        q \<leftarrow> CommQue_Create e max_msg_count sizeof_T_Msg;
        Some (if q = None then None
              else Some \<lparr>mq_que_id = q, mq_slots = replicate (unat max_msg_count) zero_msg\<rparr>) })"

text \<open>The loop releases the body of every pending message.\<close>

partial_function (option) clear_queue_loop ::
    "timespec \<Rightarrow> msgq \<Rightarrow> (addr \<rightharpoonup> 'b) \<Rightarrow> (msgq \<times> (addr \<rightharpoonup> 'b)) option" where
  "clear_queue_loop now h bodies = do {
     out \<leftarrow> CommQue_GetFull (mq_que_id h) OSAL_TIMEOUT_NONE now [];
     (case out of
        Blocked \<Rightarrow> None
      | Returned (None, q) \<Rightarrow> Some (h\<lparr>mq_que_id := q\<rparr>, bodies)
      | Returned (Some el, q) \<Rightarrow> do {
          m \<leftarrow> read_msg el (mq_slots h);
          (slots, bodies) \<leftarrow> (case msg_pcBody m of
              None \<Rightarrow> Some (mq_slots h, bodies)
            | Some b \<Rightarrow> do {
                bodies \<leftarrow> h_free bodies b;
                slots \<leftarrow> write_msg el (m\<lparr>msg_pcBody := None\<rparr>) (mq_slots h);
                Some (slots, bodies) });
          clear_queue_loop now \<lparr>mq_que_id = snd (CommQue_PutEmpty q (Some el)), mq_slots = slots\<rparr>
            bodies }) }"

definition clear_queue :: "timespec \<Rightarrow> msgq ptr \<Rightarrow> (addr \<rightharpoonup> 'b)
    \<Rightarrow> (E_StateCode \<times> msgq ptr \<times> (addr \<rightharpoonup> 'b)) option" where
  "clear_queue now p bodies =
     (case p of None \<Rightarrow> Some (STATE_CODE_INVALID_PARAM, None, bodies)
      | Some h \<Rightarrow> map_option (\<lambda>(h, bodies). (STATE_CODE_NO_ERROR, Some h, bodies))
                    (clear_queue_loop now h bodies))"

text \<open>The ring and the handle are freed; the heap of bodies is what is left.\<close>

definition msg_queue_destroy :: "timespec \<Rightarrow> msgq ptr \<Rightarrow> (addr \<rightharpoonup> 'b) \<Rightarrow> (addr \<rightharpoonup> 'b) option" where
  "msg_queue_destroy now p bodies =
     (case p of None \<Rightarrow> Some bodies
      | Some h \<Rightarrow> map_option (\<lambda>(code, h, bodies). bodies) (clear_queue now p bodies))"

definition msg_queue_send :: "msgq ptr \<Rightarrow> T_Msg \<Rightarrow> int \<Rightarrow> timespec \<Rightarrow> cq_answer list
    \<Rightarrow> (E_StateCode \<times> msgq ptr) outcome option" where
  "msg_queue_send p src timeout now answers =
     (case p of None \<Rightarrow> Some (Returned (STATE_CODE_INVALID_PARAM, None))
      | Some h \<Rightarrow>
        if mq_que_id h = None then Some (Returned (STATE_CODE_INVALID_PARAM, p))
        else do {
          out \<leftarrow> CommQue_GetEmpty (mq_que_id h) timeout now answers;
          (case out of
             Blocked \<Rightarrow> Some Blocked
           | Returned (None, q) \<Rightarrow> Some (Returned (STATE_CODE_TIME_OUT, Some (h\<lparr>mq_que_id := q\<rparr>)))
           | Returned (Some el, q) \<Rightarrow> do {
               slots \<leftarrow> write_msg el
                 \<lparr>msg_uiCommand = msg_uiCommand src,
                  msg_strMsgId = SAFESTRCPY (Some (msg_strMsgId src)) 32,
                  msg_pcBody = msg_pcBody src, msg_uiCallId = msg_uiCallId src\<rparr> (mq_slots h);
               let (ret, q) = CommQue_PutFull q (Some el);
               if ret \<noteq> 0
               then Some (Returned (STATE_CODE_TIME_OUT,
                      Some \<lparr>mq_que_id = snd (CommQue_PutEmpty q (Some el)), mq_slots = slots\<rparr>))
               else Some (Returned (STATE_CODE_NO_ERROR,
                      Some \<lparr>mq_que_id = q, mq_slots = slots\<rparr>)) }) })"

definition msg_queue_receive :: "msgq ptr \<Rightarrow> int \<Rightarrow> timespec \<Rightarrow> cq_answer list
    \<Rightarrow> (u64 ptr \<times> msgq ptr) outcome option" where
  "msg_queue_receive p timeout now answers =
     (case p of None \<Rightarrow> Some (Returned (None, None))
      | Some h \<Rightarrow>
        if mq_que_id h = None then Some (Returned (None, p))
        else do {
          out \<leftarrow> CommQue_GetFull (mq_que_id h) timeout now answers;
          Some (case out of Blocked \<Rightarrow> Blocked
                | Returned (el, q) \<Rightarrow> Returned (el, Some (h\<lparr>mq_que_id := q\<rparr>))) })"

text \<open>The result is the value returned as \<^verbatim>\<open>E_StateCode\<close>.\<close>

definition msg_queue_release_msg :: "msgq ptr \<Rightarrow> u64 ptr \<Rightarrow> int \<times> msgq ptr" where
  "msg_queue_release_msg p msg =
     (case p of None \<Rightarrow> (state_code_value STATE_CODE_INVALID_PARAM, None)
      | Some h \<Rightarrow>
        if mq_que_id h = None \<or> msg = None then (state_code_value STATE_CODE_INVALID_PARAM, p)
        else (let (ret, q) = CommQue_PutEmpty (mq_que_id h) msg in (ret, Some (h\<lparr>mq_que_id := q\<rparr>))))"

definition msg_queue_get_pending_count :: "msgq ptr \<Rightarrow> u32" where
  "msg_queue_get_pending_count p =
     (case p of None \<Rightarrow> 0
      | Some h \<Rightarrow> if mq_que_id h = None then 0 else CommQue_GetFullCount (mq_que_id h))"

section \<open>The pending messages\<close>

definition mq_inv :: "msgq \<Rightarrow> bool" where
  "mq_inv h \<longleftrightarrow> (case mq_que_id h of None \<Rightarrow> False
     | Some q \<Rightarrow> cq_inv q 0 0 \<and> \<not> cq_isDestroyed q \<and> cq_elementSize q = sizeof_T_Msg
         \<and> length (mq_slots h) = unat (cq_maxCount q))"

definition mq_pending :: "msgq \<Rightarrow> T_Msg list" where
  "mq_pending h = (case mq_que_id h of None \<Rightarrow> []
     | Some q \<Rightarrow> ring_slice (mq_slots h) (unat (cq_read q)) (unat (cq_fullCount q)))"

definition mq_can :: "nat \<Rightarrow> msgq \<Rightarrow> bool" where
  "mq_can n h = (case mq_que_id h of None \<Rightarrow> False | Some q \<Rightarrow> n \<le> unat (cq_emptyCount q))"

lemma slot_pointer:
  assumes "cq_inv q w r" "cq_elementSize q = sizeof_T_Msg"
    "unat (i::u32) < unat (cq_maxCount q)"
  shows "msg_index (ucast i * sizeof_T_Msg) = unat i"
proof -
  note D = cq_invD [OF assms(1)]
  have "unat i * 56 + 56 \<le> length (cq_buffer q)"
    using slot_in_block [OF assms(3) D(8)] assms(2) by (simp add: sizeof_T_Msg_def)
  with D(9) have "unat i * unat sizeof_T_Msg < 2 ^ 64" by (simp add: sizeof_T_Msg_def)
  then have "unat (ucast i * sizeof_T_Msg) = unat i * unat sizeof_T_Msg"
    by (rule unat_slot_offset)
  then show ?thesis by (simp add: msg_index_def sizeof_T_Msg_def)
qed

lemma take_empty_slot:
  assumes inv: "cq_inv q w r" and nd: "\<not> cq_isDestroyed q" and e: "0 < unat (cq_emptyCount q)"
  shows "\<exists>q1. CommQue_GetEmpty (Some q) OSAL_TIMEOUT_NONE now []
        = Some (Returned (Some (ucast (cq_write q) * cq_elementSize q), Some q1))
    \<and> cq_inv q1 (Suc w) r \<and> cq_read q1 = cq_read q \<and> cq_fullCount q1 = cq_fullCount q
    \<and> cq_maxCount q1 = cq_maxCount q \<and> cq_elementSize q1 = cq_elementSize q
    \<and> \<not> cq_isDestroyed q1 \<and> unat (cq_emptyCount q1) = unat (cq_emptyCount q) - 1"
proof -
  note D = cq_invD [OF inv]
  have nz: "cq_emptyCount q \<noteq> 0" using e by (auto simp: unat_gt_0)
  define q1 where "q1 = q\<lparr>cq_write := (cq_write q + 1) mod cq_maxCount q,
      cq_emptyCount := cq_emptyCount q - 1\<rparr>"
  have get: "CommQue_GetEmpty (Some q) OSAL_TIMEOUT_NONE now []
      = Some (Returned (Some (ucast (cq_write q) * cq_elementSize q), Some q1))"
    using nz nd D(3) by (simp add: get_empty_now umod_def q1_def)
  from cq_step_inv [OF cs_get_empty [OF get] inv] get nd unat_decr [OF nz] show ?thesis
    by (auto simp: q1_def)
qed

lemma take_full_slot:
  assumes inv: "cq_inv q w r" and nd: "\<not> cq_isDestroyed q" and f: "unat (cq_fullCount q) = Suc n"
  shows "\<exists>q1. CommQue_GetFull (Some q) OSAL_TIMEOUT_NONE now []
        = Some (Returned (Some (ucast (cq_read q) * cq_elementSize q), Some q1))
    \<and> cq_inv q1 w (Suc r) \<and> unat (cq_read q1) = (unat (cq_read q) + 1) mod unat (cq_maxCount q)
    \<and> unat (cq_fullCount q1) = n
    \<and> cq_maxCount q1 = cq_maxCount q \<and> cq_elementSize q1 = cq_elementSize q
    \<and> \<not> cq_isDestroyed q1 \<and> cq_emptyCount q1 = cq_emptyCount q"
proof -
  note D = cq_invD [OF inv]
  have nz: "cq_fullCount q \<noteq> 0" using f by auto
  define q1 where "q1 = q\<lparr>cq_read := (cq_read q + 1) mod cq_maxCount q,
      cq_fullCount := cq_fullCount q - 1\<rparr>"
  have get: "CommQue_GetFull (Some q) OSAL_TIMEOUT_NONE now []
      = Some (Returned (Some (ucast (cq_read q) * cq_elementSize q), Some q1))"
    using nz nd D(3) by (simp add: get_full_now umod_def q1_def)
  from cq_step_inv [OF cs_get_full [OF get] inv] get nd unat_decr [OF nz] f
    unat_succ_mod [OF D(5,2)] show ?thesis
    by (auto simp: q1_def)
qed

lemma commit_slot:
  assumes "cq_inv q (Suc w) r"
  shows "\<exists>q1. CommQue_PutFull (Some q) (Some el) = (0, Some q1) \<and> cq_inv q1 w r
    \<and> cq_read q1 = cq_read q \<and> unat (cq_fullCount q1) = Suc (unat (cq_fullCount q))
    \<and> cq_maxCount q1 = cq_maxCount q \<and> cq_elementSize q1 = cq_elementSize q
    \<and> cq_isDestroyed q1 = cq_isDestroyed q \<and> cq_emptyCount q1 = cq_emptyCount q"
proof -
  define q1 where "q1 = q\<lparr>cq_fullCount := cq_fullCount q + 1\<rparr>"
  have put: "CommQue_PutFull (Some q) (Some el) = (0, Some q1)"
    by (simp add: CommQue_PutFull_def q1_def)
  have "unat (cq_fullCount q + 1) = unat (cq_fullCount q) + 1"
    by (rule unat_incr [of _ "cq_maxCount q"]) (use cq_invD(4) [OF assms] in linarith)
  with cq_step_inv [OF cs_put_full [OF put] assms] put show ?thesis by (auto simp: q1_def)
qed

lemma release_slot:
  assumes "cq_inv q w (Suc r)"
  shows "\<exists>q1. CommQue_PutEmpty (Some q) (Some el) = (0, Some q1) \<and> cq_inv q1 w r
    \<and> cq_read q1 = cq_read q \<and> cq_fullCount q1 = cq_fullCount q
    \<and> cq_maxCount q1 = cq_maxCount q \<and> cq_elementSize q1 = cq_elementSize q
    \<and> cq_isDestroyed q1 = cq_isDestroyed q
    \<and> unat (cq_emptyCount q1) = Suc (unat (cq_emptyCount q))"
proof -
  define q1 where "q1 = q\<lparr>cq_emptyCount := cq_emptyCount q + 1\<rparr>"
  have put: "CommQue_PutEmpty (Some q) (Some el) = (0, Some q1)"
    by (simp add: CommQue_PutEmpty_def q1_def)
  have "unat (cq_emptyCount q + 1) = unat (cq_emptyCount q) + 1"
    by (rule unat_incr [of _ "cq_maxCount q"]) (use cq_invD(4) [OF assms] in linarith)
  with cq_step_inv [OF cs_put_empty [OF put] assms] put show ?thesis by (auto simp: q1_def)
qed

section \<open>A first-in-first-out queue of messages\<close>

definition mq_put :: "timespec \<Rightarrow> T_Msg \<Rightarrow> msgq \<Rightarrow> msgq option" where
  "mq_put now m h = do {
     out \<leftarrow> msg_queue_send (Some h) m OSAL_TIMEOUT_NONE now [];
     (case out of Returned (code, p) \<Rightarrow> if code = STATE_CODE_NO_ERROR then p else None
      | _ \<Rightarrow> None) }"

text \<open>Receive, copy the message, release the slot.\<close>

definition mq_get :: "timespec \<Rightarrow> msgq \<Rightarrow> (T_Msg ptr \<times> msgq) option" where
  "mq_get now h = do {
     out \<leftarrow> msg_queue_receive (Some h) OSAL_TIMEOUT_NONE now [];
     (case out of
        Returned (Some el, Some h) \<Rightarrow> do {
          m \<leftarrow> read_msg el (mq_slots h);
          h \<leftarrow> snd (msg_queue_release_msg (Some h) (Some el));
          Some (Some m, h) }
      | Returned (None, Some h) \<Rightarrow> Some (None, h)
      | _ \<Rightarrow> None) }"

definition msg_fits :: "T_Msg \<Rightarrow> bool" where
  "msg_fits m \<longleftrightarrow> length (msg_strMsgId m) < 32"

lemma mq_put_law:
  assumes inv: "mq_inv h" and can: "mq_can (Suc n) h" and m: "msg_fits m"
  shows "\<exists>h'. mq_put now m h = Some h' \<and> mq_inv h' \<and> mq_can n h' \<and> mq_pending h' = mq_pending h @ [m]"
proof -
  obtain q where q: "mq_que_id h = Some q" "cq_inv q 0 0" "\<not> cq_isDestroyed q"
    "cq_elementSize q = sizeof_T_Msg" "length (mq_slots h) = unat (cq_maxCount q)"
    using inv by (auto simp: mq_inv_def split: option.splits)
  have e: "0 < unat (cq_emptyCount q)" and n: "Suc n \<le> unat (cq_emptyCount q)"
    using can q(1) by (simp_all add: mq_can_def)
  note D = cq_invD [OF q(2)]
  let ?el = "ucast (cq_write q) * sizeof_T_Msg"
  obtain q1 where q1: "CommQue_GetEmpty (Some q) OSAL_TIMEOUT_NONE now []
        = Some (Returned (Some ?el, Some q1))" "cq_inv q1 (Suc 0) 0" "cq_read q1 = cq_read q"
      "cq_fullCount q1 = cq_fullCount q" "cq_maxCount q1 = cq_maxCount q"
      "cq_elementSize q1 = cq_elementSize q" "\<not> cq_isDestroyed q1"
      "unat (cq_emptyCount q1) = unat (cq_emptyCount q) - 1"
    using take_empty_slot [OF q(2,3) e, of now] q(4) by auto
  obtain q2 where q2: "CommQue_PutFull (Some q1) (Some ?el) = (0, Some q2)" "cq_inv q2 0 0"
      "cq_read q2 = cq_read q1" "unat (cq_fullCount q2) = Suc (unat (cq_fullCount q1))"
      "cq_maxCount q2 = cq_maxCount q1" "cq_elementSize q2 = cq_elementSize q1"
      "cq_isDestroyed q2 = cq_isDestroyed q1" "cq_emptyCount q2 = cq_emptyCount q1"
    using commit_slot [OF q1(2), of ?el] by auto
  have idx: "msg_index ?el = unat (cq_write q)" by (rule slot_pointer [OF q(2,4) D(6)])
  have w: "unat (cq_write q)
      = (unat (cq_read q) + unat (cq_fullCount q)) mod length (mq_slots h)"
    using D(7) q(5) by simp
  let ?slots = "(mq_slots h)[unat (cq_write q) := m]"
  have same: "\<lparr>msg_uiCommand = msg_uiCommand m, msg_strMsgId = SAFESTRCPY (Some (msg_strMsgId m)) 32,
      msg_pcBody = msg_pcBody m, msg_uiCallId = msg_uiCallId m\<rparr> = m"
    using m by (cases m) (simp add: msg_fits_def SAFESTRCPY_def)
  have "write_msg ?el m (mq_slots h) = Some ?slots"
    using idx D(6) q(5) by (simp add: write_msg_def)
  then have run: "mq_put now m h = Some \<lparr>mq_que_id = Some q2, mq_slots = ?slots\<rparr>"
    using q(1) q1(1) q2(1) same by (simp add: mq_put_def msg_queue_send_def)
  have "unat (cq_fullCount q) < length (mq_slots h)" using D(4) e q(5) by simp
  then have "ring_slice ?slots (unat (cq_read q)) (Suc (unat (cq_fullCount q)))
      = ring_slice (mq_slots h) (unat (cq_read q)) (unat (cq_fullCount q)) @ [m]"
    unfolding w by (rule ring_slice_update)
  then show ?thesis using run q q1 q2 n
    by (auto simp: mq_inv_def mq_can_def mq_pending_def)
qed

lemma mq_get_law:
  assumes inv: "mq_inv h" and can: "mq_can n h" and ms: "mq_pending h = m # ms"
  shows "\<exists>h'. mq_get now h = Some (Some m, h') \<and> mq_inv h' \<and> mq_can n h' \<and> mq_pending h' = ms"
proof -
  obtain q where q: "mq_que_id h = Some q" "cq_inv q 0 0" "\<not> cq_isDestroyed q"
    "cq_elementSize q = sizeof_T_Msg" "length (mq_slots h) = unat (cq_maxCount q)"
    using inv by (auto simp: mq_inv_def split: option.splits)
  obtain f where f: "unat (cq_fullCount q) = Suc f"
    using ms q(1) by (cases "unat (cq_fullCount q)") (auto simp: mq_pending_def)
  note D = cq_invD [OF q(2)]
  let ?el = "ucast (cq_read q) * sizeof_T_Msg"
  obtain q1 where q1: "CommQue_GetFull (Some q) OSAL_TIMEOUT_NONE now []
        = Some (Returned (Some ?el, Some q1))" "cq_inv q1 0 (Suc 0)"
      "unat (cq_read q1) = (unat (cq_read q) + 1) mod unat (cq_maxCount q)"
      "unat (cq_fullCount q1) = f" "cq_maxCount q1 = cq_maxCount q"
      "cq_elementSize q1 = cq_elementSize q" "\<not> cq_isDestroyed q1"
      "cq_emptyCount q1 = cq_emptyCount q"
    using take_full_slot [OF q(2,3) f, of now] q(4) by auto
  obtain q2 where q2: "CommQue_PutEmpty (Some q1) (Some ?el) = (0, Some q2)" "cq_inv q2 0 0"
      "cq_read q2 = cq_read q1" "cq_fullCount q2 = cq_fullCount q1"
      "cq_maxCount q2 = cq_maxCount q1" "cq_elementSize q2 = cq_elementSize q1"
      "cq_isDestroyed q2 = cq_isDestroyed q1"
      "unat (cq_emptyCount q2) = Suc (unat (cq_emptyCount q1))"
    using release_slot [OF q1(2), of ?el] by auto
  have idx: "msg_index ?el = unat (cq_read q)" by (rule slot_pointer [OF q(2,4) D(5)])
  have rd: "read_msg ?el (mq_slots h) = Some (mq_slots h ! unat (cq_read q))"
    using idx D(5) q(5) by (simp add: read_msg_def)
  have "mq_pending h = mq_slots h ! unat (cq_read q)
      # ring_slice (mq_slots h) (Suc (unat (cq_read q))) f"
    using q(1,5) f D(5) by (simp add: mq_pending_def ring_slice_Suc)
  then have split: "m = mq_slots h ! unat (cq_read q)"
      "ms = ring_slice (mq_slots h) (Suc (unat (cq_read q))) f"
    using ms by simp_all
  have "mq_get now h = Some (Some m, h\<lparr>mq_que_id := Some q2\<rparr>)"
    using q(1) q1(1) q2(1) rd split(1)
    by (simp add: mq_get_def msg_queue_receive_def msg_queue_release_msg_def)
  moreover have "ring_slice (mq_slots h) (unat (cq_read q2)) f = ms"
    using split(2) q1(3) q2(3) q(5) ring_slice_mod [of "mq_slots h" "Suc (unat (cq_read q))" f]
    by simp
  ultimately show ?thesis using q q1 q2 can
    by (auto simp: mq_inv_def mq_can_def mq_pending_def)
qed

lemma mq_get_empty:
  assumes "mq_inv h" "mq_pending h = []"
  shows "mq_get now h = Some (None, h)"
proof -
  obtain q where q: "mq_que_id h = Some q" "ring_slice (mq_slots h) (unat (cq_read q))
      (unat (cq_fullCount q)) = []"
    using assms by (auto simp: mq_inv_def mq_pending_def split: option.splits)
  then have "unat (cq_fullCount q) = 0" using length_ring_slice by (metis list.size(3))
  then have "cq_fullCount q = 0" by (simp add: unat_eq_zero)
  moreover have "h\<lparr>mq_que_id := Some q\<rparr> = h" using q(1) by simp
  ultimately show ?thesis using q(1)
    by (simp add: mq_get_def msg_queue_receive_def get_full_now)
qed

interpretation mq: fifo mq_inv mq_pending mq_can msg_fits "mq_put now" "mq_get now"
  by unfold_locales (use mq_put_law mq_get_law mq_get_empty in blast)+


section \<open>Destruction\<close>

definition body_list :: "T_Msg list \<Rightarrow> addr list" where
  "body_list ms = List.map_filter msg_pcBody ms"

lemma body_list_simps [simp]:
  "body_list [] = []"
  "body_list (m # ms) = (case msg_pcBody m of None \<Rightarrow> body_list ms | Some b \<Rightarrow> b # body_list ms)"
  by (simp_all add: body_list_def map_filter_simps split: option.split)

lemma ring_slice_update_before:
  assumes "n < length d"
  shows "ring_slice (d[s mod length d := x]) (Suc s) n = ring_slice d (Suc s) n"
proof (rule nth_equalityI)
  fix i assume "i < length (ring_slice (d[s mod length d := x]) (Suc s) n)"
  then have i: "i < n" by simp
  then have "s mod length d \<noteq> (Suc s + i) mod length d"
    using assms by (intro mod_window_neq) auto
  then show "ring_slice (d[s mod length d := x]) (Suc s) n ! i = ring_slice d (Suc s) n ! i"
    using i by (simp add: nth_ring_slice)
qed simp

lemma clear_queue_loop_frees:
  "\<lbrakk>mq_inv h; mq_pending h = ms; distinct (body_list ms); set (body_list ms) \<subseteq> dom bodies\<rbrakk> \<Longrightarrow>
   \<exists>h'. clear_queue_loop now h bodies = Some (h', bodies |` (- set (body_list ms)))
      \<and> mq_inv h' \<and> mq_pending h' = []"
proof (induction ms arbitrary: h bodies)
  case Nil
  obtain q where q: "mq_que_id h = Some q" "cq_fullCount q = 0"
    using Nil(1,2) length_ring_slice [of "mq_slots h"]
    by (auto simp: mq_inv_def mq_pending_def unat_eq_zero split: option.splits)
       (metis length_ring_slice list.size(3) unat_eq_zero)
  have "h\<lparr>mq_que_id := Some q\<rparr> = h" using q(1) by simp
  then have "clear_queue_loop now h bodies = Some (h, bodies)"
    using q by (subst clear_queue_loop.simps) (simp add: get_full_now)
  then show ?case using Nil(1,2) by (simp add: restrict_map_def)
next
  case (Cons m ms)
  obtain q where q: "mq_que_id h = Some q" "cq_inv q 0 0" "\<not> cq_isDestroyed q"
    "cq_elementSize q = sizeof_T_Msg" "length (mq_slots h) = unat (cq_maxCount q)"
    using Cons.prems(1) by (auto simp: mq_inv_def split: option.splits)
  obtain f where f: "unat (cq_fullCount q) = Suc f"
    using Cons.prems(2) q(1) by (cases "unat (cq_fullCount q)") (auto simp: mq_pending_def)
  note D = cq_invD [OF q(2)]
  let ?el = "ucast (cq_read q) * sizeof_T_Msg" and ?r = "unat (cq_read q)"
  obtain q1 where q1: "CommQue_GetFull (Some q) OSAL_TIMEOUT_NONE now []
        = Some (Returned (Some ?el, Some q1))" "cq_inv q1 0 (Suc 0)"
      "unat (cq_read q1) = (unat (cq_read q) + 1) mod unat (cq_maxCount q)"
      "unat (cq_fullCount q1) = f" "cq_maxCount q1 = cq_maxCount q"
      "cq_elementSize q1 = cq_elementSize q" "\<not> cq_isDestroyed q1"
    using take_full_slot [OF q(2,3) f, of now] q(4) by auto
  obtain q2 where q2: "CommQue_PutEmpty (Some q1) (Some ?el) = (0, Some q2)" "cq_inv q2 0 0"
      "cq_read q2 = cq_read q1" "cq_fullCount q2 = cq_fullCount q1"
      "cq_maxCount q2 = cq_maxCount q1" "cq_elementSize q2 = cq_elementSize q1"
      "cq_isDestroyed q2 = cq_isDestroyed q1"
    using release_slot [OF q1(2), of ?el] by auto
  have idx: "msg_index ?el = ?r" by (rule slot_pointer [OF q(2,4) D(5)])
  have rd: "read_msg ?el (mq_slots h) = Some (mq_slots h ! ?r)"
    using idx D(5) q(5) by (simp add: read_msg_def)
  have "mq_pending h = mq_slots h ! ?r # ring_slice (mq_slots h) (Suc ?r) f"
    using q(1,5) f D(5) by (simp add: mq_pending_def ring_slice_Suc)
  then have m: "m = mq_slots h ! ?r" and ms: "ms = ring_slice (mq_slots h) (Suc ?r) f"
    using Cons.prems(2) by simp_all
  define slots where "slots = (case msg_pcBody m of None \<Rightarrow> mq_slots h
      | Some b \<Rightarrow> (mq_slots h)[?r := m\<lparr>msg_pcBody := None\<rparr>])"
  define bodies1 where "bodies1 = (case msg_pcBody m of None \<Rightarrow> bodies | Some b \<Rightarrow> bodies(b := None))"
  define h1 where "h1 = \<lparr>mq_que_id = Some q2, mq_slots = slots\<rparr>"
  have step: "clear_queue_loop now h bodies = clear_queue_loop now h1 bodies1"
  proof (cases "msg_pcBody m")
    case None
    then show ?thesis using q(1) q1(1) q2(1) rd m
      by (subst clear_queue_loop.simps) (simp add: h1_def slots_def bodies1_def)
  next
    case (Some b)
    then obtain y where "bodies b = Some y" using Cons.prems(4) by auto
    then show ?thesis using Some q(1,5) q1(1) q2(1) rd m idx D(5)
      by (subst clear_queue_loop.simps)
         (simp add: h1_def slots_def bodies1_def write_msg_def mem_simps)
  qed
  have len: "length slots = unat (cq_maxCount q)"
    using q(5) by (simp add: slots_def split: option.split)
  have inv1: "mq_inv h1" using q q1 q2 len by (simp add: mq_inv_def h1_def)
  have "f < length (mq_slots h)" using D(4) f q(5) by simp
  from ring_slice_update_before [OF this, of ?r "m\<lparr>msg_pcBody := None\<rparr>"]
  have "ring_slice slots (Suc ?r) f = ms"
    using ms D(5) q(5) by (simp add: slots_def split: option.split)
  then have pend1: "mq_pending h1 = ms"
    using q1(3,4) q2(3,4) len ring_slice_mod [of slots "Suc ?r" f]
    by (simp add: mq_pending_def h1_def)
  have "distinct (body_list ms)" "set (body_list ms) \<subseteq> dom bodies1"
    using Cons.prems(3,4) by (auto simp: bodies1_def split: option.splits)
  from Cons.IH [OF inv1 pend1 this] obtain h' where
    h': "clear_queue_loop now h1 bodies1 = Some (h', bodies1 |` (- set (body_list ms)))"
    "mq_inv h'" "mq_pending h' = []" by blast
  have "bodies1 |` (- set (body_list ms)) = bodies |` (- set (body_list (m # ms)))"
    by (auto simp: bodies1_def restrict_map_def fun_eq_iff split: option.split)
  with step h' show ?case by simp
qed

text \<open>
  C35: \<^verbatim>\<open>msg_queue_destroy\<close> terminates and frees the body of every message that is still pending,
  each once, and no other block.\<close>

theorem msg_queue_destroy_frees_pending:
  assumes "mq_inv h" "distinct (body_list (mq_pending h))"
    "set (body_list (mq_pending h)) \<subseteq> dom bodies"
  shows "msg_queue_destroy now (Some h) bodies
    = Some (bodies |` (- set (body_list (mq_pending h))))"
  using clear_queue_loop_frees [OF assms(1) refl assms(2,3), of now]
  by (auto simp: msg_queue_destroy_def clear_queue_def)

section \<open>Witnesses\<close>

definition msg1 :: T_Msg where
  "msg1 = \<lparr>msg_uiCommand = 4, msg_strMsgId = ''play'', msg_pcBody = Some 9, msg_uiCallId = 1\<rparr>"

text \<open>A queue of two messages, one of them pending.\<close>

definition mq0 :: msgq where
  "mq0 = \<lparr>mq_que_id = Some \<lparr>cq_buffer = replicate 112 0, cq_maxCount = 2, cq_elementSize = 56,
      cq_write = 1, cq_read = 0, cq_fullCount = 1, cq_emptyCount = 1, cq_isDestroyed = False\<rparr>,
     mq_slots = [msg1, zero_msg]\<rparr>"

lemma mq0_inv: "mq_inv mq0"
  by (simp add: mq_inv_def mq0_def cq_inv_def sizeof_T_Msg_def)

lemma mq0_pending: "mq_pending mq0 = [msg1]"
  by (simp add: mq_pending_def mq0_def ring_slice_Suc [of _ _ 0, simplified])


lemma msg_queue_destroy_frees_pending_witness:
  "msg_queue_destroy now0 (Some mq0) [9 \<mapsto> True, 11 \<mapsto> False] = Some [11 \<mapsto> False]"
proof -
  have "[9 \<mapsto> True, 11 \<mapsto> False] |` (- set (body_list (mq_pending mq0))) = [11 \<mapsto> False]"
    by (auto simp: mq0_pending msg1_def restrict_map_def)
  then show ?thesis
    using msg_queue_destroy_frees_pending [OF mq0_inv, of "[9 \<mapsto> True, 11 \<mapsto> False]" now0]
    by (simp add: mq0_pending msg1_def)
qed

end
