(* ===== verification/Request_Que.thy ===== *)
theory Request_Que
  imports Thread_Safe_Queue
begin

text \<open>
  \<^verbatim>\<open>common/request_que.c\<close>: asynchronous requests with a pending queue and a table by identifier.
  The requests are the data blocks of the queue's heap.  The table is what \<^verbatim>\<open>uthash\<close> promises: the
  entries in insertion order, the newest entry found first.  \<^verbatim>\<open>bNeedFree\<close> is not set by
  \<^verbatim>\<open>create_request\<close>: its first value is whatever \<^verbatim>\<open>malloc\<close> left there, a parameter.
\<close>

section \<open>Data\<close>

datatype RequestStatus =
    REQUEST_STATUS_PENDING | REQUEST_STATUS_PROCESSING | REQUEST_STATUS_COMPLETED
  | REQUEST_STATUS_FAILED | REQUEST_STATUS_CANCELLED | REQUEST_STATUS_TIMEOUT

record AsyncRequest =
  ar_id :: u64
  ar_data :: "addr ptr"
  ar_context :: "addr ptr"
  ar_callback :: "addr ptr"
  ar_status :: RequestStatus
  ar_timeout_ms :: int
  ar_submit_time :: int
  ar_is_waiting :: bool
  ar_is_sync :: bool
  ar_bNeedFree :: bool

type_synonym rheap = "AsyncRequest qheap"

record AsyncRequestQueue =
  aq_pending_queue :: tqueue
  aq_request_table :: "(u64 \<times> addr) list"
  aq_next_id :: u64
  aq_is_destroyed :: bool

text \<open>
  The environment of one call: the allocators of queue nodes and of requests, the outcomes of
  the initialisers, the clock, and the value found in the uninitialised field.
\<close>

record req_env =
  re_node_malloc :: "(addr \<rightharpoonup> qnode) \<Rightarrow> addr ptr"
  re_malloc :: "(addr \<rightharpoonup> AsyncRequest) \<Rightarrow> addr ptr"
  re_mutex_init :: bool
  re_cond_init :: bool
  re_now :: int
  re_junk :: bool

section \<open>Requests\<close>

definition create_request :: "req_env \<Rightarrow> addr ptr \<Rightarrow> addr ptr \<Rightarrow> addr ptr \<Rightarrow> int \<Rightarrow> u64 \<Rightarrow> bool
    \<Rightarrow> rheap \<Rightarrow> addr ptr \<times> rheap" where
  "create_request e data context callback timeout_ms i is_sync hp =
     (case re_malloc e (hp_blocks hp) of
        None \<Rightarrow> (None, hp)
      | Some a \<Rightarrow>
          (let req = \<lparr>ar_id = i, ar_data = data, ar_context = context, ar_callback = callback,
                      ar_status = REQUEST_STATUS_PENDING, ar_timeout_ms = timeout_ms,
                      ar_submit_time = re_now e, ar_is_waiting = False, ar_is_sync = is_sync,
                      ar_bNeedFree = re_junk e\<rparr> in
           if \<not> re_mutex_init e then (None, hp)
           else if \<not> re_cond_init e then (None, hp)
           else (Some a, hp\<lparr>hp_blocks := (hp_blocks hp)(a \<mapsto> req)\<rparr>)))"

definition destroy_request :: "addr ptr \<Rightarrow> rheap \<Rightarrow> rheap option" where
  "destroy_request p hp = (case p of None \<Rightarrow> Some hp
     | Some a \<Rightarrow> do { bl \<leftarrow> h_free (hp_blocks hp) a; Some (hp\<lparr>hp_blocks := bl\<rparr>) })"

text \<open>Assignments through a request pointer.\<close>

definition upd_request :: "addr \<Rightarrow> (AsyncRequest \<Rightarrow> AsyncRequest) \<Rightarrow> rheap \<Rightarrow> rheap option" where
  "upd_request a f hp = (case hp_blocks hp a of None \<Rightarrow> None
     | Some r \<Rightarrow> Some (hp\<lparr>hp_blocks := (hp_blocks hp)(a \<mapsto> f r)\<rparr>))"

definition hash_find :: "u64 \<Rightarrow> (u64 \<times> addr) list \<Rightarrow> addr ptr" where
  "hash_find i table = map_of (rev table) i"

definition hash_del :: "addr \<Rightarrow> (u64 \<times> addr) list \<Rightarrow> (u64 \<times> addr) list" where
  "hash_del a table = filter (\<lambda>x. snd x \<noteq> a) table"

section \<open>The queue\<close>

definition async_request_queue_create ::
    "bool \<Rightarrow> tqueue ptr \<Rightarrow> bool \<Rightarrow> bool \<Rightarrow> AsyncRequestQueue ptr" where
  "async_request_queue_create malloc_ok pending id_mutex_ok table_mutex_ok =
     (if \<not> malloc_ok then None
      else case pending of None \<Rightarrow> None
      | Some pending_queue \<Rightarrow>
          if \<not> id_mutex_ok then None
          else if \<not> table_mutex_ok then None
          else Some \<lparr>aq_pending_queue = pending_queue, aq_request_table = [], aq_next_id = 1,
                     aq_is_destroyed = False\<rparr>)"

fun destroy_table :: "(u64 \<times> addr) list \<Rightarrow> rheap \<Rightarrow> rheap option" where
  "destroy_table [] hp = Some hp"
| "destroy_table ((i, a) # table) hp = do { hp \<leftarrow> destroy_request (Some a) hp; destroy_table table hp }"

definition async_request_queue_destroy :: "AsyncRequestQueue ptr \<Rightarrow> rheap \<Rightarrow> rheap option" where
  "async_request_queue_destroy p hp =
     (case p of None \<Rightarrow> Some hp
      | Some aq \<Rightarrow> do {
          (q, hp) \<leftarrow> queue_clear (Some (aq_pending_queue aq)) hp;
          hp \<leftarrow> queue_destroy q hp;
          destroy_table (aq_request_table aq) hp })"

definition async_request_submit :: "req_env \<Rightarrow> AsyncRequestQueue ptr \<Rightarrow> addr ptr \<Rightarrow> addr ptr \<Rightarrow> addr ptr
    \<Rightarrow> int \<Rightarrow> rheap \<Rightarrow> (u64 \<times> AsyncRequestQueue ptr \<times> rheap) option" where
  "async_request_submit e p data context callback timeout_ms hp =
     (case p of None \<Rightarrow> Some (0, None, hp)
      | Some aq \<Rightarrow>
        if aq_is_destroyed aq then Some (0, p, hp)
        else
          (let req_id = aq_next_id aq;
               aq = aq\<lparr>aq_next_id := (if req_id + 1 = 0 then 1 else req_id + 1)\<rparr>;
               (req, hp) = create_request e data context callback timeout_ms req_id False hp in
           case req of None \<Rightarrow> Some (0, Some aq, hp)
           | Some a \<Rightarrow>
             (let aq = aq\<lparr>aq_request_table := aq_request_table aq @ [(req_id, a)]\<rparr> in
              do { (ret, q, hp) \<leftarrow> queue_enqueue (re_node_malloc e) True
                                    (Some (aq_pending_queue aq)) hp (Some a) 8;
                   q \<leftarrow> q;
                   let aq = aq\<lparr>aq_pending_queue := q\<rparr>;
                   if ret \<noteq> 0 then do {
                     hp \<leftarrow> destroy_request (Some a) hp;
                     Some (0, Some (aq\<lparr>aq_request_table := hash_del a (aq_request_table aq)\<rparr>), hp) }
                   else Some (req_id, Some aq, hp) })))"

text \<open>The answers of the wait are those of the pending queue; the table is not touched.\<close>

definition async_request_fetch :: "AsyncRequest q_answer list \<Rightarrow> AsyncRequestQueue ptr \<Rightarrow> rheap
    \<Rightarrow> (addr ptr \<times> AsyncRequestQueue ptr \<times> rheap) outcome option" where
  "async_request_fetch answers p hp =
     (case p of None \<Rightarrow> Some (Returned (None, None, hp))
      | Some aq \<Rightarrow>
        if aq_is_destroyed aq then Some (Returned (None, p, hp))
        else do {
          out \<leftarrow> queue_dequeue True None answers (Some (aq_pending_queue aq)) hp;
          (case out of Blocked \<Rightarrow> Some Blocked
           | Returned ((req, req_size), q, hp) \<Rightarrow> do {
               q \<leftarrow> q;
               let aq = aq\<lparr>aq_pending_queue := q\<rparr>;
               (case req of None \<Rightarrow> Some (Returned (None, Some aq, hp))
                | Some a \<Rightarrow> do {
                    hp \<leftarrow> upd_request a (\<lambda>r. r\<lparr>ar_status := REQUEST_STATUS_PROCESSING\<rparr>) hp;
                    Some (Returned (Some a, Some aq, hp)) }) }) })"

definition async_request_complete :: "AsyncRequestQueue ptr \<Rightarrow> addr ptr \<Rightarrow> RequestStatus \<Rightarrow> rheap
    \<Rightarrow> rheap option" where
  "async_request_complete p req status hp =
     (case (p, req) of
        (Some aq, Some a) \<Rightarrow>
          if aq_is_destroyed aq then Some hp
          else upd_request a (\<lambda>r. r\<lparr>ar_status := status\<rparr>) hp
      | _ \<Rightarrow> Some hp)"

definition req_terminal :: "RequestStatus \<Rightarrow> bool" where
  "req_terminal st \<longleftrightarrow> st = REQUEST_STATUS_COMPLETED \<or> st = REQUEST_STATUS_FAILED
     \<or> st = REQUEST_STATUS_CANCELLED \<or> st = REQUEST_STATUS_TIMEOUT"

text \<open>
  One wait on the condition of the request, not repeated: \<open>answer\<close> is given the deadline and
  returns the code and the queue and heap afterwards; no answer means still waiting.
\<close>

definition async_request_wait :: "timespec \<Rightarrow> (timespec ptr \<Rightarrow> int \<times> AsyncRequestQueue \<times> rheap) ptr
    \<Rightarrow> AsyncRequestQueue ptr \<Rightarrow> u64 \<Rightarrow> int \<Rightarrow> rheap
    \<Rightarrow> (int \<times> AsyncRequestQueue ptr \<times> rheap) outcome option" where
  "async_request_wait now answer p req_id timeout_ms hp =
     (case p of None \<Rightarrow> Some (Returned (-1, None, hp))
      | Some aq \<Rightarrow>
        if aq_is_destroyed aq then Some (Returned (-1, p, hp))
        else case hash_find req_id (aq_request_table aq) of
          None \<Rightarrow> Some (Returned (-1, p, hp))
        | Some a \<Rightarrow> do {
            r \<leftarrow> hp_blocks hp a;
            if req_terminal (ar_status r) then do {
              hp \<leftarrow> upd_request a (\<lambda>r. r\<lparr>ar_bNeedFree := True\<rparr>) hp;
              Some (Returned (0, p, hp)) }
            else do {
              hp \<leftarrow> upd_request a (\<lambda>r. r\<lparr>ar_is_waiting := True\<rparr>) hp;
              (case answer of None \<Rightarrow> Some Blocked
               | Some f \<Rightarrow>
                   (let (ret, aq, hp) = f (if 0 < timeout_ms
                          then Some (timespec_add_ms now timeout_ms) else None) in
                    if ret \<noteq> 0 then do {
                      hp \<leftarrow> upd_request a (\<lambda>r. r\<lparr>ar_is_waiting := False\<rparr>) hp;
                      Some (Returned (-1, Some aq, hp)) }
                    else do {
                      hp \<leftarrow> upd_request a
                        (\<lambda>r. r\<lparr>ar_is_waiting := False, ar_bNeedFree := True\<rparr>) hp;
                      Some (Returned (0, Some aq, hp)) })) } })"

definition async_request_cancel :: "AsyncRequestQueue ptr \<Rightarrow> u64 \<Rightarrow> rheap \<Rightarrow> (bool \<times> rheap) option" where
  "async_request_cancel p req_id hp =
     (case p of None \<Rightarrow> Some (False, hp)
      | Some aq \<Rightarrow>
        if aq_is_destroyed aq then Some (False, hp)
        else case hash_find req_id (aq_request_table aq) of
          None \<Rightarrow> Some (False, hp)
        | Some a \<Rightarrow> do {
            r \<leftarrow> hp_blocks hp a;
            if ar_status r \<noteq> REQUEST_STATUS_PENDING then Some (False, hp)
            else do {
              hp \<leftarrow> upd_request a
                (\<lambda>r. r\<lparr>ar_status := REQUEST_STATUS_CANCELLED, ar_bNeedFree := True\<rparr>) hp;
              Some (True, hp) } })"

definition async_request_get_status :: "AsyncRequestQueue ptr \<Rightarrow> u64 \<Rightarrow> rheap \<Rightarrow> RequestStatus option" where
  "async_request_get_status p req_id hp =
     (case p of None \<Rightarrow> Some REQUEST_STATUS_FAILED
      | Some aq \<Rightarrow>
        (case hash_find req_id (aq_request_table aq) of
           None \<Rightarrow> Some REQUEST_STATUS_FAILED
         | Some a \<Rightarrow> map_option ar_status (hp_blocks hp a)))"

record QueueStats =
  st_pending_count :: u64
  st_processing_count :: u64
  st_completed_count :: u64
  st_total_count :: u64

text \<open>\<^verbatim>\<open>HASH_COUNT\<close> is an \<^verbatim>\<open>unsigned\<close>; \<open>stats\<close> is the caller's structure.\<close>

definition async_request_queue_stats :: "AsyncRequestQueue ptr \<Rightarrow> QueueStats ptr \<Rightarrow> QueueStats ptr" where
  "async_request_queue_stats p stats =
     (case stats of None \<Rightarrow> None
      | Some s \<Rightarrow>
        (case p of
           None \<Rightarrow> Some \<lparr>st_pending_count = 0, st_processing_count = 0, st_completed_count = 0,
                         st_total_count = 0\<rparr>
         | Some aq \<Rightarrow>
             (let pending = queue_size (Some (aq_pending_queue aq));
                  total = ucast (of_nat (length (aq_request_table aq)) :: u32) in
              Some (s\<lparr>st_pending_count := pending, st_total_count := total,
                      st_processing_count := (if pending < total then total - pending else 0)\<rparr>))))"

text \<open>The safe iteration over the table: the entries to visit are fixed by the saved successor.\<close>

fun cleanup_loop :: "int \<Rightarrow> (u64 \<times> addr) list \<Rightarrow> (u64 \<times> addr) list \<Rightarrow> rheap
    \<Rightarrow> ((u64 \<times> addr) list \<times> rheap) option" where
  "cleanup_loop current_time [] table hp = Some (table, hp)"
| "cleanup_loop current_time ((i, a) # todo) table hp = do {
     r \<leftarrow> hp_blocks hp a;
     if ar_bNeedFree r then do {
       hp \<leftarrow> destroy_request (Some a) hp;
       cleanup_loop current_time todo (hash_del a table) hp }
     else if ar_status r = REQUEST_STATUS_PENDING \<and> 0 < ar_timeout_ms r then
       (if ar_timeout_ms r \<le> current_time - ar_submit_time r then do {
          hp \<leftarrow> upd_request a
            (\<lambda>r. r\<lparr>ar_status := REQUEST_STATUS_TIMEOUT, ar_bNeedFree := True\<rparr>) hp;
          cleanup_loop current_time todo table hp }
        else cleanup_loop current_time todo table hp)
     else cleanup_loop current_time todo table hp }"

definition async_request_cleanup_completed :: "int \<Rightarrow> AsyncRequestQueue ptr \<Rightarrow> rheap
    \<Rightarrow> (AsyncRequestQueue ptr \<times> rheap) option" where
  "async_request_cleanup_completed now p hp =
     (case p of None \<Rightarrow> Some (None, hp)
      | Some aq \<Rightarrow> do {
          (table, hp) \<leftarrow> cleanup_loop now (aq_request_table aq) (aq_request_table aq) hp;
          Some (Some (aq\<lparr>aq_request_table := table\<rparr>), hp) })"

section \<open>Well-formed request queues\<close>

text \<open>\<open>xs\<close> are the items of the pending queue: every one is the request of a table entry.\<close>

definition arq_inv :: "AsyncRequestQueue \<Rightarrow> rheap \<Rightarrow> q_item list \<Rightarrow> bool" where
  "arq_inv aq hp xs \<longleftrightarrow> tq_inv hp (aq_pending_queue aq) xs
     \<and> \<not> q_is_destroyed (aq_pending_queue aq) \<and> \<not> aq_is_destroyed aq
     \<and> distinct (map fst (aq_request_table aq)) \<and> distinct (map snd (aq_request_table aq))
     \<and> (\<forall>(i, a) \<in> set (aq_request_table aq). 0 < i \<and> i < aq_next_id aq
          \<and> (\<exists>r. hp_blocks hp a = Some r \<and> ar_id r = i))
     \<and> distinct (map (fst \<circ> snd) xs)
     \<and> (fst \<circ> snd) ` set xs \<subseteq> snd ` set (aq_request_table aq) \<and> 0 < aq_next_id aq"

lemma arq_invD:
  assumes "arq_inv aq hp xs"
  shows "tq_inv hp (aq_pending_queue aq) xs" "\<not> q_is_destroyed (aq_pending_queue aq)"
    "\<not> aq_is_destroyed aq" "distinct (map fst (aq_request_table aq))"
    "distinct (map snd (aq_request_table aq))"
    "\<And>i a. (i, a) \<in> set (aq_request_table aq) \<Longrightarrow> 0 < i \<and> i < aq_next_id aq
       \<and> (\<exists>r. hp_blocks hp a = Some r \<and> ar_id r = i)"
    "distinct (map (fst \<circ> snd) xs)" "(fst \<circ> snd) ` set xs \<subseteq> snd ` set (aq_request_table aq)"
    "0 < aq_next_id aq"
  using assms by (auto simp: arq_inv_def)

lemma hash_find_iff:
  "distinct (map fst table) \<Longrightarrow> hash_find i table = Some a \<longleftrightarrow> (i, a) \<in> set table"
proof -
  assume "distinct (map fst table)"
  then have "distinct (map fst (rev table))" by (simp add: rev_map [symmetric])
  then show ?thesis by (simp add: hash_find_def map_of_eq_Some_iff)
qed

lemma hash_find_None:
  "hash_find i table = None \<longleftrightarrow> i \<notin> fst ` set table"
  by (simp add: hash_find_def map_of_eq_None_iff)

lemma tq_inv_blocks: "tq_inv (hp\<lparr>hp_blocks := bl\<rparr>) q xs = tq_inv hp q xs"
  by (simp add: tq_inv_def)

lemma arq_inv_upd:
  assumes inv: "arq_inv aq hp xs" and r: "hp_blocks hp a = Some r" and f: "ar_id (f r) = ar_id r"
  shows "upd_request a f hp = Some (hp\<lparr>hp_blocks := (hp_blocks hp)(a \<mapsto> f r)\<rparr>)
    \<and> arq_inv aq (hp\<lparr>hp_blocks := (hp_blocks hp)(a \<mapsto> f r)\<rparr>) xs"
proof -
  note D = arq_invD [OF inv]
  have "\<forall>(i, b) \<in> set (aq_request_table aq). 0 < i \<and> i < aq_next_id aq
      \<and> (\<exists>r'. ((hp_blocks hp)(a \<mapsto> f r)) b = Some r' \<and> ar_id r' = i)"
    using D(6) r f by fastforce
  then show ?thesis using D r
    by (simp add: upd_request_def arq_inv_def tq_inv_blocks del: fun_upd_apply)
qed

section \<open>The life of a request\<close>

text \<open>
  C25: a submitted request gets a new nonzero identifier, is pending under it, waits behind the
  requests submitted before, and does not change the status of any other request.\<close>

theorem async_request_submit_registers:
  assumes "arq_inv aq hp xs" "re_malloc e (hp_blocks hp) = Some a" "hp_blocks hp a = None"
    "re_node_malloc e (hp_nodes hp) = Some n" "hp_nodes hp n = None"
    "re_mutex_init e" "re_cond_init e" "aq_next_id aq \<noteq> - 1" "Suc (length xs) < 2 ^ 64"
  shows "\<exists>aq' hp'. async_request_submit e (Some aq) d c cb t hp = Some (aq_next_id aq, Some aq', hp')
    \<and> arq_inv aq' hp' (xs @ [(n, a, 8)])
    \<and> hash_find (aq_next_id aq) (aq_request_table aq) = None
    \<and> async_request_get_status (Some aq') (aq_next_id aq) hp' = Some REQUEST_STATUS_PENDING
    \<and> (\<forall>i. i \<noteq> aq_next_id aq \<longrightarrow>
         async_request_get_status (Some aq') i hp' = async_request_get_status (Some aq) i hp)"
proof -
  note D = arq_invD [OF assms(1)]
  let ?i = "aq_next_id aq" and ?table = "aq_request_table aq"
  let ?r = "\<lparr>ar_id = ?i, ar_data = d, ar_context = c, ar_callback = cb,
     ar_status = REQUEST_STATUS_PENDING, ar_timeout_ms = t, ar_submit_time = re_now e,
     ar_is_waiting = False, ar_is_sync = False, ar_bNeedFree = re_junk e\<rparr>"
  define hp1 where "hp1 = hp\<lparr>hp_blocks := (hp_blocks hp)(a \<mapsto> ?r)\<rparr>"
  have inv1: "tq_inv hp1 (aq_pending_queue aq) xs" using D(1) by (simp add: hp1_def tq_inv_blocks)
  have n: "re_node_malloc e (hp_nodes hp1) = Some n" "hp_nodes hp1 n = None"
    using assms(4,5) by (simp_all add: hp1_def)
  obtain q' hp' where enq: "queue_enqueue_timeout (re_node_malloc e) True
      (Some (aq_pending_queue aq)) hp1 (Some a) 8 (-1) = Some (0, Some q', hp')"
    "tq_inv hp' q' (xs @ [(n, a, 8)])" "hp_blocks hp' = hp_blocks hp1"
    "q_is_destroyed q' = q_is_destroyed (aq_pending_queue aq)"
    using enqueue_appends [where malloc = "re_node_malloc e" and a = n and d = a and s = 8
        and t = "-1", OF inv1 D(2) _ n assms(9)] by auto
  have nx: "?i + 1 \<noteq> 0" using assms(8) by (simp add: eq_neg_iff_add_eq_0)
  then have lt: "?i < ?i + 1" by (rule less_succ_word)
  let ?aq = "aq\<lparr>aq_next_id := ?i + 1, aq_request_table := ?table @ [(?i, a)],
      aq_pending_queue := q'\<rparr>"
  have run: "async_request_submit e (Some aq) d c cb t hp = Some (?i, Some ?aq, hp')"
    using D(3) assms(2,6,7) enq(1) nx
    by (simp add: async_request_submit_def create_request_def queue_enqueue_def hp1_def
        Let_def)
  have fresh: "?i \<notin> fst ` set ?table" "a \<notin> snd ` set ?table"
    using D(6) assms(3) by force+
  have live: "\<exists>r. hp_blocks hp' b = Some r \<and> ar_id r = j" "0 < j" "j < ?i + 1"
    if "(j, b) \<in> set (?table @ [(?i, a)])" for j b
    using that D(6,9) fresh(2) lt enq(3) by (auto simp: hp1_def image_iff intro: less_trans)
  have inv': "arq_inv ?aq hp' (xs @ [(n, a, 8)])"
    using enq(2,4) D fresh live lt nx
    by (auto simp: arq_inv_def image_iff word_gt_0)
  have none: "hash_find ?i ?table = None" using fresh(1) by (simp add: hash_find_None)
  have "hash_find ?i (?table @ [(?i, a)]) = Some a"
    "j \<noteq> ?i \<Longrightarrow> hash_find j (?table @ [(?i, a)]) = hash_find j ?table" for j
    by (simp_all add: hash_find_def)
  moreover have "hp_blocks hp' b = hp_blocks hp b" if "hash_find j ?table = Some b" for j b
    using that hash_find_iff [OF D(4)] fresh(2) enq(3) by (force simp: hp1_def)
  ultimately show ?thesis using run inv' none enq(3)
    by (auto simp: async_request_get_status_def hp1_def split: option.splits)
qed

lemma arq_dequeue:
  assumes inv: "arq_inv aq hp ((n, a, s) # xs)"
  shows "\<exists>q'. queue_dequeue True None answers (Some (aq_pending_queue aq)) hp
      = Some (Returned ((Some a, s), Some q', hp\<lparr>hp_nodes := (hp_nodes hp)(n := None)\<rparr>))
    \<and> arq_inv (aq\<lparr>aq_pending_queue := q'\<rparr>) (hp\<lparr>hp_nodes := (hp_nodes hp)(n := None)\<rparr>) xs"
proof -
  note D = arq_invD [OF inv]
  have nz: "q_size (aq_pending_queue aq) \<noteq> 0"
    using D(1) of_nat64_eq_0 [of "length ((n, a, s) # xs)"] by (simp add: tq_inv_def)
  have w: "dequeue_wait (-1) None answers (aq_pending_queue aq) hp = Returned (Inr (aq_pending_queue aq, hp))"
    using nz by (cases answers) simp_all
  obtain q' where q': "dequeue_take (aq_pending_queue aq) hp
      = Some ((Some a, s), q', hp\<lparr>hp_nodes := (hp_nodes hp)(n := None)\<rparr>)"
    "tq_inv (hp\<lparr>hp_nodes := (hp_nodes hp)(n := None)\<rparr>) q' xs"
    "q_is_destroyed q' = q_is_destroyed (aq_pending_queue aq)"
    using dequeue_take_front [OF D(1,2)] by blast
  then have "queue_dequeue True None answers (Some (aq_pending_queue aq)) hp
      = Some (Returned ((Some a, s), Some q', hp\<lparr>hp_nodes := (hp_nodes hp)(n := None)\<rparr>))"
    using w by (simp add: queue_dequeue_def queue_dequeue_timeout_def)
  moreover have "arq_inv (aq\<lparr>aq_pending_queue := q'\<rparr>) (hp\<lparr>hp_nodes := (hp_nodes hp)(n := None)\<rparr>) xs"
    using inv q'(2,3) by (simp add: arq_inv_def)
  ultimately show ?thesis by blast
qed

lemma arq_request:
  assumes "arq_inv aq hp xs" "(n, a, s) \<in> set xs"
  shows "\<exists>r. hp_blocks hp a = Some r \<and> (ar_id r, a) \<in> set (aq_request_table aq)"
proof -
  have "a \<in> snd ` set (aq_request_table aq)" using arq_invD(8) [OF assms(1)] assms(2) by force
  then show ?thesis using arq_invD(6) [OF assms(1)] by fastforce
qed

lemma status_of_entry:
  assumes "arq_inv aq hp xs" "(i, a) \<in> set (aq_request_table aq)" "hp_blocks hp' a = Some r"
    "aq_request_table aq' = aq_request_table aq"
  shows "async_request_get_status (Some aq') i hp' = Some (ar_status r)"
  using assms hash_find_iff [OF arq_invD(4) [OF assms(1)], of i a]
  by (simp add: async_request_get_status_def)

text \<open>
  C26: fetching takes the request submitted first among those pending, marks it as being
  processed, and completing it publishes the given status under its identifier.\<close>

theorem async_request_fetch_then_complete:
  assumes "arq_inv aq hp ((n, a, s) # xs)"
  shows "\<exists>aq' hp1 hp2 r. async_request_fetch answers (Some aq) hp = Some (Returned (Some a, Some aq', hp1))
    \<and> arq_inv aq' hp1 xs \<and> hp_blocks hp a = Some r
    \<and> async_request_get_status (Some aq') (ar_id r) hp1 = Some REQUEST_STATUS_PROCESSING
    \<and> async_request_complete (Some aq') (Some a) st hp1 = Some hp2 \<and> arq_inv aq' hp2 xs
    \<and> async_request_get_status (Some aq') (ar_id r) hp2 = Some st"
proof -
  obtain r where r: "hp_blocks hp a = Some r" "(ar_id r, a) \<in> set (aq_request_table aq)"
    using arq_request [OF assms, of n a s] by auto
  define hp0 where "hp0 = hp\<lparr>hp_nodes := (hp_nodes hp)(n := None)\<rparr>"
  obtain q' where q': "queue_dequeue True None answers (Some (aq_pending_queue aq)) hp
      = Some (Returned ((Some a, s), Some q', hp0))" "arq_inv (aq\<lparr>aq_pending_queue := q'\<rparr>) hp0 xs"
    using arq_dequeue [OF assms, of answers] unfolding hp0_def by blast
  let ?aq = "aq\<lparr>aq_pending_queue := q'\<rparr>"
  let ?f = "\<lambda>r. r\<lparr>ar_status := REQUEST_STATUS_PROCESSING\<rparr>" and ?g = "\<lambda>r. r\<lparr>ar_status := st\<rparr>"
  have r0: "hp_blocks hp0 a = Some r" using r(1) by (simp add: hp0_def)
  define hp1 where "hp1 = hp0\<lparr>hp_blocks := (hp_blocks hp0)(a \<mapsto> ?f r)\<rparr>"
  have u1: "upd_request a ?f hp0 = Some hp1" "arq_inv ?aq hp1 xs"
    using arq_inv_upd [OF q'(2) r0, of ?f] by (simp_all add: hp1_def)
  define hp2 where "hp2 = hp1\<lparr>hp_blocks := (hp_blocks hp1)(a \<mapsto> ?g (?f r))\<rparr>"
  have r1: "hp_blocks hp1 a = Some (?f r)" by (simp add: hp1_def)
  have u2: "upd_request a ?g hp1 = Some hp2" "arq_inv ?aq hp2 xs"
    using arq_inv_upd [OF u1(2) r1, of ?g] by (simp_all add: hp2_def)
  have r2: "hp_blocks hp2 a = Some (?g (?f r))" by (simp add: hp2_def)
  have nd: "\<not> aq_is_destroyed aq" by (rule arq_invD(3) [OF assms])
  have "async_request_fetch answers (Some aq) hp = Some (Returned (Some a, Some ?aq, hp1))"
    using q'(1) u1(1) nd by (simp add: async_request_fetch_def)
  moreover have "async_request_complete (Some ?aq) (Some a) st hp1 = Some hp2"
    using u2(1) nd by (simp add: async_request_complete_def)
  moreover have "async_request_get_status (Some ?aq) (ar_id r) hp1 = Some REQUEST_STATUS_PROCESSING"
    using status_of_entry [OF assms r(2) r1, of ?aq] by simp
  moreover have "async_request_get_status (Some ?aq) (ar_id r) hp2 = Some st"
    using status_of_entry [OF assms r(2) r2, of ?aq] by simp
  ultimately show ?thesis using u1(2) u2(2) r(1) by blast
qed

section \<open>Cancelling\<close>

lemma cancel_pending:
  assumes inv: "arq_inv aq hp xs" and r: "(i, a) \<in> set (aq_request_table aq)" "hp_blocks hp a = Some r"
    and p: "ar_status r = REQUEST_STATUS_PENDING"
  shows "async_request_cancel (Some aq) i hp = Some (True, hp\<lparr>hp_blocks := (hp_blocks hp)
      (a \<mapsto> r\<lparr>ar_status := REQUEST_STATUS_CANCELLED, ar_bNeedFree := True\<rparr>)\<rparr>)
    \<and> arq_inv aq (hp\<lparr>hp_blocks := (hp_blocks hp)
      (a \<mapsto> r\<lparr>ar_status := REQUEST_STATUS_CANCELLED, ar_bNeedFree := True\<rparr>)\<rparr>) xs"
proof -
  let ?f = "\<lambda>r. r\<lparr>ar_status := REQUEST_STATUS_CANCELLED, ar_bNeedFree := True\<rparr>"
  have "hash_find i (aq_request_table aq) = Some a"
    using hash_find_iff [OF arq_invD(4) [OF inv]] r(1) by simp
  then show ?thesis
    using arq_inv_upd [OF inv r(2), of ?f] arq_invD(3) [OF inv] r(2) p
    by (simp add: async_request_cancel_def)
qed

text \<open>
  a cancelled request stays in the pending queue: the worker that fetches next is handed it
  and marks it as being processed, although the cancellation was confirmed.\<close>

theorem async_request_cancelled_is_fetched:
  assumes "arq_inv aq hp ((n, a, s) # xs)" "hp_blocks hp a = Some r"
    "ar_status r = REQUEST_STATUS_PENDING"
  shows "\<exists>aq' hp1 hp2. async_request_cancel (Some aq) (ar_id r) hp = Some (True, hp1)
    \<and> async_request_get_status (Some aq) (ar_id r) hp1 = Some REQUEST_STATUS_CANCELLED
    \<and> async_request_fetch answers (Some aq) hp1 = Some (Returned (Some a, Some aq', hp2))
    \<and> async_request_get_status (Some aq') (ar_id r) hp2 = Some REQUEST_STATUS_PROCESSING"
proof -
  have e: "(ar_id r, a) \<in> set (aq_request_table aq)" using arq_request [OF assms(1), of n a s] assms(2) by auto
  let ?r = "r\<lparr>ar_status := REQUEST_STATUS_CANCELLED, ar_bNeedFree := True\<rparr>"
  let ?hp1 = "hp\<lparr>hp_blocks := (hp_blocks hp)(a \<mapsto> ?r)\<rparr>"
  note C = cancel_pending [OF assms(1) e assms(2,3)]
  then have inv1: "arq_inv aq ?hp1 ((n, a, s) # xs)" by simp
  have r1: "hp_blocks ?hp1 a = Some ?r" by simp
  define hp0 where "hp0 = ?hp1\<lparr>hp_nodes := (hp_nodes ?hp1)(n := None)\<rparr>"
  obtain q' where q': "queue_dequeue True None answers (Some (aq_pending_queue aq)) ?hp1
      = Some (Returned ((Some a, s), Some q', hp0))"
    using arq_dequeue [OF inv1, of answers] unfolding hp0_def by blast
  have r0: "hp_blocks hp0 a = Some ?r" by (simp add: hp0_def)
  let ?hp2 = "hp0\<lparr>hp_blocks := (hp_blocks hp0)(a \<mapsto> ?r\<lparr>ar_status := REQUEST_STATUS_PROCESSING\<rparr>)\<rparr>"
  have "async_request_fetch answers (Some aq) ?hp1
      = Some (Returned (Some a, Some (aq\<lparr>aq_pending_queue := q'\<rparr>), ?hp2))"
    using q' r0 arq_invD(3) [OF assms(1)] by (simp add: async_request_fetch_def upd_request_def)
  moreover have "async_request_get_status (Some aq) (ar_id r) ?hp1 = Some REQUEST_STATUS_CANCELLED"
    using status_of_entry [OF assms(1) e r1, of aq] by simp
  moreover have "hp_blocks ?hp2 a = Some (?r\<lparr>ar_status := REQUEST_STATUS_PROCESSING\<rparr>)" by simp
  from status_of_entry [OF assms(1) e this, of "aq\<lparr>aq_pending_queue := q'\<rparr>"]
  have "async_request_get_status (Some (aq\<lparr>aq_pending_queue := q'\<rparr>)) (ar_id r) ?hp2
      = Some REQUEST_STATUS_PROCESSING" by simp
  ultimately show ?thesis using C by blast
qed

section \<open>Cleaning up\<close>

text \<open>What one pass does to a request: release it, or time it out and mark it for the next pass.\<close>

definition cleanup_request :: "int \<Rightarrow> AsyncRequest \<Rightarrow> AsyncRequest ptr" where
  "cleanup_request now r =
     (if ar_bNeedFree r then None
      else if ar_status r = REQUEST_STATUS_PENDING \<and> 0 < ar_timeout_ms r
              \<and> ar_timeout_ms r \<le> now - ar_submit_time r
      then Some (r\<lparr>ar_status := REQUEST_STATUS_TIMEOUT, ar_bNeedFree := True\<rparr>)
      else Some r)"

definition cleanup_blocks :: "int \<Rightarrow> addr set \<Rightarrow> (addr \<rightharpoonup> AsyncRequest) \<Rightarrow> (addr \<rightharpoonup> AsyncRequest)" where
  "cleanup_blocks now S bl = (\<lambda>a. if a \<in> S then Option.bind (bl a) (cleanup_request now) else bl a)"

definition kept :: "int \<Rightarrow> (addr \<rightharpoonup> AsyncRequest) \<Rightarrow> (u64 \<times> addr) list \<Rightarrow> (u64 \<times> addr) list" where
  "kept now bl table = filter (\<lambda>x. Option.bind (bl (snd x)) (cleanup_request now) \<noteq> None) table"

lemma cleanup_loop_eq:
  "\<lbrakk>distinct (map snd todo); \<forall>x \<in> set todo. hp_blocks hp (snd x) \<noteq> None\<rbrakk> \<Longrightarrow>
   cleanup_loop now todo table hp
   = Some (filter (\<lambda>x. snd x \<in> snd ` set todo \<longrightarrow>
                 Option.bind (hp_blocks hp (snd x)) (cleanup_request now) \<noteq> None) table,
           hp\<lparr>hp_blocks := cleanup_blocks now (snd ` set todo) (hp_blocks hp)\<rparr>)"
proof (induction todo arbitrary: table hp)
  case Nil
  then show ?case by (simp add: cleanup_blocks_def)
next
  case (Cons x todo)
  obtain i a where x: "x = (i, a)" by (cases x)
  obtain r where r: "hp_blocks hp a = Some r" using Cons.prems(2) x by auto
  have a: "a \<notin> snd ` set todo" using Cons.prems(1) x by simp
  define bl where "bl = (hp_blocks hp)(a := cleanup_request now r)"
  define hp1 where "hp1 = hp\<lparr>hp_blocks := bl\<rparr>"
  have same: "hp_blocks hp1 b = hp_blocks hp b" if "b \<in> snd ` set todo" for b
    using that a by (auto simp: hp1_def bl_def)
  have step: "cleanup_loop now (x # todo) table hp
      = cleanup_loop now todo (if cleanup_request now r = None then hash_del a table else table) hp1"
    using r x by (auto simp: destroy_request_def upd_request_def mem_simps hp1_def bl_def
        cleanup_request_def fun_upd_idem)
  have live: "\<forall>y \<in> set todo. hp_blocks hp1 (snd y) \<noteq> None"
    using Cons.prems(2) same by auto
  have keep: "(snd y \<in> snd ` set todo \<longrightarrow>
        Option.bind (hp_blocks hp1 (snd y)) (cleanup_request now) \<noteq> None)
      = (snd y \<in> snd ` set todo \<longrightarrow>
        Option.bind (hp_blocks hp (snd y)) (cleanup_request now) \<noteq> None)" for y
    using same by auto
  define T where "T = (if cleanup_request now r = None then hash_del a table else table)"
  have "filter (\<lambda>y. snd y \<in> snd ` set todo \<longrightarrow>
        Option.bind (hp_blocks hp1 (snd y)) (cleanup_request now) \<noteq> None) T
    = filter (\<lambda>y. snd y \<in> snd ` set todo \<longrightarrow>
        Option.bind (hp_blocks hp (snd y)) (cleanup_request now) \<noteq> None) T"
    by (rule filter_cong [OF refl keep])
  also have "\<dots> = filter (\<lambda>y. snd y \<in> snd ` set (x # todo) \<longrightarrow>
        Option.bind (hp_blocks hp (snd y)) (cleanup_request now) \<noteq> None) table"
    using r x a by (auto simp: T_def hash_del_def intro!: filter_cong)
  finally have table: "filter (\<lambda>y. snd y \<in> snd ` set todo \<longrightarrow>
        Option.bind (hp_blocks hp1 (snd y)) (cleanup_request now) \<noteq> None) T
    = filter (\<lambda>y. snd y \<in> snd ` set (x # todo) \<longrightarrow>
        Option.bind (hp_blocks hp (snd y)) (cleanup_request now) \<noteq> None) table" .
  have blocks: "cleanup_blocks now (snd ` set todo) bl
      = cleanup_blocks now (snd ` set (x # todo)) (hp_blocks hp)"
    using r x a by (auto simp: cleanup_blocks_def bl_def fun_eq_iff)
  have "distinct (map snd todo)" using Cons.prems(1) by simp
  moreover have "hp1\<lparr>hp_blocks := cleanup_blocks now (snd ` set todo) (hp_blocks hp1)\<rparr>
      = hp\<lparr>hp_blocks := cleanup_blocks now (snd ` set (x # todo)) (hp_blocks hp)\<rparr>"
    using blocks by (simp add: hp1_def)
  ultimately show ?case unfolding step T_def [symmetric]
    using Cons.IH [of hp1 T] live table by (simp only:)
qed

lemma cleanup_eq:
  assumes "arq_inv aq hp xs"
  shows "async_request_cleanup_completed now (Some aq) hp
    = Some (Some (aq\<lparr>aq_request_table := kept now (hp_blocks hp) (aq_request_table aq)\<rparr>),
        hp\<lparr>hp_blocks := cleanup_blocks now (snd ` set (aq_request_table aq)) (hp_blocks hp)\<rparr>)"
proof -
  let ?t = "aq_request_table aq"
  have "\<forall>x \<in> set ?t. hp_blocks hp (snd x) \<noteq> None"
    using arq_invD(6) [OF assms] by fastforce
  moreover have "filter (\<lambda>x. snd x \<in> snd ` set ?t \<longrightarrow>
      Option.bind (hp_blocks hp (snd x)) (cleanup_request now) \<noteq> None) ?t = kept now (hp_blocks hp) ?t"
    by (auto simp: kept_def intro!: filter_cong)
  ultimately show ?thesis
    using cleanup_loop_eq [OF arq_invD(5) [OF assms]]
    by (simp add: async_request_cleanup_completed_def)
qed


text \<open>
  C37: cancelling a pending request and cleaning up leaves a dangling pointer in the pending queue:
  the next fetch writes to the freed request.\<close>

theorem async_request_cancel_cleanup_dangles:
  assumes "arq_inv aq hp ((n, a, s) # xs)" "hp_blocks hp a = Some r"
    "ar_status r = REQUEST_STATUS_PENDING"
  shows "\<exists>hp1 aq2 hp2. async_request_cancel (Some aq) (ar_id r) hp = Some (True, hp1)
    \<and> async_request_cleanup_completed now (Some aq) hp1 = Some (Some aq2, hp2)
    \<and> async_request_fetch answers (Some aq2) hp2 = None"
proof -
  have e: "(ar_id r, a) \<in> set (aq_request_table aq)"
    using arq_request [OF assms(1), of n a s] assms(2) by auto
  let ?r = "r\<lparr>ar_status := REQUEST_STATUS_CANCELLED, ar_bNeedFree := True\<rparr>"
  define hp1 where "hp1 = hp\<lparr>hp_blocks := (hp_blocks hp)(a \<mapsto> ?r)\<rparr>"
  have C: "async_request_cancel (Some aq) (ar_id r) hp = Some (True, hp1)"
    "arq_inv aq hp1 ((n, a, s) # xs)"
    using cancel_pending [OF assms(1) e assms(2,3)] by (simp_all add: hp1_def)
  define aq2 where "aq2 = aq\<lparr>aq_request_table := kept now (hp_blocks hp1) (aq_request_table aq)\<rparr>"
  define hp2 where "hp2 = hp1\<lparr>hp_blocks := cleanup_blocks now (snd ` set (aq_request_table aq))
      (hp_blocks hp1)\<rparr>"
  have cl: "async_request_cleanup_completed now (Some aq) hp1 = Some (Some aq2, hp2)"
    using cleanup_eq [OF C(2)] by (simp add: aq2_def hp2_def)
  have gone: "hp_blocks hp2 a = None"
    using e by (force simp: hp2_def hp1_def cleanup_blocks_def cleanup_request_def)
  note D = arq_invD [OF C(2)]
  have inv2: "tq_inv hp2 (aq_pending_queue aq2) ((n, a, s) # xs)"
    using D(1) by (simp add: aq2_def hp2_def tq_inv_blocks)
  have nz: "q_size (aq_pending_queue aq2) \<noteq> 0"
    using inv2 of_nat64_eq_0 [of "length ((n, a, s) # xs)"] by (simp add: tq_inv_def)
  have w: "dequeue_wait (-1) None answers (aq_pending_queue aq2) hp2
      = Returned (Inr (aq_pending_queue aq2, hp2))"
    using nz by (cases answers) simp_all
  have "\<not> q_is_destroyed (aq_pending_queue aq2)" using D(2) by (simp add: aq2_def)
  from dequeue_take_front [OF inv2 this] obtain q' where
    "dequeue_take (aq_pending_queue aq2) hp2
      = Some ((Some a, s), q', hp2\<lparr>hp_nodes := (hp_nodes hp2)(n := None)\<rparr>)" by blast
  then have "async_request_fetch answers (Some aq2) hp2 = None"
    using w gone D(3)
    by (simp add: async_request_fetch_def queue_dequeue_def queue_dequeue_timeout_def
        upd_request_def aq2_def)
  with C(1) cl show ?thesis by blast
qed

section \<open>Destruction\<close>

lemma destroy_table_dangling:
  "\<exists>x \<in> set table. hp_blocks hp (snd x) = None \<Longrightarrow> destroy_table table hp = None"
proof (induction table hp rule: destroy_table.induct)
  case (2 i a table hp)
  show ?case
  proof (cases "hp_blocks hp a")
    case None
    then show ?thesis by (simp add: destroy_request_def h_free_def)
  next
    case (Some r)
    define hp1 where "hp1 = hp\<lparr>hp_blocks := (hp_blocks hp)(a := None)\<rparr>"
    have d: "destroy_request (Some a) hp = Some hp1"
      using Some by (simp add: destroy_request_def mem_simps hp1_def)
    moreover have "\<exists>x \<in> set table. hp_blocks hp1 (snd x) = None"
      using 2(2) Some by (auto simp: hp1_def)
    ultimately show ?thesis using 2(1) by simp
  qed
qed simp

lemma destroy_table_eq:
  "\<lbrakk>distinct (map snd table); \<forall>x \<in> set table. hp_blocks hp (snd x) \<noteq> None\<rbrakk> \<Longrightarrow>
   destroy_table table hp = Some (hp\<lparr>hp_blocks := hp_blocks hp |` (- snd ` set table)\<rparr>)"
proof (induction table hp rule: destroy_table.induct)
  case (2 i a table hp)
  obtain r where r: "hp_blocks hp a = Some r" using 2(3) by auto
  define hp1 where "hp1 = hp\<lparr>hp_blocks := (hp_blocks hp)(a := None)\<rparr>"
  have d: "destroy_request (Some a) hp = Some hp1"
    using r by (simp add: destroy_request_def mem_simps hp1_def)
  have "\<forall>x \<in> set table. hp_blocks hp1 (snd x) \<noteq> None" "distinct (map snd table)"
    using 2(2,3) by (auto simp: hp1_def)
  then have "destroy_table table hp1 = Some (hp1\<lparr>hp_blocks := hp_blocks hp1 |` (- snd ` set table)\<rparr>)"
    using 2(1) [of hp1] d by blast
  moreover have "hp_blocks hp1 |` (- snd ` set table) = hp_blocks hp |` (- snd ` set ((i, a) # table))"
    by (auto simp: hp1_def restrict_map_def fun_eq_iff)
  then have "hp1\<lparr>hp_blocks := hp_blocks hp1 |` (- snd ` set table)\<rparr>
      = hp\<lparr>hp_blocks := hp_blocks hp |` (- snd ` set ((i, a) # table))\<rparr>" by (simp add: hp1_def)
  ultimately show ?case using d by simp
qed (simp add: restrict_map_def)

text \<open>
  destroying the queue frees every request of the table when nothing is pending; with a
  request still pending it frees that request twice.\<close>

theorem async_request_queue_destroy_outcome:
  assumes inv: "arq_inv aq hp xs" and live: "data_live (hp_blocks hp) xs"
  shows "async_request_queue_destroy (Some aq) hp
    = (if xs = [] then Some (hp\<lparr>hp_blocks := hp_blocks hp |` (- snd ` set (aq_request_table aq))\<rparr>)
       else None)"
proof (cases "xs = []")
  case True
  note D = arq_invD [OF inv]
  have z: "q_size (aq_pending_queue aq) = 0" using D(1) True by (simp add: tq_inv_def)
  have "\<forall>x \<in> set (aq_request_table aq). hp_blocks hp (snd x) \<noteq> None"
    using D(6) by fastforce
  then show ?thesis
    using True z destroy_table_eq [OF D(5)]
    by (simp add: async_request_queue_destroy_def queue_clear_def queue_destroy_def)
next
  case False
  note D = arq_invD [OF inv]
  then obtain n a s where x: "(n, a, s) \<in> set xs"
    using False by (metis last_in_set prod_cases3)
  have nz: "q_size (aq_pending_queue aq) \<noteq> 0"
    using D(1) of_nat64_eq_0 [of "length xs"] False by (simp add: tq_inv_def)
  have seg: "seg (hp_nodes hp) (q_front (aq_pending_queue aq)) xs None" "distinct (map fst xs)"
    using D(1) by (simp_all add: tq_inv_def)
  define hp1 where "hp1 = hp\<lparr>hp_nodes := hp_nodes hp |` (- fst ` set xs),
      hp_blocks := hp_blocks hp |` (- (fst \<circ> snd) ` set xs)\<rparr>"
  have cl: "clear_loop (q_front (aq_pending_queue aq)) hp = Some hp1"
    using clear_loop_eq [OF seg live D(7)] by (simp add: hp1_def)
  have "hp_blocks hp1 a = None" using x by (force simp: hp1_def restrict_map_def)
  moreover obtain r :: AsyncRequest where "(ar_id r, a) \<in> set (aq_request_table aq)"
    using arq_request [OF inv x] by blast
  ultimately have "destroy_table (aq_request_table aq) hp1 = None"
    by (intro destroy_table_dangling) force
  then show ?thesis
    using False nz cl by (simp add: async_request_queue_destroy_def queue_clear_def queue_destroy_def)
qed

section \<open>Witnesses\<close>

definition req0 :: AsyncRequest where
  "req0 = \<lparr>ar_id = 1, ar_data = Some 70, ar_context = None, ar_callback = None,
     ar_status = REQUEST_STATUS_PENDING, ar_timeout_ms = 50, ar_submit_time = 1000,
     ar_is_waiting = False, ar_is_sync = False, ar_bNeedFree = False\<rparr>"

text \<open>One request, identifier 1, pending at address 10 in node 3.\<close>

definition rheap0 :: rheap where
  "rheap0 = \<lparr>hp_nodes = [3 \<mapsto> \<lparr>qn_data = 10, qn_data_size = 8, qn_next = None\<rparr>],
             hp_blocks = [10 \<mapsto> req0]\<rparr>"

definition aq0 :: AsyncRequestQueue where
  "aq0 = \<lparr>aq_pending_queue = \<lparr>q_front = Some 3, q_rear = Some 3, q_size = 1, q_is_destroyed = False\<rparr>,
     aq_request_table = [(1, 10)], aq_next_id = 2, aq_is_destroyed = False\<rparr>"

definition req_env0 :: req_env where
  "req_env0 = \<lparr>re_node_malloc = (\<lambda>h. Some 4), re_malloc = (\<lambda>h. Some 11), re_mutex_init = True,
     re_cond_init = True, re_now = 1010, re_junk = False\<rparr>"

lemma aq0_inv: "arq_inv aq0 rheap0 [(3, 10, 8)]"
  by (simp add: arq_inv_def aq0_def rheap0_def tq_inv_def req0_def)

lemma aq0_block: "hp_blocks rheap0 10 = Some req0" "ar_status req0 = REQUEST_STATUS_PENDING"
  "ar_id req0 = 1" "data_live (hp_blocks rheap0) [(3, 10, 8)]"
  by (simp_all add: rheap0_def req0_def)

lemma async_request_submit_registers_witness:
  "\<exists>aq' hp'. async_request_submit req_env0 (Some aq0) None None None 100 rheap0 = Some (2, Some aq', hp')
    \<and> arq_inv aq' hp' [(3, 10, 8), (4, 11, 8)]
    \<and> async_request_get_status (Some aq') 2 hp' = Some REQUEST_STATUS_PENDING"
  using async_request_submit_registers [OF aq0_inv, of req_env0 11 4 None None None 100]
  by (auto simp: req_env0_def rheap0_def) (auto simp: aq0_def)

lemma async_request_fetch_then_complete_witness:
  "\<exists>aq' hp1 hp2 r. async_request_fetch [] (Some aq0) rheap0 = Some (Returned (Some 10, Some aq', hp1))
    \<and> arq_inv aq' hp1 [] \<and> hp_blocks rheap0 10 = Some r
    \<and> async_request_get_status (Some aq') (ar_id r) hp1 = Some REQUEST_STATUS_PROCESSING
    \<and> async_request_complete (Some aq') (Some 10) REQUEST_STATUS_COMPLETED hp1 = Some hp2
    \<and> arq_inv aq' hp2 []
    \<and> async_request_get_status (Some aq') (ar_id r) hp2 = Some REQUEST_STATUS_COMPLETED"
  by (rule async_request_fetch_then_complete [OF aq0_inv])

lemma async_request_cancelled_is_fetched_witness:
  "\<exists>aq' hp1 hp2. async_request_cancel (Some aq0) (ar_id req0) rheap0 = Some (True, hp1)
    \<and> async_request_get_status (Some aq0) (ar_id req0) hp1 = Some REQUEST_STATUS_CANCELLED
    \<and> async_request_fetch [] (Some aq0) hp1 = Some (Returned (Some 10, Some aq', hp2))
    \<and> async_request_get_status (Some aq') (ar_id req0) hp2 = Some REQUEST_STATUS_PROCESSING"
  by (rule async_request_cancelled_is_fetched [OF aq0_inv aq0_block(1,2)])


lemma async_request_cancel_cleanup_dangles_witness:
  "\<exists>hp1 aq2 hp2. async_request_cancel (Some aq0) (ar_id req0) rheap0 = Some (True, hp1)
    \<and> async_request_cleanup_completed 1001 (Some aq0) hp1 = Some (Some aq2, hp2)
    \<and> async_request_fetch [] (Some aq2) hp2 = None"
  by (rule async_request_cancel_cleanup_dangles [OF aq0_inv aq0_block(1,2)])

lemma async_request_queue_destroy_outcome_witness:
  "async_request_queue_destroy (Some aq0) rheap0 = None"
  using async_request_queue_destroy_outcome [OF aq0_inv aq0_block(4)] by simp

end
