(* ===== verification/XList.thy ===== *)
theory XList
  imports Prelude
begin

text \<open>
  \<^verbatim>\<open>common/xlist.c\<close>: the intrusive doubly linked list.  The heap maps node addresses to their two
  pointers; an operation takes the list structure and the heap and is undefined (\<open>None\<close>) where the
  code dereferences an address without a node, or where the signed size would overflow.
\<close>

section \<open>State and operations\<close>

record T_StdNode =
  sn_next :: "addr ptr"
  sn_prev :: "addr ptr"

record T_StdList =
  sl_head :: "addr ptr"
  sl_tail :: "addr ptr"
  sl_size :: int

type_synonym nheap = "addr \<rightharpoonup> T_StdNode"

definition upd_node :: "addr \<Rightarrow> (T_StdNode \<Rightarrow> T_StdNode) \<Rightarrow> nheap \<Rightarrow> nheap option" where
  "upd_node a f h = (case h a of None \<Rightarrow> None | Some n \<Rightarrow> Some (h(a \<mapsto> f n)))"

definition incr_size :: "T_StdList \<Rightarrow> T_StdList option" where
  "incr_size l = (if sl_size l < 2147483647 then Some (l\<lparr>sl_size := sl_size l + 1\<rparr>) else None)"

definition StdListInit :: "T_StdList ptr \<Rightarrow> T_StdList ptr" where
  "StdListInit p = map_option (\<lambda>l. \<lparr>sl_head = None, sl_tail = None, sl_size = 0\<rparr>) p"

definition StdListPushBack :: "T_StdList ptr \<Rightarrow> addr ptr \<Rightarrow> nheap \<Rightarrow> (T_StdList ptr \<times> nheap) option" where
  "StdListPushBack p node h =
     (case (p, node) of
        (Some l, Some a) \<Rightarrow> do {
          h \<leftarrow> upd_node a (\<lambda>n. n\<lparr>sn_next := None, sn_prev := sl_tail l\<rparr>) h;
          (l, h) \<leftarrow> (case sl_tail l of
              None \<Rightarrow> Some (l\<lparr>sl_head := Some a\<rparr>, h)
            | Some t \<Rightarrow> do { h \<leftarrow> upd_node t (\<lambda>n. n\<lparr>sn_next := Some a\<rparr>) h; Some (l, h) });
          l \<leftarrow> incr_size (l\<lparr>sl_tail := Some a\<rparr>);
          Some (Some l, h) }
      | _ \<Rightarrow> Some (p, h))"

definition StdListPushFront :: "T_StdList ptr \<Rightarrow> addr ptr \<Rightarrow> nheap \<Rightarrow> (T_StdList ptr \<times> nheap) option" where
  "StdListPushFront p node h =
     (case (p, node) of
        (Some l, Some a) \<Rightarrow> do {
          h \<leftarrow> upd_node a (\<lambda>n. n\<lparr>sn_prev := None, sn_next := sl_head l\<rparr>) h;
          (l, h) \<leftarrow> (case sl_head l of
              None \<Rightarrow> Some (l\<lparr>sl_tail := Some a\<rparr>, h)
            | Some b \<Rightarrow> do { h \<leftarrow> upd_node b (\<lambda>n. n\<lparr>sn_prev := Some a\<rparr>) h; Some (l, h) });
          l \<leftarrow> incr_size (l\<lparr>sl_head := Some a\<rparr>);
          Some (Some l, h) }
      | _ \<Rightarrow> Some (p, h))"

definition StdListInsertAfter ::
    "T_StdList ptr \<Rightarrow> addr ptr \<Rightarrow> addr ptr \<Rightarrow> nheap \<Rightarrow> (T_StdList ptr \<times> nheap) option" where
  "StdListInsertAfter p prev_node new_node h =
     (case (p, prev_node, new_node) of
        (Some l, Some b, Some a) \<Rightarrow> do {
          nb \<leftarrow> h b;
          h \<leftarrow> upd_node a (\<lambda>n. n\<lparr>sn_prev := Some b, sn_next := sn_next nb\<rparr>) h;
          (l, h) \<leftarrow> (case sn_next nb of
              None \<Rightarrow> Some (l\<lparr>sl_tail := Some a\<rparr>, h)
            | Some c \<Rightarrow> do { h \<leftarrow> upd_node c (\<lambda>n. n\<lparr>sn_prev := Some a\<rparr>) h; Some (l, h) });
          h \<leftarrow> upd_node b (\<lambda>n. n\<lparr>sn_next := Some a\<rparr>) h;
          l \<leftarrow> incr_size l;
          Some (Some l, h) }
      | _ \<Rightarrow> Some (p, h))"

definition StdListRemove :: "T_StdList ptr \<Rightarrow> addr ptr \<Rightarrow> nheap \<Rightarrow> (T_StdList ptr \<times> nheap) option" where
  "StdListRemove p node h =
     (case (p, node) of
        (Some l, Some a) \<Rightarrow>
          if sl_size l = 0 then Some (p, h)
          else do {
            n \<leftarrow> h a;
            (l, h) \<leftarrow> (case sn_prev n of
                Some b \<Rightarrow> do { h \<leftarrow> upd_node b (\<lambda>m. m\<lparr>sn_next := sn_next n\<rparr>) h; Some (l, h) }
              | None \<Rightarrow> Some (l\<lparr>sl_head := sn_next n\<rparr>, h));
            (l, h) \<leftarrow> (case sn_next n of
                Some c \<Rightarrow> do { h \<leftarrow> upd_node c (\<lambda>m. m\<lparr>sn_prev := sn_prev n\<rparr>) h; Some (l, h) }
              | None \<Rightarrow> Some (l\<lparr>sl_tail := sn_prev n\<rparr>, h));
            h \<leftarrow> upd_node a (\<lambda>m. m\<lparr>sn_prev := None, sn_next := None\<rparr>) h;
            Some (Some (l\<lparr>sl_size := sl_size l - 1\<rparr>), h) }
      | _ \<Rightarrow> Some (p, h))"

definition StdListGetHeadNode :: "T_StdList ptr \<Rightarrow> addr ptr" where
  "StdListGetHeadNode p = (case p of None \<Rightarrow> None | Some l \<Rightarrow> sl_head l)"

definition StdListGetTailNode :: "T_StdList ptr \<Rightarrow> addr ptr" where
  "StdListGetTailNode p = (case p of None \<Rightarrow> None | Some l \<Rightarrow> sl_tail l)"

definition StdListGetNextNode :: "addr ptr \<Rightarrow> nheap \<Rightarrow> addr ptr option" where
  "StdListGetNextNode node h = (case node of None \<Rightarrow> Some None | Some a \<Rightarrow> map_option sn_next (h a))"

definition StdListGetPrevNode :: "addr ptr \<Rightarrow> nheap \<Rightarrow> addr ptr option" where
  "StdListGetPrevNode node h = (case node of None \<Rightarrow> Some None | Some a \<Rightarrow> map_option sn_prev (h a))"

definition StdListGetSize :: "T_StdList ptr \<Rightarrow> int" where
  "StdListGetSize p = (case p of None \<Rightarrow> 0 | Some l \<Rightarrow> sl_size l)"

definition StdListIsEmpty :: "T_StdList ptr \<Rightarrow> bool" where
  "StdListIsEmpty p = (case p of None \<Rightarrow> True | Some l \<Rightarrow> sl_size l = 0)"

section \<open>Doubly linked segments\<close>

text \<open>
  The nodes \<open>xs\<close> from \<open>p\<close>, with \<open>pr\<close> before the first, \<open>nx\<close> after the last, and \<open>l\<close> the last one
  (\<open>pr\<close> if there is none).
\<close>

fun dl :: "nheap \<Rightarrow> addr ptr \<Rightarrow> addr ptr \<Rightarrow> addr list \<Rightarrow> addr ptr \<Rightarrow> addr ptr \<Rightarrow> bool" where
  "dl h pr p [] nx l = (p = nx \<and> l = pr)"
| "dl h pr p (a # xs) nx l =
     (p = Some a \<and> (\<exists>n. h a = Some n \<and> sn_prev n = pr \<and> dl h (Some a) (sn_next n) xs nx l))"

definition list_inv :: "T_StdList \<Rightarrow> nheap \<Rightarrow> addr list \<Rightarrow> bool" where
  "list_inv l h xs \<longleftrightarrow> dl h None (sl_head l) xs None (sl_tail l) \<and> distinct xs
     \<and> sl_size l = int (length xs) \<and> length xs \<le> 2147483647"

lemma dl_append: "dl h pr p (xs @ ys) nx l \<longleftrightarrow> (\<exists>m k. dl h pr p xs m k \<and> dl h k m ys nx l)"
  by (induction h pr p xs nx l rule: dl.induct) auto

lemma dl_cong: "(\<And>a. a \<in> set xs \<Longrightarrow> h' a = h a) \<Longrightarrow> dl h' pr p xs nx l = dl h pr p xs nx l"
  by (induction xs arbitrary: pr p) auto

lemma dl_frame: "a \<notin> set xs \<Longrightarrow> dl (h(a := v)) pr p xs nx l = dl h pr p xs nx l"
  by (rule dl_cong) auto

lemma dl_dom: "dl h pr p xs nx l \<Longrightarrow> set xs \<subseteq> dom h"
  by (induction h pr p xs nx l rule: dl.induct) auto

lemma dl_ends:
  "dl h pr p xs nx l \<Longrightarrow> xs \<noteq> [] \<Longrightarrow> p = Some (hd xs) \<and> l = Some (last xs)"
proof (induction h pr p xs nx l rule: dl.induct)
  case (2 h pr p a xs nx l)
  then obtain n :: T_StdNode where "dl h (Some a) (sn_next n) xs nx l" "p = Some a" by auto
  with 2(1) show ?case by (cases xs) auto
qed simp

text \<open>Redirecting the pointer out of the last node, and the pointer back from the first.\<close>

lemma dl_set_next:
  assumes "dl h pr p (xs @ [b]) nx l" "b \<notin> set xs"
  shows "\<exists>n. h b = Some n \<and> dl (h(b \<mapsto> n\<lparr>sn_next := v\<rparr>)) pr p (xs @ [b]) v l"
  using assms by (auto simp: dl_append dl_frame)

lemma dl_set_prev:
  assumes "dl h pr p (c # xs) nx l" "c \<notin> set xs"
  shows "\<exists>n. h c = Some n \<and> dl (h(c \<mapsto> n\<lparr>sn_prev := v\<rparr>)) v p (c # xs) nx l"
  using assms by (auto simp: dl_frame)

lemma list_invD:
  assumes "list_inv l h xs"
  shows "dl h None (sl_head l) xs None (sl_tail l)" "distinct xs" "sl_size l = int (length xs)"
    "length xs \<le> 2147483647"
  using assms by (auto simp: list_inv_def)

lemma push_back_ok:
  assumes inv: "list_inv l h xs" and a: "h a = Some na" "a \<notin> set xs" and len: "length xs < 2147483647"
  shows "\<exists>l' h'. StdListPushBack (Some l) (Some a) h = Some (Some l', h') \<and> list_inv l' h' (xs @ [a])
    \<and> dom h' = dom h"
proof (cases xs rule: rev_cases)
  case Nil
  then show ?thesis using inv a len
    by (auto simp: StdListPushBack_def list_inv_def upd_node_def incr_size_def)
next
  case (snoc ys t)
  note I = list_invD [OF inv]
  define h1 where "h1 = h(a \<mapsto> na\<lparr>sn_next := None, sn_prev := sl_tail l\<rparr>)"
  have t: "sl_tail l = Some t" "t \<notin> set ys" "t \<noteq> a"
    using dl_ends [OF I(1)] I(2) a(2) snoc by auto
  have "dl h1 None (sl_head l) (ys @ [t]) None (sl_tail l)"
    unfolding h1_def snoc [symmetric] dl_frame [OF a(2)] by (rule I(1))
  from dl_set_next [OF this t(2), of "Some a"] obtain nt where nt: "h1 t = Some nt"
    "dl (h1(t \<mapsto> nt\<lparr>sn_next := Some a\<rparr>)) None (sl_head l) (ys @ [t]) (Some a) (sl_tail l)" by blast
  have "dl (h1(t \<mapsto> nt\<lparr>sn_next := Some a\<rparr>)) (sl_tail l) (Some a) [a] None (Some a)"
    using t(3) by (simp add: h1_def)
  with nt(2) have dl: "dl (h1(t \<mapsto> nt\<lparr>sn_next := Some a\<rparr>)) None (sl_head l) (xs @ [a]) None (Some a)"
    using snoc dl_append by blast
  have "dom (h1(t \<mapsto> nt\<lparr>sn_next := Some a\<rparr>)) = dom h"
    using nt(1) a(1) by (auto simp: h1_def split: if_splits)
  moreover have "StdListPushBack (Some l) (Some a) h
      = Some (Some (l\<lparr>sl_tail := Some a, sl_size := sl_size l + 1\<rparr>), h1(t \<mapsto> nt\<lparr>sn_next := Some a\<rparr>))"
    using a(1) t nt(1) I(3) len
    by (simp add: StdListPushBack_def upd_node_def incr_size_def flip: h1_def)
       (simp add: h1_def)
  ultimately show ?thesis using dl I(2-4) a(2) len by (auto simp: list_inv_def)
qed

lemma push_front_ok:
  assumes inv: "list_inv l h xs" and a: "h a = Some na" "a \<notin> set xs" and len: "length xs < 2147483647"
  shows "\<exists>l' h'. StdListPushFront (Some l) (Some a) h = Some (Some l', h') \<and> list_inv l' h' (a # xs)
    \<and> dom h' = dom h"
proof (cases xs)
  case Nil
  then show ?thesis using inv a len
    by (auto simp: StdListPushFront_def list_inv_def upd_node_def incr_size_def)
next
  case (Cons c ys)
  note I = list_invD [OF inv]
  define h1 where "h1 = h(a \<mapsto> na\<lparr>sn_prev := None, sn_next := sl_head l\<rparr>)"
  have c: "sl_head l = Some c" "c \<notin> set ys" "c \<noteq> a"
    using I(1,2) a(2) Cons by auto
  have "dl h1 None (sl_head l) (c # ys) None (sl_tail l)"
    unfolding h1_def Cons [symmetric] dl_frame [OF a(2)] by (rule I(1))
  from dl_set_prev [OF this c(2), of "Some a"] obtain nc where nc: "h1 c = Some nc"
    "dl (h1(c \<mapsto> nc\<lparr>sn_prev := Some a\<rparr>)) (Some a) (sl_head l) (c # ys) None (sl_tail l)" by blast
  have dl: "dl (h1(c \<mapsto> nc\<lparr>sn_prev := Some a\<rparr>)) None (Some a) (a # xs) None (sl_tail l)"
    using nc(2) Cons c(3) by (auto simp: h1_def)
  have "dom (h1(c \<mapsto> nc\<lparr>sn_prev := Some a\<rparr>)) = dom h"
    using nc(1) a(1) by (auto simp: h1_def split: if_splits)
  moreover have "StdListPushFront (Some l) (Some a) h
      = Some (Some (l\<lparr>sl_head := Some a, sl_size := sl_size l + 1\<rparr>), h1(c \<mapsto> nc\<lparr>sn_prev := Some a\<rparr>))"
    using a(1) c nc(1) I(3) len
    by (simp add: StdListPushFront_def upd_node_def incr_size_def flip: h1_def)
       (simp add: h1_def)
  ultimately show ?thesis using dl I(2-4) a(2) len by (auto simp: list_inv_def)
qed

text \<open>A list split at a node: the segments on both sides.\<close>

lemma dl_split:
  assumes "dl h None p (ys @ b # zs) None l" "distinct (ys @ b # zs)"
  shows "\<exists>nb. h b = Some nb \<and> dl h None p (ys @ [b]) (sn_next nb) (Some b)
    \<and> dl h None p ys (Some b) (sn_prev nb) \<and> dl h (Some b) (sn_next nb) zs None l"
proof -
  obtain k where k: "dl h None p ys (Some b) k" "dl h k (Some b) (b # zs) None l"
    using assms(1) by (auto simp: dl_append)
  then obtain nb where "h b = Some nb" "sn_prev nb = k" "dl h (Some b) (sn_next nb) zs None l" by auto
  with k(1) show ?thesis by (auto simp: dl_append)
qed

lemma insert_after_ok:
  assumes inv: "list_inv l h (ys @ b # zs)" and a: "h a = Some na" "a \<notin> set (ys @ b # zs)"
    and len: "length (ys @ b # zs) < 2147483647"
  shows "\<exists>l' h'. StdListInsertAfter (Some l) (Some b) (Some a) h = Some (Some l', h')
    \<and> list_inv l' h' (ys @ b # a # zs) \<and> dom h' = dom h"
proof -
  note I = list_invD [OF inv]
  obtain nb where nb: "h b = Some nb" "dl h None (sl_head l) (ys @ [b]) (sn_next nb) (Some b)"
    "dl h (Some b) (sn_next nb) zs None (sl_tail l)"
    using dl_split [OF I(1,2)] by blast
  have ab: "a \<noteq> b" and b: "b \<notin> set ys" "b \<notin> set zs" using a(2) I(2) by auto
  define na' where "na' = na\<lparr>sn_prev := Some b, sn_next := sn_next nb\<rparr>"
  define nb' where "nb' = nb\<lparr>sn_next := Some a\<rparr>"
  have left: "dl (h(b \<mapsto> nb')) None (sl_head l) (ys @ [b]) (Some a) (Some b)"
    using dl_set_next [OF nb(2) b(1), of "Some a"] nb(1) by (auto simp: nb'_def)
  show ?thesis
  proof (cases zs)
    case Nil
    define h' where "h' = h(a \<mapsto> na', b \<mapsto> nb')"
    have next0: "sn_next nb = None" using nb(3) Nil by simp
    have "dl h' None (sl_head l) (ys @ [b]) (Some a) (Some b)"
      using left a(2) by (subst dl_cong [where h = "h(b \<mapsto> nb')"]) (auto simp: h'_def)
    moreover have "dl h' (Some b) (Some a) [a] None (Some a)"
      using ab next0 by (simp add: h'_def na'_def)
    ultimately have "dl h' None (sl_head l) ((ys @ [b]) @ [a]) None (Some a)"
      using dl_append by blast
    moreover have "StdListInsertAfter (Some l) (Some b) (Some a) h
        = Some (Some (l\<lparr>sl_tail := Some a, sl_size := sl_size l + 1\<rparr>), h')"
      using a(1) nb(1) next0 ab I(3) len
      by (simp add: StdListInsertAfter_def upd_node_def incr_size_def h'_def na'_def nb'_def)
    moreover have "dom h' = dom h" using a(1) nb(1) by (auto simp: h'_def split: if_splits)
    ultimately show ?thesis using I(2-4) a(2) len Nil by (auto simp: list_inv_def)
  next
    case (Cons c zs')
    have next1: "sn_next nb = Some c" and c: "c \<noteq> a" "c \<noteq> b" "c \<notin> set ys" "c \<notin> set zs'"
      using nb(3) Cons a(2) I(2) by auto
    obtain nc where nc: "h c = Some nc"
      "dl (h(c \<mapsto> nc\<lparr>sn_prev := Some a\<rparr>)) (Some a) (Some c) (c # zs') None (sl_tail l)"
      using dl_set_prev [of h "Some b" "Some c" c zs' None "sl_tail l" "Some a"] nb(3) Cons next1 c(4)
      by auto
    define nc' where "nc' = nc\<lparr>sn_prev := Some a\<rparr>"
    define h' where "h' = h(a \<mapsto> na', c \<mapsto> nc', b \<mapsto> nb')"
    have "dl h' None (sl_head l) (ys @ [b]) (Some a) (Some b)"
      using left a(2) c by (subst dl_cong [where h = "h(b \<mapsto> nb')"]) (auto simp: h'_def)
    moreover have "dl h' (Some a) (Some c) (c # zs') None (sl_tail l)"
      using nc(2) a(2) b(2) c Cons
      by (subst dl_cong [where h = "h(c \<mapsto> nc')"]) (auto simp: h'_def nc'_def)
    then have "dl h' (Some b) (Some a) (a # zs) None (sl_tail l)"
      using ab c next1 Cons by (auto simp: h'_def na'_def)
    ultimately have "dl h' None (sl_head l) ((ys @ [b]) @ a # zs) None (sl_tail l)"
      using dl_append by blast
    moreover have "StdListInsertAfter (Some l) (Some b) (Some a) h
        = Some (Some (l\<lparr>sl_size := sl_size l + 1\<rparr>), h')"
      using a(1) nb(1) nc(1) next1 ab c I(3) len
      by (simp add: StdListInsertAfter_def upd_node_def incr_size_def h'_def na'_def nb'_def nc'_def)
    moreover have "dom h' = dom h" using a(1) nb(1) nc(1) by (auto simp: h'_def split: if_splits)
    ultimately show ?thesis using I(2-4) a(2) len by (auto simp: list_inv_def)
  qed
qed

text \<open>Unlinking: the two segments are joined, the node's own pointers are cleared.\<close>

lemma remove_ok:
  assumes inv: "list_inv l h (ys @ a # zs)"
  shows "\<exists>l' h'. StdListRemove (Some l) (Some a) h = Some (Some l', h') \<and> list_inv l' h' (ys @ zs)
    \<and> h' a = Some \<lparr>sn_next = None, sn_prev = None\<rparr> \<and> dom h' = dom h"
proof -
  note I = list_invD [OF inv]
  obtain n where n: "h a = Some n" "dl h None (sl_head l) ys (Some a) (sn_prev n)"
    "dl h (Some a) (sn_next n) zs None (sl_tail l)"
    using dl_split [OF I(1,2)] by blast
  have a: "a \<notin> set ys" "a \<notin> set zs" "set ys \<inter> set zs = {}" "distinct ys" "distinct zs"
    using I(2) by auto
  define h1 where "h1 = (case sn_prev n of None \<Rightarrow> h
      | Some b \<Rightarrow> (case h b of None \<Rightarrow> h | Some nb \<Rightarrow> h(b \<mapsto> nb\<lparr>sn_next := sn_next n\<rparr>)))"
  define l1 where "l1 = (if sn_prev n = None then l\<lparr>sl_head := sn_next n\<rparr> else l)"
  have left: "dl h1 None (sl_head l1) ys (sn_next n) (sn_prev n)
      \<and> (\<forall>x. x \<notin> set ys \<longrightarrow> h1 x = h x) \<and> dom h1 = dom h
      \<and> (\<forall>b. sn_prev n = Some b \<longrightarrow> upd_node b (\<lambda>m. m\<lparr>sn_next := sn_next n\<rparr>) h = Some h1)"
  proof (cases ys rule: rev_cases)
    case Nil
    then show ?thesis using n(2) by (simp add: h1_def l1_def)
  next
    case (snoc us b)
    have p: "sn_prev n = Some b" using dl_ends [OF n(2)] snoc by simp
    have "b \<notin> set us" using a(4) snoc by simp
    from dl_set_next [OF n(2) [unfolded snoc] this, of "sn_next n"] obtain nb where nb: "h b = Some nb"
      "dl (h(b \<mapsto> nb\<lparr>sn_next := sn_next n\<rparr>)) None (sl_head l) (us @ [b]) (sn_next n) (sn_prev n)" by blast
    then show ?thesis using p snoc by (auto simp: h1_def l1_def upd_node_def)
  qed
  define h2 where "h2 = (case sn_next n of None \<Rightarrow> h1
      | Some c \<Rightarrow> (case h1 c of None \<Rightarrow> h1 | Some nc \<Rightarrow> h1(c \<mapsto> nc\<lparr>sn_prev := sn_prev n\<rparr>)))"
  define l2 where "l2 = (if sn_next n = None then l1\<lparr>sl_tail := sn_prev n\<rparr> else l1)"
  have tail1: "sl_tail l1 = sl_tail l" by (simp add: l1_def)
  have z1: "dl h1 (Some a) (sn_next n) zs None (sl_tail l)"
    using n(3) left a(3) by (subst dl_cong [where h = h]) auto
  have right: "dl h2 (sn_prev n) (sn_next n) zs None (sl_tail l2)
      \<and> (\<forall>x. x \<notin> set zs \<longrightarrow> h2 x = h1 x) \<and> dom h2 = dom h1
      \<and> (\<forall>c. sn_next n = Some c \<longrightarrow> upd_node c (\<lambda>m. m\<lparr>sn_prev := sn_prev n\<rparr>) h1 = Some h2)"
  proof (cases zs)
    case Nil
    then show ?thesis using z1 by (simp add: h2_def l2_def)
  next
    case (Cons c us)
    have p: "sn_next n = Some c" and "c \<notin> set us" using z1 a(5) Cons by auto
    from dl_set_prev [OF z1 [unfolded Cons] this(2), of "sn_prev n"] obtain nc where nc: "h1 c = Some nc"
      "dl (h1(c \<mapsto> nc\<lparr>sn_prev := sn_prev n\<rparr>)) (sn_prev n) (sn_next n) (c # us) None (sl_tail l)" by blast
    then show ?thesis using p Cons tail1 by (auto simp: h2_def l2_def upd_node_def)
  qed
  define h3 where "h3 = h2(a \<mapsto> \<lparr>sn_next = None, sn_prev = None\<rparr>)"
  have a2: "h2 a = Some n" using left right a(1,2) n(1) by simp
  have "dl h2 None (sl_head l1) ys (sn_next n) (sn_prev n)"
    using left right a(3) by (subst dl_cong [where h = h1]) auto
  with right have "dl h2 None (sl_head l1) (ys @ zs) None (sl_tail l2)" using dl_append by blast
  moreover have "a \<notin> set (ys @ zs)" using a(1,2) by simp
  moreover have "sl_head l2 = sl_head l1" by (simp add: l2_def)
  ultimately have dl: "dl h3 None (sl_head l2) (ys @ zs) None (sl_tail l2)"
    unfolding h3_def by (simp add: dl_frame)
  have s1: "(case sn_prev n of
        Some b \<Rightarrow> do { h \<leftarrow> upd_node b (\<lambda>m. m\<lparr>sn_next := sn_next n\<rparr>) h; Some (l, h) }
      | None \<Rightarrow> Some (l\<lparr>sl_head := sn_next n\<rparr>, h)) = Some (l1, h1)"
    using left by (cases "sn_prev n") (simp_all add: l1_def h1_def)
  have s2: "(case sn_next n of
        Some c \<Rightarrow> do { h \<leftarrow> upd_node c (\<lambda>m. m\<lparr>sn_prev := sn_prev n\<rparr>) h1; Some (l1, h) }
      | None \<Rightarrow> Some (l1\<lparr>sl_tail := sn_prev n\<rparr>, h1)) = Some (l2, h2)"
    using right by (cases "sn_next n") (simp_all add: l2_def h2_def)
  have "n\<lparr>sn_prev := None, sn_next := None\<rparr> = \<lparr>sn_next = None, sn_prev = None\<rparr>" by (cases n) simp
  then have s3: "upd_node a (\<lambda>m. m\<lparr>sn_prev := None, sn_next := None\<rparr>) h2 = Some h3"
    using a2 unfolding h3_def by (simp only: upd_node_def option.case)
  have "StdListRemove (Some l) (Some a) h = Some (Some (l2\<lparr>sl_size := sl_size l2 - 1\<rparr>), h3)"
    using I(3) n(1) s1 s2 s3 by (simp add: StdListRemove_def)
  moreover have "sl_size l2 = sl_size l" by (simp add: l2_def l1_def)
  moreover have "dom h3 = dom h" using left right a2 by (auto simp: h3_def)
  ultimately show ?thesis using dl I(2-4) by (auto simp: list_inv_def h3_def)
qed

section \<open>Traversals\<close>

text \<open>
  The header's iteration macros.  \<open>fuel\<close> bounds the number of visited nodes; a traversal that does
  not end within it, and one that meets an address without a node, is \<open>None\<close>.
\<close>

fun for_each_from :: "nat \<Rightarrow> (addr ptr \<Rightarrow> nheap \<Rightarrow> addr ptr option) \<Rightarrow> addr ptr \<Rightarrow> nheap \<Rightarrow> addr list option" where
  "for_each_from n nxt None h = Some []"
| "for_each_from 0 nxt (Some a) h = None"
| "for_each_from (Suc n) nxt (Some a) h = do {
     p \<leftarrow> nxt (Some a) h;
     as \<leftarrow> for_each_from n nxt p h;
     Some (a # as) }"

definition StdListForEachData :: "nat \<Rightarrow> T_StdList ptr \<Rightarrow> nheap \<Rightarrow> addr list option" where
  "StdListForEachData n p h = for_each_from n StdListGetNextNode (StdListGetHeadNode p) h"

text \<open>The safe variant reads the next node before the body runs; the body here removes the node.\<close>

fun remove_each_from :: "nat \<Rightarrow> addr ptr \<Rightarrow> T_StdList ptr \<Rightarrow> nheap \<Rightarrow> (addr list \<times> T_StdList ptr \<times> nheap) option" where
  "remove_each_from n None p h = Some ([], p, h)"
| "remove_each_from 0 (Some a) p h = None"
| "remove_each_from (Suc n) (Some a) p h = do {
     next_ptr \<leftarrow> StdListGetNextNode (Some a) h;
     (p, h) \<leftarrow> StdListRemove p (Some a) h;
     (as, p, h) \<leftarrow> remove_each_from n next_ptr p h;
     Some (a # as, p, h) }"

definition StdListForEachDataSafe :: "nat \<Rightarrow> T_StdList ptr \<Rightarrow> nheap \<Rightarrow> (addr list \<times> T_StdList ptr \<times> nheap) option" where
  "StdListForEachDataSafe n p h = remove_each_from n (StdListGetHeadNode p) p h"

lemma for_each_next: "dl h pr p xs None l \<Longrightarrow> for_each_from (length xs) StdListGetNextNode p h = Some xs"
proof (induction xs arbitrary: pr p)
  case (Cons a xs)
  then obtain n :: T_StdNode where "h a = Some n" "p = Some a" "dl h (Some a) (sn_next n) xs None l" by auto
  with Cons.IH show ?case by (auto simp: StdListGetNextNode_def)
qed simp

lemma for_each_prev: "dl h None p xs nx l \<Longrightarrow> for_each_from (length xs) StdListGetPrevNode l h = Some (rev xs)"
proof (induction xs arbitrary: nx l rule: rev_induct)
  case (snoc a xs)
  then obtain n :: T_StdNode where "h a = Some n" "l = Some a" "dl h None p xs (Some a) (sn_prev n)"
    by (auto simp: dl_append)
  with snoc.IH show ?case by (auto simp: StdListGetPrevNode_def)
qed simp

lemma remove_each_ok:
  assumes "list_inv l h xs"
  shows "\<exists>l' h'. remove_each_from (length xs) (sl_head l) (Some l) h = Some (xs, Some l', h') \<and> list_inv l' h' []"
  using assms
proof (induction xs arbitrary: l h)
  case Nil
  then show ?case by (auto simp: list_inv_def)
next
  case (Cons a xs)
  note I = list_invD [OF Cons.prems]
  from I(1) obtain n :: T_StdNode where n: "h a = Some n" "sl_head l = Some a" "dl h (Some a) (sn_next n) xs None (sl_tail l)"
    by auto
  obtain l1 h1 where r: "StdListRemove (Some l) (Some a) h = Some (Some l1, h1)" "list_inv l1 h1 xs"
    using remove_ok [of l h "[]" a xs] Cons.prems by auto
  have "sl_head l1 = sn_next n"
  proof (cases xs)
    case Nil
    then show ?thesis using n(3) list_invD(1) [OF r(2)] by simp
  next
    case (Cons c cs)
    then show ?thesis using n(3) list_invD(1) [OF r(2)] by simp
  qed
  with Cons.IH [OF r(2)] n r(1) show ?case by (auto simp: StdListGetNextNode_def)
qed

section \<open>Refinement of the abstract list\<close>

datatype list_op = PushBack addr | PushFront addr | InsertAfter addr addr | Remove addr

fun list_step :: "list_op \<Rightarrow> T_StdList ptr \<times> nheap \<Rightarrow> (T_StdList ptr \<times> nheap) option" where
  "list_step (PushBack a) (p, h) = StdListPushBack p (Some a) h"
| "list_step (PushFront a) (p, h) = StdListPushFront p (Some a) h"
| "list_step (InsertAfter b a) (p, h) = StdListInsertAfter p (Some b) (Some a) h"
| "list_step (Remove a) (p, h) = StdListRemove p (Some a) h"

fun list_run :: "list_op list \<Rightarrow> T_StdList ptr \<times> nheap \<Rightarrow> (T_StdList ptr \<times> nheap) option" where
  "list_run [] s = Some s"
| "list_run (p # ops) s = do { s \<leftarrow> list_step p s; list_run ops s }"

fun insert_after :: "addr \<Rightarrow> addr \<Rightarrow> addr list \<Rightarrow> addr list" where
  "insert_after b a [] = []"
| "insert_after b a (x # xs) = (if x = b then x # a # xs else x # insert_after b a xs)"

fun list_spec :: "list_op \<Rightarrow> addr list \<Rightarrow> addr list" where
  "list_spec (PushBack a) xs = xs @ [a]"
| "list_spec (PushFront a) xs = a # xs"
| "list_spec (InsertAfter b a) xs = insert_after b a xs"
| "list_spec (Remove a) xs = remove1 a xs"

text \<open>The client's obligation: insert allocated nodes not on the list, name and remove ones on it.\<close>

fun list_pre :: "addr set \<Rightarrow> addr list \<Rightarrow> list_op \<Rightarrow> bool" where
  "list_pre D xs (PushBack a) = (a \<in> D \<and> a \<notin> set xs \<and> length xs < 2147483647)"
| "list_pre D xs (PushFront a) = (a \<in> D \<and> a \<notin> set xs \<and> length xs < 2147483647)"
| "list_pre D xs (InsertAfter b a) = (b \<in> set xs \<and> a \<in> D \<and> a \<notin> set xs \<and> length xs < 2147483647)"
| "list_pre D xs (Remove a) = (a \<in> set xs)"

fun list_pres :: "addr set \<Rightarrow> addr list \<Rightarrow> list_op list \<Rightarrow> bool" where
  "list_pres D xs [] = True"
| "list_pres D xs (p # ops) = (list_pre D xs p \<and> list_pres D (list_spec p xs) ops)"

lemma insert_after_split: "b \<notin> set ys \<Longrightarrow> insert_after b a (ys @ b # zs) = ys @ b # a # zs"
  by (induction ys) auto

lemma list_step_ok:
  assumes inv: "list_inv l h xs" and pre: "list_pre (dom h) xs p"
  shows "\<exists>l' h'. list_step p (Some l, h) = Some (Some l', h') \<and> list_inv l' h' (list_spec p xs) \<and> dom h' = dom h"
proof (cases p)
  case (PushBack a)
  with pre push_back_ok [OF inv] show ?thesis by auto
next
  case (PushFront a)
  with pre push_front_ok [OF inv] show ?thesis by auto
next
  case (InsertAfter b a)
  with pre have b: "b \<in> set xs" "a \<in> dom h" "a \<notin> set xs" "length xs < 2147483647" by auto
  from split_list_first [OF b(1)] obtain ys zs where x: "xs = ys @ b # zs" "b \<notin> set ys" by blast
  with insert_after_ok [of l h ys b zs a] inv b InsertAfter show ?thesis
    by (auto simp: insert_after_split)
next
  case (Remove a)
  with pre have "a \<in> set xs" by simp
  from split_list_first [OF this] obtain ys zs where x: "xs = ys @ a # zs" "a \<notin> set ys" by blast
  with remove_ok [of l h ys a zs] inv Remove show ?thesis
    by (auto simp: remove1_append)
qed

text \<open>
  C22: Starting from a well-formed list, any sequence of insertions at either end, insertions after a
  node and removals in which the client inserts only nodes that exist and are not on the list, and
  names or removes only nodes that are on it, runs without an undefined access or a signed overflow,
  and leaves a well-formed list (links consistent in both directions, the size field right) holding
  exactly the nodes the list-level specification gives.
\<close>

theorem xlist_refines_list:
  assumes "list_inv l h xs" "list_pres (dom h) xs ops"
  shows "\<exists>l' h'. list_run ops (Some l, h) = Some (Some l', h') \<and> list_inv l' h' (fold list_spec ops xs)"
  using assms
proof (induction ops arbitrary: l h xs)
  case (Cons p ops)
  from list_step_ok [of l h xs p] Cons.prems obtain l1 h1 where
    s: "list_step p (Some l, h) = Some (Some l1, h1)" "list_inv l1 h1 (list_spec p xs)" "dom h1 = dom h" by auto
  with Cons.IH [of l1 h1] Cons.prems show ?case by auto
qed auto

text \<open>
  C34: On a well-formed list the iteration macro visits exactly its nodes in order, the walk from the
  tail over the previous-node accessor visits them in reverse, both in as many steps as the size
  accessor reports, the emptiness test tells whether there is a node, and the safe iteration macro
  may remove every node it visits: it visits them all and leaves the list empty.
\<close>

theorem xlist_traversals:
  assumes "list_inv l h xs"
  shows "StdListForEachData (nat (StdListGetSize (Some l))) (Some l) h = Some xs
    \<and> for_each_from (nat (StdListGetSize (Some l))) StdListGetPrevNode (StdListGetTailNode (Some l)) h = Some (rev xs)
    \<and> (StdListIsEmpty (Some l) = (xs = []))
    \<and> (\<exists>l' h'. StdListForEachDataSafe (nat (StdListGetSize (Some l))) (Some l) h = Some (xs, Some l', h')
         \<and> list_inv l' h' [])"
  using for_each_next [OF list_invD(1) [OF assms]] for_each_prev [OF list_invD(1) [OF assms]]
    remove_each_ok [OF assms] list_invD(3) [OF assms]
  by (simp add: StdListForEachData_def StdListForEachDataSafe_def StdListGetSize_def
      StdListGetHeadNode_def StdListGetTailNode_def StdListIsEmpty_def)

definition nheap0 :: nheap where
  "nheap0 = [1 \<mapsto> \<lparr>sn_next = Some 2, sn_prev = None\<rparr>, 2 \<mapsto> \<lparr>sn_next = None, sn_prev = Some 1\<rparr>,
     3 \<mapsto> \<lparr>sn_next = None, sn_prev = None\<rparr>]"

lemma list_inv_empty: "list_inv \<lparr>sl_head = None, sl_tail = None, sl_size = 0\<rparr> h []"
  by (simp add: list_inv_def)

lemma xlist_refines_list_witness:
  "\<exists>l' h'. list_run [PushBack 2, PushFront 1, InsertAfter 1 3, Remove 2]
       (StdListInit (Some \<lparr>sl_head = Some 7, sl_tail = None, sl_size = 5\<rparr>), nheap0) = Some (Some l', h')
     \<and> list_inv l' h' [1, 3]"
  using xlist_refines_list [OF list_inv_empty, of nheap0 "[PushBack 2, PushFront 1, InsertAfter 1 3, Remove 2]"]
  by (simp add: StdListInit_def nheap0_def del: list_run.simps)

lemma xlist_traversals_witness:
  "StdListForEachData 2 (Some \<lparr>sl_head = Some 1, sl_tail = Some 2, sl_size = 2\<rparr>) nheap0 = Some [1, 2]
   \<and> for_each_from 2 StdListGetPrevNode (Some 2) nheap0 = Some [2, 1]"
proof -
  have "list_inv \<lparr>sl_head = Some 1, sl_tail = Some 2, sl_size = 2\<rparr> nheap0 [1, 2]"
    by (simp add: list_inv_def nheap0_def)
  from xlist_traversals [OF this] show ?thesis
    by (simp add: StdListGetSize_def StdListGetTailNode_def)
qed

end
