(* ===== verification/Readn.thy ===== *)
theory Readn
  imports Prelude
begin

text \<open>
  \<^verbatim>\<open>common/readn.c\<close>: reading and writing an exact number of bytes over system calls that may
  transfer fewer.  The kernel's side of every call is one element of a list of events, the calls of
  one loop take them in order, and a loop that needs one more event than there are has not
  returned (\<open>Blocked\<close>).  \<open>int\<close> values are kept in the range of a 32-bit signed integer.
\<close>

section \<open>The system calls\<close>

text \<open>
  A call transfers up to the given number of bytes (at least one when it can), is interrupted by a
  signal (\<open>EINTR\<close>), or fails with another \<open>errno\<close>.  A write may also accept nothing.
\<close>

datatype io_event = Transfer nat | Interrupted | Failed | Nothing

text \<open>
  \<open>read(fd, ptr, nleft)\<close> on a stream whose unread bytes are \<open>inp\<close>; at its end it returns 0.  The
  result is the returned value, whether \<open>errno\<close> is \<open>EINTR\<close>, the bytes stored at \<open>ptr\<close> and the rest
  of the stream.
\<close>

fun sys_read :: "io_event \<Rightarrow> 'a list \<Rightarrow> int \<Rightarrow> int \<times> bool \<times> 'a list \<times> 'a list" where
  "sys_read (Transfer k) inp nleft =
     (let n = min (min (max 1 k) (nat nleft)) (length inp)
      in (int n, False, take n inp, drop n inp))"
| "sys_read Interrupted inp nleft = (-1, True, [], inp)"
| "sys_read Failed inp nleft = (-1, False, [], inp)"
| "sys_read Nothing inp nleft = (0, False, [], inp)"

text \<open>\<open>write(fd, ptr, nleft)\<close> of the bytes \<open>bs\<close>: the returned value, \<open>EINTR\<close>, and the bytes accepted.\<close>

fun sys_write :: "io_event \<Rightarrow> 'a list \<Rightarrow> int \<times> bool \<times> 'a list" where
  "sys_write (Transfer k) bs = (let n = min (max 1 k) (length bs) in (int n, False, take n bs))"
| "sys_write Interrupted bs = (-1, True, [])"
| "sys_write Failed bs = (-1, False, [])"
| "sys_write Nothing bs = (0, False, [])"

section \<open>The loops\<close>

text \<open>The loop's variables: \<open>nleft\<close>, the offset of \<open>ptr\<close> in the buffer, the buffer, and the stream.\<close>

fun readn_loop :: "io_event list \<Rightarrow> int \<Rightarrow> int \<Rightarrow> nat \<Rightarrow> u8 list \<Rightarrow> u8 list
    \<Rightarrow> ((int \<times> u8 list \<times> u8 list) outcome) option" where
  "readn_loop evs n nleft ptr buf inp =
     (if nleft \<le> 0 then Some (Returned (n - nleft, buf, inp))
      else case evs of
          [] \<Rightarrow> Some Blocked
        | e # evs \<Rightarrow>
           (case sys_read e inp nleft of (nread, eintr, bs, inp) \<Rightarrow> do {
              buf \<leftarrow> mem_write buf ptr bs;
              if nread < 0 then
                (if eintr then readn_loop evs n nleft ptr buf inp
                 else Some (Returned (-1, buf, inp)))
              else if nread = 0 then Some (Returned (n - nleft, buf, inp))
              else readn_loop evs n (nleft - nread) (ptr + nat nread) buf inp }))"

definition sys_readn :: "io_event list \<Rightarrow> u8 list \<Rightarrow> u8 list \<Rightarrow> int
    \<Rightarrow> ((int \<times> u8 list \<times> u8 list) outcome) option" where
  "sys_readn evs inp vptr n = readn_loop evs n n 0 vptr inp"

fun writen_loop :: "io_event list \<Rightarrow> int \<Rightarrow> int \<Rightarrow> nat \<Rightarrow> u8 list \<Rightarrow> u8 list
    \<Rightarrow> ((int \<times> u8 list) outcome) option" where
  "writen_loop evs n nleft ptr buf out =
     (if nleft \<le> 0 then Some (Returned (n, out))
      else case evs of
          [] \<Rightarrow> Some Blocked
        | e # evs \<Rightarrow> do {
            bs \<leftarrow> mem_read buf ptr (nat nleft);
            (case sys_write e bs of (nwritten, eintr, acc) \<Rightarrow>
              if nwritten \<le> 0 then
                (if nwritten < 0 \<and> eintr then writen_loop evs n nleft ptr buf (out @ acc)
                 else Some (Returned (-1, out @ acc)))
              else writen_loop evs n (nleft - nwritten) (ptr + nat nwritten) buf (out @ acc)) })"

text \<open>\<open>out\<close> is what the receiver has been sent before the call.\<close>

definition sys_writen :: "io_event list \<Rightarrow> u8 list \<Rightarrow> u8 list \<Rightarrow> int
    \<Rightarrow> ((int \<times> u8 list) outcome) option" where
  "sys_writen evs out vptr n = writen_loop evs n n 0 vptr out"

declare readn_loop.simps [simp del] writen_loop.simps [simp del]

section \<open>Correctness\<close>

definition is_transfer :: "io_event \<Rightarrow> bool" where
  "is_transfer e = (case e of Transfer k \<Rightarrow> True | _ \<Rightarrow> False)"

text \<open>A schedule that never fails and lets the call transfer at least \<open>n\<close> times.\<close>

definition live :: "nat \<Rightarrow> io_event list \<Rightarrow> bool" where
  "live n evs \<longleftrightarrow> Failed \<notin> set evs \<and> Nothing \<notin> set evs \<and> n \<le> length (filter is_transfer evs)"

lemma live_mono: "live n evs \<Longrightarrow> m \<le> n \<Longrightarrow> live m evs"
  by (simp add: live_def)

lemma live_simps [simp]:
  "live n (Transfer k # evs) \<longleftrightarrow> live (n - 1) evs"
  "live n (Interrupted # evs) \<longleftrightarrow> live n evs"
  "\<not> live n (Failed # evs)" "\<not> live n (Nothing # evs)"
  "live n [] \<longleftrightarrow> n = 0"
  by (auto simp: live_def is_transfer_def)

lemma mem_write_nil: "p \<le> length m \<Longrightarrow> mem_write m p [] = Some m"
  by (simp add: mem_write_Some)

text \<open>Reading \<open>len\<close> bytes at \<open>ptr\<close>, or as many as there are and one more call to see the end.\<close>

lemma readn_loop_ok:
  assumes "live (min len (Suc (length inp))) evs" "ptr + len \<le> length buf" 
  shows "readn_loop evs n (int len) ptr buf inp =
    Some (Returned (n - int (len - length inp),
      take ptr buf @ take len inp @ drop (ptr + min len (length inp)) buf, drop len inp))"
  using assms
proof (induction evs arbitrary: len ptr buf inp)
  case Nil
  then have "len = 0" by (cases len) auto
  then show ?case by (subst readn_loop.simps) simp
next
  case (Cons e evs)
  show ?case
  proof (cases "len = 0")
    case True
    then show ?thesis by (subst readn_loop.simps) simp
  next
    case len: False
    show ?thesis
    proof (cases e)
      case (Transfer k)
      define m where "m = min (min (max 1 k) len) (length inp)"
      have sr: "sys_read e inp (int len) = (int m, False, take m inp, drop m inp)"
        by (simp add: Transfer m_def Let_def)
      have m: "m \<le> len" "m \<le> length inp" by (auto simp: m_def)
      define buf' where "buf' = take ptr buf @ take m inp @ drop (ptr + m) buf"
      have w: "mem_write buf ptr (take m inp) = Some buf'"
        using Cons.prems(2) m by (simp add: mem_write_Some buf'_def)
      show ?thesis
      proof (cases "m = 0")
        case True
        then have "inp = []" using len by (auto simp: m_def min_def split: if_splits)
        with True sr w len show ?thesis
          by (subst readn_loop.simps) (simp add: buf'_def)
      next
        case False
        have lb: "length buf' = length buf" using m Cons.prems(2) by (simp add: buf'_def)
        have "live (min (len - m) (Suc (length (drop m inp)))) evs"
        proof (rule live_mono)
          show "live (min len (Suc (length inp)) - 1) evs" using Cons.prems(1) Transfer by simp
          show "min (len - m) (Suc (length (drop m inp))) \<le> min len (Suc (length inp)) - 1"
            using False m by (auto simp: min_def)
        qed
        from Cons.IH [OF this, of "ptr + m" buf'] Cons.prems(2) lb m
        have IH: "readn_loop evs n (int (len - m)) (ptr + m) buf' (drop m inp) =
          Some (Returned (n - int (len - m - (length inp - m)),
            take (ptr + m) buf' @ take (len - m) (drop m inp)
            @ drop (ptr + m + min (len - m) (length inp - m)) buf', drop (len - m) (drop m inp)))"
          by simp
        have "take (ptr + m) buf' = take ptr buf @ take m inp"
          using m Cons.prems(2) by (simp add: buf'_def)
        moreover have "take m inp @ take (len - m) (drop m inp) = take len inp"
          using m by (metis le_add_diff_inverse take_add)
        moreover have "drop (ptr + m + min (len - m) (length inp - m)) buf' = drop (ptr + min len (length inp)) buf"
          using m Cons.prems(2) by (simp add: buf'_def min_def add.commute)
        moreover have "drop (len - m) (drop m inp) = drop len inp" using m by simp
        moreover have "len - m - (length inp - m) = len - length inp" using m by simp
        ultimately have "readn_loop evs n (int len - int m) (ptr + m) buf' (drop m inp) =
          Some (Returned (n - int (len - length inp),
            take ptr buf @ take len inp @ drop (ptr + min len (length inp)) buf, drop len inp))"
          using IH m by (simp add: of_nat_diff)
        with sr w len False show ?thesis by (subst readn_loop.simps) simp
      qed
    next
      case Interrupted
      with Cons.IH [of len inp ptr buf] Cons.prems len show ?thesis
        by (subst readn_loop.simps) (simp add: mem_write_nil)
    qed (use Cons.prems in simp_all)
  qed
qed

lemma writen_loop_ok:
  assumes "live len evs" "ptr + len \<le> length buf"
  shows "writen_loop evs n (int len) ptr buf out = Some (Returned (n, out @ take len (drop ptr buf)))"
  using assms
proof (induction evs arbitrary: len ptr out)
  case Nil
  then show ?case by (subst writen_loop.simps) simp
next
  case (Cons e evs)
  show ?case
  proof (cases "len = 0")
    case True
    then show ?thesis by (subst writen_loop.simps) simp
  next
    case len: False
    have r: "mem_read buf ptr len = Some (take len (drop ptr buf))"
      using Cons.prems by (simp add: mem_read_Some)
    show ?thesis
    proof (cases e)
      case (Transfer k)
      define m where "m = min (max 1 k) len"
      have m: "0 < m" "m \<le> len" using len by (auto simp: m_def)
      have sw: "sys_write e (take len (drop ptr buf)) = (int m, False, take m (drop ptr buf))"
        using Cons.prems(2) by (simp add: Transfer m_def Let_def min.absorb2)
      have "live (len - m) evs" using Cons.prems(1) Transfer m by (auto intro: live_mono)
      from Cons.IH [OF this, of "ptr + m" "out @ take m (drop ptr buf)"] Cons.prems(2) m
      have "writen_loop evs n (int len - int m) (ptr + m) buf (out @ take m (drop ptr buf)) =
          Some (Returned (n, out @ take m (drop ptr buf) @ take (len - m) (drop m (drop ptr buf))))"
        by (simp add: of_nat_diff add.commute)
      moreover have "take m (drop ptr buf) @ take (len - m) (drop m (drop ptr buf)) = take len (drop ptr buf)"
        using m by (metis le_add_diff_inverse take_add)
      ultimately show ?thesis using r sw len m by (subst writen_loop.simps) simp
    next
      case Interrupted
      with Cons.IH [of len ptr out] Cons.prems len r show ?thesis
        by (subst writen_loop.simps) simp
    qed (use Cons.prems in simp_all)
  qed
qed



text \<open>Whatever the schedule: only the requested part of the buffer is touched.\<close>

definition readn_result :: "nat \<Rightarrow> nat \<Rightarrow> u8 list \<Rightarrow> u8 list \<Rightarrow> int \<Rightarrow> (int \<times> u8 list \<times> u8 list) outcome \<Rightarrow> bool" where
  "readn_result ptr len buf inp n r \<longleftrightarrow> (case r of Blocked \<Rightarrow> True
     | Returned (v, buf', inp') \<Rightarrow> (\<exists>k \<le> min len (length inp). (v = n - int len + int k \<or> v = -1)
          \<and> buf' = take ptr buf @ take k inp @ drop (ptr + k) buf \<and> inp' = drop k inp))"

lemma readn_result_step:
  assumes "readn_result (ptr + m) (len - m) (take ptr buf @ take m inp @ drop (ptr + m) buf) (drop m inp) n r"
    and "m \<le> len" "m \<le> length inp" "ptr + len \<le> length buf"
  shows "readn_result ptr len buf inp n r"
proof (cases r)
  case (Returned t)
  obtain v b i where t: "t = (v, b, i)" by (cases t)
  with assms(1) Returned obtain k where k: "k \<le> min (len - m) (length inp - m)" "v = n - int (len - m) + int k \<or> v = -1"
    "b = take (ptr + m) (take ptr buf @ take m inp @ drop (ptr + m) buf) @ take k (drop m inp)
        @ drop (ptr + m + k) (take ptr buf @ take m inp @ drop (ptr + m) buf)" "i = drop k (drop m inp)"
    by (auto simp: readn_result_def)
  have "b = take ptr buf @ take (m + k) inp @ drop (ptr + (m + k)) buf"
  proof -
    have "take (k + m) inp = take m inp @ take k (drop m inp)" by (simp add: take_add add.commute [of k])
    then show ?thesis using k(3) assms(2-4) by (simp add: ac_simps)
  qed
  moreover have "v = n - int len + int (m + k) \<or> v = -1" using k(2) assms(2) by (auto simp: of_nat_diff)
  moreover have "m + k \<le> min len (length inp)" using k(1) assms(2,3) by auto
  moreover have "i = drop (m + k) inp" using k(4) by (simp add: add.commute)
  ultimately show ?thesis unfolding readn_result_def Returned t outcome.case prod.case by blast
qed (simp add: readn_result_def)

lemma readn_loop_safe:
  assumes "ptr + len \<le> length buf"
  shows "\<exists>r. readn_loop evs n (int len) ptr buf inp = Some r \<and> readn_result ptr len buf inp n r"
  using assms
proof (induction evs arbitrary: len ptr buf inp)
  case Nil
  then show ?case by (subst readn_loop.simps) (auto simp: readn_result_def)
next
  case (Cons e evs)
  show ?case
  proof (cases "len = 0")
    case True
    then show ?thesis by (subst readn_loop.simps) (auto simp: readn_result_def)
  next
    case len: False
    show ?thesis
    proof (cases e)
      case (Transfer k)
      define m where "m = min (min (max 1 k) len) (length inp)"
      have sr: "sys_read e inp (int len) = (int m, False, take m inp, drop m inp)"
        by (simp add: Transfer m_def Let_def)
      have m: "m \<le> len" "m \<le> length inp" by (auto simp: m_def)
      define buf' where "buf' = take ptr buf @ take m inp @ drop (ptr + m) buf"
      have w: "mem_write buf ptr (take m inp) = Some buf'"
        using Cons.prems m by (simp add: mem_write_Some buf'_def)
      show ?thesis
      proof (cases "m = 0")
        case True
        with sr w len show ?thesis
          by (subst readn_loop.simps) (auto simp: buf'_def readn_result_def)
      next
        case False
        have "ptr + m + (len - m) \<le> length buf'" using m Cons.prems by (simp add: buf'_def)
        from Cons.IH [OF this, of "drop m inp"] obtain r where
          r: "readn_loop evs n (int (len - m)) (ptr + m) buf' (drop m inp) = Some r"
             "readn_result (ptr + m) (len - m) buf' (drop m inp) n r" by blast
        from r(1) sr w len m False have "readn_loop (e # evs) n (int len) ptr buf inp = Some r"
          by (subst readn_loop.simps) (simp add: of_nat_diff)
        with readn_result_step [OF r(2) [unfolded buf'_def] m Cons.prems] show ?thesis by blast
      qed
    next
      case Interrupted
      with Cons.IH [of ptr len buf inp] Cons.prems len show ?thesis
        by (subst readn_loop.simps) (simp add: mem_write_nil)
    next
      case Failed
      with Cons.prems len show ?thesis
        by (subst readn_loop.simps) (auto simp: mem_write_nil readn_result_def)
    next
      case Nothing
      with Cons.prems len show ?thesis
        by (subst readn_loop.simps) (auto simp: mem_write_nil readn_result_def)
    qed
  qed
qed

definition writen_result :: "u8 list \<Rightarrow> u8 list \<Rightarrow> int \<Rightarrow> (int \<times> u8 list) outcome \<Rightarrow> bool" where
  "writen_result bs out n r \<longleftrightarrow> (case r of Blocked \<Rightarrow> True
     | Returned (v, out') \<Rightarrow> v = n \<and> out' = out @ bs \<or> v = -1 \<and> (\<exists>k < length bs. out' = out @ take k bs))"

lemma writen_result_step:
  assumes "writen_result (drop m bs) (out @ take m bs) n r" "m \<le> length bs"
  shows "writen_result bs out n r"
proof (cases r)
  case (Returned t)
  obtain v o' where t: "t = (v, o')" by (cases t)
  from assms(1) Returned t consider "v = n" "o' = out @ bs"
    | k where "v = -1" "k < length bs - m" "o' = out @ take (m + k) bs"
    by (auto simp: writen_result_def take_add)
  then show ?thesis
  proof cases
    case 1
    then show ?thesis using Returned t by (simp add: writen_result_def)
  next
    case (2 k)
    then have "m + k < length bs" by simp
    with 2 show ?thesis unfolding writen_result_def Returned t outcome.case prod.case by blast
  qed
qed (simp add: writen_result_def)

lemma writen_loop_safe:
  assumes "ptr + len \<le> length buf"
  shows "\<exists>r. writen_loop evs n (int len) ptr buf out = Some r
    \<and> writen_result (take len (drop ptr buf)) out n r"
  using assms
proof (induction evs arbitrary: len ptr out)
  case Nil
  then show ?case by (subst writen_loop.simps) (auto simp: writen_result_def)
next
  case (Cons e evs)
  show ?case
  proof (cases "len = 0")
    case True
    then show ?thesis by (subst writen_loop.simps) (auto simp: writen_result_def)
  next
    case len: False
    define bs where "bs = take len (drop ptr buf)"
    have r: "mem_read buf ptr len = Some bs" and lb: "length bs = len"
      using Cons.prems by (simp_all add: mem_read_Some bs_def)
    show ?thesis
    proof (cases e)
      case (Transfer k)
      define m where "m = min (max 1 k) len"
      have m: "0 < m" "m \<le> len" using len by (auto simp: m_def)
      have sw: "sys_write e bs = (int m, False, take m bs)"
        by (simp add: Transfer m_def Let_def lb)
      have "ptr + m + (len - m) \<le> length buf" using m Cons.prems by simp
      from Cons.IH [OF this, of "out @ take m bs"] obtain r' where
        r': "writen_loop evs n (int (len - m)) (ptr + m) buf (out @ take m bs) = Some r'"
          "writen_result (take (len - m) (drop (ptr + m) buf)) (out @ take m bs) n r'" by blast
      have "take (len - m) (drop (ptr + m) buf) = drop m bs"
        by (simp add: bs_def drop_take add.commute)
      with r'(2) m lb have "writen_result bs out n r'"
        by (auto intro: writen_result_step)
      moreover have "writen_loop (e # evs) n (int len) ptr buf out = Some r'"
        using r'(1) r sw len m by (subst writen_loop.simps) (simp add: of_nat_diff)
      ultimately show ?thesis by (auto simp: bs_def)
    next
      case Interrupted
      with Cons.IH [of ptr len out] Cons.prems len r show ?thesis
        by (subst writen_loop.simps) (simp add: bs_def)
    next
      case Failed
      with Cons.prems len r lb show ?thesis
        by (subst writen_loop.simps) (auto simp: writen_result_def bs_def intro!: exI [of _ 0])
    next
      case Nothing
      with Cons.prems len r lb show ?thesis
        by (subst writen_loop.simps) (auto simp: writen_result_def bs_def intro!: exI [of _ 0])
    qed
  qed
qed

section \<open>Properties\<close>

text \<open>
  C28: Bytes written with \<^verbatim>\<open>sys_writen\<close> and read with \<^verbatim>\<open>sys_readn\<close> arrive intact.  Under any
  schedule of partial transfers and interruptions that does not fail, the writer returns the count
  after delivering exactly the first \<open>n\<close> bytes of its buffer, and the reader of that stream returns
  the count with exactly those bytes at the start of its buffer, the rest of the buffer unchanged.
  If the stream ends early the reader returns the number of bytes there were.
\<close>

theorem readn_writen_roundtrip:
  assumes "live (nat n) wevs" "live (min (nat n) (Suc (length inp))) revs" "0 \<le> n"
    "nat n \<le> length src" "nat n \<le> length dst"
  shows "sys_writen wevs out src n = Some (Returned (n, out @ take (nat n) src))
    \<and> (inp = take (nat n) src @ rest \<longrightarrow>
         sys_readn revs inp dst n = Some (Returned (n, take (nat n) src @ drop (nat n) dst, rest)))
    \<and> (length inp < nat n \<longrightarrow>
         sys_readn revs inp dst n = Some (Returned (int (length inp), inp @ drop (length inp) dst, [])))"
  using writen_loop_ok [of "nat n" wevs 0 src n out] readn_loop_ok [of "nat n" inp revs 0 dst n] assms
  by (auto simp: sys_writen_def sys_readn_def)


abbreviation bytes0 :: "u8 list" where
  "bytes0 \<equiv> [1, 2, 3, 4]"

abbreviation sched0 :: "io_event list" where
  "sched0 \<equiv> [Transfer 2, Interrupted, Transfer 0, Transfer 9, Transfer 1, Transfer 1]"

lemma readn_writen_roundtrip_witness:
  "sys_writen sched0 [7] bytes0 4 = Some (Returned (4, [7] @ bytes0))
   \<and> sys_readn sched0 (bytes0 @ [5]) [0, 0, 0, 0, 9] 4 = Some (Returned (4, bytes0 @ [9], [5]))"
  using readn_writen_roundtrip [of 4 sched0 "bytes0 @ [5]" sched0 bytes0 "[0, 0, 0, 0, 9]" "[7]" "[5]"]
  by simp


end
