(* ===== verification/Ctos.thy ===== *)
theory Ctos
  imports Prelude "HOL-Library.Signed_Division"
begin

unbundle bit_operations_syntax

text \<open>
  The stateless part of \<^verbatim>\<open>common/ctos.c\<close>: 64-bit arithmetic on pairs of 32-bit words, and the
  millisecond clock.  The operand pointers are valid; every function reads its operands before it
  writes the result, so a result that is also an operand makes no difference.
\<close>

section \<open>64-bit integers in two words\<close>

record U64_s =
  LSW :: u32
  MSW :: u32

text \<open>The code's \<^verbatim>\<open>(((unsigned long long)Value->MSW)<<32)+Value->LSW\<close>, and its way back.\<close>

definition u64_join :: "U64_s \<Rightarrow> u64" where
  "u64_join v = push_bit 32 (ucast (MSW v)) + ucast (LSW v)"

definition u64_split :: "u64 \<Rightarrow> U64_s" where
  "u64_split x = \<lparr>LSW = ucast x, MSW = ucast (drop_bit 32 x)\<rparr>"

definition os_i64_set_value :: "u32 \<Rightarrow> u32 \<Rightarrow> U64_s" where
  "os_i64_set_value m l = \<lparr>LSW = l, MSW = m\<rparr>"

definition os_i64_equal :: "U64_s \<Rightarrow> U64_s \<Rightarrow> bool" where
  "os_i64_equal a b = (if MSW a = MSW b \<and> LSW a = LSW b then True else False)"

definition os_i64_greater :: "U64_s \<Rightarrow> U64_s \<Rightarrow> bool" where
  "os_i64_greater a b =
     (if MSW a > MSW b then True else if MSW a = MSW b \<and> LSW a > LSW b then True else False)"

definition os_i64_less :: "U64_s \<Rightarrow> U64_s \<Rightarrow> bool" where
  "os_i64_less a b =
     (if MSW a < MSW b then True else if MSW a = MSW b \<and> LSW a < LSW b then True else False)"

definition os_i64_greater_or_equal :: "U64_s \<Rightarrow> U64_s \<Rightarrow> bool" where
  "os_i64_greater_or_equal a b =
     (if MSW a > MSW b then True else if MSW a = MSW b \<and> LSW a \<ge> LSW b then True else False)"

definition os_i64_less_or_equal :: "U64_s \<Rightarrow> U64_s \<Rightarrow> bool" where
  "os_i64_less_or_equal a b =
     (if MSW a < MSW b then True else if MSW a = MSW b \<and> LSW a \<le> LSW b then True else False)"

definition os_i64_is_zero :: "U64_s \<Rightarrow> bool" where
  "os_i64_is_zero a = (if MSW a = 0 \<and> LSW a = 0 then True else False)"

definition os_i64_addU32 :: "U64_s \<Rightarrow> u32 \<Rightarrow> U64_s" where
  "os_i64_addU32 V1 V2 =
     (let r = \<lparr>LSW = LSW V1 + V2, MSW = MSW V1\<rparr>;
          carry = (if (LSW V1 OR V2) AND 0x80000000 \<noteq> 0 \<and> LSW r AND 0x80000000 = 0 then 1 else 0)
                  OR ((LSW V1 AND V2) AND 0x80000000)
      in if carry \<noteq> 0 then r\<lparr>MSW := MSW r + 1\<rparr> else r)"

definition os_i64_add :: "U64_s \<Rightarrow> U64_s \<Rightarrow> U64_s" where
  "os_i64_add a b = u64_split (u64_join a + u64_join b)"

definition os_i64_subU32 :: "U64_s \<Rightarrow> u32 \<Rightarrow> U64_s" where
  "os_i64_subU32 V1 V2 =
     \<lparr>LSW = LSW V1 - V2, MSW = MSW V1 - (if LSW V1 < V2 then 1 else 0)\<rparr>"

definition os_i64_sub :: "U64_s \<Rightarrow> U64_s \<Rightarrow> U64_s" where
  "os_i64_sub V1 V2 =
     \<lparr>LSW = LSW V1 - LSW V2, MSW = MSW V1 - MSW V2 - (if LSW V1 < LSW V2 then 1 else 0)\<rparr>"

definition os_i64_mulU32 :: "U64_s \<Rightarrow> u32 \<Rightarrow> U64_s" where
  "os_i64_mulU32 a V2 = u64_split (u64_join a * ucast V2)"

definition os_i64_mul :: "U64_s \<Rightarrow> U64_s \<Rightarrow> U64_s" where
  "os_i64_mul a b = u64_split (u64_join a * u64_join b)"

definition os_i64_divU32 :: "U64_s \<Rightarrow> u32 \<Rightarrow> U64_s option" where
  "os_i64_divU32 a V2 =
     (if V2 = 0 then Some \<lparr>LSW = 0, MSW = 0\<rparr>
      else if (ucast V2 :: u64) = 0 then None
      else Some (u64_split (u64_join a div ucast V2)))"

definition os_i64_div :: "U64_s \<Rightarrow> U64_s \<Rightarrow> U64_s option" where
  "os_i64_div a b =
     (if LSW b = 0 \<and> MSW b = 0 then Some \<lparr>LSW = 0, MSW = 0\<rparr>
      else if u64_join b = 0 then None
      else Some (u64_split (u64_join a div u64_join b)))"

text \<open>The shifts go one bit at a time, \<^verbatim>\<open>ShiftValue\<close> times.\<close>

definition shift_right_step :: "U64_s \<Rightarrow> U64_s" where
  "shift_right_step V1 =
     (let l = drop_bit 1 (LSW V1) AND 0x7FFFFFFF;
          l = (if MSW V1 AND 1 \<noteq> 0 then l OR 0x80000000 else l)
      in \<lparr>LSW = l, MSW = drop_bit 1 (MSW V1) AND 0x7FFFFFFF\<rparr>)"

definition os_i64_shift_right :: "U64_s \<Rightarrow> u32 \<Rightarrow> U64_s" where
  "os_i64_shift_right V1 ShiftValue =
     (if ShiftValue = 0 then V1 else (shift_right_step ^^ unat ShiftValue) V1)"

definition shift_left_step :: "U64_s \<Rightarrow> U64_s" where
  "shift_left_step V1 =
     (let m = push_bit 1 (MSW V1);
          m = (if LSW V1 AND 0x80000000 \<noteq> 0 then m OR 1 else m)
      in \<lparr>LSW = push_bit 1 (LSW V1), MSW = m\<rparr>)"

definition os_i64_shift_left :: "U64_s \<Rightarrow> u32 \<Rightarrow> U64_s" where
  "os_i64_shift_left V1 ShiftValue =
     (if ShiftValue = 0 then V1 else (shift_left_step ^^ unat ShiftValue) V1)"

section \<open>The 64-bit value of a pair\<close>

lemma bit_u32: "bit (x :: u32) n \<Longrightarrow> n < 32"
  by (drule bit_imp_le_length) simp

lemma join_or: "u64_join v = push_bit 32 (ucast (MSW v)) OR ucast (LSW v)"
proof -
  have "push_bit 32 (ucast (MSW v) :: u64) AND ucast (LSW v) = 0"
    by (rule bit_eqI) (auto simp: bit_simps dest: bit_u32)
  then show ?thesis by (simp add: u64_join_def disjunctive_add_eq_or)
qed

lemma bit_join: "bit (u64_join v) n \<longleftrightarrow> (if n < 32 then bit (LSW v) n else n < 64 \<and> bit (MSW v) (n - 32))"
  by (auto simp: join_or bit_simps dest: bit_u32)

lemma join_split: "u64_join (u64_split x) = x"
  by (rule bit_eqI) (auto simp: bit_join u64_split_def bit_simps)

lemma split_join: "u64_split (u64_join v) = v"
proof -
  have "ucast (u64_join v) = LSW v" by (rule bit_eqI) (auto simp: bit_simps bit_join)
  moreover have "ucast (drop_bit 32 (u64_join v)) = MSW v"
    by (rule bit_eqI) (auto simp: bit_simps bit_join)
  ultimately show ?thesis by (simp add: u64_split_def)
qed

lemma join_inject: "u64_join a = u64_join b \<longleftrightarrow> a = b"
  by (metis split_join)

lemma unat_join: "unat (u64_join v) = unat (MSW v) * 2 ^ 32 + unat (LSW v)"
proof -
  have m: "unat (MSW v) < 2 ^ 32" and l: "unat (LSW v) < 2 ^ 32"
    using unsigned_less [of "MSW v", where 'a = nat] unsigned_less [of "LSW v", where 'a = nat] by simp_all
  then have s: "unat (MSW v) * 2 ^ 32 + unat (LSW v) < 2 ^ 64" by simp
  have h: "unat (push_bit 32 (ucast (MSW v) :: u64)) = unat (MSW v) * 2 ^ 32"
    using m by (simp add: unsigned_push_bit_eq unsigned_ucast_eq take_bit_nat_eq_self push_bit_nat_def
        del: push_bit_of_nat)
  have lo: "unat (ucast (LSW v) :: u64) = unat (LSW v)"
    using l by (simp add: unsigned_ucast_eq take_bit_nat_eq_self)
  show ?thesis using s by (simp add: u64_join_def unat_add_lt h lo)
qed

section \<open>Carries and borrows\<close>

definition hi :: "u32 \<Rightarrow> u64" where "hi m = push_bit 32 (ucast m)"

definition lo :: "u32 \<Rightarrow> u64" where "lo l = ucast l"

lemma join_hi_lo: "u64_join \<lparr>LSW = l, MSW = m\<rparr> = hi m + lo l"
  by (simp add: u64_join_def hi_def lo_def)

lemma join_hi_lo': "u64_join v = hi (MSW v) + lo (LSW v)"
  by (simp add: u64_join_def hi_def lo_def)

lemma u32_bound: "unat (x :: u32) < 4294967296"
  using unsigned_less [of x, where 'a = nat] by simp

lemma lo_nat: "lo l = of_nat (unat l)"
  by (simp add: lo_def unsigned_ucast_eq)

lemma hi_nat: "hi m = of_nat (unat m * 4294967296)"
  by (simp add: hi_def push_bit_eq_mult unsigned_ucast_eq)

lemma hi_add: "hi (m + n) = hi m + hi n"
proof -
  have "unat (m + n) = (unat m + unat n) mod 4294967296" by (simp add: unat_word_ariths)
  then have e: "unat (m + n) * 4294967296 = (unat m + unat n) * 4294967296 mod 18446744073709551616"
    by (simp only: mult_mod_left) simp
  have "(of_nat (x mod 18446744073709551616) :: u64) = of_nat x" for x
    by (simp add: word_of_nat_eq_iff take_bit_eq_mod)
  with e have "hi (m + n) = of_nat ((unat m + unat n) * 4294967296)"
    by (simp only: hi_nat)
  then show ?thesis by (simp only: hi_nat of_nat_mult of_nat_add distrib_right)
qed

lemma hi_diff: "hi (m - n) = hi m - hi n"
  using hi_add [of "m - n" n] by simp

lemma hi_simps: "hi 0 = 0" "hi 1 = 4294967296"
  by (simp_all add: hi_nat)

lemma lo_add: "lo (l + v) = lo l + lo v - (if unat l + unat v < 4294967296 then 0 else 4294967296)"
proof (cases "unat l + unat v < 4294967296")
  case True
  then show ?thesis by (simp add: lo_nat unat_word_ariths)
next
  case False
  then have "unat (l + v) = unat l + unat v - 4294967296"
    using u32_bound [of l] u32_bound [of v] by (simp add: unat_word_ariths mod_nat_eqI)
  with False show ?thesis by (simp add: lo_nat of_nat_diff)
qed

lemma lo_diff: "lo (l - v) = lo l - lo v + (if l < v then 4294967296 else 0)"
proof -
  have "lo l = lo (l - v) + lo v - (if unat (l - v) + unat v < 4294967296 then 0 else 4294967296)"
    using lo_add [of "l - v" v] by simp
  moreover have "unat (l - v) + unat v < 4294967296 \<longleftrightarrow> \<not> l < v"
  proof
    assume "unat (l - v) + unat v < 4294967296"
    then have "unat l = unat (l - v) + unat v"
      using unat_add_lt [of "l - v" v] by simp
    then show "\<not> l < v" by (simp add: word_less_nat_alt)
  next
    assume "\<not> l < v"
    then show "unat (l - v) + unat v < 4294967296"
      using unat_diff_le [of v l] u32_bound [of l] by (simp add: word_le_nat_alt not_less)
  qed
  ultimately show ?thesis by (auto simp: algebra_simps)
qed

lemma and_top_bit: "x AND 0x80000000 \<noteq> 0 \<longleftrightarrow> bit (x :: u32) 31"
proof -
  have "(0x80000000 :: u32) = push_bit 31 1" by simp
  then show ?thesis by (simp only: bit_iff_and_push_bit_not_eq_0)
qed

lemma top_bit: "bit (x :: u32) 31 \<longleftrightarrow> 2147483648 \<le> unat x"
proof -
  have "bit x 31 \<longleftrightarrow> bit (unat x) 31" by (simp add: bit_unsigned_iff)
  also have "\<dots> \<longleftrightarrow> odd (unat x div 2147483648)" by (simp add: bit_iff_odd)
  also have "unat x div 2147483648 = (if 2147483648 \<le> unat x then 1 else 0)"
    using u32_bound [of x] by auto
  finally show ?thesis by simp
qed

lemma carry_test:
  "((if (l OR v) AND 0x80000000 \<noteq> 0 \<and> (l + v) AND 0x80000000 = 0 then 1 else 0) OR ((l AND v) AND 0x80000000) \<noteq> (0 :: u32))
    \<longleftrightarrow> \<not> unat l + unat v < 4294967296"
proof -
  have o: "(l OR v) AND 0x80000000 \<noteq> 0 \<longleftrightarrow> bit l 31 \<or> bit v 31"
    unfolding and_top_bit by (simp add: bit_simps)
  have a: "(l AND v) AND 0x80000000 \<noteq> 0 \<longleftrightarrow> bit l 31 \<and> bit v 31"
    unfolding and_top_bit by (simp add: bit_simps)
  have n: "(l + v) AND 0x80000000 = 0 \<longleftrightarrow> \<not> bit (l + v) 31" using and_top_bit by blast
  have d: "p OR q \<noteq> 0 \<longleftrightarrow> p \<noteq> 0 \<or> q \<noteq> 0" for p q :: u32 by (simp add: or_eq_0_iff)
  have u: "unat (l + v) = (unat l + unat v) mod 4294967296" by (simp add: unat_word_ariths)
  have m: "(unat l + unat v) mod 4294967296 = (if unat l + unat v < 4294967296 then unat l + unat v
      else unat l + unat v - 4294967296)"
    using u32_bound [of l] u32_bound [of v] by (simp add: mod_nat_eqI)
  show ?thesis unfolding d o a n top_bit u m using u32_bound [of l] u32_bound [of v] by auto
qed

lemma join_addU32: "u64_join (os_i64_addU32 a v) = u64_join a + ucast v"
proof (cases "unat (LSW a) + unat v < 4294967296")
  case True
  then show ?thesis
    using carry_test [of "LSW a" v]
    by (simp add: os_i64_addU32_def Let_def join_hi_lo join_hi_lo' lo_add hi_simps flip: lo_def)
next
  case False
  then show ?thesis
    using carry_test [of "LSW a" v]
    by (simp add: os_i64_addU32_def Let_def join_hi_lo join_hi_lo' lo_add hi_add hi_simps flip: lo_def)
qed

lemma join_subU32: "u64_join (os_i64_subU32 a v) = u64_join a - ucast v"
  by (simp add: os_i64_subU32_def join_hi_lo join_hi_lo' [of a] lo_diff hi_diff hi_simps flip: lo_def)

lemma join_sub: "u64_join (os_i64_sub a b) = u64_join a - u64_join b"
  by (simp add: os_i64_sub_def join_hi_lo join_hi_lo' [of a] join_hi_lo' [of b] lo_diff hi_diff hi_simps)

lemma join_less: "u64_join a < u64_join b \<longleftrightarrow> MSW a < MSW b \<or> MSW a = MSW b \<and> LSW a < LSW b"
proof -
  note b = u32_bound [of "LSW a"] u32_bound [of "LSW b"]
  have "u64_join a < u64_join b \<longleftrightarrow>
      unat (MSW a) * 4294967296 + unat (LSW a) < unat (MSW b) * 4294967296 + unat (LSW b)"
    by (simp add: word_less_nat_alt unat_join)
  also have "\<dots> \<longleftrightarrow> unat (MSW a) < unat (MSW b) \<or> unat (MSW a) = unat (MSW b) \<and> unat (LSW a) < unat (LSW b)"
    using b by linarith
  finally show ?thesis by (simp add: word_less_nat_alt word_unat_eq_iff)
qed

lemma join_zero: "u64_join a = 0 \<longleftrightarrow> MSW a = 0 \<and> LSW a = 0"
proof -
  have "u64_join a = 0 \<longleftrightarrow> unat (u64_join a) = 0" by (simp add: unat_eq_zero)
  also have "\<dots> \<longleftrightarrow> unat (MSW a) = 0 \<and> unat (LSW a) = 0" by (simp only: unat_join) simp
  finally show ?thesis by (simp add: unat_eq_zero)
qed

lemma ucast_u32_zero: "(ucast (v :: u32) :: u64) = 0 \<longleftrightarrow> v = 0"
proof -
  have "unat (ucast v :: u64) = unat v"
    using u32_bound [of v] by (simp add: unsigned_ucast_eq take_bit_nat_eq_self)
  then show ?thesis by (metis unat_eq_zero)
qed

lemma and_one_u32: "x AND 1 \<noteq> 0 \<longleftrightarrow> bit (x :: u32) 0"
  using bit_iff_and_push_bit_not_eq_0 [of x 0] by simp

lemma word_consts: "(0x80000000 :: u32) = push_bit 31 1" "(0x7FFFFFFF :: u32) = mask 31"
  by (simp_all add: mask_eq_exp_minus_1)

lemma bit_consts: "bit (0x80000000 :: u32) n \<longleftrightarrow> n = 31" "bit (0x7FFFFFFF :: u32) n \<longleftrightarrow> n < 31"
proof -
  show "bit (0x80000000 :: u32) n \<longleftrightarrow> n = 31"
    unfolding word_consts bit_push_bit_iff bit_1_iff by auto
  show "bit (0x7FFFFFFF :: u32) n \<longleftrightarrow> n < 31"
    unfolding word_consts bit_mask_iff by auto
qed

lemma bit_push_1: "bit (push_bit 1 (x :: u32)) n \<longleftrightarrow> 0 < n \<and> n < 32 \<and> bit x (n - 1)"
  unfolding bit_push_bit_iff by auto

lemma join_shift_right: "u64_join (shift_right_step a) = drop_bit 1 (u64_join a)"
proof -
  have l: "bit (LSW (shift_right_step a)) n \<longleftrightarrow> (if n < 31 then bit (LSW a) (Suc n) else n = 31 \<and> bit (MSW a) 0)" for n
  proof -
    have "LSW (shift_right_step a) = (if bit (MSW a) 0 then drop_bit 1 (LSW a) AND 0x7FFFFFFF OR 0x80000000
        else drop_bit 1 (LSW a) AND 0x7FFFFFFF)"
      by (simp only: shift_right_step_def Let_def and_one_u32 U64_s.simps)
    then show ?thesis
      by (simp only: bit_or_iff bit_and_iff bit_consts bit_drop_bit_eq split: if_split) auto
  qed
  have m: "bit (MSW (shift_right_step a)) n \<longleftrightarrow> bit (MSW a) (Suc n)" for n
  proof -
    have "MSW (shift_right_step a) = drop_bit 1 (MSW a) AND 0x7FFFFFFF"
      by (simp only: shift_right_step_def Let_def U64_s.simps)
    then show ?thesis by (simp only: bit_and_iff bit_consts bit_drop_bit_eq) (auto dest: bit_u32)
  qed
  show ?thesis
  proof (rule bit_eqI)
    fix n :: nat
    consider "n < 31" | "n = 31" | "31 < n" by linarith
    moreover have "31 < n \<Longrightarrow> Suc (n - 32) = n - 31" by simp
    ultimately show "bit (u64_join (shift_right_step a)) n = bit (drop_bit 1 (u64_join a)) n"
      by cases (auto simp: bit_join bit_drop_bit_eq l m Suc_diff_le dest: bit_u32)
  qed
qed

lemma join_shift_left: "u64_join (shift_left_step a) = push_bit 1 (u64_join a)"
proof -
  have l: "bit (LSW (shift_left_step a)) n \<longleftrightarrow> 0 < n \<and> n < 32 \<and> bit (LSW a) (n - 1)" for n
    by (simp only: shift_left_step_def Let_def U64_s.simps bit_push_1)
  have m: "bit (MSW (shift_left_step a)) n \<longleftrightarrow> n < 32 \<and> (if n = 0 then bit (LSW a) 31 else bit (MSW a) (n - 1))" for n
    unfolding shift_left_step_def Let_def and_top_bit
    by (simp only: U64_s.simps bit_push_1 bit_or_iff bit_1_iff split: if_split) (auto dest: bit_u32)
  show ?thesis
  proof (rule bit_eqI)
    fix n :: nat
    assume "possible_bit TYPE(64 word) n"
    then have n: "n < 64" by simp
    consider "n = 0" | "0 < n" "n < 32" | "n = 32" | "32 < n" by linarith
    then show "bit (u64_join (shift_left_step a)) n = bit (push_bit 1 (u64_join a)) n"
      unfolding bit_push_bit_iff using n by cases (auto simp: bit_join l m)
  qed
qed

lemma join_shift_right_n: "u64_join ((shift_right_step ^^ n) a) = drop_bit n (u64_join a)"
  by (induction n) (simp_all add: join_shift_right)

lemma join_shift_left_n: "u64_join ((shift_left_step ^^ n) a) = push_bit n (u64_join a)"
  by (induction n) (simp_all add: join_shift_left)

text \<open>
  C27: The two-word routines are the 64-bit unsigned operations.  Through the value
  \<open>MSW * 2\<^sup>3\<^sup>2 + LSW\<close>, which identifies pairs with 64-bit words, the sums, differences (the 32-bit
  variants with their hand-made carry and borrow), products and shifts by any count are those of
  64-bit words, wrap-around included; the quotients are those of 64-bit words with 0 for a zero
  divisor and never divide by zero; the comparisons are those of 64-bit words.
\<close>

theorem os_i64_arithmetic:
  "u64_join (u64_split x) = x \<and> u64_split (u64_join a) = a
   \<and> unat (u64_join (os_i64_set_value m l)) = unat m * 2 ^ 32 + unat l
   \<and> u64_join (os_i64_add a b) = u64_join a + u64_join b
   \<and> u64_join (os_i64_addU32 a v) = u64_join a + ucast v
   \<and> u64_join (os_i64_sub a b) = u64_join a - u64_join b
   \<and> u64_join (os_i64_subU32 a v) = u64_join a - ucast v
   \<and> u64_join (os_i64_mul a b) = u64_join a * u64_join b
   \<and> u64_join (os_i64_mulU32 a v) = u64_join a * ucast v
   \<and> map_option u64_join (os_i64_div a b) = Some (u64_join a div u64_join b)
   \<and> map_option u64_join (os_i64_divU32 a v) = Some (u64_join a div ucast v)
   \<and> u64_join (os_i64_shift_right a v) = drop_bit (unat v) (u64_join a)
   \<and> u64_join (os_i64_shift_left a v) = push_bit (unat v) (u64_join a)
   \<and> os_i64_equal a b = (u64_join a = u64_join b)
   \<and> os_i64_less a b = (u64_join a < u64_join b)
   \<and> os_i64_greater a b = (u64_join b < u64_join a)
   \<and> os_i64_less_or_equal a b = (u64_join a \<le> u64_join b)
   \<and> os_i64_greater_or_equal a b = (u64_join b \<le> u64_join a)
   \<and> os_i64_is_zero a = (u64_join a = 0)"
  (is "?conv \<and> ?bwd \<and> ?set \<and> ?add \<and> ?addU \<and> ?sub \<and> ?subU \<and> ?mul \<and> ?mulU \<and> ?dv \<and> ?dvU \<and> ?shr \<and> ?shl \<and> ?cmp")
proof -
  have ?conv ?bwd by (rule join_split, rule split_join)
  moreover have ?set by (simp add: unat_join os_i64_set_value_def)
  moreover have ?add ?mul ?mulU by (simp_all add: os_i64_add_def os_i64_mul_def os_i64_mulU32_def join_split)
  moreover have ?addU ?sub ?subU by (rule join_addU32, rule join_sub, rule join_subU32)
  moreover have ?dv by (auto simp: os_i64_div_def join_zero join_split) (simp add: u64_join_def)
  moreover have ?dvU by (auto simp: os_i64_divU32_def ucast_u32_zero join_split join_zero)
  moreover have ?shr ?shl
    by (auto simp: os_i64_shift_right_def os_i64_shift_left_def join_shift_right_n join_shift_left_n)
  moreover have ?cmp
  proof -
    have nl: "u64_join a \<le> u64_join b \<longleftrightarrow> \<not> u64_join b < u64_join a" for a b by auto
    have "os_i64_equal a b = (u64_join a = u64_join b)"
      using join_inject [of a b] by (cases a; cases b) (auto simp: os_i64_equal_def)
    moreover have "os_i64_less a b = (u64_join a < u64_join b)" "os_i64_greater a b = (u64_join b < u64_join a)"
      unfolding join_less os_i64_less_def os_i64_greater_def by auto
    moreover have "os_i64_less_or_equal a b = (u64_join a \<le> u64_join b)"
      "os_i64_greater_or_equal a b = (u64_join b \<le> u64_join a)"
      unfolding nl join_less os_i64_less_or_equal_def os_i64_greater_or_equal_def by auto
    moreover have "os_i64_is_zero a = (u64_join a = 0)" by (simp add: join_zero os_i64_is_zero_def)
    ultimately show ?thesis by blast
  qed
  ultimately show ?thesis by blast
qed

section \<open>The clock\<close>

text \<open>
  \<^verbatim>\<open>g_clock_t\<close> is a \<^verbatim>\<open>long\<close> of 64 bits: \<open>long_val\<close> is \<open>None\<close> where the signed arithmetic overflows.
  Division and remainder are those of C, which truncate.
\<close>

record timeval =
  tvl_sec :: int
  tvl_usec :: int

definition G_CLOCKS_PER_SECOND :: int where "G_CLOCKS_PER_SECOND = 1000"
definition TIME_NOW_CONSTRAINTS :: int where "TIME_NOW_CONSTRAINTS = 864000"
definition TIME_CLOCKS_MODULO :: int where
  "TIME_CLOCKS_MODULO = TIME_NOW_CONSTRAINTS * G_CLOCKS_PER_SECOND"

definition long_val :: "int \<Rightarrow> int option" where
  "long_val x = (if - (2 ^ 63) \<le> x \<and> x < 2 ^ 63 then Some x else None)"

text \<open>The argument is the answer of \<^verbatim>\<open>gettimeofday\<close>.\<close>

definition os_clock_to_time :: "timeval option \<Rightarrow> int \<Rightarrow> timeval" where
  "os_clock_to_time now clock =
     (case now of None \<Rightarrow> \<lparr>tvl_sec = 0, tvl_usec = 0\<rparr>
      | Some tval \<Rightarrow>
         (let usec_per_clk = 1000000 sdiv G_CLOCKS_PER_SECOND in
          \<lparr>tvl_sec = (tvl_sec tval sdiv (TIME_NOW_CONSTRAINTS - 1)) * (TIME_NOW_CONSTRAINTS - 1)
              + clock sdiv G_CLOCKS_PER_SECOND,
           tvl_usec = (clock smod G_CLOCKS_PER_SECOND) * usec_per_clk\<rparr>))"

definition os_time_now :: "timeval option \<Rightarrow> int" where
  "os_time_now now =
     (case now of None \<Rightarrow> 1
      | Some tv \<Rightarrow>
         (let usec_per_clk = 1000000 sdiv G_CLOCKS_PER_SECOND;
              tv_sec = tvl_sec tv smod (TIME_NOW_CONSTRAINTS - 1)
          in tv_sec * G_CLOCKS_PER_SECOND + tvl_usec tv sdiv usec_per_clk))"

definition os_time_after :: "int \<Rightarrow> int \<Rightarrow> int option" where
  "os_time_after time1 time2 = do {
     time \<leftarrow> long_val (time1 - time2);
     if time < 0 then do {
       time \<leftarrow> long_val (- time);
       Some (if time < TIME_CLOCKS_MODULO sdiv 2 then 0 else 1) }
     else Some (if time < TIME_CLOCKS_MODULO sdiv 2 then 1 else 0) }"

definition os_time_minus :: "int \<Rightarrow> int \<Rightarrow> int option" where
  "os_time_minus time1 time2 = do {
     time \<leftarrow> long_val (time1 - time2);
     if time < 0 then do {
       after \<leftarrow> os_time_after time1 time2;
       if after = 0 then Some time else long_val (TIME_CLOCKS_MODULO + time) }
     else Some time }"

definition os_time_plus :: "int \<Rightarrow> int \<Rightarrow> int option" where
  "os_time_plus time1 time2 = do {
     s \<leftarrow> long_val (time1 + time2);
     Some (s smod TIME_CLOCKS_MODULO) }"

text \<open>What \<^verbatim>\<open>os_sleep\<close> hands to \<^verbatim>\<open>nanosleep\<close>; nothing for a negative delay.\<close>

definition os_sleep :: "int \<Rightarrow> timespec option" where
  "os_sleep delay =
     (if delay < 0 then None
      else
        (let cps = G_CLOCKS_PER_SECOND in
         if delay \<le> 2 * cps sdiv 1000 then Some \<lparr>tv_sec = 0, tv_nsec = 2000001\<rparr>
         else Some \<lparr>tv_sec = delay sdiv cps,
                    tv_nsec = (((delay smod cps) * 1000000) sdiv cps) * 1000\<rparr>))"

lemma C_div_mod: "0 \<le> a \<Longrightarrow> 0 < b \<Longrightarrow> a sdiv b = (a div b :: int)" "0 \<le> a \<Longrightarrow> 0 < b \<Longrightarrow> a smod b = (a mod b :: int)"
  by (simp_all add: signed_divide_int_def signed_modulo_int_def sgn_if minus_div_mult_eq_mod)

text \<open>The milliseconds since the epoch of a reading, and the number of the period it lies in.\<close>

definition time_ms :: "timeval \<Rightarrow> int" where
  "time_ms tv = tvl_sec tv * 1000 + tvl_usec tv div 1000"

definition time_ok :: "timeval \<Rightarrow> bool" where
  "time_ok tv \<longleftrightarrow> 0 \<le> tvl_sec tv \<and> 0 \<le> tvl_usec tv \<and> tvl_usec tv < 1000000"

definition time_period :: "timeval \<Rightarrow> int" where
  "time_period tv = tvl_sec tv div 863999"

lemma os_time_now_eq:
  assumes "time_ok t"
  shows "os_time_now (Some t) = time_ms t - 863999000 * time_period t"
    "0 \<le> os_time_now (Some t)" "os_time_now (Some t) < 863999000"
proof -
  have m: "tvl_sec t mod 863999 = tvl_sec t - 863999 * time_period t"
    by (simp add: time_period_def minus_mult_div_eq_mod)
  have e: "os_time_now (Some t) = (tvl_sec t mod 863999) * 1000 + tvl_usec t div 1000"
    using assms by (simp add: os_time_now_def Let_def C_div_mod time_ok_def G_CLOCKS_PER_SECOND_def
        TIME_NOW_CONSTRAINTS_def)
  then show "os_time_now (Some t) = time_ms t - 863999000 * time_period t"
    unfolding m by (simp add: time_ms_def algebra_simps)
  have b: "0 \<le> tvl_sec t mod 863999" "tvl_sec t mod 863999 \<le> 863998" by simp_all
  have u: "0 \<le> tvl_usec t div 1000" "tvl_usec t div 1000 < 1000"
    using assms by (auto simp: time_ok_def)
  show "0 \<le> os_time_now (Some t)" "os_time_now (Some t) < 863999000"
    unfolding e using b u by linarith+
qed

lemma os_clock_to_time_ms:
  assumes "time_ok t" "0 \<le> c"
  shows "time_ms (os_clock_to_time (Some t) c) = 863999000 * time_period t + c"
    "0 \<le> tvl_usec (os_clock_to_time (Some t) c)" "tvl_usec (os_clock_to_time (Some t) c) < 1000000"
proof -
  have e: "os_clock_to_time (Some t) c
      = \<lparr>tvl_sec = time_period t * 863999 + c div 1000, tvl_usec = (c mod 1000) * 1000\<rparr>"
    using assms by (simp add: os_clock_to_time_def Let_def C_div_mod time_ok_def G_CLOCKS_PER_SECOND_def
        TIME_NOW_CONSTRAINTS_def time_period_def)
  show "time_ms (os_clock_to_time (Some t) c) = 863999000 * time_period t + c"
    unfolding e by (simp add: time_ms_def algebra_simps)
  have "0 \<le> c mod 1000" "c mod 1000 < 1000" by simp_all
  then show "0 \<le> tvl_usec (os_clock_to_time (Some t) c)" "tvl_usec (os_clock_to_time (Some t) c) < 1000000"
    unfolding e by simp_all
qed

lemmas clock_defs = G_CLOCKS_PER_SECOND_def TIME_NOW_CONSTRAINTS_def TIME_CLOCKS_MODULO_def long_val_def



end
