(* ===== verification/Ctos_Msg.thy ===== *)
theory Ctos_Msg
  imports Ctos Interfaces
begin

text \<open>
  The message queues of \<^verbatim>\<open>common/ctos.c\<close>: fixed-size message buffers that a sender claims, fills
  and sends, and the receiver releases.  The queues live in a static array of 50 slots; a handle
  names its slot.  Addresses of message buffers are numbers, since releasing computes with them;
  a handle is an address of the map \<open>cm_queues\<close>, whose absence is a freed handle.  The chain of
  pending messages, touched only under the global mutex, is the list of its messages, and every
  operation is atomic.  Semaphores belong to exactly one handle and are kept in it.
\<close>

section \<open>Semaphores\<close>

record g_sem =
  sem_value :: nat
  sem_flag :: int

definition SEM_VALUE_MAX :: nat where "SEM_VALUE_MAX = 2147483647"

text \<open>\<open>sem_init\<close> refuses a value above the maximum (read as an unsigned number).\<close>

definition sem_init_value :: "bool \<Rightarrow> int \<Rightarrow> nat option" where
  "sem_init_value ok value =
     (let v = unat (word_of_int value :: u32) in if ok \<and> v \<le> SEM_VALUE_MAX then Some v else None)"

definition os_semaphore_create :: "bool \<Rightarrow> bool \<Rightarrow> int \<Rightarrow> g_sem ptr" where
  "os_semaphore_create malloc_ok init_ok value =
     (if \<not> malloc_ok then None
      else case sem_init_value init_ok value of None \<Rightarrow> None
           | Some v \<Rightarrow> Some \<lparr>sem_value = v, sem_flag = 1\<rparr>)"

definition os_semaphore_init :: "bool \<Rightarrow> g_sem ptr \<Rightarrow> int \<Rightarrow> int \<times> g_sem ptr" where
  "os_semaphore_init init_ok sem value =
     (case sem of None \<Rightarrow> (-1, None)
      | Some s \<Rightarrow> (case sem_init_value init_ok value of None \<Rightarrow> (-1, sem)
                  | Some v \<Rightarrow> (0, Some \<lparr>sem_value = v, sem_flag = 0\<rparr>)))"

text \<open>Only a semaphore that \<^verbatim>\<open>os_semaphore_create\<close> allocated is freed.\<close>

definition os_semaphore_delete :: "g_sem ptr \<Rightarrow> int \<times> g_sem ptr" where
  "os_semaphore_delete sem =
     (case sem of None \<Rightarrow> (-1, None)
      | Some s \<Rightarrow> (0, if sem_flag s = 1 then None else Some s))"

text \<open>
  What happens while a thread waits: a signal interrupts the call (\<open>EINTR\<close>), another thread posts,
  or the call fails.  When the events are used up the semaphore decides.
\<close>

datatype sem_event = SemInterrupted | SemPosted | SemFailed

fun sem_loop :: "sem_event list \<Rightarrow> g_sem \<Rightarrow> (int \<times> g_sem) outcome \<Rightarrow> (int \<times> g_sem) outcome" where
  "sem_loop [] s at_zero =
     (if 0 < sem_value s then Returned (0, s\<lparr>sem_value := sem_value s - 1\<rparr>) else at_zero)"
| "sem_loop (SemInterrupted # evs) s at_zero = sem_loop evs s at_zero"
| "sem_loop (SemPosted # evs) s at_zero = Returned (0, s)"
| "sem_loop (SemFailed # evs) s at_zero = Returned (-1, s)"

definition os_semaphore_wait :: "sem_event list \<Rightarrow> g_sem ptr \<Rightarrow> (int \<times> g_sem ptr) outcome" where
  "os_semaphore_wait evs sem =
     (case sem of None \<Rightarrow> Returned (-1, None)
      | Some s \<Rightarrow> (case sem_loop evs s Blocked of Blocked \<Rightarrow> Blocked
                  | Returned (r, s) \<Rightarrow> Returned (if r = 0 then 0 else -1, Some s)))"

datatype g_timeout = G_TIMEOUT_INFINITY | G_TIMEOUT_IMMEDIATE | G_TIMEOUT_AT int

definition os_semaphore_wait_timeout ::
    "sem_event list \<Rightarrow> g_sem ptr \<Rightarrow> g_timeout \<Rightarrow> (int \<times> g_sem ptr) outcome" where
  "os_semaphore_wait_timeout evs sem timeout =
     (case sem of None \<Rightarrow> Returned (-1, None)
      | Some s \<Rightarrow>
        (case timeout of
           G_TIMEOUT_IMMEDIATE \<Rightarrow>
             (if 0 < sem_value s then Returned (0, Some (s\<lparr>sem_value := sem_value s - 1\<rparr>))
              else Returned (-1, sem))
         | G_TIMEOUT_INFINITY \<Rightarrow> os_semaphore_wait evs sem
         | G_TIMEOUT_AT t \<Rightarrow>
             (case sem_loop evs s (Returned (-1, s)) of Blocked \<Rightarrow> Blocked
              | Returned (r, s) \<Rightarrow> Returned (if r = 0 then 0 else -1, Some s))))"

definition os_semaphore_signal :: "g_sem ptr \<Rightarrow> int \<times> g_sem ptr" where
  "os_semaphore_signal sem =
     (case sem of None \<Rightarrow> (-1, None)
      | Some s \<Rightarrow> if sem_value s < SEM_VALUE_MAX then (0, Some (s\<lparr>sem_value := sem_value s + 1\<rparr>))
                 else (-1, sem))"

definition os_semaphore_getvalue :: "g_sem ptr \<Rightarrow> nat ptr \<Rightarrow> int \<times> nat ptr" where
  "os_semaphore_getvalue sem val =
     (case (sem, val) of (Some s, Some v) \<Rightarrow> (0, Some (sem_value s)) | _ \<Rightarrow> (-1, val))"

section \<open>State\<close>

definition QUEUE_NB_MAX :: nat where "QUEUE_NB_MAX = 50"

record os_MsgElem =
  Memory_p :: "u64 ptr"
  Used_p :: "bool list ptr"
  Pending_p :: "u64 list"
  ElementSize :: u64
  NoElements :: u32

record g_msg_queue =
  MsgSemaphore_p :: "g_sem ptr"
  ClaimSemaphore_p :: "g_sem ptr"
  q_Index :: nat

record os_MsgQueueList =
  ml_MessageQueue_p :: addr
  ml_Memory_p :: "u64 ptr"

record ctos_msg =
  MessageArray :: "os_MsgElem list"
  MessageInitDone :: bool
  MessageQueueList_p :: "os_MsgQueueList list"
  cm_queues :: "addr \<rightharpoonup> g_msg_queue"

definition empty_elem :: os_MsgElem where
  "empty_elem = \<lparr>Memory_p = None, Used_p = None, Pending_p = [], ElementSize = 0, NoElements = 0\<rparr>"

definition Init_Msg_Queues :: "ctos_msg \<Rightarrow> ctos_msg" where
  "Init_Msg_Queues s =
     (if \<not> MessageInitDone s
      then s\<lparr>MessageInitDone := True, MessageArray := replicate QUEUE_NB_MAX empty_elem\<rparr> else s)"

section \<open>Creating and deleting queues\<close>

text \<open>
  The outcomes of the allocations, in the order of the code: the list node, the handle, the
  message memory (of the size asked for), the usage flags, the two semaphores.
\<close>

record cm_env =
  ce_node :: bool
  ce_handle :: "addr ptr"
  ce_memory :: "u64 \<Rightarrow> u64 ptr"
  ce_used :: bool
  ce_msg_sem :: bool
  ce_claim_sem :: bool

fun find_slot :: "nat \<Rightarrow> os_MsgElem list \<Rightarrow> nat" where
  "find_slot i [] = i"
| "find_slot i (e # es) = (if Memory_p e \<noteq> None then find_slot (i + 1) es else i)"

definition os_message_create_queue_timeout :: "cm_env \<Rightarrow> u64 \<Rightarrow> u32 \<Rightarrow> ctos_msg \<Rightarrow> addr ptr \<times> ctos_msg" where
  "os_message_create_queue_timeout e esize n s =
     (if \<not> ce_node e then (None, s)
      else case ce_handle e of None \<Rightarrow> (None, s)
      | Some q \<Rightarrow>
        (case ce_memory e (esize * ucast n) of None \<Rightarrow> (None, s)
         | Some mem \<Rightarrow>
           (let s = Init_Msg_Queues s;
                index = find_slot 0 (MessageArray s) in
            if index < QUEUE_NB_MAX then
              if ce_used e then
                (Some q, s\<lparr>MessageArray := (MessageArray s)[index :=
                     \<lparr>Memory_p = Some mem, Used_p = Some (replicate (unat n) False), Pending_p = [],
                      ElementSize = esize, NoElements = n\<rparr>],
                   MessageQueueList_p := MessageQueueList_p s @
                     [\<lparr>ml_MessageQueue_p = q, ml_Memory_p = Some mem\<rparr>],
                   cm_queues := (cm_queues s)(q \<mapsto>
                     \<lparr>MsgSemaphore_p = os_semaphore_create (ce_msg_sem e) True 0,
                      ClaimSemaphore_p = os_semaphore_create (ce_claim_sem e) True (sint n),
                      q_Index = index\<rparr>)\<rparr>)
              else (None, s\<lparr>MessageArray := (MessageArray s)[index :=
                     (MessageArray s ! index)\<lparr>Used_p := None\<rparr>]\<rparr>)
            else (None, s))))"

definition os_message_create_queue where
  "os_message_create_queue e esize n s = os_message_create_queue_timeout e esize n s"

fun unlink_queue :: "addr \<Rightarrow> os_MsgQueueList list \<Rightarrow> os_MsgQueueList list ptr" where
  "unlink_queue q [] = None"
| "unlink_queue q (n # ns) =
     (if ml_MessageQueue_p n = q then Some ns else map_option (\<lambda>ns. n # ns) (unlink_queue q ns))"

text \<open>The result is the list of messages handed to the free function, if there is one.\<close>

definition os_message_delete_queue2 :: "addr ptr \<Rightarrow> bool \<Rightarrow> ctos_msg \<Rightarrow> (u64 list \<times> ctos_msg) option" where
  "os_message_delete_queue2 p func s =
     (if \<not> MessageInitDone s then Some ([], s)
      else case p of None \<Rightarrow> Some ([], s)
      | Some q \<Rightarrow> do {
          h \<leftarrow> cm_queues s q;
          if q_Index h < QUEUE_NB_MAX then
            (let e = MessageArray s ! q_Index h;
                 msgs = (if func then Pending_p e else []);
                 s = s\<lparr>MessageArray := (MessageArray s)[q_Index h := empty_elem],
                       cm_queues := (cm_queues s)(q \<mapsto>
                         h\<lparr>MsgSemaphore_p := snd (os_semaphore_delete (MsgSemaphore_p h)),
                           ClaimSemaphore_p := snd (os_semaphore_delete (ClaimSemaphore_p h)),
                           q_Index := QUEUE_NB_MAX\<rparr>)\<rparr> in
             Some (msgs, case unlink_queue q (MessageQueueList_p s) of None \<Rightarrow> s
                   | Some ns \<Rightarrow> s\<lparr>MessageQueueList_p := ns, cm_queues := (cm_queues s)(q := None)\<rparr>))
          else Some ([], s) })"

definition os_message_delete_queue :: "addr ptr \<Rightarrow> ctos_msg \<Rightarrow> ctos_msg option" where
  "os_message_delete_queue p s = map_option snd (os_message_delete_queue2 p False s)"

section \<open>Claiming, sending, receiving, releasing\<close>

text \<open>The first unused buffer among the given indices; \<open>None\<close> outside the array of flags.\<close>

fun scan_used :: "nat list \<Rightarrow> bool list \<Rightarrow> nat ptr option" where
  "scan_used [] us = Some None"
| "scan_used (i # is) us =
     (if i < length us then (if \<not> us ! i then Some (Some i) else scan_used is us) else None)"

definition set_elem :: "nat \<Rightarrow> os_MsgElem \<Rightarrow> ctos_msg \<Rightarrow> ctos_msg" where
  "set_elem i e s = s\<lparr>MessageArray := (MessageArray s)[i := e]\<rparr>"

definition set_queue :: "addr \<Rightarrow> g_msg_queue \<Rightarrow> ctos_msg \<Rightarrow> ctos_msg" where
  "set_queue q h s = s\<lparr>cm_queues := (cm_queues s)(q \<mapsto> h)\<rparr>"

definition os_message_claim_timeout ::
    "sem_event list \<Rightarrow> addr ptr \<Rightarrow> g_timeout \<Rightarrow> ctos_msg \<Rightarrow> (u64 ptr \<times> ctos_msg) outcome option" where
  "os_message_claim_timeout evs p time s =
     (case p of None \<Rightarrow> Some (Returned (None, s))
      | Some q \<Rightarrow> do {
          h \<leftarrow> cm_queues s q;
          if q_Index h < QUEUE_NB_MAX then
            (let e = MessageArray s ! q_Index h in
             case os_semaphore_wait_timeout evs (ClaimSemaphore_p h) time of
               Blocked \<Rightarrow> Some Blocked
             | Returned (r, sem) \<Rightarrow>
                 (let s = set_queue q (h\<lparr>ClaimSemaphore_p := sem\<rparr>) s in
                  if r \<noteq> 0 then Some (Returned (None, s))
                  else do {
                    u \<leftarrow> (if NoElements e = 0 then Some None
                          else do { us \<leftarrow> Used_p e; scan_used [0..<unat (NoElements e)] us });
                    (case u of None \<Rightarrow> Some (Returned (None, s))
                     | Some i \<Rightarrow> do {
                         us \<leftarrow> Used_p e;
                         mem \<leftarrow> Memory_p e;
                         Some (Returned (Some (mem + of_nat i * ElementSize e),
                           set_elem (q_Index h) (e\<lparr>Used_p := Some (us[i := True])\<rparr>) s)) }) }))
          else Some (Returned (None, s)) })"

definition os_message_claim where
  "os_message_claim evs p s = os_message_claim_timeout evs p G_TIMEOUT_INFINITY s"

definition os_message_send :: "bool \<Rightarrow> addr ptr \<Rightarrow> u64 ptr \<Rightarrow> ctos_msg \<Rightarrow> ctos_msg option" where
  "os_message_send malloc_ok p message s =
     (case (p, message) of
        (Some q, Some m) \<Rightarrow> do {
          h \<leftarrow> cm_queues s q;
          if q_Index h < QUEUE_NB_MAX then
            if malloc_ok then
              (let e = MessageArray s ! q_Index h;
                   s = set_elem (q_Index h) (e\<lparr>Pending_p := Pending_p e @ [m]\<rparr>) s in
               Some (set_queue q (h\<lparr>MsgSemaphore_p := snd (os_semaphore_signal (MsgSemaphore_p h))\<rparr>) s))
            else Some s
          else Some s }
      | _ \<Rightarrow> Some s)"

definition os_message_receive_timeout ::
    "sem_event list \<Rightarrow> bool \<Rightarrow> addr ptr \<Rightarrow> g_timeout \<Rightarrow> ctos_msg \<Rightarrow> (u64 ptr \<times> ctos_msg) outcome option" where
  "os_message_receive_timeout evs lock_ok p time s =
     (case p of None \<Rightarrow> Some (Returned (None, s))
      | Some q \<Rightarrow> do {
          h \<leftarrow> cm_queues s q;
          if q_Index h < QUEUE_NB_MAX then
            (case os_semaphore_wait_timeout evs (MsgSemaphore_p h) time of
               Blocked \<Rightarrow> Some Blocked
             | Returned (r, sem) \<Rightarrow>
                 (let s = set_queue q (h\<lparr>MsgSemaphore_p := sem\<rparr>) s;
                      e = MessageArray s ! q_Index h in
                  if r = 0 \<and> lock_ok then
                    (case Pending_p e of [] \<Rightarrow> Some (Returned (None, s))
                     | m # ms \<Rightarrow> Some (Returned (Some m, set_elem (q_Index h) (e\<lparr>Pending_p := ms\<rparr>) s)))
                  else Some (Returned (None, s))))
          else Some (Returned (None, s)) })"

definition os_message_receive where
  "os_message_receive evs lock_ok p s = os_message_receive_timeout evs lock_ok p G_TIMEOUT_INFINITY s"

definition os_message_query_num :: "addr ptr \<Rightarrow> ctos_msg \<Rightarrow> nat option" where
  "os_message_query_num p s =
     (case p of None \<Rightarrow> Some 0
      | Some q \<Rightarrow> do {
          h \<leftarrow> cm_queues s q;
          let (ret, num) = os_semaphore_getvalue (MsgSemaphore_p h) (Some 0);
          Some (if ret \<noteq> 0 then 0 else case num of None \<Rightarrow> 0 | Some v \<Rightarrow> v) })"

text \<open>
  The code casts both pointers to 32 bits; the upper bound is computed in 64 bits.  The index is a
  32-bit division, undefined when the low half of the element size is 0.
\<close>

definition low32 :: "u64 \<Rightarrow> u32" where "low32 x = ucast x"

definition os_message_release :: "bool \<Rightarrow> addr ptr \<Rightarrow> u64 ptr \<Rightarrow> ctos_msg \<Rightarrow> ctos_msg option" where
  "os_message_release lock_ok p message s =
     (case (p, message) of
        (Some q, Some m) \<Rightarrow> do {
          h \<leftarrow> cm_queues s q;
          if q_Index h < QUEUE_NB_MAX then
            if lock_ok then
              (let e = MessageArray s ! q_Index h;
                   m32 = low32 m;
                   b32 = (case Memory_p e of None \<Rightarrow> 0 | Some b \<Rightarrow> low32 b) in
               if b32 \<le> m32 \<and> ucast m32 < ucast b32 + ElementSize e * ucast (NoElements e) then do {
                 us \<leftarrow> Used_p e;
                 index \<leftarrow> (if low32 (ElementSize e) = 0 then None
                           else Some (unat ((m32 - b32) div low32 (ElementSize e))));
                 if index < length us then
                   Some (set_queue q (h\<lparr>ClaimSemaphore_p := snd (os_semaphore_signal (ClaimSemaphore_p h))\<rparr>)
                     (set_elem (q_Index h) (e\<lparr>Used_p := Some (us[index := False])\<rparr>) s))
                 else None }
               else Some s)
            else Some s
          else Some s }
      | _ \<Rightarrow> Some s)"

section \<open>The registry of queues\<close>

definition slot_of :: "ctos_msg \<Rightarrow> os_MsgQueueList \<Rightarrow> nat" where
  "slot_of s n = (case cm_queues s (ml_MessageQueue_p n) of None \<Rightarrow> QUEUE_NB_MAX | Some h \<Rightarrow> q_Index h)"

definition used_slots :: "ctos_msg \<Rightarrow> nat set" where
  "used_slots s = {i. i < length (MessageArray s) \<and> Memory_p (MessageArray s ! i) \<noteq> None}"

text \<open>
  The list names exactly the live handles, and the handles' slots are exactly the occupied ones,
  each once, with the memory the list will free.
\<close>

definition reg_inv :: "ctos_msg \<Rightarrow> bool" where
  "reg_inv s \<longleftrightarrow> length (MessageArray s) = QUEUE_NB_MAX
     \<and> distinct (map ml_MessageQueue_p (MessageQueueList_p s))
     \<and> set (map ml_MessageQueue_p (MessageQueueList_p s)) = dom (cm_queues s)
     \<and> distinct (map (slot_of s) (MessageQueueList_p s))
     \<and> set (map (slot_of s) (MessageQueueList_p s)) = used_slots s
     \<and> (\<forall>n \<in> set (MessageQueueList_p s). ml_Memory_p n = Memory_p (MessageArray s ! slot_of s n))
     \<and> (\<not> MessageInitDone s \<longrightarrow> MessageQueueList_p s = [])"

text \<open>The step relation: the operations with whatever the environment answers.  A fresh handle is
  one that is not live.\<close>

inductive cm_step :: "ctos_msg \<Rightarrow> ctos_msg \<Rightarrow> bool" where
  cm_create: "\<lbrakk>os_message_create_queue_timeout e esize n s = (r, s');
      \<forall>q. ce_handle e = Some q \<longrightarrow> cm_queues s q = None\<rbrakk> \<Longrightarrow> cm_step s s'"
| cm_delete: "os_message_delete_queue2 p func s = Some (ms, s') \<Longrightarrow> cm_step s s'"
| cm_claim: "os_message_claim_timeout evs p t s = Some (Returned (r, s')) \<Longrightarrow> cm_step s s'"
| cm_send: "os_message_send ok p m s = Some s' \<Longrightarrow> cm_step s s'"
| cm_receive: "os_message_receive_timeout evs ok p t s = Some (Returned (r, s')) \<Longrightarrow> cm_step s s'"
| cm_release: "os_message_release ok p m s = Some s' \<Longrightarrow> cm_step s s'"

text \<open>At program start the static array is zero and the list empty.\<close>

definition cm_init :: "ctos_msg \<Rightarrow> bool" where
  "cm_init s \<longleftrightarrow> MessageArray s = replicate QUEUE_NB_MAX empty_elem \<and> \<not> MessageInitDone s
     \<and> MessageQueueList_p s = [] \<and> cm_queues s = Map.empty"

text \<open>Steps that keep every slot's memory and every handle's index keep the registry.\<close>

definition same_registry :: "ctos_msg \<Rightarrow> ctos_msg \<Rightarrow> bool" where
  "same_registry s s' \<longleftrightarrow> map Memory_p (MessageArray s') = map Memory_p (MessageArray s)
     \<and> MessageQueueList_p s' = MessageQueueList_p s \<and> MessageInitDone s' = MessageInitDone s
     \<and> (\<forall>q. map_option q_Index (cm_queues s' q) = map_option q_Index (cm_queues s q))"

lemma set_simps [simp]:
  "MessageArray (set_queue q h s) = MessageArray s" "cm_queues (set_elem i e s) = cm_queues s"
  "MessageInitDone (set_queue q h s) = MessageInitDone s" "MessageInitDone (set_elem i e s) = MessageInitDone s"
  "MessageQueueList_p (set_queue q h s) = MessageQueueList_p s" "MessageQueueList_p (set_elem i e s) = MessageQueueList_p s"
  by (simp_all add: set_queue_def set_elem_def)

lemma same_registry_refl: "same_registry s s"
  by (simp add: same_registry_def)

lemma same_registry_trans: "same_registry s s' \<Longrightarrow> same_registry s' s'' \<Longrightarrow> same_registry s s''"
  by (simp add: same_registry_def)

lemma same_registry_set_queue:
  "cm_queues s q = Some h \<Longrightarrow> q_Index h' = q_Index h \<Longrightarrow> same_registry s (set_queue q h' s)"
  by (auto simp: same_registry_def set_queue_def)

lemma same_registry_set_elem:
  assumes "Memory_p e = Memory_p (MessageArray s ! i)"
  shows "same_registry s (set_elem i e s)"
proof -
  have "map Memory_p ((MessageArray s)[i := e]) = map Memory_p (MessageArray s)"
  proof (intro nth_equalityI)
    fix k assume "k < length (map Memory_p ((MessageArray s)[i := e]))"
    then show "map Memory_p ((MessageArray s)[i := e]) ! k = map Memory_p (MessageArray s) ! k"
      using assms by (cases "k = i") auto
  qed simp
  then show ?thesis by (simp add: same_registry_def set_elem_def)
qed

lemma same_registry_both:
  assumes "cm_queues s q = Some h" "q_Index h' = q_Index h" "Memory_p e = Memory_p (MessageArray s ! i)"
  shows "same_registry s (set_queue q h' (set_elem i e s))" "same_registry s (set_elem i e (set_queue q h' s))"
  using assms same_registry_set_elem [OF assms(3)] by (auto simp: same_registry_def set_queue_def set_elem_def)

lemmas same_registryI = same_registry_refl same_registry_set_queue same_registry_both

lemma same_registry_inv:
  assumes "same_registry s s'" "reg_inv s"
  shows "reg_inv s'"
proof -
  have m: "map Memory_p (MessageArray s') = map Memory_p (MessageArray s)"
    and l: "MessageQueueList_p s' = MessageQueueList_p s" and i: "MessageInitDone s' = MessageInitDone s"
    and q: "\<And>q. map_option q_Index (cm_queues s' q) = map_option q_Index (cm_queues s q)"
    using assms(1) by (auto simp: same_registry_def)
  have len: "length (MessageArray s') = length (MessageArray s)" using m by (metis length_map)
  have mem: "Memory_p (MessageArray s' ! j) = Memory_p (MessageArray s ! j)" if "j < length (MessageArray s)" for j
    using m that len by (metis nth_map)
  have slot: "slot_of s' = slot_of s"
  proof
    fix n show "slot_of s' n = slot_of s n"
      using q [of "ml_MessageQueue_p n"] by (auto simp: slot_of_def split: option.splits)
  qed
  have used: "used_slots s' = used_slots s" using mem len by (auto simp: used_slots_def)
  have dom: "dom (cm_queues s') = dom (cm_queues s)"
  proof -
    have "cm_queues s' x = None \<longleftrightarrow> cm_queues s x = None" for x
      using q [of x] by (metis map_option_is_None)
    then show ?thesis by (simp add: dom_def)
  qed
  have "slot_of s n < length (MessageArray s)" if "n \<in> set (MessageQueueList_p s)" for n
  proof -
    have "slot_of s n \<in> used_slots s" using assms(2) that by (auto simp: reg_inv_def)
    then show ?thesis by (simp add: used_slots_def)
  qed
  with assms(2) show ?thesis by (simp add: reg_inv_def l i slot used dom len mem)
qed

lemma cm_init_reg: "cm_init s \<Longrightarrow> reg_inv s"
  by (auto simp: cm_init_def reg_inv_def used_slots_def empty_elem_def)

lemma send_same: "os_message_send ok p m s = Some s' \<Longrightarrow> same_registry s s'"
  by (auto simp: os_message_send_def Let_def bind_eq_Some_conv intro!: same_registryI
      split: option.splits if_splits)

lemma receive_same: "os_message_receive_timeout evs ok p t s = Some (Returned (r, s')) \<Longrightarrow> same_registry s s'"
  by (auto simp: os_message_receive_timeout_def Let_def bind_eq_Some_conv set_queue_def [symmetric]
      intro!: same_registryI split: option.splits if_splits outcome.splits prod.splits list.splits)

lemma claim_same: "os_message_claim_timeout evs p t s = Some (Returned (r, s')) \<Longrightarrow> same_registry s s'"
  by (auto simp: os_message_claim_timeout_def Let_def bind_eq_Some_conv
      intro!: same_registryI split: option.splits if_splits outcome.splits prod.splits list.splits)

lemma release_same: "os_message_release ok p m s = Some s' \<Longrightarrow> same_registry s s'"
  by (auto simp: os_message_release_def Let_def bind_eq_Some_conv intro!: same_registryI
      split: option.splits if_splits)


lemma find_slot_first:
  "find_slot k es = k + length (takeWhile (\<lambda>e. Memory_p e \<noteq> None) es)"
  by (induction k es rule: find_slot.induct) auto

lemma find_slot_free:
  assumes "find_slot 0 es < length es"
  shows "Memory_p (es ! find_slot 0 es) = None"
  using nth_length_takeWhile [of "\<lambda>e. Memory_p e \<noteq> None" es] assms by (simp add: find_slot_first)

lemma find_slot_full:
  "find_slot 0 es < length es \<longleftrightarrow> (\<exists>i < length es. Memory_p (es ! i) = None)"
proof
  assume "find_slot 0 es < length es"
  with find_slot_free show "\<exists>i < length es. Memory_p (es ! i) = None" by blast
next
  assume "\<exists>i < length es. Memory_p (es ! i) = None"
  then obtain i where i: "i < length es" "Memory_p (es ! i) = None" by blast
  show "find_slot 0 es < length es"
  proof (rule ccontr)
    assume "\<not> ?thesis"
    then have "takeWhile (\<lambda>e. Memory_p e \<noteq> None) es = es"
      using takeWhile_eq_take [of "\<lambda>e. Memory_p e \<noteq> None" es] by (simp add: find_slot_first)
    moreover have "es ! i \<in> set es" using i(1) by simp
    ultimately have "es ! i \<in> set (takeWhile (\<lambda>e. Memory_p e \<noteq> None) es)" by (simp only:)
    then have "Memory_p (es ! i) \<noteq> None" by (drule_tac set_takeWhileD) simp
    then show False using i(2) by simp
  qed
qed

lemma init_queues_reg:
  assumes "reg_inv s"
  shows "reg_inv (Init_Msg_Queues s)" "MessageInitDone (Init_Msg_Queues s)"
    "cm_queues (Init_Msg_Queues s) = cm_queues s" "MessageQueueList_p (Init_Msg_Queues s) = MessageQueueList_p s"
proof -
  show "reg_inv (Init_Msg_Queues s)"
  proof (cases "MessageInitDone s")
    case False
    with assms show ?thesis
      by (auto simp: reg_inv_def Init_Msg_Queues_def used_slots_def empty_elem_def)
  qed (use assms in \<open>simp add: Init_Msg_Queues_def\<close>)
qed (simp_all add: Init_Msg_Queues_def)

lemma reg_slot:
  assumes "reg_inv s" "n \<in> set (MessageQueueList_p s)"
  shows "slot_of s n \<in> used_slots s" "slot_of s n < QUEUE_NB_MAX"
  using assms by (auto simp: reg_inv_def used_slots_def)

lemma reg_handle:
  assumes "reg_inv s" "cm_queues s q = Some h"
  shows "\<exists>n \<in> set (MessageQueueList_p s). ml_MessageQueue_p n = q \<and> slot_of s n = q_Index h" "q_Index h < QUEUE_NB_MAX"
proof -
  have "q \<in> set (map ml_MessageQueue_p (MessageQueueList_p s))"
    using assms unfolding reg_inv_def by (metis domI)
  then obtain n where n: "n \<in> set (MessageQueueList_p s)" "ml_MessageQueue_p n = q" by auto
  then have "slot_of s n = q_Index h" using assms(2) by (simp add: slot_of_def)
  with n reg_slot [OF assms(1) n(1)] show "\<exists>n \<in> set (MessageQueueList_p s). ml_MessageQueue_p n = q \<and> slot_of s n = q_Index h"
    "q_Index h < QUEUE_NB_MAX" by auto
qed

lemma create_reg:
  assumes inv: "reg_inv s" and c: "os_message_create_queue_timeout e esize n s = (r, s')"
    and fresh: "\<forall>q. ce_handle e = Some q \<longrightarrow> cm_queues s q = None"
  shows "reg_inv s'"
proof -
  define s1 where "s1 = Init_Msg_Queues s"
  note I = init_queues_reg [OF inv, folded s1_def]
  define i where "i = find_slot 0 (MessageArray s1)"
  consider "s' = s" | "s' = s1"
    | "i < QUEUE_NB_MAX" "s' = set_elem i ((MessageArray s1 ! i)\<lparr>Used_p := None\<rparr>) s1"
    | q mem u h where "i < QUEUE_NB_MAX" "ce_handle e = Some q" "q_Index h = i"
      "s' = s1\<lparr>MessageArray := (MessageArray s1)[i := \<lparr>Memory_p = Some mem, Used_p = u, Pending_p = [],
                      ElementSize = esize, NoElements = n\<rparr>],
           MessageQueueList_p := MessageQueueList_p s1 @ [\<lparr>ml_MessageQueue_p = q, ml_Memory_p = Some mem\<rparr>],
           cm_queues := (cm_queues s1)(q \<mapsto> h)\<rparr>"
    using c by (force simp: os_message_create_queue_timeout_def Let_def set_elem_def
        simp flip: s1_def i_def split: option.splits if_splits)
  then show ?thesis
  proof cases
    case 3
    have "same_registry s1 s'" unfolding 3 by (rule same_registry_set_elem) simp
    then show ?thesis using I(1) same_registry_inv by blast
  next
    case (4 q mem u h)
    have len: "length (MessageArray s1) = QUEUE_NB_MAX" using I(1) by (simp add: reg_inv_def)
    then have free: "i \<notin> used_slots s1"
      using find_slot_free [of "MessageArray s1"] 4(1) by (simp add: used_slots_def i_def)
    have q: "q \<notin> dom (cm_queues s1)" using fresh 4(2) I(3) by auto
    then have nq: "ml_MessageQueue_p x \<noteq> q" if "x \<in> set (MessageQueueList_p s1)" for x
      using I(1) that unfolding reg_inv_def by (metis image_eqI list.set_map)
    have slot: "slot_of s' x = slot_of s1 x" if "x \<in> set (MessageQueueList_p s1)" for x
      using nq [OF that] by (simp add: slot_of_def 4(4))
    have new: "slot_of s' \<lparr>ml_MessageQueue_p = q, ml_Memory_p = Some mem\<rparr> = i"
      by (simp add: slot_of_def 4(3,4))
    have slots: "map (slot_of s') (MessageQueueList_p s1) = map (slot_of s1) (MessageQueueList_p s1)"
      using slot by simp
    have ne: "slot_of s1 x \<noteq> i" if "x \<in> set (MessageQueueList_p s1)" for x
      using reg_slot(1) [OF I(1) that] free by auto
    have used: "used_slots s' = insert i (used_slots s1)"
      using 4(1) len by (auto simp: used_slots_def 4(4) nth_list_update)
    have mem: "\<forall>x \<in> set (MessageQueueList_p s1). ml_Memory_p x = Memory_p (MessageArray s' ! slot_of s1 x)"
    proof
      fix x assume x: "x \<in> set (MessageQueueList_p s1)"
      then have "i \<noteq> slot_of s1 x" using ne by blast
      then show "ml_Memory_p x = Memory_p (MessageArray s' ! slot_of s1 x)"
        using I(1) x by (simp add: reg_inv_def 4(4))
    qed
    have l': "MessageQueueList_p s' = MessageQueueList_p s1 @ [\<lparr>ml_MessageQueue_p = q, ml_Memory_p = Some mem\<rparr>]"
      and d': "dom (cm_queues s') = insert q (dom (cm_queues s1))" and i': "MessageInitDone s'"
      and m': "Memory_p (MessageArray s' ! i) = Some mem" and n': "length (MessageArray s') = QUEUE_NB_MAX"
      using I(2) len 4(1) by (simp_all add: 4(4))
    have ms: "map (slot_of s') (MessageQueueList_p s') = map (slot_of s1) (MessageQueueList_p s1) @ [i]"
      using slots new by (simp add: l')
    have mq: "map ml_MessageQueue_p (MessageQueueList_p s') = map ml_MessageQueue_p (MessageQueueList_p s1) @ [q]"
      by (simp add: l')
    have mem': "\<forall>x \<in> set (MessageQueueList_p s'). ml_Memory_p x = Memory_p (MessageArray s' ! slot_of s' x)"
      using mem slot new m' by (simp add: l')
    note R = I(1) [unfolded reg_inv_def]
    have dq: "distinct (map ml_MessageQueue_p (MessageQueueList_p s1) @ [q])"
      "set (map ml_MessageQueue_p (MessageQueueList_p s1) @ [q]) = dom (cm_queues s')"
      using R q by (simp_all add: d')
    have ds: "distinct (map (slot_of s1) (MessageQueueList_p s1) @ [i])"
      "set (map (slot_of s1) (MessageQueueList_p s1) @ [i]) = used_slots s'"
      using R free by (simp_all add: used)
    show ?thesis unfolding reg_inv_def ms mq using dq ds mem' n' i' by blast
  qed (use inv I in auto)
qed

lemma unlink_Some:
  assumes "q \<in> set (map ml_MessageQueue_p ns)" "distinct (map ml_MessageQueue_p ns)"
  shows "\<exists>xs n ys. ns = xs @ n # ys \<and> ml_MessageQueue_p n = q \<and> unlink_queue q ns = Some (xs @ ys)"
  using assms
proof (induction ns)
  case (Cons a ns)
  show ?case
  proof (cases "ml_MessageQueue_p a = q")
    case True
    then show ?thesis by (intro exI [of _ "[]"]) auto
  next
    case False
    with Cons obtain xs n ys where "ns = xs @ n # ys" "ml_MessageQueue_p n = q" "unlink_queue q ns = Some (xs @ ys)"
      by auto
    with False show ?thesis by (intro exI [of _ "a # xs"]) auto
  qed
qed simp

lemma delete_reg:
  assumes inv: "reg_inv s" and d: "os_message_delete_queue2 p func s = Some (ms, s')"
  shows "reg_inv s'"
proof (cases "\<not> MessageInitDone s \<or> p = None")
  case True
  then show ?thesis using d inv by (auto simp: os_message_delete_queue2_def split: if_splits)
next
  case False
  then obtain q where p: "p = Some q" by auto
  with d False obtain h where h: "cm_queues s q = Some h"
    by (auto simp: os_message_delete_queue2_def bind_eq_Some_conv)
  have idx: "q_Index h < QUEUE_NB_MAX" by (rule reg_handle [OF inv h])
  define L where "L = MessageQueueList_p s"
  have "q \<in> set (map ml_MessageQueue_p L)"
    using inv h unfolding reg_inv_def L_def by (metis domI)
  moreover have dq: "distinct (map ml_MessageQueue_p L)" using inv by (simp add: reg_inv_def L_def)
  ultimately obtain xs n ys where L: "L = xs @ n # ys" "ml_MessageQueue_p n = q" "unlink_queue q L = Some (xs @ ys)"
    using unlink_Some by blast
  have s': "s' = s\<lparr>MessageArray := (MessageArray s)[q_Index h := empty_elem],
      MessageQueueList_p := xs @ ys, cm_queues := (cm_queues s)(q := None)\<rparr>"
    using d p False h idx L(3) by (auto simp: os_message_delete_queue2_def Let_def L_def)
  have nq: "ml_MessageQueue_p x \<noteq> q" if "x \<in> set (xs @ ys)" for x
    using dq that unfolding L by (auto simp: L(2))
  then have slot: "slot_of s' x = slot_of s x" if "x \<in> set (xs @ ys)" for x
    using that by (simp add: slot_of_def s')
  then have slots: "map (slot_of s') (xs @ ys) = map (slot_of s) (xs @ ys)" by simp
  have sn: "slot_of s n = q_Index h" using L(2) h by (simp add: slot_of_def)
  have ds: "distinct (map (slot_of s) L)" using inv by (simp add: reg_inv_def L_def)
  have ne: "slot_of s x \<noteq> q_Index h" if "x \<in> set (xs @ ys)" for x
    using ds that sn unfolding L by (auto simp: image_iff)
  have len: "length (MessageArray s) = QUEUE_NB_MAX" using inv by (simp add: reg_inv_def)
  have used: "used_slots s' = used_slots s - {q_Index h}"
    using idx len by (auto simp: used_slots_def s' nth_list_update empty_elem_def split: if_splits)
  have su: "set (map (slot_of s) L) = used_slots s" using inv by (simp add: reg_inv_def L_def)
  then have us: "set (map (slot_of s) (xs @ ys)) = used_slots s'"
  proof -
    have "q_Index h \<notin> set (map (slot_of s) (xs @ ys))"
    proof
      assume "q_Index h \<in> set (map (slot_of s) (xs @ ys))"
      then obtain x where "x \<in> set (xs @ ys)" "slot_of s x = q_Index h"
        unfolding set_map by (metis imageE)
      with ne show False by blast
    qed
    moreover have "set (map (slot_of s) L) = insert (q_Index h) (set (map (slot_of s) (xs @ ys)))"
      by (simp add: L(1) sn)
    ultimately show ?thesis using su unfolding used by (metis Diff_insert_absorb)
  qed
  have dm: "set (map ml_MessageQueue_p (xs @ ys)) = dom (cm_queues s')"
    using inv nq L(2) unfolding reg_inv_def s' L_def [symmetric] L(1) by auto
  have l': "MessageQueueList_p s' = xs @ ys" "MessageInitDone s'" "length (MessageArray s') = QUEUE_NB_MAX"
    using len False by (simp_all add: s')
  have mem: "\<forall>x \<in> set (xs @ ys). ml_Memory_p x = Memory_p (MessageArray s' ! slot_of s' x)"
  proof
    fix x assume x: "x \<in> set (xs @ ys)"
    have "q_Index h \<noteq> slot_of s x" using ne [OF x] by simp
    moreover have "\<forall>x \<in> set L. ml_Memory_p x = Memory_p (MessageArray s ! slot_of s x)"
      using inv by (simp add: reg_inv_def L_def)
    then have "ml_Memory_p x = Memory_p (MessageArray s ! slot_of s x)"
      using x by (simp add: L(1))
    ultimately show "ml_Memory_p x = Memory_p (MessageArray s' ! slot_of s' x)"
      using slot [OF x] by (simp add: s')
  qed
  have "distinct (map ml_MessageQueue_p (xs @ ys))" "distinct (map (slot_of s) (xs @ ys))"
    using dq ds by (simp_all add: L(1))
  then show ?thesis
    unfolding reg_inv_def l'(1) slots using us dm mem l'(2,3) by blast
qed

lemma cm_step_reg: "reg_inv s \<Longrightarrow> cm_step s s' \<Longrightarrow> reg_inv s'"
  by (erule cm_step.cases)
     (auto intro: create_reg delete_reg same_registry_inv send_same receive_same claim_same release_same)

interpretation cm: invariant_system cm_init cm_step reg_inv
  by unfold_locales (use cm_init_reg cm_step_reg in blast)+

lemma reg_card:
  assumes "reg_inv s"
  shows "card (used_slots s) = card (dom (cm_queues s))"
proof -
  note R = assms [unfolded reg_inv_def]
  have "card (set (map (slot_of s) (MessageQueueList_p s))) = length (MessageQueueList_p s)"
    "card (set (map ml_MessageQueue_p (MessageQueueList_p s))) = length (MessageQueueList_p s)"
    using R distinct_card [of "map (slot_of s) (MessageQueueList_p s)"]
      distinct_card [of "map ml_MessageQueue_p (MessageQueueList_p s)"] by simp_all
  moreover have "set (map (slot_of s) (MessageQueueList_p s)) = used_slots s"
    "set (map ml_MessageQueue_p (MessageQueueList_p s)) = dom (cm_queues s)" using R by blast+
  ultimately show ?thesis by (simp only:)
qed



section \<open>Sending and receiving\<close>

definition cm_ready :: "addr \<Rightarrow> ctos_msg \<Rightarrow> bool" where
  "cm_ready q s \<longleftrightarrow> (case cm_queues s q of None \<Rightarrow> False
     | Some h \<Rightarrow> q_Index h < QUEUE_NB_MAX \<and> q_Index h < length (MessageArray s)
         \<and> (case MsgSemaphore_p h of None \<Rightarrow> False
            | Some v \<Rightarrow> sem_value v = length (Pending_p (MessageArray s ! q_Index h))))"

definition cm_pending :: "addr \<Rightarrow> ctos_msg \<Rightarrow> u64 list" where
  "cm_pending q s = (case cm_queues s q of None \<Rightarrow> [] | Some h \<Rightarrow> Pending_p (MessageArray s ! q_Index h))"

definition cm_can :: "addr \<Rightarrow> nat \<Rightarrow> ctos_msg \<Rightarrow> bool" where
  "cm_can q n s \<longleftrightarrow> length (cm_pending q s) + n \<le> SEM_VALUE_MAX"

definition cm_put :: "addr \<Rightarrow> u64 \<Rightarrow> ctos_msg \<Rightarrow> ctos_msg option" where
  "cm_put q m s = os_message_send True (Some q) (Some m) s"

definition cm_get :: "addr \<Rightarrow> ctos_msg \<Rightarrow> (u64 ptr \<times> ctos_msg) option" where
  "cm_get q s = (case os_message_receive_timeout [] True (Some q) G_TIMEOUT_IMMEDIATE s of
     None \<Rightarrow> None | Some Blocked \<Rightarrow> None | Some (Returned r) \<Rightarrow> Some r)"

lemma cm_readyE:
  assumes "cm_ready q s"
  obtains h v where "cm_queues s q = Some h" "q_Index h < QUEUE_NB_MAX" "q_Index h < length (MessageArray s)"
    "MsgSemaphore_p h = Some v" "sem_value v = length (Pending_p (MessageArray s ! q_Index h))"
    "cm_pending q s = Pending_p (MessageArray s ! q_Index h)"
  using assms by (auto simp: cm_ready_def cm_pending_def split: option.splits)

lemma cm_put_law:
  assumes "cm_ready q s" "cm_can q (Suc n) s"
  shows "\<exists>s'. cm_put q m s = Some s' \<and> cm_ready q s' \<and> cm_can q n s' \<and> cm_pending q s' = cm_pending q s @ [m]"
proof -
  from assms(1) obtain h v where r: "cm_queues s q = Some h" "q_Index h < QUEUE_NB_MAX"
    "q_Index h < length (MessageArray s)" "MsgSemaphore_p h = Some v"
    "sem_value v = length (Pending_p (MessageArray s ! q_Index h))"
    "cm_pending q s = Pending_p (MessageArray s ! q_Index h)" by (rule cm_readyE)
  moreover have "sem_value v < SEM_VALUE_MAX" using assms(2) r by (simp add: cm_can_def)
  ultimately show ?thesis using assms(2)
    by (simp add: cm_put_def os_message_send_def Let_def cm_ready_def cm_pending_def cm_can_def
        os_semaphore_signal_def set_queue_def set_elem_def)
qed

lemma cm_get_law:
  assumes "cm_ready q s" "cm_can q n s" "cm_pending q s = m # ms"
  shows "\<exists>s'. cm_get q s = Some (Some m, s') \<and> cm_ready q s' \<and> cm_can q n s' \<and> cm_pending q s' = ms"
  using assms(1)
proof (rule cm_readyE)
  fix h v assume "cm_queues s q = Some h" "q_Index h < QUEUE_NB_MAX" "q_Index h < length (MessageArray s)"
    "MsgSemaphore_p h = Some v" "sem_value v = length (Pending_p (MessageArray s ! q_Index h))"
    "cm_pending q s = Pending_p (MessageArray s ! q_Index h)"
  with assms(2,3) show ?thesis
    by (simp add: cm_get_def os_message_receive_timeout_def os_semaphore_wait_timeout_def Let_def cm_ready_def
        cm_pending_def cm_can_def set_queue_def set_elem_def)
qed

lemma cm_get_empty:
  assumes "cm_ready q s" "cm_can q n s" "cm_pending q s = []"
  shows "\<exists>s'. cm_get q s = Some (None, s') \<and> cm_ready q s' \<and> cm_can q n s' \<and> cm_pending q s' = []"
  using assms(1)
proof (rule cm_readyE)
  fix h v assume "cm_queues s q = Some h" "q_Index h < QUEUE_NB_MAX" "q_Index h < length (MessageArray s)"
    "MsgSemaphore_p h = Some v" "sem_value v = length (Pending_p (MessageArray s ! q_Index h))"
    "cm_pending q s = Pending_p (MessageArray s ! q_Index h)"
  with assms(2,3) show ?thesis
    by (simp add: cm_get_def os_message_receive_timeout_def os_semaphore_wait_timeout_def Let_def cm_ready_def
        cm_pending_def cm_can_def set_queue_def)
qed

interpretation cmf: fifo "cm_ready q" "cm_pending q" "cm_can q" "\<lambda>m. True" "cm_put q" "cm_get q"
  by unfold_locales (use cm_put_law cm_get_law cm_get_empty in blast)+


section \<open>Claiming and releasing\<close>

text \<open>
  The buffers of a queue, where its bookkeeping is consistent: base address, element size and usage
  flags, with the claim semaphore counting the unused ones.
\<close>

definition cm_pool :: "addr \<Rightarrow> ctos_msg \<Rightarrow> (u64 \<times> u64 \<times> bool list) option" where
  "cm_pool q s = do {
     h \<leftarrow> cm_queues s q;
     let e = MessageArray s ! q_Index h;
     us \<leftarrow> Used_p e;
     mem \<leftarrow> Memory_p e;
     v \<leftarrow> ClaimSemaphore_p h;
     if q_Index h < QUEUE_NB_MAX \<and> q_Index h < length (MessageArray s) \<and> length us = unat (NoElements e)
        \<and> length us \<le> SEM_VALUE_MAX \<and> sem_value v = length (filter Not us)
     then Some (mem, ElementSize e, us) else None }"

lemma cm_poolE:
  assumes "cm_pool q s = Some (mem, es, us)"
  obtains h v e where "cm_queues s q = Some h" "e = MessageArray s ! q_Index h" "Used_p e = Some us"
    "Memory_p e = Some mem" "ClaimSemaphore_p h = Some v" "q_Index h < QUEUE_NB_MAX"
    "q_Index h < length (MessageArray s)" "length us = unat (NoElements e)" "length us \<le> SEM_VALUE_MAX"
    "sem_value v = length (filter Not us)" "ElementSize e = es"
  using assms by (auto simp: cm_pool_def Let_def bind_eq_Some_conv split: if_splits)

lemma filter_Not_update:
  assumes "i < length us"
  shows "\<not> us ! i \<Longrightarrow> Suc (length (filter Not (us[i := True]))) = length (filter Not us)"
    "us ! i \<Longrightarrow> length (filter Not (us[i := False])) = Suc (length (filter Not us))"
proof -
  have u: "us = take i us @ us ! i # drop (Suc i) us" using assms by (rule id_take_nth_drop)
  have "length (filter Not us) = length (filter Not (take i us @ us ! i # drop (Suc i) us))"
    using u by simp
  then show "\<not> us ! i \<Longrightarrow> Suc (length (filter Not (us[i := True]))) = length (filter Not us)"
    "us ! i \<Longrightarrow> length (filter Not (us[i := False])) = Suc (length (filter Not us))"
    using assms by (simp_all add: upd_conv_take_nth_drop)
qed

text \<open>The first unused buffer.\<close>

definition first_unused :: "bool list \<Rightarrow> nat ptr" where
  "first_unused us = (let i = length (takeWhile id us) in if i < length us then Some i else None)"

lemma scan_used_eq:
  "k \<le> length us \<Longrightarrow> scan_used [k..<length us] us
     = Some (map_option (\<lambda>i. i + k) (first_unused (drop k us)))"
proof (induction "length us - k" arbitrary: k)
  case 0
  then show ?case by (simp add: first_unused_def)
next
  case (Suc n)
  then have k: "k < length us" by simp
  then have u: "[k..<length us] = k # [Suc k..<length us]" by (rule upt_conv_Cons)
  have d: "drop k us = us ! k # drop (Suc k) us" using k by (simp add: Cons_nth_drop_Suc)
  show ?case
  proof (cases "us ! k")
    case False
    then show ?thesis using k by (simp add: u d first_unused_def)
  next
    case True
    have "scan_used [Suc k..<length us] us = Some (map_option (\<lambda>i. i + Suc k) (first_unused (drop (Suc k) us)))"
      using Suc.hyps(2) k by (intro Suc.hyps(1)) auto
    then show ?thesis using True k by (simp add: u d first_unused_def Let_def)
  qed
qed

lemma first_unused_iff:
  "first_unused us = Some i \<Longrightarrow> i < length us \<and> \<not> us ! i"
  using nth_length_takeWhile [of id us] by (auto simp: first_unused_def Let_def split: if_splits)

lemma first_unused_None: "first_unused us = None \<longleftrightarrow> filter Not us = []"
proof -
  have "filter Not us = [] \<longleftrightarrow> takeWhile id us = us"
    by (auto simp: filter_empty_conv takeWhile_eq_all_conv)
  also have "\<dots> \<longleftrightarrow> \<not> length (takeWhile id us) < length us"
  proof
    assume "takeWhile id us = us"
    then show "\<not> length (takeWhile id us) < length us" by (metis less_irrefl)
  next
    assume "\<not> length (takeWhile id us) < length us"
    then have "take (length (takeWhile id us)) us = us" by simp
    then show "takeWhile id us = us" using takeWhile_eq_take [of id us] by (simp only:)
  qed
  finally show ?thesis by (auto simp: first_unused_def Let_def)
qed

lemma claim_take:
  assumes p: "cm_pool q s = Some (mem, es, us)" and i: "first_unused us = Some i"
  shows "\<exists>s'. os_message_claim_timeout [] (Some q) G_TIMEOUT_IMMEDIATE s
      = Some (Returned (Some (mem + of_nat i * es), s')) \<and> cm_pool q s' = Some (mem, es, us[i := True])"
  using p
proof (rule cm_poolE)
  fix h v e assume h: "cm_queues s q = Some h" "e = MessageArray s ! q_Index h" "Used_p e = Some us"
    "Memory_p e = Some mem" "ClaimSemaphore_p h = Some v" "q_Index h < QUEUE_NB_MAX"
    "q_Index h < length (MessageArray s)" "length us = unat (NoElements e)" "length us \<le> SEM_VALUE_MAX"
    "sem_value v = length (filter Not us)" "ElementSize e = es"
  note u = first_unused_iff [OF i]
  have sc: "scan_used [0..<unat (NoElements e)] us = Some (Some i)"
    using scan_used_eq [of 0 us] i h(8) by simp
  have f: "Suc (length (filter Not (us[i := True]))) = length (filter Not us)"
    using u by (intro filter_Not_update(1)) simp_all
  have n: "NoElements e \<noteq> 0" using u h(8) by auto
  define s1 where "s1 = set_queue q (h\<lparr>ClaimSemaphore_p := Some (v\<lparr>sem_value := sem_value v - 1\<rparr>)\<rparr>) s"
  define s' where "s' = set_elem (q_Index h) (e\<lparr>Used_p := Some (us[i := True])\<rparr>) s1"
  have w: "os_semaphore_wait_timeout [] (ClaimSemaphore_p h) G_TIMEOUT_IMMEDIATE
      = Returned (0, Some (v\<lparr>sem_value := sem_value v - 1\<rparr>))"
    using h(5,10) f by (auto simp: os_semaphore_wait_timeout_def)
  have "os_message_claim_timeout [] (Some q) G_TIMEOUT_IMMEDIATE s = Some (Returned (Some (mem + of_nat i * es), s'))"
    using h sc n w by (simp add: os_message_claim_timeout_def Let_def s1_def s'_def)
  moreover have "cm_pool q s' = Some (mem, es, us[i := True])"
    using h f by (simp add: cm_pool_def s'_def s1_def set_elem_def set_queue_def Let_def)
  ultimately show ?thesis by blast
qed

lemma claim_none:
  assumes p: "cm_pool q s = Some (mem, es, us)" and i: "first_unused us = None"
  shows "\<exists>s'. os_message_claim_timeout [] (Some q) G_TIMEOUT_IMMEDIATE s = Some (Returned (None, s'))
      \<and> cm_pool q s' = Some (mem, es, us)"
    "os_message_claim [] (Some q) s = Some Blocked"
proof -
  have f: "filter Not us = []" using i by (simp add: first_unused_None)
  show "\<exists>s'. os_message_claim_timeout [] (Some q) G_TIMEOUT_IMMEDIATE s = Some (Returned (None, s'))
      \<and> cm_pool q s' = Some (mem, es, us)"
    using p
  proof (rule cm_poolE)
    fix h v e assume "cm_queues s q = Some h" "e = MessageArray s ! q_Index h" "Used_p e = Some us"
      "Memory_p e = Some mem" "ClaimSemaphore_p h = Some v" "q_Index h < QUEUE_NB_MAX"
      "q_Index h < length (MessageArray s)" "length us = unat (NoElements e)" "length us \<le> SEM_VALUE_MAX"
      "sem_value v = length (filter Not us)" "ElementSize e = es"
    with f show ?thesis
      by (simp add: os_message_claim_timeout_def Let_def os_semaphore_wait_timeout_def cm_pool_def set_queue_def)
  qed
  show "os_message_claim [] (Some q) s = Some Blocked"
    using p
  proof (rule cm_poolE)
    fix h v e assume "cm_queues s q = Some h" "e = MessageArray s ! q_Index h" "Used_p e = Some us"
      "ClaimSemaphore_p h = Some v" "q_Index h < QUEUE_NB_MAX" "sem_value v = length (filter Not us)"
    with f show ?thesis
      by (simp add: os_message_claim_def os_message_claim_timeout_def Let_def os_semaphore_wait_timeout_def
          os_semaphore_wait_def)
  qed
qed

text \<open>The address of buffer \<open>i\<close> as the release sees it, in 32 bits.\<close>

lemma low32_nat: "unat (low32 x) = unat x mod 2 ^ 32"
  by (simp add: low32_def unsigned_ucast_eq take_bit_eq_mod)

lemma release_address:
  fixes mem es :: u64 and n :: nat
  assumes i: "i < n" and b: "unat mem + unat es * n \<le> 2 ^ 64" and sz: "unat es * n < 2 ^ 32" and es: "es \<noteq> 0"
  defines "m \<equiv> mem + of_nat i * es"
  shows "unat m = unat mem + i * unat es"
    and "unat mem mod 2 ^ 32 + i * unat es < 2 ^ 32 \<Longrightarrow>
      low32 mem \<le> low32 m \<and> unat (low32 m - low32 mem) = i * unat es"
    and "\<not> unat mem mod 2 ^ 32 + i * unat es < 2 ^ 32 \<Longrightarrow> \<not> low32 mem \<le> low32 m"
proof -
  have e0: "0 < unat es" using es by (simp add: unat_gt_0)
  have lt: "i * unat es < unat es * n" using i e0 by (simp add: mult.commute)
  then have le: "i * unat es < 2 ^ 32" using sz by (rule less_trans)
  have "i \<le> i * unat es" using e0 by simp
  also note le
  finally have i64: "i < 2 ^ 64" by simp
  have "unat (of_nat i * es) = i * unat es"
  proof -
    have "unat (of_nat i :: u64) = i" using i64 by (simp add: unsigned_of_nat take_bit_nat_eq_self)
    then show ?thesis using le by (simp add: unat_word_ariths)
  qed
  moreover have "unat mem + i * unat es < 2 ^ 64"
    using add_strict_left_mono [OF lt, of "unat mem"] b by (rule less_le_trans)
  ultimately show m: "unat m = unat mem + i * unat es" by (simp add: m_def unat_word_ariths)
  define B where "B = unat mem mod 2 ^ 32"
  have B: "B < 2 ^ 32" by (simp add: B_def)
  have lb: "unat (low32 mem) = B" by (simp add: low32_nat B_def)
  have lm: "unat (low32 m) = (B + i * unat es) mod 2 ^ 32"
    by (simp add: low32_nat m B_def mod_add_left_eq)
  show "low32 mem \<le> low32 m \<and> unat (low32 m - low32 mem) = i * unat es"
    if "unat mem mod 2 ^ 32 + i * unat es < 2 ^ 32"
  proof -
    have lm': "unat (low32 m) = B + i * unat es" using that lm by (simp add: B_def)
    then have "low32 mem \<le> low32 m" by (simp add: word_le_nat_alt lb)
    then show ?thesis using lm' lb by (simp add: unat_diff_le)
  qed
  show "\<not> low32 mem \<le> low32 m" if "\<not> unat mem mod 2 ^ 32 + i * unat es < 2 ^ 32"
  proof -
    have "(B + i * unat es) mod 2 ^ 32 = B + i * unat es - 2 ^ 32"
      using that B le by (intro mod_nat_eqI) (auto simp: B_def)
    then have "unat (low32 m) = B + i * unat es - 2 ^ 32" using lm by (simp only:)
    moreover have "2 ^ 32 \<le> B + i * unat es" using that by (simp add: B_def not_less)
    ultimately have "unat (low32 m) < B" using le by linarith
    then show ?thesis using lb by (simp add: word_le_nat_alt)
  qed
qed


lemma release_claimed:
  assumes p: "cm_pool q s = Some (mem, es, us)" and i: "i < length us" "us ! i"
    and b: "unat mem + unat es * length us \<le> 2 ^ 64" "unat es * length us < 2 ^ 32" "es \<noteq> 0"
  shows "\<exists>s'. os_message_release True (Some q) (Some (mem + of_nat i * es)) s = Some s'
    \<and> cm_pool q s' = Some (mem, es, if unat mem mod 2 ^ 32 + i * unat es < 2 ^ 32 then us[i := False] else us)"
  using p
proof (rule cm_poolE)
  fix h v e assume h: "cm_queues s q = Some h" "e = MessageArray s ! q_Index h" "Used_p e = Some us"
    "Memory_p e = Some mem" "ClaimSemaphore_p h = Some v" "q_Index h < QUEUE_NB_MAX"
    "q_Index h < length (MessageArray s)" "length us = unat (NoElements e)" "length us \<le> SEM_VALUE_MAX"
    "sem_value v = length (filter Not us)" "ElementSize e = es"
  define m where "m = mem + of_nat i * es"
  note A = release_address [OF i(1) b, folded m_def]
  show ?thesis
  proof (cases "unat mem mod 2 ^ 32 + i * unat es < 2 ^ 32")
    case False
    then have "\<not> low32 mem \<le> low32 m" by (rule A(3))
    then have "os_message_release True (Some q) (Some m) s = Some s"
      using h by (simp add: os_message_release_def Let_def)
    then show ?thesis using p False unfolding m_def by auto
  next
    case True
    from A(2) [OF True] have c: "low32 mem \<le> low32 m" "unat (low32 m - low32 mem) = i * unat es" by auto
    have e0: "0 < unat es" using b(3) by (simp add: unat_gt_0)
    have "unat es * 1 \<le> unat es * length us" using i(1) by (intro mult_le_mono2) simp
    then have "unat es < 2 ^ 32" using b(2) by linarith
    then have le: "unat (low32 es) = unat es" by (simp add: low32_nat)
    then have l0: "low32 es \<noteq> 0" using e0 by (metis unat_0 less_irrefl)
    have ix: "unat ((low32 m - low32 mem) div low32 es) = i"
      using c(2) le e0 by (simp add: unat_div)
    have bound: "ucast (low32 m) < ucast (low32 mem) + es * ucast (NoElements e)"
    proof -
      have u: "unat (ucast (x :: u32) :: u64) = unat x" for x
        using u32_bound [of x] by (simp add: unsigned_ucast_eq take_bit_nat_eq_self)
      have bl: "unat (low32 mem) \<le> unat mem" by (simp add: low32_nat)
      have "unat es * length us < 2 ^ 64" using b(2) by simp
      then have t: "unat (es * ucast (NoElements e)) = unat es * length us"
        using h(8) by (simp add: unat_word_ariths u)
      have "unat (low32 mem) < 2 ^ 32" by (simp add: low32_nat)
      then have "unat (low32 mem) + unat es * length us < 2 ^ 64" using b(2) by simp
      then have r: "unat (ucast (low32 mem) + es * ucast (NoElements e)) = unat (low32 mem) + unat es * length us"
        by (simp add: unat_add_lt t u)
      have "unat (low32 m) = unat (low32 mem) + i * unat es"
        using c by (simp add: unat_diff_le word_le_nat_alt)
      moreover have "i * unat es < unat es * length us" using i(1) e0 by (simp add: mult.commute)
      ultimately show ?thesis by (simp add: word_less_nat_alt r u)
    qed
    have f: "length (filter Not (us[i := False])) = Suc (length (filter Not us))"
      using i by (intro filter_Not_update(2)) simp_all
    moreover have "length (filter Not (us[i := False])) \<le> length us"
      using length_filter_le [of Not "us[i := False]"] by simp
    ultimately have v: "sem_value v < SEM_VALUE_MAX" using h(9,10) by simp
    define s' where "s' = set_queue q (h\<lparr>ClaimSemaphore_p := Some (v\<lparr>sem_value := sem_value v + 1\<rparr>)\<rparr>)
        (set_elem (q_Index h) (e\<lparr>Used_p := Some (us[i := False])\<rparr>) s)"
    have "os_message_release True (Some q) (Some m) s = Some s'"
      using h c(1) bound l0 ix i(1) v
      by (simp add: os_message_release_def Let_def s'_def os_semaphore_signal_def)
    moreover have "cm_pool q s' = Some (mem, es, us[i := False])"
      using h f by (simp add: cm_pool_def s'_def set_elem_def set_queue_def Let_def)
    ultimately show ?thesis using True unfolding m_def by auto
  qed
qed

text \<open>
  C24: Claiming a buffer hands out the first unused one at its place in the memory block, marks it and
  lowers the claim semaphore with it; with none unused a polling claim returns NULL and a waiting one
  blocks.  Releasing a claimed buffer makes exactly that buffer unused again, provided the block does
  not cross a 4 GiB boundary below the buffer: the code compares the pointers cut to 32 bits, and for
  a buffer behind such a boundary the release is silently ignored, so that the buffer is lost.
\<close>

theorem os_message_claim_release:
  assumes p: "cm_pool q s = Some (mem, es, us)"
  shows "(case first_unused us of
      Some i \<Rightarrow> \<exists>s'. os_message_claim_timeout [] (Some q) G_TIMEOUT_IMMEDIATE s
          = Some (Returned (Some (mem + of_nat i * es), s')) \<and> cm_pool q s' = Some (mem, es, us[i := True])
    | None \<Rightarrow> (\<exists>s'. os_message_claim_timeout [] (Some q) G_TIMEOUT_IMMEDIATE s = Some (Returned (None, s'))
          \<and> cm_pool q s' = Some (mem, es, us)) \<and> os_message_claim [] (Some q) s = Some Blocked)
    \<and> (\<forall>i < length us. us ! i \<and> unat mem + unat es * length us \<le> 2 ^ 64 \<and> unat es * length us < 2 ^ 32
          \<and> es \<noteq> 0 \<longrightarrow>
        (\<exists>s'. os_message_release True (Some q) (Some (mem + of_nat i * es)) s = Some s'
          \<and> cm_pool q s' = Some (mem, es,
              if unat mem mod 2 ^ 32 + i * unat es < 2 ^ 32 then us[i := False] else us)))"
  using claim_take [OF p] claim_none [OF p] release_claimed [OF p] by (auto split: option.split)

definition cm0 :: ctos_msg where
  "cm0 = \<lparr>MessageArray = replicate QUEUE_NB_MAX empty_elem, MessageInitDone = False,
          MessageQueueList_p = [], cm_queues = Map.empty\<rparr>"

definition cm_env0 :: cm_env where
  "cm_env0 = \<lparr>ce_node = True, ce_handle = Some 7, ce_memory = (\<lambda>n. Some 0xFFFFFFF0), ce_used = True,
              ce_msg_sem = True, ce_claim_sem = True\<rparr>"

definition cm1 :: ctos_msg where
  "cm1 = snd (os_message_create_queue cm_env0 16 2 cm0)"

lemma cm0_reach: "reachable cm_init cm_step cm0"
  by (rule reach_init) (simp add: cm_init_def cm0_def)

lemma find_slot_empty: "find_slot 0 (replicate QUEUE_NB_MAX empty_elem) = 0"
  by (simp add: find_slot_first empty_elem_def)

lemma cm0_create: "os_message_create_queue_timeout cm_env0 16 2 cm0 = (Some 7, cm1)"
  by (simp add: cm1_def os_message_create_queue_def os_message_create_queue_timeout_def Init_Msg_Queues_def
      cm_env0_def cm0_def find_slot_empty Let_def) (simp add: QUEUE_NB_MAX_def)

lemma cm1_reach: "reachable cm_init cm_step cm1"
  by (rule reach_step [OF cm0_reach cm_create [OF cm0_create]]) (simp add: cm0_def)

lemma cm1_eq:
  "cm_queues cm1 7 = Some \<lparr>MsgSemaphore_p = Some \<lparr>sem_value = 0, sem_flag = 1\<rparr>,
      ClaimSemaphore_p = Some \<lparr>sem_value = 2, sem_flag = 1\<rparr>, q_Index = 0\<rparr>"
  "MessageArray cm1 ! 0 = \<lparr>Memory_p = Some 0xFFFFFFF0, Used_p = Some (replicate 2 False), Pending_p = [],
      ElementSize = 16, NoElements = 2\<rparr>"
  "length (MessageArray cm1) = QUEUE_NB_MAX" "dom (cm_queues cm1) = {7}"
proof -
  have z: "(0 :: nat) < QUEUE_NB_MAX" by (simp add: QUEUE_NB_MAX_def)
  have e: "cm1 = cm0\<lparr>MessageInitDone := True, MessageArray := (replicate QUEUE_NB_MAX empty_elem)[0 :=
          \<lparr>Memory_p = Some 0xFFFFFFF0, Used_p = Some (replicate 2 False), Pending_p = [],
            ElementSize = 16, NoElements = 2\<rparr>],
      MessageQueueList_p := [\<lparr>ml_MessageQueue_p = 7, ml_Memory_p = Some 0xFFFFFFF0\<rparr>],
      cm_queues := [7 \<mapsto> \<lparr>MsgSemaphore_p = Some \<lparr>sem_value = 0, sem_flag = 1\<rparr>,
        ClaimSemaphore_p = Some \<lparr>sem_value = 2, sem_flag = 1\<rparr>, q_Index = 0\<rparr>]\<rparr>"
    using z by (simp add: cm1_def os_message_create_queue_def os_message_create_queue_timeout_def
        Init_Msg_Queues_def cm_env0_def cm0_def find_slot_empty Let_def os_semaphore_create_def
        sem_init_value_def SEM_VALUE_MAX_def)
  show "cm_queues cm1 7 = Some \<lparr>MsgSemaphore_p = Some \<lparr>sem_value = 0, sem_flag = 1\<rparr>,
      ClaimSemaphore_p = Some \<lparr>sem_value = 2, sem_flag = 1\<rparr>, q_Index = 0\<rparr>"
    "MessageArray cm1 ! 0 = \<lparr>Memory_p = Some 0xFFFFFFF0, Used_p = Some (replicate 2 False), Pending_p = [],
      ElementSize = 16, NoElements = 2\<rparr>"
    "length (MessageArray cm1) = QUEUE_NB_MAX" "dom (cm_queues cm1) = {7}" using z by (simp_all add: e)
qed

lemma cm1_ready: "cm_ready 7 cm1" "cm_pending 7 cm1 = []"
  by (simp_all add: cm_ready_def cm_pending_def cm1_eq QUEUE_NB_MAX_def)

lemma cm1_pool: "cm_pool 7 cm1 = Some (0xFFFFFFF0, 16, replicate 2 False)"
  by (simp add: cm_pool_def cm1_eq QUEUE_NB_MAX_def SEM_VALUE_MAX_def)



lemma os_message_claim_release_witness:
  "\<exists>s'. os_message_claim_timeout [] (Some 7) G_TIMEOUT_IMMEDIATE cm1 = Some (Returned (Some 0xFFFFFFF0, s'))
     \<and> cm_pool 7 s' = Some (0xFFFFFFF0, 16, (replicate 2 False)[0 := True])"
proof -
  have "first_unused (replicate 2 False) = Some 0" by (simp add: first_unused_def)
  with os_message_claim_release [OF cm1_pool] show ?thesis by simp
qed

end
