(* ===== verification/Module_Manager.thy ===== *)
theory Module_Manager
  imports Msg_Queue
begin

text \<open>
  \<^verbatim>\<open>common/module_manager.c\<close>: modules registered with a framework, their message handlers, and the
  main loop that dispatches messages.  The list of modules is a list, newest first, as the code
  links it; a handler table is a list, its count is the length.  Functions are addresses, and what
  calling one does is a parameter: it may clear the running flag and change the rest of the world
  (of type \<open>'w\<close>), but handlers do not register modules or handlers while they are being dispatched.
\<close>

section \<open>Data\<close>

datatype MsgCopyType = MSG_COPY_SHALLOW | MSG_COPY_DEEP

record T_ModuleMsg =
  mm_sender :: u32
  mm_receiver :: u32
  mm_type :: u32
  mm_timestamp :: u32
  mm_call_id :: u32
  mm_data_len :: u64
  mm_data :: "addr ptr"
  mm_copy_type :: MsgCopyType

record message_handler_entry =
  he_msg_type :: u32
  he_handler :: "addr ptr"
  he_enabled :: bool

record fmodule =
  md_id :: u32
  md_init :: "addr ptr"
  md_run :: "addr ptr"
  md_destroy :: "addr ptr"
  md_handlers :: "message_handler_entry list"

record framework_context =
  fc_modules :: "fmodule list"
  fc_module_count :: u32
  fc_msg_queue :: "msgq ptr"
  fc_is_running :: bool
  fc_next_module_id :: u32

section \<open>Creation, registration, lookup\<close>

definition create_module_instance ::
    "bool \<Rightarrow> u32 \<Rightarrow> addr ptr \<Rightarrow> addr ptr \<Rightarrow> addr ptr \<Rightarrow> fmodule ptr" where
  "create_module_instance malloc_ok i init run destroy =
     (if \<not> malloc_ok then None
      else Some \<lparr>md_id = i, md_init = init, md_run = run, md_destroy = destroy, md_handlers = []\<rparr>)"

fun find_module :: "fmodule list \<Rightarrow> u32 \<Rightarrow> fmodule ptr" where
  "find_module [] i = None"
| "find_module (m # ms) i = (if md_id m = i then Some m else find_module ms i)"

definition get_module_by_id :: "framework_context ptr \<Rightarrow> u32 \<Rightarrow> fmodule ptr" where
  "get_module_by_id p i =
     (case p of None \<Rightarrow> None | Some c \<Rightarrow> if i = 0 then None else find_module (fc_modules c) i)"

text \<open>\<open>queue\<close> is the result of \<^verbatim>\<open>msg_queue_create\<close>.\<close>

definition framework_create :: "bool \<Rightarrow> (u32 \<Rightarrow> msgq ptr) \<Rightarrow> u32 \<Rightarrow> framework_context ptr" where
  "framework_create malloc_ok queue max_msg_count =
     (if \<not> malloc_ok then None
      else case queue max_msg_count of None \<Rightarrow> None
           | Some q \<Rightarrow> Some \<lparr>fc_modules = [], fc_module_count = 0, fc_msg_queue = Some q,
                            fc_is_running = False, fc_next_module_id = 1\<rparr>)"

text \<open>The initialiser may register handlers on the new module; it reports success or failure.\<close>

definition framework_register_module ::
    "bool \<Rightarrow> (addr \<Rightarrow> fmodule \<Rightarrow> bool \<times> fmodule) \<Rightarrow> framework_context ptr \<Rightarrow> addr ptr \<Rightarrow> addr ptr \<Rightarrow> addr ptr
     \<Rightarrow> u32 \<times> framework_context ptr" where
  "framework_register_module malloc_ok call_init p init run destroy =
     (case (p, init) of
        (Some c, Some f) \<Rightarrow>
          if run = None \<or> destroy = None then (0, p)
          else (case create_module_instance malloc_ok (fc_next_module_id c) init run destroy of
              None \<Rightarrow> (0, p)
            | Some m \<Rightarrow>
                (let (ok, m) = call_init f m in
                 if \<not> ok then (0, p)
                 else (fc_next_module_id c,
                   Some (c\<lparr>fc_modules := m # fc_modules c, fc_module_count := fc_module_count c + 1,
                           fc_next_module_id := fc_next_module_id c + 1\<rparr>))))
      | _ \<Rightarrow> (0, p))"

definition framework_get_module_count :: "framework_context ptr \<Rightarrow> u32" where
  "framework_get_module_count p = (case p of None \<Rightarrow> 0 | Some c \<Rightarrow> fc_module_count c)"

definition framework_module_exists :: "framework_context ptr \<Rightarrow> u32 \<Rightarrow> bool" where
  "framework_module_exists p i = (case p of None \<Rightarrow> False | Some c \<Rightarrow> get_module_by_id p i \<noteq> None)"

definition framework_init_all_modules :: "framework_context ptr \<Rightarrow> bool" where
  "framework_init_all_modules p = (case p of None \<Rightarrow> False | Some c \<Rightarrow> True)"

definition framework_stop_main_loop :: "framework_context ptr \<Rightarrow> framework_context ptr" where
  "framework_stop_main_loop p = map_option (\<lambda>c. c\<lparr>fc_is_running := False\<rparr>) p"

section \<open>Handlers\<close>

text \<open>The search loops of the three functions, from entry \<open>i\<close> on.\<close>

fun handler_index :: "u32 \<Rightarrow> message_handler_entry list \<Rightarrow> nat ptr" where
  "handler_index t [] = None"
| "handler_index t (e # es) = (if he_msg_type e = t then Some 0 else map_option Suc (handler_index t es))"

definition module_register_handler :: "bool \<Rightarrow> fmodule ptr \<Rightarrow> u32 \<Rightarrow> addr ptr \<Rightarrow> bool \<times> fmodule ptr" where
  "module_register_handler realloc_ok p t handler =
     (case (p, handler) of
        (Some m, Some f) \<Rightarrow>
          (case handler_index t (md_handlers m) of
             Some i \<Rightarrow> (True, Some (m\<lparr>md_handlers := (md_handlers m)[i :=
                          (md_handlers m ! i)\<lparr>he_handler := handler, he_enabled := True\<rparr>]\<rparr>))
           | None \<Rightarrow>
               if \<not> realloc_ok then (False, p)
               else (True, Some (m\<lparr>md_handlers := md_handlers m @
                      [\<lparr>he_msg_type = t, he_handler = handler, he_enabled = True\<rparr>]\<rparr>)))
      | _ \<Rightarrow> (False, p))"

definition module_enable_handler :: "fmodule ptr \<Rightarrow> u32 \<Rightarrow> bool \<Rightarrow> E_StateCode \<times> fmodule ptr" where
  "module_enable_handler p t enable =
     (case p of None \<Rightarrow> (STATE_CODE_INVALID_HANDLE, None)
      | Some m \<Rightarrow>
        (case handler_index t (md_handlers m) of
           Some i \<Rightarrow> (STATE_CODE_NO_ERROR,
             Some (m\<lparr>md_handlers := (md_handlers m)[i := (md_handlers m ! i)\<lparr>he_enabled := enable\<rparr>]\<rparr>))
         | None \<Rightarrow> (STATE_CODE_INVALID_PARAM, p)))"

definition module_is_handler_enabled :: "fmodule ptr \<Rightarrow> u32 \<Rightarrow> bool" where
  "module_is_handler_enabled p t =
     (case p of None \<Rightarrow> False
      | Some m \<Rightarrow> (case handler_index t (md_handlers m) of None \<Rightarrow> False
                  | Some i \<Rightarrow> he_enabled (md_handlers m ! i)))"

section \<open>Dispatch\<close>

text \<open>
  \<open>call h i msg\<close> is the effect of calling handler \<open>h\<close> for module \<open>i\<close> on the running flag and the world.
\<close>

type_synonym 'w handler_call = "addr \<Rightarrow> u32 \<Rightarrow> T_ModuleMsg \<Rightarrow> bool \<times> 'w \<Rightarrow> bool \<times> 'w"

fun call_handlers :: "'w handler_call \<Rightarrow> u32 \<Rightarrow> T_ModuleMsg \<Rightarrow> message_handler_entry list \<Rightarrow> bool \<times> 'w \<Rightarrow> bool \<times> 'w" where
  "call_handlers call i msg [] s = s"
| "call_handlers call i msg (e # es) s =
     call_handlers call i msg es
       (case he_handler e of
          Some h \<Rightarrow> if he_msg_type e = mm_type msg \<and> he_enabled e then call h i msg s else s
        | None \<Rightarrow> s)"

fun broadcast :: "'w handler_call \<Rightarrow> T_ModuleMsg \<Rightarrow> fmodule list \<Rightarrow> bool \<times> 'w \<Rightarrow> bool \<times> 'w" where
  "broadcast call msg [] s = s"
| "broadcast call msg (m # ms) s = broadcast call msg ms (call_handlers call (md_id m) msg (md_handlers m) s)"

definition dispatch_message :: "'w handler_call \<Rightarrow> framework_context \<Rightarrow> T_ModuleMsg \<Rightarrow> bool \<times> 'w \<Rightarrow> bool \<times> 'w" where
  "dispatch_message call c msg s =
     (if mm_receiver msg = 0 then broadcast call msg (fc_modules c) s
      else case get_module_by_id (Some c) (mm_receiver msg) of
          None \<Rightarrow> s
        | Some m \<Rightarrow> call_handlers call (md_id m) msg (md_handlers m) s)"

text \<open>
  The loop over the queue: \<open>recv\<close> takes the next message as the handlers read it, \<open>rel\<close> gives it
  back.  It runs until the queue is empty or the running flag is cleared.
\<close>

partial_function (option) process_loop ::
    "'w handler_call \<Rightarrow> ('w \<Rightarrow> T_ModuleMsg ptr \<times> 'w) \<Rightarrow> (T_ModuleMsg \<Rightarrow> 'w \<Rightarrow> 'w) \<Rightarrow> framework_context
     \<Rightarrow> bool \<times> 'w \<Rightarrow> (bool \<times> 'w) option" where
  "process_loop call recv rel c s =
     (if \<not> fst s then Some s
      else case recv (snd s) of
          (None, w) \<Rightarrow> Some (True, w)
        | (Some msg, w) \<Rightarrow>
            process_loop call recv rel c
              (case dispatch_message call c msg (True, w) of (running, w) \<Rightarrow> (running, rel msg w)))"

definition process_framework_message_queue ::
    "'w handler_call \<Rightarrow> ('w \<Rightarrow> T_ModuleMsg ptr \<times> 'w) \<Rightarrow> (T_ModuleMsg \<Rightarrow> 'w \<Rightarrow> 'w) \<Rightarrow> framework_context ptr
     \<Rightarrow> 'w \<Rightarrow> (framework_context ptr \<times> 'w) option" where
  "process_framework_message_queue call recv rel p w =
     (case p of None \<Rightarrow> Some (None, w)
      | Some c \<Rightarrow> if fc_msg_queue c = None then Some (p, w)
          else map_option (\<lambda>(running, w). (Some (c\<lparr>fc_is_running := running\<rparr>), w))
            (process_loop call recv rel c (fc_is_running c, w)))"

text \<open>\<open>run\<close> is the effect of a module's run function.  One round of the loop ends with a sleep.\<close>

fun run_modules :: "(addr \<Rightarrow> u32 \<Rightarrow> bool \<times> 'w \<Rightarrow> bool \<times> 'w) \<Rightarrow> fmodule list \<Rightarrow> bool \<times> 'w \<Rightarrow> (bool \<times> 'w) option" where
  "run_modules run [] s = Some s"
| "run_modules run (m # ms) s =
     (if fst s then do { f \<leftarrow> md_run m; run_modules run ms (run f (md_id m) s) } else Some s)"

partial_function (option) main_loop ::
    "'w handler_call \<Rightarrow> ('w \<Rightarrow> T_ModuleMsg ptr \<times> 'w) \<Rightarrow> (T_ModuleMsg \<Rightarrow> 'w \<Rightarrow> 'w)
     \<Rightarrow> (addr \<Rightarrow> u32 \<Rightarrow> bool \<times> 'w \<Rightarrow> bool \<times> 'w) \<Rightarrow> framework_context \<Rightarrow> 'w \<Rightarrow> (framework_context \<times> 'w) option" where
  "main_loop call recv rel run c w =
     (if \<not> fc_is_running c then Some (c, w)
      else do {
        (p, w) \<leftarrow> process_framework_message_queue call recv rel (Some c) w;
        c \<leftarrow> p;
        (running, w) \<leftarrow> run_modules run (fc_modules c) (fc_is_running c, w);
        main_loop call recv rel run (c\<lparr>fc_is_running := running\<rparr>) w })"

definition framework_start_main_loop ::
    "'w handler_call \<Rightarrow> ('w \<Rightarrow> T_ModuleMsg ptr \<times> 'w) \<Rightarrow> (T_ModuleMsg \<Rightarrow> 'w \<Rightarrow> 'w)
     \<Rightarrow> (addr \<Rightarrow> u32 \<Rightarrow> bool \<times> 'w \<Rightarrow> bool \<times> 'w) \<Rightarrow> framework_context ptr \<Rightarrow> 'w
     \<Rightarrow> (bool \<times> framework_context ptr \<times> 'w) option" where
  "framework_start_main_loop call recv rel run p w =
     (case p of None \<Rightarrow> Some (False, None, w)
      | Some c \<Rightarrow> if fc_is_running c then Some (False, p, w)
          else map_option (\<lambda>(c, w). (True, Some c, w)) (main_loop call recv rel run (c\<lparr>fc_is_running := True\<rparr>) w))"

text \<open>The destroy functions run in list order; the modules and the queue are freed.\<close>

definition framework_destroy ::
    "(addr \<Rightarrow> u32 \<Rightarrow> 'w \<Rightarrow> 'w) \<Rightarrow> timespec \<Rightarrow> framework_context ptr \<Rightarrow> 'w \<times> (addr \<rightharpoonup> 'b) \<Rightarrow> ('w \<times> (addr \<rightharpoonup> 'b)) option" where
  "framework_destroy destroy now p s =
     (case p of None \<Rightarrow> Some s
      | Some c \<Rightarrow>
          (let w = fold (\<lambda>m. case md_destroy m of None \<Rightarrow> id | Some f \<Rightarrow> destroy f (md_id m)) (fc_modules c) (fst s) in
           case fc_msg_queue c of None \<Rightarrow> Some (w, snd s)
           | Some q \<Rightarrow> map_option (\<lambda>bodies. (w, bodies)) (msg_queue_destroy now (Some q) (snd s))))"

section \<open>Sending\<close>

text \<open>
  \<^verbatim>\<open>framework_send_message\<close> hands its \<^verbatim>\<open>T_ModuleMsg\<close> to \<^verbatim>\<open>msg_queue_send\<close>, which reads it as a
  \<^verbatim>\<open>T_Msg\<close>.  The bytes of the object on a little-endian 64-bit target: five 32-bit fields, four
  bytes of padding, the length, the data pointer, the copy type, four bytes of padding; 48 in all,
  the padding zero after the \<^verbatim>\<open>memset\<close>.
\<close>

definition le_bytes :: "nat \<Rightarrow> 'a::len word \<Rightarrow> u8 list" where
  "le_bytes n x = map (\<lambda>i. ucast (drop_bit (8 * i) x)) [0..<n]"

definition le_word :: "u8 list \<Rightarrow> 'a::len word" where
  "le_word bs = foldr (\<lambda>b acc. ucast b + 256 * acc) bs 0"

definition copy_type_value :: "MsgCopyType \<Rightarrow> u32" where
  "copy_type_value t = (case t of MSG_COPY_SHALLOW \<Rightarrow> 0 | MSG_COPY_DEEP \<Rightarrow> 1)"

definition ptr_value :: "addr ptr \<Rightarrow> u64" where
  "ptr_value p = (case p of None \<Rightarrow> 0 | Some a \<Rightarrow> of_nat a)"

definition module_msg_bytes :: "T_ModuleMsg \<Rightarrow> u8 list" where
  "module_msg_bytes m = le_bytes 4 (mm_sender m) @ le_bytes 4 (mm_receiver m) @ le_bytes 4 (mm_type m)
     @ le_bytes 4 (mm_timestamp m) @ le_bytes 4 (mm_call_id m) @ replicate 4 0 @ le_bytes 8 (mm_data_len m)
     @ le_bytes 8 (ptr_value (mm_data m)) @ le_bytes 4 (copy_type_value (mm_copy_type m)) @ replicate 4 0"

text \<open>
  The fields of a \<^verbatim>\<open>T_Msg\<close> at their offsets 0, 4, 40 and 48 in the memory from the object on; \<open>past\<close>
  is the memory behind the object, of which the last field needs four bytes.
\<close>

definition msg_view :: "u8 list \<Rightarrow> T_Msg option" where
  "msg_view mem = do {
     cmd \<leftarrow> mem_read mem 0 4;
     body \<leftarrow> mem_read mem 40 8;
     callid \<leftarrow> mem_read mem 48 4;
     let str = takeWhile (\<lambda>b. b \<noteq> 0) (drop 4 mem);
     if length str = length (drop 4 mem) then None
     else Some \<lparr>msg_uiCommand = le_word cmd, msg_strMsgId = map (\<lambda>b. char_of (unat b)) str,
                msg_pcBody = (let a = le_word body :: u64 in if a = 0 then None else Some (unat a)),
                msg_uiCallId = le_word callid\<rparr> }"

text \<open>
  \<open>alloc\<close> is the allocator of \<^verbatim>\<open>deep_copy_data\<close> on the heap of message bodies, \<open>src\<close> the bytes behind
  the caller's pointer.
\<close>

definition deep_copy_data :: "((addr \<rightharpoonup> u8 list) \<Rightarrow> addr ptr) \<Rightarrow> u8 list ptr \<Rightarrow> u64 \<Rightarrow> (addr \<rightharpoonup> u8 list)
    \<Rightarrow> (addr ptr \<times> (addr \<rightharpoonup> u8 list)) option" where
  "deep_copy_data alloc src len bodies =
     (case src of None \<Rightarrow> Some (None, bodies)
      | Some bs \<Rightarrow>
          if len = 0 then Some (None, bodies)
          else (case alloc bodies of None \<Rightarrow> Some (None, bodies)
                | Some a \<Rightarrow> do { d \<leftarrow> mem_read bs 0 (unat len); Some (Some a, bodies(a \<mapsto> d)) }))"

definition free_ptr :: "addr ptr \<Rightarrow> (addr \<rightharpoonup> 'b) \<Rightarrow> (addr \<rightharpoonup> 'b) option" where
  "free_ptr p bodies = (case p of None \<Rightarrow> Some bodies | Some a \<Rightarrow> h_free bodies a)"

text \<open>
  \<open>data\<close> is the caller's pointer with the bytes behind it; \<open>stamp\<close> the current time.  The message is
  read only when the queue has a slot for it.
\<close>

definition framework_send_message ::
    "((addr \<rightharpoonup> u8 list) \<Rightarrow> addr ptr) \<Rightarrow> u32 \<Rightarrow> u8 list \<Rightarrow> framework_context ptr \<Rightarrow> u32 \<Rightarrow> u32 \<Rightarrow> u32 \<Rightarrow> u32 \<Rightarrow> u64
     \<Rightarrow> (addr \<times> u8 list) ptr \<Rightarrow> MsgCopyType \<Rightarrow> int \<Rightarrow> timespec \<Rightarrow> cq_answer list \<Rightarrow> (addr \<rightharpoonup> u8 list)
     \<Rightarrow> (E_StateCode \<times> framework_context ptr \<times> (addr \<rightharpoonup> u8 list)) outcome option" where
  "framework_send_message alloc stamp past p sender receiver t call_id data_len data copy_type timeout now answers bodies =
     (case p of None \<Rightarrow> Some (Returned (STATE_CODE_INVALID_PARAM, None, bodies))
      | Some c \<Rightarrow>
        if sender = 0 then Some (Returned (STATE_CODE_INVALID_PARAM, p, bodies))
        else if \<not> fc_is_running c \<or> fc_msg_queue c = None
        then Some (Returned (STATE_CODE_INVALID_HANDLE, p, bodies))
        else if get_module_by_id p sender = None then Some (Returned (STATE_CODE_INVALID_PARAM, p, bodies))
        else do {
          (d, bodies) \<leftarrow> (case copy_type of
              MSG_COPY_DEEP \<Rightarrow> deep_copy_data alloc (map_option snd data) data_len bodies
            | MSG_COPY_SHALLOW \<Rightarrow> Some (map_option fst data, bodies));
          if copy_type = MSG_COPY_DEEP \<and> d = None \<and> 0 < data_len
          then Some (Returned (STATE_CODE_ALLOCATION_FAILURE, p, bodies))
          else do {
            let m = msg_view (module_msg_bytes
                  \<lparr>mm_sender = sender, mm_receiver = receiver, mm_type = t, mm_timestamp = stamp,
                   mm_call_id = call_id, mm_data_len = data_len, mm_data = d, mm_copy_type = copy_type\<rparr> @ past);
            out \<leftarrow> msg_queue_send (fc_msg_queue c) (case m of None \<Rightarrow> zero_msg | Some m \<Rightarrow> m) timeout now answers;
            (case out of
               Blocked \<Rightarrow> Some Blocked
             | Returned (code, q) \<Rightarrow>
                 (let p = Some (c\<lparr>fc_msg_queue := q\<rparr>) in
                  if code = STATE_CODE_NO_ERROR then
                    (if m = None then None else Some (Returned (code, p, bodies)))
                  else do {
                    bodies \<leftarrow> (if copy_type = MSG_COPY_DEEP then free_ptr d bodies else Some bodies);
                    Some (Returned (code, p, bodies)) })) } })"

text \<open>\<^verbatim>\<open>module_send_message\<close> passes the module's own identifier and its framework.\<close>

definition module_send_message where
  "module_send_message alloc stamp past p module receiver t call_id data_len data copy_type timeout now answers bodies =
     (case module of None \<Rightarrow> Some (Returned (STATE_CODE_INVALID_PARAM, p, bodies))
      | Some m \<Rightarrow> framework_send_message alloc stamp past p (md_id m) receiver t call_id data_len data copy_type
                    timeout now answers bodies)"

definition msg_free_data :: "T_ModuleMsg ptr \<Rightarrow> (addr \<rightharpoonup> 'b) \<Rightarrow> (addr \<rightharpoonup> 'b) option" where
  "msg_free_data p bodies =
     (case p of None \<Rightarrow> Some bodies
      | Some m \<Rightarrow> if mm_copy_type m = MSG_COPY_DEEP \<and> mm_data m \<noteq> None \<and> 0 < mm_data_len m
                 then free_ptr (mm_data m) bodies else Some bodies)"

section \<open>Identifiers\<close>

text \<open>
  Module identifiers are nonzero, distinct and below the next one, and every module has the functions
  the main loop calls.
\<close>

definition fw_inv :: "framework_context \<Rightarrow> bool" where
  "fw_inv c \<longleftrightarrow> 0 < fc_next_module_id c \<and> distinct (map md_id (fc_modules c))
     \<and> (\<forall>m \<in> set (fc_modules c). 0 < md_id m \<and> md_id m < fc_next_module_id c \<and> md_run m \<noteq> None \<and> md_destroy m \<noteq> None)
     \<and> unat (fc_module_count c) = length (fc_modules c)
     \<and> length (fc_modules c) < unat (fc_next_module_id c)"

lemma find_module_Some:
  "find_module ms i = Some m \<Longrightarrow> m \<in> set ms \<and> md_id m = i"
  by (induction ms) (auto split: if_splits)

lemma find_module_mem:
  "distinct (map md_id ms) \<Longrightarrow> m \<in> set ms \<Longrightarrow> find_module ms (md_id m) = Some m"
  by (induction ms) (auto simp: rev_image_eqI)

lemma find_module_None: "find_module ms i = None \<longleftrightarrow> i \<notin> md_id ` set ms"
  by (induction ms) auto

lemma get_module_iff:
  assumes "fw_inv c"
  shows "get_module_by_id (Some c) i = Some m \<longleftrightarrow> m \<in> set (fc_modules c) \<and> md_id m = i"
proof -
  have "m \<in> set (fc_modules c) \<Longrightarrow> md_id m \<noteq> 0" for m using assms by (force simp: fw_inv_def)
  moreover have "distinct (map md_id (fc_modules c))" using assms by (simp add: fw_inv_def)
  ultimately show ?thesis
    by (auto simp: get_module_by_id_def dest: find_module_Some intro: find_module_mem)
qed


section \<open>The handler table\<close>

definition table_inv :: "fmodule \<Rightarrow> bool" where
  "table_inv m \<longleftrightarrow> distinct (map he_msg_type (md_handlers m)) \<and> (\<forall>e \<in> set (md_handlers m). he_handler e \<noteq> None)"

text \<open>What the dispatcher would use for a type: the handler and whether it is enabled.\<close>

definition table_lookup :: "fmodule \<Rightarrow> u32 \<Rightarrow> (addr \<times> bool) option" where
  "table_lookup m t = do { i \<leftarrow> handler_index t (md_handlers m); f \<leftarrow> he_handler (md_handlers m ! i);
     Some (f, he_enabled (md_handlers m ! i)) }"

text \<open>Registering a handler and setting whether it is enabled.\<close>

definition table_update :: "u32 \<Rightarrow> addr \<times> bool \<Rightarrow> fmodule \<Rightarrow> fmodule" where
  "table_update t v m =
     (case snd (module_enable_handler (snd (module_register_handler True (Some m) t (Some (fst v)))) t (snd v)) of
        None \<Rightarrow> m | Some m \<Rightarrow> m)"

lemma handler_index_Some:
  "handler_index t es = Some i \<Longrightarrow> i < length es \<and> he_msg_type (es ! i) = t \<and> (\<forall>j < i. he_msg_type (es ! j) \<noteq> t)"
proof (induction t es arbitrary: i rule: handler_index.induct)
  case (2 t e es)
  show ?case
  proof (cases "he_msg_type e = t")
    case False
    with 2 obtain k where "handler_index t es = Some k" "i = Suc k" by auto
    with 2 False show ?thesis by (auto simp: less_Suc_eq_0_disj)
  qed (use 2 in auto)
qed simp

lemma handler_index_None: "handler_index t es = None \<longleftrightarrow> t \<notin> he_msg_type ` set es"
  by (induction t es rule: handler_index.induct) auto

lemma handler_index_cong:
  "map he_msg_type es = map he_msg_type es' \<Longrightarrow> handler_index t es = handler_index t es'"
proof (induction es arbitrary: es')
  case (Cons e es)
  then show ?case by (cases es') auto
qed simp

lemma handler_index_append:
  "t \<notin> he_msg_type ` set es \<Longrightarrow> he_msg_type e = t \<Longrightarrow> handler_index t (es @ [e]) = Some (length es)"
  by (induction es) auto

lemma handler_index_append_other:
  "he_msg_type e \<noteq> t \<Longrightarrow> handler_index t (es @ [e]) = handler_index t es"
  by (induction es) auto


lemma handler_index_enable [simp]:
  "handler_index t (es[i := (es ! i)\<lparr>he_handler := h, he_enabled := b\<rparr>]) = handler_index t es"
  "handler_index t (es[i := (es ! i)\<lparr>he_enabled := b\<rparr>]) = handler_index t es"
proof -
  have "(map he_msg_type es)[i := he_msg_type (es ! i)] = map he_msg_type es"
    by (cases "i < length es") (simp_all add: list_update_same_conv list_update_beyond)
  then show "handler_index t (es[i := (es ! i)\<lparr>he_handler := h, he_enabled := b\<rparr>]) = handler_index t es"
    "handler_index t (es[i := (es ! i)\<lparr>he_enabled := b\<rparr>]) = handler_index t es"
    by (auto intro!: handler_index_cong simp: map_update)
qed

lemma table_update_eq:
  "table_update t (f, b) m = (case handler_index t (md_handlers m) of
      Some i \<Rightarrow> m\<lparr>md_handlers := (md_handlers m)[i := (md_handlers m ! i)\<lparr>he_handler := Some f, he_enabled := b\<rparr>]\<rparr>
    | None \<Rightarrow> m\<lparr>md_handlers := md_handlers m @ [\<lparr>he_msg_type = t, he_handler = Some f, he_enabled = b\<rparr>]\<rparr>)"
proof (cases "handler_index t (md_handlers m)")
  case None
  then have "handler_index t (md_handlers m @ [\<lparr>he_msg_type = t, he_handler = Some f, he_enabled = True\<rparr>])
      = Some (length (md_handlers m))"
    by (intro handler_index_append) (auto simp: handler_index_None)
  with None show ?thesis
    by (simp add: table_update_def module_register_handler_def module_enable_handler_def)
next
  case (Some i)
  with handler_index_Some have "i < length (md_handlers m)" by blast
  with Some show ?thesis
    by (simp add: table_update_def module_register_handler_def module_enable_handler_def)
qed

lemma table_update_inv: "table_inv m \<Longrightarrow> table_inv (table_update t v m)"
proof (cases v)
  case (Pair f b)
  assume inv: "table_inv m"
  show "table_inv (table_update t v m)"
  proof (cases "handler_index t (md_handlers m)")
    case None
    with inv Pair None show ?thesis
      by (simp add: table_update_eq table_inv_def handler_index_None [symmetric])
  next
    case (Some i)
    then have i: "i < length (md_handlers m)" "he_msg_type (md_handlers m ! i) = t" using handler_index_Some by blast+
    have "map he_msg_type ((md_handlers m)[i := (md_handlers m ! i)\<lparr>he_handler := Some f, he_enabled := b\<rparr>])
        = map he_msg_type (md_handlers m)"
      using i by (simp add: map_update list_update_same_conv)
    with inv Pair Some show ?thesis
      by (auto simp: table_update_eq table_inv_def dest!: set_update_subset_insert [THEN subsetD])
  qed
qed

lemma table_lookup_update:
  assumes "table_inv m"
  shows "table_lookup (table_update t v m) = (table_lookup m)(t \<mapsto> v)"
proof
  fix u
  obtain f b where v: "v = (f, b)" by (cases v)
  show "table_lookup (table_update t v m) u = ((table_lookup m)(t \<mapsto> v)) u"
  proof (cases "handler_index t (md_handlers m)")
    case None
    show ?thesis
    proof (cases "u = t")
      case True
      with None v show ?thesis
        by (simp add: table_update_eq table_lookup_def handler_index_append handler_index_None [symmetric])
    next
      case False
      have lt: "i < length (md_handlers m)" if "handler_index u (md_handlers m) = Some i" for i
        using that handler_index_Some by blast
      with False None v show ?thesis
        by (cases "handler_index u (md_handlers m)")
          (simp_all add: table_update_eq table_lookup_def handler_index_append_other nth_append)
    qed
  next
    case (Some i)
    then have i: "i < length (md_handlers m)" "he_msg_type (md_handlers m ! i) = t" using handler_index_Some by blast+
    have ne: "k \<noteq> i" if "handler_index u (md_handlers m) = Some k" "u \<noteq> t" for k
      using that handler_index_Some i by blast
    show ?thesis
      using i Some v ne by (cases "u = t"; cases "handler_index u (md_handlers m)")
        (auto simp: table_update_eq table_lookup_def)
  qed
qed

interpretation ht: keyed_table table_inv table_lookup table_update
  by unfold_locales (auto intro: table_update_inv simp: table_lookup_update)




section \<open>What is called for a message\<close>

text \<open>The modules a message is for, in list order, with the enabled handler each has for its type.\<close>

definition message_calls :: "framework_context \<Rightarrow> T_ModuleMsg \<Rightarrow> (addr \<times> u32) list" where
  "message_calls c msg = concat (map (\<lambda>m.
     case table_lookup m (mm_type msg) of Some (f, True) \<Rightarrow> [(f, md_id m)] | _ \<Rightarrow> [])
     (filter (\<lambda>m. mm_receiver msg = 0 \<or> md_id m = mm_receiver msg) (fc_modules c)))"

lemma call_handlers_none:
  "mm_type msg \<notin> he_msg_type ` set es \<Longrightarrow> call_handlers call i msg es s = s"
  by (induction es arbitrary: s) (auto split: option.split)

lemma call_handlers_lookup:
  assumes "table_inv m"
  shows "call_handlers call i msg (md_handlers m) s =
    (case table_lookup m (mm_type msg) of Some (f, True) \<Rightarrow> call f i msg s | _ \<Rightarrow> s)"
proof -
  have "\<lbrakk>distinct (map he_msg_type es); \<forall>e \<in> set es. he_handler e \<noteq> None\<rbrakk> \<Longrightarrow>
      call_handlers call i msg es s = (case handler_index (mm_type msg) es of
         Some k \<Rightarrow> if he_enabled (es ! k) then call (the (he_handler (es ! k))) i msg s else s | None \<Rightarrow> s)" for es
  proof (induction es arbitrary: s)
    case (Cons e es)
    then show ?case
      by (cases "he_msg_type e = mm_type msg"; cases "handler_index (mm_type msg) es")
        (auto simp: call_handlers_none)
  qed simp
  moreover have "he_handler (md_handlers m ! k) \<noteq> None" if "handler_index (mm_type msg) (md_handlers m) = Some k" for k
    using that handler_index_Some assms by (fastforce simp: table_inv_def)
  ultimately show ?thesis
    using assms unfolding table_inv_def table_lookup_def
    by (cases "handler_index (mm_type msg) (md_handlers m)") auto
qed

lemma find_module_filter:
  "distinct (map md_id ms) \<Longrightarrow> filter (\<lambda>m. md_id m = i) ms
     = (case find_module ms i of None \<Rightarrow> [] | Some m \<Rightarrow> [m])"
proof (induction ms)
  case (Cons a ms)
  then have "find_module ms (md_id a) = None" by (simp add: find_module_None)
  with Cons show ?case by auto
qed simp

lemma broadcast_calls:
  "\<forall>m \<in> set ms. table_inv m \<Longrightarrow> broadcast call msg ms s = fold (\<lambda>(h, i). call h i msg)
     (concat (map (\<lambda>m. case table_lookup m (mm_type msg) of Some (f, True) \<Rightarrow> [(f, md_id m)] | _ \<Rightarrow> []) ms)) s"
  by (induction ms arbitrary: s) (auto simp: call_handlers_lookup split: option.split bool.split)

lemma dispatch_calls:
  assumes "fw_inv c" "\<forall>m \<in> set (fc_modules c). table_inv m"
  shows "dispatch_message call c msg s = fold (\<lambda>(h, i). call h i msg) (message_calls c msg) s"
proof (cases "mm_receiver msg = 0")
  case True
  then show ?thesis
    using assms broadcast_calls by (simp add: dispatch_message_def message_calls_def)
next
  case False
  have d: "distinct (map md_id (fc_modules c))" using assms by (simp add: fw_inv_def)
  show ?thesis
  proof (cases "find_module (fc_modules c) (mm_receiver msg)")
    case None
    with False d show ?thesis
      by (simp add: dispatch_message_def message_calls_def get_module_by_id_def find_module_filter)
  next
    case (Some m)
    then have "table_inv m" using find_module_Some assms by blast
    with False d Some show ?thesis
      by (auto simp: dispatch_message_def message_calls_def get_module_by_id_def find_module_filter
        call_handlers_lookup split: option.split bool.split)
  qed
qed

text \<open>
  Handlers that record their calls and clear the running flag when \<open>stops\<close> says so; the world is the
  list of queued messages and the record.
\<close>

definition logging_call :: "(addr \<Rightarrow> u32 \<Rightarrow> T_ModuleMsg \<Rightarrow> bool)
    \<Rightarrow> (T_ModuleMsg list \<times> (addr \<times> u32 \<times> T_ModuleMsg) list) handler_call" where
  "logging_call stops h i msg s = (case s of (running, msgs, log) \<Rightarrow>
     (running \<and> \<not> stops h i msg, msgs, log @ [(h, i, msg)]))"

definition pop_msg :: "T_ModuleMsg list \<times> 'l \<Rightarrow> T_ModuleMsg ptr \<times> (T_ModuleMsg list \<times> 'l)" where
  "pop_msg w = (case fst w of [] \<Rightarrow> (None, w) | m # ms \<Rightarrow> (Some m, ms, snd w))"

lemma pop_msg_simps [simp]:
  "pop_msg ([], l) = (None, [], l)" "pop_msg (m # ms, l) = (Some m, ms, l)"
  by (simp_all add: pop_msg_def)

lemma logged_calls:
  "fold (\<lambda>(h, i). logging_call stops h i msg) hs (running, msgs, log)
   = (running \<and> \<not> (\<exists>(h, i) \<in> set hs. stops h i msg), msgs, log @ map (\<lambda>(h, i). (h, i, msg)) hs)"
  by (induction hs arbitrary: running log) (auto simp: logging_call_def)


text \<open>A framework of two modules that both handle messages of type 5.\<close>

definition fw2 :: framework_context where
  "fw2 = \<lparr>fc_modules =
      [\<lparr>md_id = 2, md_init = Some 1, md_run = Some 2, md_destroy = Some 3,
        md_handlers = [\<lparr>he_msg_type = 5, he_handler = Some 50, he_enabled = True\<rparr>]\<rparr>,
       \<lparr>md_id = 1, md_init = Some 1, md_run = Some 2, md_destroy = Some 3,
        md_handlers = [\<lparr>he_msg_type = 5, he_handler = Some 40, he_enabled = True\<rparr>]\<rparr>],
     fc_module_count = 2, fc_msg_queue = Some mq0, fc_is_running = True, fc_next_module_id = 3\<rparr>"

lemma fw2_inv: "fw_inv fw2" "\<forall>m \<in> set (fc_modules fw2). table_inv m"
  by (simp_all add: fw2_def fw_inv_def table_inv_def)

definition to_module :: "u32 \<Rightarrow> T_ModuleMsg" where
  "to_module r = \<lparr>mm_sender = 1, mm_receiver = r, mm_type = 5, mm_timestamp = 0, mm_call_id = 0,
     mm_data_len = 0, mm_data = None, mm_copy_type = MSG_COPY_SHALLOW\<rparr>"



section \<open>What a sent message becomes\<close>

lemma le_bytes_4: "le_bytes 4 (x :: u32) = [ucast x, ucast (drop_bit 8 x), ucast (drop_bit 16 x), ucast (drop_bit 24 x)]"
  by (simp add: le_bytes_def upt_rec)

lemma le_word_4: "le_word (le_bytes 4 (x :: u32)) = x"
proof -
  define n where "n = unat x"
  have n: "n < 2 ^ 32" using unsigned_less [of x, where 'a = nat] by (simp add: n_def)
  then have t: "take_bit 32 (unat x) = unat x" by (simp add: n_def take_bit_nat_eq_self)
  have b: "ucast (ucast (drop_bit k x) :: u8) = (of_nat m :: u32)" if "m = n div 2 ^ k mod 256" for k m
  proof -
    have "m < 2 ^ 32" using that by (simp add: order_less_trans [of _ 256])
    then have "unat (of_nat m :: u32) = m" by (simp add: unsigned_of_nat take_bit_nat_eq_self)
    moreover have "unat (ucast (ucast (drop_bit k x) :: u8) :: u32) = take_bit 8 (drop_bit k n)"
      unfolding n_def by (simp add: unsigned_ucast_eq unsigned_drop_bit_eq unsigned_take_bit_eq t)
    ultimately have "unat (of_nat m :: u32) = m" "unat (ucast (ucast (drop_bit k x) :: u8) :: u32) = m"
      using that by (simp_all only: drop_bit_eq_div take_bit_eq_mod) simp_all
    then show ?thesis by (simp only: word_unat_eq_iff)
  qed
  have "n div 16777216 mod 256 = n div 16777216" using n by (intro mod_less less_mult_imp_div_less) simp
  moreover have "n div 65536 = n div 256 div 256" "n div 16777216 = n div 256 div 256 div 256"
    by (simp_all flip: div_mult2_eq)
  ultimately have sum: "n mod 256 + 256 * (n div 256 mod 256 + 256 * (n div 65536 mod 256 + 256 * (n div 16777216 mod 256))) = n"
    by (simp only: mod_mult_div_eq)
  have "le_word (le_bytes 4 x) = (of_nat (n mod 256 + 256 * (n div 256 mod 256 + 256 * (n div 65536 mod 256 + 256 * (n div 16777216 mod 256)))) :: u32)"
    using b [OF refl, of 0] b [OF refl, of 8] b [OF refl, of 16] b [OF refl, of 24] by (simp add: le_bytes_4 le_word_def)
  also have "\<dots> = x" unfolding sum by (simp add: n_def)
  finally show ?thesis .
qed

lemma length_le_bytes [simp]: "length (le_bytes n x) = n"
  by (simp add: le_bytes_def)

lemma length_module_msg_bytes: "length (module_msg_bytes m) = 48"
  by (simp add: module_msg_bytes_def)

lemma replicate_4: "replicate 4 x = [x, x, x, x]"
  by (simp add: eval_nat_numeral)

lemma top_byte_zero: "x < 0x1000000 \<Longrightarrow> (ucast (drop_bit 24 (x :: u32)) :: u8) = 0"
proof -
  assume "x < 0x1000000"
  then have "drop_bit 24 x = 0" by (simp add: drop_bit_eq_div div_word_less)
  then show ?thesis by simp
qed

text \<open>What the queue reads from the memory of a module message.\<close>

lemma msg_view_module_msg:
  assumes "4 \<le> length past"
  shows "\<exists>str. msg_view (module_msg_bytes m @ past) = Some \<lparr>msg_uiCommand = mm_sender m, msg_strMsgId = str,
      msg_pcBody = (case mm_copy_type m of MSG_COPY_SHALLOW \<Rightarrow> None | MSG_COPY_DEEP \<Rightarrow> Some 1),
      msg_uiCallId = le_word (take 4 past)\<rparr> \<and> length str \<le> 16
    \<and> (mm_receiver m < 0x1000000 \<longrightarrow>
        str = map (\<lambda>b. char_of (unat b)) (takeWhile (\<lambda>b. b \<noteq> 0) (le_bytes 4 (mm_receiver m))))"
proof -
  define mem where "mem = module_msg_bytes m @ past"
  define pre where "pre = le_bytes 4 (mm_receiver m) @ le_bytes 4 (mm_type m)
     @ le_bytes 4 (mm_timestamp m) @ le_bytes 4 (mm_call_id m)"
  define post where "post = [0, 0, 0] @ le_bytes 8 (mm_data_len m)
     @ le_bytes 8 (ptr_value (mm_data m)) @ le_bytes 4 (copy_type_value (mm_copy_type m)) @ replicate 4 0 @ past"
  have mem: "mem = le_bytes 4 (mm_sender m) @ (pre @ [0]) @ post"
    by (simp add: mem_def pre_def post_def module_msg_bytes_def replicate_4)
  have mem2: "mem = (le_bytes 4 (mm_sender m) @ pre @ replicate 4 0 @ le_bytes 8 (mm_data_len m) @ le_bytes 8 (ptr_value (mm_data m)))
      @ (le_bytes 4 (copy_type_value (mm_copy_type m)) @ replicate 4 0) @ past"
    by (simp add: mem_def pre_def module_msg_bytes_def)
  have cmd: "mem_read mem 0 4 = Some (le_bytes 4 (mm_sender m))"
    by (simp add: mem mem_read_def)
  have body: "mem_read mem 40 8 = Some (le_bytes 4 (copy_type_value (mm_copy_type m)) @ replicate 4 0)"
    unfolding mem2 by (simp add: mem_read_def pre_def)
  have cid: "mem_read mem 48 4 = Some (take 4 past)"
    unfolding mem2 using assms by (simp add: mem_read_def pre_def)
  have val: "le_word (le_bytes 4 (copy_type_value t) @ replicate 4 0)
      = (case t of MSG_COPY_SHALLOW \<Rightarrow> 0 | MSG_COPY_DEEP \<Rightarrow> (1 :: u64))" for t
    by (cases t) (simp_all add: copy_type_value_def le_bytes_4 le_word_def replicate_4)
  define str where "str = takeWhile (\<lambda>b. b \<noteq> 0) (pre @ [0])"
  have tw: "takeWhile (\<lambda>b. b \<noteq> 0) (drop 4 mem) = str"
    unfolding str_def mem by (simp add: takeWhile_tail)
  have len: "length str \<le> 16" 
  proof -
    have "str = takeWhile (\<lambda>b. b \<noteq> 0) pre" by (simp add: str_def takeWhile_tail)
    then show ?thesis using length_takeWhile_le [of "\<lambda>b. b \<noteq> 0" pre] by (simp add: pre_def)
  qed
  have recv: "str = takeWhile (\<lambda>b. b \<noteq> 0) (le_bytes 4 (mm_receiver m))" if "mm_receiver m < 0x1000000"
    using top_byte_zero [OF that] unfolding str_def pre_def by (simp add: le_bytes_4)
  have "length str \<noteq> length (drop 4 mem)" using len by (simp add: mem pre_def)
  then have "msg_view mem = Some \<lparr>msg_uiCommand = mm_sender m, msg_strMsgId = map (\<lambda>b. char_of (unat b)) str,
      msg_pcBody = (case mm_copy_type m of MSG_COPY_SHALLOW \<Rightarrow> None | MSG_COPY_DEEP \<Rightarrow> Some 1),
      msg_uiCallId = le_word (take 4 past)\<rparr>"
    by (simp add: msg_view_def cmd body cid tw val le_word_4 split: MsgCopyType.split)
  then show ?thesis using len recv unfolding mem_def by auto
qed

text \<open>Destroying a queue whose first pending message has a body that is no allocated block.\<close>

lemma msg_queue_destroy_bad_body:
  assumes inv: "mq_inv h" and ms: "mq_pending h = m # ms" and m: "msg_pcBody m = Some b" "bodies b = None"
  shows "msg_queue_destroy now (Some h) bodies = None"
proof -
  obtain q where q: "mq_que_id h = Some q" "cq_inv q 0 0" "\<not> cq_isDestroyed q"
    "cq_elementSize q = sizeof_T_Msg" "length (mq_slots h) = unat (cq_maxCount q)"
    using inv by (auto simp: mq_inv_def split: option.splits)
  obtain f where f: "unat (cq_fullCount q) = Suc f"
    using ms q(1) by (cases "unat (cq_fullCount q)") (auto simp: mq_pending_def)
  note D = cq_invD [OF q(2)]
  obtain q1 where q1: "CommQue_GetFull (Some q) OSAL_TIMEOUT_NONE now []
        = Some (Returned (Some (ucast (cq_read q) * sizeof_T_Msg), Some q1))"
    using take_full_slot [OF q(2,3) f, of now] q(4) by auto
  have "read_msg (ucast (cq_read q) * sizeof_T_Msg) (mq_slots h) = Some (mq_slots h ! unat (cq_read q))"
    using slot_pointer [OF q(2,4) D(5)] D(5) q(5) by (simp add: read_msg_def)
  moreover have "mq_slots h ! unat (cq_read q) = m"
    using q(1,5) f D(5) ms by (simp add: mq_pending_def ring_slice_Suc)
  ultimately show ?thesis
    using q(1) q1 m by (simp add: msg_queue_destroy_def clear_queue_def clear_queue_loop.simps [of now h] h_free_def)
qed

text \<open>
  A module that posts a deep-copied message to its framework gets success, but the queue keeps
  only what it reads through its own message layout: the sender as command, the copy type 1 as body
  pointer, and four bytes from behind the object as call identifier.  The copy is referenced from
  nowhere, the type of the message is not kept (for receivers below \<open>2\<^sup>2\<^sup>4\<close>), and destroying the queue
  while the message is pending releases address 1.
\<close>

theorem framework_send_message_loses_payload:
  assumes c: "fc_is_running c" "fc_msg_queue c = Some h" "sender \<noteq> 0"
      "get_module_by_id (Some c) sender \<noteq> None" "receiver < 0x1000000"
    and h: "mq_inv h" "mq_can (Suc n) h" "mq_pending h = []"
    and data: "0 < len" "unat len \<le> length bs" "alloc bodies = Some d" "4 \<le> length past"
    and free: "bodies 1 = None" "d \<noteq> 1"
  shows "\<exists>h' m.
     framework_send_message alloc stamp past (Some c) sender receiver t call_id len (Some (a, bs)) MSG_COPY_DEEP
        OSAL_TIMEOUT_NONE now [] bodies
       = Some (Returned (STATE_CODE_NO_ERROR, Some (c\<lparr>fc_msg_queue := Some h'\<rparr>), bodies(d \<mapsto> take (unat len) bs)))
   \<and> mq_inv h' \<and> mq_pending h' = [m]
   \<and> m = \<lparr>msg_uiCommand = sender,
         msg_strMsgId = map (\<lambda>b. char_of (unat b)) (takeWhile (\<lambda>b. b \<noteq> 0) (le_bytes 4 receiver)),
         msg_pcBody = Some 1, msg_uiCallId = le_word (take 4 past)\<rparr>
   \<and> msg_queue_destroy now (Some h') (bodies(d \<mapsto> take (unat len) bs)) = None"
proof -
  define mm where "mm = \<lparr>mm_sender = sender, mm_receiver = receiver, mm_type = t, mm_timestamp = stamp,
     mm_call_id = call_id, mm_data_len = len, mm_data = Some d, mm_copy_type = MSG_COPY_DEEP\<rparr>"
  define m where "m = \<lparr>msg_uiCommand = sender,
     msg_strMsgId = map (\<lambda>b. char_of (unat b)) (takeWhile (\<lambda>b. b \<noteq> 0) (le_bytes 4 receiver)),
     msg_pcBody = Some 1, msg_uiCallId = le_word (take 4 past)\<rparr>"
  have view: "msg_view (module_msg_bytes mm @ past) = Some m" and "msg_fits m"
    using msg_view_module_msg [OF data(4), of mm] c(5)
    by (auto simp: mm_def m_def msg_fits_def intro: le_less_trans [OF length_takeWhile_le])
  then obtain h' where h': "mq_put now m h = Some h'" "mq_inv h'" "mq_pending h' = [m]"
    using mq_put_law [OF h(1,2)] h(3) by force
  obtain q where q: "mq_que_id h' = Some q" "mq_inv h'" "cq_inv q 0 0" using h'(2) by (auto simp: mq_inv_def split: option.splits)
  have send: "msg_queue_send (Some h) m OSAL_TIMEOUT_NONE now [] = Some (Returned (STATE_CODE_NO_ERROR, Some h'))"
    using h'(1) by (auto simp: mq_put_def split: option.splits outcome.splits if_splits bind_splits)
  have "deep_copy_data alloc (Some bs) len bodies = Some (Some d, bodies(d \<mapsto> take (unat len) bs))"
    using data by (simp add: deep_copy_data_def mem_read_def word_gt_0)
  then have "framework_send_message alloc stamp past (Some c) sender receiver t call_id len (Some (a, bs)) MSG_COPY_DEEP
        OSAL_TIMEOUT_NONE now [] bodies
       = Some (Returned (STATE_CODE_NO_ERROR, Some (c\<lparr>fc_msg_queue := Some h'\<rparr>), bodies(d \<mapsto> take (unat len) bs)))"
    using c send view by (simp add: framework_send_message_def mm_def)
  moreover have "msg_queue_destroy now (Some h') (bodies(d \<mapsto> take (unat len) bs)) = None"
    by (rule msg_queue_destroy_bad_body [OF h'(2,3), of 1]) (use free in \<open>simp_all add: m_def\<close>)
  ultimately show ?thesis using h' m_def by blast
qed


text \<open>An empty queue of two messages.\<close>

definition mq1 :: msgq where
  "mq1 = \<lparr>mq_que_id = Some \<lparr>cq_buffer = replicate 112 0, cq_maxCount = 2, cq_elementSize = 56,
      cq_write = 0, cq_read = 0, cq_fullCount = 0, cq_emptyCount = 2, cq_isDestroyed = False\<rparr>,
     mq_slots = [zero_msg, zero_msg]\<rparr>"

lemma framework_send_message_loses_payload_witness:
  "\<exists>c'. framework_send_message (\<lambda>heap. Some 100) 9 [7, 0, 0, 0] (Some (fw2\<lparr>fc_msg_queue := Some mq1\<rparr>)) 1 2 5 0 3
      (Some (200, [1, 2, 3])) MSG_COPY_DEEP OSAL_TIMEOUT_NONE now0 [] Map.empty
    = Some (Returned (STATE_CODE_NO_ERROR, c', [100 \<mapsto> [1, 2, 3]]))"
proof -
  have "fc_is_running (fw2\<lparr>fc_msg_queue := Some mq1\<rparr>)" "fc_msg_queue (fw2\<lparr>fc_msg_queue := Some mq1\<rparr>) = Some mq1"
    "(1 :: u32) \<noteq> 0" "get_module_by_id (Some (fw2\<lparr>fc_msg_queue := Some mq1\<rparr>)) 1 \<noteq> None" "(2 :: u32) < 0x1000000"
    by (simp_all add: fw2_def get_module_by_id_def)
  moreover have "mq_inv mq1" "mq_can (Suc 0) mq1" "mq_pending mq1 = []"
    by (simp_all add: mq_inv_def mq1_def cq_inv_def sizeof_T_Msg_def mq_can_def mq_pending_def)
  moreover have "(0 :: u64) < 3" "unat (3 :: u64) \<le> length [1 :: u8, 2, 3]"
    "(\<lambda>heap :: addr \<rightharpoonup> u8 list. Some 100 :: addr ptr) Map.empty = Some 100" "4 \<le> length [7 :: u8, 0, 0, 0]"
    "(Map.empty :: addr \<rightharpoonup> u8 list) 1 = None" "(100 :: addr) \<noteq> 1"
    by simp_all
  ultimately show ?thesis
    using framework_send_message_loses_payload [of "fw2\<lparr>fc_msg_queue := Some mq1\<rparr>" mq1 1 2 0 3 "[1, 2, 3]"
      "\<lambda>heap. Some 100" Map.empty 100 "[7, 0, 0, 0]" 9 5 0 200 now0] by auto
qed

end
