(* ===== verification/CJson.thy ===== *)
theory CJson
  imports Prelude Complex_Main
begin

unbundle bit_operations_syntax

text \<open>
  The tree operations of \<^verbatim>\<open>common/cjson/cJSON.c\<close> at the level of pointers.  The heap holds the items
  and the character strings; an item has its three links and its data.  A computation is \<open>None\<close>
  where the code follows or frees a pointer that is not allocated.  The numbers are IEEE doubles
  without NaN; the memory hooks are the two allocators, NULL being a failed allocation.
\<close>

section \<open>Numbers\<close>

text \<open>
  The values of type \<^verbatim>\<open>double\<close>: the finite ones but for the negative zero, and the infinities (\<open>True\<close> is the
  negative one).  NaN is left out: reading a number never gives it, and the conversion to \<^verbatim>\<open>int\<close> in
  \<^verbatim>\<open>cJSON_CreateNumber\<close> is undefined for it.
\<close>

datatype double = Fin rat | NegZero | Inf bool

instantiation double :: zero
begin

definition zero_double :: double where "zero_double = Fin 0"

instance ..

end

primrec finite_value :: "double \<Rightarrow> rat ptr" where
  "finite_value (Fin q) = Some q"
| "finite_value NegZero = Some 0"
| "finite_value (Inf neg) = None"

text \<open>The conversion of an \<^verbatim>\<open>int\<close>, which is exact.\<close>

abbreviation whole :: "int \<Rightarrow> double" where "whole n \<equiv> Fin (of_int n)"

section \<open>Items\<close>

abbreviation (input) cJSON_Invalid :: u32 where "cJSON_Invalid \<equiv> 0"
abbreviation (input) cJSON_False :: u32 where "cJSON_False \<equiv> 1"
abbreviation (input) cJSON_True :: u32 where "cJSON_True \<equiv> 2"
abbreviation (input) cJSON_NULL :: u32 where "cJSON_NULL \<equiv> 4"
abbreviation (input) cJSON_Number :: u32 where "cJSON_Number \<equiv> 8"
abbreviation (input) cJSON_String :: u32 where "cJSON_String \<equiv> 16"
abbreviation (input) cJSON_Array :: u32 where "cJSON_Array \<equiv> 32"
abbreviation (input) cJSON_Object :: u32 where "cJSON_Object \<equiv> 64"
abbreviation (input) cJSON_Raw :: u32 where "cJSON_Raw \<equiv> 128"
abbreviation (input) cJSON_IsReference :: u32 where "cJSON_IsReference \<equiv> 256"
abbreviation (input) cJSON_StringIsConst :: u32 where "cJSON_StringIsConst \<equiv> 512"

text \<open>The fields of an item that are not links.\<close>

record cjson_data =
  cd_type :: u32
  cd_valuestring :: "addr ptr"
  cd_valueint :: int
  cd_valuedouble :: double
  cd_string :: "addr ptr"

record cJSON =
  cj_next :: "addr ptr"
  cj_prev :: "addr ptr"
  cj_child :: "addr ptr"
  cj_data :: cjson_data

record cheap =
  ch_items :: "addr \<rightharpoonup> cJSON"
  ch_strs :: "addr \<rightharpoonup> string"

record chooks =
  ck_item :: "(addr \<rightharpoonup> cJSON) \<Rightarrow> addr ptr"
  ck_str :: "(addr \<rightharpoonup> string) \<Rightarrow> addr ptr"

definition upd_item :: "addr \<Rightarrow> (cJSON \<Rightarrow> cJSON) \<Rightarrow> cheap \<Rightarrow> cheap option" where
  "upd_item a f hp = (case ch_items hp a of None \<Rightarrow> None
     | Some n \<Rightarrow> Some (hp\<lparr>ch_items := (ch_items hp)(a \<mapsto> f n)\<rparr>))"

definition upd_data :: "addr \<Rightarrow> (cjson_data \<Rightarrow> cjson_data) \<Rightarrow> cheap \<Rightarrow> cheap option" where
  "upd_data a f hp = upd_item a (\<lambda>n. n\<lparr>cj_data := f (cj_data n)\<rparr>) hp"

definition free_str :: "addr ptr \<Rightarrow> cheap \<Rightarrow> cheap option" where
  "free_str p hp = (case p of None \<Rightarrow> Some hp
     | Some s \<Rightarrow> map_option (\<lambda>m. hp\<lparr>ch_strs := m\<rparr>) (h_free (ch_strs hp) s))"

definition is_reference :: "cjson_data \<Rightarrow> bool" where
  "is_reference d \<longleftrightarrow> cd_type d AND cJSON_IsReference \<noteq> 0"

definition string_is_const :: "cjson_data \<Rightarrow> bool" where
  "string_is_const d \<longleftrightarrow> cd_type d AND cJSON_StringIsConst \<noteq> 0"

text \<open>Copies a string into a new block; NULL for NULL and when there is no memory.\<close>

definition cJSON_strdup :: "chooks \<Rightarrow> string ptr \<Rightarrow> cheap \<Rightarrow> addr ptr \<times> cheap" where
  "cJSON_strdup K s hp =
     (case s of None \<Rightarrow> (None, hp)
      | Some s \<Rightarrow>
         (case ck_str K (ch_strs hp) of None \<Rightarrow> (None, hp)
          | Some b \<Rightarrow> (Some b, hp\<lparr>ch_strs := (ch_strs hp)(b \<mapsto> s)\<rparr>)))"

definition zero_data :: cjson_data where
  "zero_data = \<lparr>cd_type = cJSON_Invalid, cd_valuestring = None, cd_valueint = 0, cd_valuedouble = 0,
     cd_string = None\<rparr>"

definition cJSON_New_Item :: "chooks \<Rightarrow> cheap \<Rightarrow> addr ptr \<times> cheap" where
  "cJSON_New_Item K hp =
     (case ck_item K (ch_items hp) of None \<Rightarrow> (None, hp)
      | Some a \<Rightarrow> (Some a, hp\<lparr>ch_items := (ch_items hp)(a \<mapsto>
          \<lparr>cj_next = None, cj_prev = None, cj_child = None, cj_data = zero_data\<rparr>)\<rparr>))"

text \<open>Deletes the item and all its successors, the children of each first.\<close>

partial_function (option) cJSON_Delete :: "addr ptr \<Rightarrow> cheap \<Rightarrow> cheap option" where
  "cJSON_Delete item hp =
     (case item of None \<Rightarrow> Some hp
      | Some a \<Rightarrow> do {
          n \<leftarrow> ch_items hp a;
          hp \<leftarrow> (if \<not> is_reference (cj_data n) \<and> cj_child n \<noteq> None then cJSON_Delete (cj_child n) hp
                 else Some hp);
          n' \<leftarrow> ch_items hp a;
          hp \<leftarrow> (if \<not> is_reference (cj_data n') then free_str (cd_valuestring (cj_data n')) hp else Some hp);
          hp \<leftarrow> (if \<not> string_is_const (cj_data n') then free_str (cd_string (cj_data n')) hp else Some hp);
          items \<leftarrow> h_free (ch_items hp) a;
          cJSON_Delete (cj_next n) (hp\<lparr>ch_items := items\<rparr>) })"

section \<open>Reading arrays and objects\<close>

partial_function (option) count_items :: "addr ptr \<Rightarrow> nat \<Rightarrow> cheap \<Rightarrow> nat option" where
  "count_items child cnt hp =
     (case child of None \<Rightarrow> Some cnt
      | Some a \<Rightarrow> do { n \<leftarrow> ch_items hp a; count_items (cj_next n) (cnt + 1) hp })"

text \<open>The number of items as \<^verbatim>\<open>int\<close>; the theorems stay below its bound.\<close>

definition cJSON_GetArraySize :: "addr ptr \<Rightarrow> cheap \<Rightarrow> nat option" where
  "cJSON_GetArraySize array hp =
     (case array of None \<Rightarrow> Some 0
      | Some a \<Rightarrow> do { n \<leftarrow> ch_items hp a; count_items (cj_child n) 0 hp })"

fun walk_items :: "addr ptr \<Rightarrow> nat \<Rightarrow> cheap \<Rightarrow> addr ptr option" where
  "walk_items None i hp = Some None"
| "walk_items (Some a) 0 hp = Some (Some a)"
| "walk_items (Some a) (Suc i) hp = do { n \<leftarrow> ch_items hp a; walk_items (cj_next n) i hp }"

definition get_array_item :: "addr ptr \<Rightarrow> nat \<Rightarrow> cheap \<Rightarrow> addr ptr option" where
  "get_array_item array index hp =
     (case array of None \<Rightarrow> Some None
      | Some a \<Rightarrow> do { n \<leftarrow> ch_items hp a; walk_items (cj_child n) index hp })"

definition cJSON_GetArrayItem :: "addr ptr \<Rightarrow> int \<Rightarrow> cheap \<Rightarrow> addr ptr option" where
  "cJSON_GetArrayItem array index hp =
     (if index < 0 then Some None else get_array_item array (nat index) hp)"

definition tolower :: "char \<Rightarrow> int" where
  "tolower c = (let n = of_char c :: int in if 65 \<le> n \<and> n \<le> 90 then n + 32 else n)"

fun ci_compare :: "string \<Rightarrow> string \<Rightarrow> int" where
  "ci_compare [] [] = 0"
| "ci_compare [] (d # ds) = - tolower d"
| "ci_compare (c # cs) [] = tolower c"
| "ci_compare (c # cs) (d # ds) = (if tolower c = tolower d then ci_compare cs ds else tolower c - tolower d)"

definition case_insensitive_strcmp :: "string ptr \<Rightarrow> string ptr \<Rightarrow> int" where
  "case_insensitive_strcmp s1 s2 =
     (case (s1, s2) of (Some a, Some b) \<Rightarrow> ci_compare a b | _ \<Rightarrow> 1)"

definition read_str :: "addr ptr \<Rightarrow> cheap \<Rightarrow> string ptr option" where
  "read_str p hp = (case p of None \<Rightarrow> Some None | Some s \<Rightarrow> map_option Some (ch_strs hp s))"

text \<open>The two loops differ in the comparison, and on an item without a name.\<close>

partial_function (option) find_item :: "bool \<Rightarrow> string \<Rightarrow> addr ptr \<Rightarrow> cheap \<Rightarrow> addr ptr option" where
  "find_item case_sensitive name cur hp =
     (case cur of None \<Rightarrow> Some None
      | Some a \<Rightarrow> do {
          n \<leftarrow> ch_items hp a;
          s \<leftarrow> read_str (cd_string (cj_data n)) hp;
          if (if case_sensitive then s \<noteq> None \<and> s \<noteq> Some name
              else case_insensitive_strcmp (Some name) s \<noteq> 0)
          then find_item case_sensitive name (cj_next n) hp
          else Some (if s = None then None else Some a) })"

definition get_object_item :: "addr ptr \<Rightarrow> string ptr \<Rightarrow> bool \<Rightarrow> cheap \<Rightarrow> addr ptr option" where
  "get_object_item object name case_sensitive hp =
     (case (object, name) of
        (Some a, Some s) \<Rightarrow> do { n \<leftarrow> ch_items hp a; find_item case_sensitive s (cj_child n) hp }
      | _ \<Rightarrow> Some None)"

definition cJSON_GetObjectItem where
  "cJSON_GetObjectItem object name hp = get_object_item object name False hp"

definition cJSON_GetObjectItemCaseSensitive where
  "cJSON_GetObjectItemCaseSensitive object name hp = get_object_item object name True hp"

definition cJSON_HasObjectItem :: "addr ptr \<Rightarrow> string ptr \<Rightarrow> cheap \<Rightarrow> bool option" where
  "cJSON_HasObjectItem object name hp = map_option (\<lambda>p. p \<noteq> None) (cJSON_GetObjectItem object name hp)"

section \<open>Adding items\<close>

definition suffix_object :: "addr \<Rightarrow> addr \<Rightarrow> cheap \<Rightarrow> cheap option" where
  "suffix_object prev item hp = do {
     hp \<leftarrow> upd_item prev (\<lambda>n. n\<lparr>cj_next := Some item\<rparr>) hp;
     upd_item item (\<lambda>n. n\<lparr>cj_prev := Some prev\<rparr>) hp }"

definition create_reference :: "chooks \<Rightarrow> addr ptr \<Rightarrow> cheap \<Rightarrow> (addr ptr \<times> cheap) option" where
  "create_reference K item hp =
     (case item of None \<Rightarrow> Some (None, hp)
      | Some a \<Rightarrow>
         (case cJSON_New_Item K hp of
            (None, hp) \<Rightarrow> Some (None, hp)
          | (Some r, hp) \<Rightarrow> do {
              n \<leftarrow> ch_items hp a;
              hp \<leftarrow> upd_item r (\<lambda>_. n\<lparr>cj_data := (cj_data n)\<lparr>cd_string := None,
                        cd_type := cd_type (cj_data n) OR cJSON_IsReference\<rparr>,
                        cj_next := None, cj_prev := None\<rparr>) hp;
              Some (Some r, hp) }))"

partial_function (option) last_item :: "addr \<Rightarrow> cheap \<Rightarrow> addr option" where
  "last_item child hp = do {
     n \<leftarrow> ch_items hp child;
     (case cj_next n of None \<Rightarrow> Some child | Some c \<Rightarrow> last_item c hp) }"

definition add_item_to_array :: "addr ptr \<Rightarrow> addr ptr \<Rightarrow> cheap \<Rightarrow> (bool \<times> cheap) option" where
  "add_item_to_array array item hp =
     (case (item, array) of
        (Some i, Some a) \<Rightarrow> do {
          n \<leftarrow> ch_items hp a;
          hp \<leftarrow> (case cj_child n of
              None \<Rightarrow> upd_item a (\<lambda>n. n\<lparr>cj_child := item\<rparr>) hp
            | Some c \<Rightarrow> do { l \<leftarrow> last_item c hp; suffix_object l i hp });
          Some (True, hp) }
      | _ \<Rightarrow> Some (False, hp))"

definition cJSON_AddItemToArray :: "addr ptr \<Rightarrow> addr ptr \<Rightarrow> cheap \<Rightarrow> cheap option" where
  "cJSON_AddItemToArray array item hp = map_option snd (add_item_to_array array item hp)"

text \<open>The name is a string with the address it is at, which becomes the key when it is constant.\<close>

definition add_item_to_object ::
    "chooks \<Rightarrow> addr ptr \<Rightarrow> (addr \<times> string) ptr \<Rightarrow> addr ptr \<Rightarrow> bool \<Rightarrow> cheap \<Rightarrow> (bool \<times> cheap) option" where
  "add_item_to_object K object name item constant_key hp =
     (case (object, name, item) of
        (Some _, Some (ka, ks), Some i) \<Rightarrow> do {
          n \<leftarrow> ch_items hp i;
          let (new_key, new_type, hp) =
            (if constant_key then (Some ka, cd_type (cj_data n) OR cJSON_StringIsConst, hp)
             else (case cJSON_strdup K (Some ks) hp of
                     (k, hp) \<Rightarrow> (k, cd_type (cj_data n) AND NOT cJSON_StringIsConst, hp)));
          if new_key = None then Some (False, hp)
          else do {
            hp \<leftarrow> (if \<not> string_is_const (cj_data n) then free_str (cd_string (cj_data n)) hp else Some hp);
            hp \<leftarrow> upd_data i (\<lambda>d. d\<lparr>cd_string := new_key, cd_type := new_type\<rparr>) hp;
            add_item_to_array object item hp } }
      | _ \<Rightarrow> Some (False, hp))"

text \<open>Names that are copied are given by their characters alone.\<close>

definition add_named :: "chooks \<Rightarrow> addr ptr \<Rightarrow> string ptr \<Rightarrow> addr ptr \<Rightarrow> cheap \<Rightarrow> (bool \<times> cheap) option" where
  "add_named K object name item hp = add_item_to_object K object (map_option (Pair 0) name) item False hp"

definition cJSON_AddItemToObject :: "chooks \<Rightarrow> addr ptr \<Rightarrow> string ptr \<Rightarrow> addr ptr \<Rightarrow> cheap \<Rightarrow> cheap option" where
  "cJSON_AddItemToObject K object name item hp = map_option snd (add_named K object name item hp)"

definition cJSON_AddItemToObjectCS where
  "cJSON_AddItemToObjectCS K object name item hp = map_option snd (add_item_to_object K object name item True hp)"

definition cJSON_AddItemReferenceToArray :: "chooks \<Rightarrow> addr ptr \<Rightarrow> addr ptr \<Rightarrow> cheap \<Rightarrow> cheap option" where
  "cJSON_AddItemReferenceToArray K array item hp =
     (if array = None then Some hp
      else do { (r, hp) \<leftarrow> create_reference K item hp; map_option snd (add_item_to_array array r hp) })"

definition cJSON_AddItemReferenceToObject ::
    "chooks \<Rightarrow> addr ptr \<Rightarrow> string ptr \<Rightarrow> addr ptr \<Rightarrow> cheap \<Rightarrow> cheap option" where
  "cJSON_AddItemReferenceToObject K object name item hp =
     (if object = None \<or> name = None then Some hp
      else do { (r, hp) \<leftarrow> create_reference K item hp; map_option snd (add_named K object name r hp) })"

section \<open>Creating items\<close>

definition create_with :: "chooks \<Rightarrow> (cjson_data \<Rightarrow> cjson_data) \<Rightarrow> cheap \<Rightarrow> addr ptr \<times> cheap" where
  "create_with K f hp =
     (case cJSON_New_Item K hp of
        (None, hp) \<Rightarrow> (None, hp)
      | (Some a, hp) \<Rightarrow> (Some a, the (upd_data a f hp)))"

definition cJSON_CreateNull where "cJSON_CreateNull K = create_with K (\<lambda>d. d\<lparr>cd_type := cJSON_NULL\<rparr>)"
definition cJSON_CreateTrue where "cJSON_CreateTrue K = create_with K (\<lambda>d. d\<lparr>cd_type := cJSON_True\<rparr>)"
definition cJSON_CreateFalse where "cJSON_CreateFalse K = create_with K (\<lambda>d. d\<lparr>cd_type := cJSON_False\<rparr>)"
definition cJSON_CreateBool where
  "cJSON_CreateBool K b = create_with K (\<lambda>d. d\<lparr>cd_type := (if b then cJSON_True else cJSON_False)\<rparr>)"
definition cJSON_CreateArray where "cJSON_CreateArray K = create_with K (\<lambda>d. d\<lparr>cd_type := cJSON_Array\<rparr>)"
definition cJSON_CreateObject where "cJSON_CreateObject K = create_with K (\<lambda>d. d\<lparr>cd_type := cJSON_Object\<rparr>)"

text \<open>The integer value of a double, truncated towards zero and saturated.\<close>

primrec saturate_int :: "double \<Rightarrow> int" where
  "saturate_int (Fin num) =
     (if 2147483647 \<le> num then 2147483647
      else if num \<le> -2147483648 then -2147483648
      else if num < 0 then - \<lfloor>- num\<rfloor> else \<lfloor>num\<rfloor>)"
| "saturate_int NegZero = 0"
| "saturate_int (Inf neg) = (if neg then -2147483648 else 2147483647)"

definition cJSON_CreateNumber :: "chooks \<Rightarrow> double \<Rightarrow> cheap \<Rightarrow> addr ptr \<times> cheap" where
  "cJSON_CreateNumber K num = create_with K
     (\<lambda>d. d\<lparr>cd_type := cJSON_Number, cd_valuedouble := num, cd_valueint := saturate_int num\<rparr>)"

definition create_text :: "u32 \<Rightarrow> chooks \<Rightarrow> string ptr \<Rightarrow> cheap \<Rightarrow> (addr ptr \<times> cheap) option" where
  "create_text t K s hp =
     (case create_with K (\<lambda>d. d\<lparr>cd_type := t\<rparr>) hp of
        (None, hp) \<Rightarrow> Some (None, hp)
      | (Some a, hp) \<Rightarrow>
         (case cJSON_strdup K s hp of
            (None, hp) \<Rightarrow> do { hp \<leftarrow> cJSON_Delete (Some a) hp; Some (None, hp) }
          | (Some b, hp) \<Rightarrow> do {
              hp \<leftarrow> upd_data a (\<lambda>d. d\<lparr>cd_valuestring := Some b\<rparr>) hp;
              Some (Some a, hp) }))"

definition cJSON_CreateString where "cJSON_CreateString = create_text cJSON_String"
definition cJSON_CreateRaw where "cJSON_CreateRaw = create_text cJSON_Raw"

definition cJSON_CreateStringReference :: "chooks \<Rightarrow> addr ptr \<Rightarrow> cheap \<Rightarrow> addr ptr \<times> cheap" where
  "cJSON_CreateStringReference K s = create_with K
     (\<lambda>d. d\<lparr>cd_type := cJSON_String OR cJSON_IsReference, cd_valuestring := s\<rparr>)"

definition create_children_reference :: "u32 \<Rightarrow> chooks \<Rightarrow> addr ptr \<Rightarrow> cheap \<Rightarrow> addr ptr \<times> cheap" where
  "create_children_reference t K child hp =
     (case create_with K (\<lambda>d. d\<lparr>cd_type := t OR cJSON_IsReference\<rparr>) hp of
        (None, hp) \<Rightarrow> (None, hp)
      | (Some a, hp) \<Rightarrow> (Some a, the (upd_item a (\<lambda>n. n\<lparr>cj_child := child\<rparr>) hp)))"

definition cJSON_CreateObjectReference where "cJSON_CreateObjectReference = create_children_reference cJSON_Object"
definition cJSON_CreateArrayReference where "cJSON_CreateArrayReference = create_children_reference cJSON_Array"

text \<open>Creating a value and adding it to an object; it is deleted when it cannot be added.\<close>

definition add_created :: "chooks \<Rightarrow> addr ptr \<Rightarrow> string ptr \<Rightarrow> addr ptr \<times> cheap \<Rightarrow> (addr ptr \<times> cheap) option" where
  "add_created K object name c = do {
     (ok, hp) \<leftarrow> add_named K object name (fst c) (snd c);
     if ok then Some (fst c, hp)
     else do { hp \<leftarrow> cJSON_Delete (fst c) hp; Some (None, hp) } }"

definition cJSON_AddNullToObject where
  "cJSON_AddNullToObject K object name hp = add_created K object name (cJSON_CreateNull K hp)"
definition cJSON_AddTrueToObject where
  "cJSON_AddTrueToObject K object name hp = add_created K object name (cJSON_CreateTrue K hp)"
definition cJSON_AddFalseToObject where
  "cJSON_AddFalseToObject K object name hp = add_created K object name (cJSON_CreateFalse K hp)"
definition cJSON_AddBoolToObject where
  "cJSON_AddBoolToObject K object name b hp = add_created K object name (cJSON_CreateBool K b hp)"
definition cJSON_AddNumberToObject where
  "cJSON_AddNumberToObject K object name num hp = add_created K object name (cJSON_CreateNumber K num hp)"
definition cJSON_AddObjectToObject where
  "cJSON_AddObjectToObject K object name hp = add_created K object name (cJSON_CreateObject K hp)"
definition cJSON_AddArrayToObject where
  "cJSON_AddArrayToObject K object name hp = add_created K object name (cJSON_CreateArray K hp)"
definition cJSON_AddStringToObject :: "chooks \<Rightarrow> addr ptr \<Rightarrow> string ptr \<Rightarrow> string ptr \<Rightarrow> cheap \<Rightarrow> (addr ptr \<times> cheap) option" where
  "cJSON_AddStringToObject K object name s hp = do { c \<leftarrow> cJSON_CreateString K s hp; add_created K object name c }"
definition cJSON_AddRawToObject :: "chooks \<Rightarrow> addr ptr \<Rightarrow> string ptr \<Rightarrow> string ptr \<Rightarrow> cheap \<Rightarrow> (addr ptr \<times> cheap) option" where
  "cJSON_AddRawToObject K object name s hp = do { c \<leftarrow> cJSON_CreateRaw K s hp; add_created K object name c }"

section \<open>Detaching, inserting, replacing\<close>

definition upd_ptr :: "addr ptr \<Rightarrow> (cJSON \<Rightarrow> cJSON) \<Rightarrow> cheap \<Rightarrow> cheap option" where
  "upd_ptr p f hp = (case p of None \<Rightarrow> Some hp | Some a \<Rightarrow> upd_item a f hp)"

definition cJSON_DetachItemViaPointer :: "addr ptr \<Rightarrow> addr ptr \<Rightarrow> cheap \<Rightarrow> (addr ptr \<times> cheap) option" where
  "cJSON_DetachItemViaPointer parent item hp =
     (case (parent, item) of
        (Some p, Some i) \<Rightarrow> do {
          n \<leftarrow> ch_items hp i;
          hp \<leftarrow> upd_ptr (cj_prev n) (\<lambda>m. m\<lparr>cj_next := cj_next n\<rparr>) hp;
          n \<leftarrow> ch_items hp i;
          hp \<leftarrow> upd_ptr (cj_next n) (\<lambda>m. m\<lparr>cj_prev := cj_prev n\<rparr>) hp;
          n \<leftarrow> ch_items hp i;
          pn \<leftarrow> ch_items hp p;
          hp \<leftarrow> (if cj_child pn = item then upd_item p (\<lambda>m. m\<lparr>cj_child := cj_next n\<rparr>) hp else Some hp);
          hp \<leftarrow> upd_item i (\<lambda>m. m\<lparr>cj_prev := None, cj_next := None\<rparr>) hp;
          Some (item, hp) }
      | _ \<Rightarrow> Some (None, hp))"

definition cJSON_DetachItemFromArray :: "addr ptr \<Rightarrow> int \<Rightarrow> cheap \<Rightarrow> (addr ptr \<times> cheap) option" where
  "cJSON_DetachItemFromArray array which hp =
     (if which < 0 then Some (None, hp)
      else do { i \<leftarrow> get_array_item array (nat which) hp; cJSON_DetachItemViaPointer array i hp })"

definition cJSON_DeleteItemFromArray :: "addr ptr \<Rightarrow> int \<Rightarrow> cheap \<Rightarrow> cheap option" where
  "cJSON_DeleteItemFromArray array which hp =
     do { (i, hp) \<leftarrow> cJSON_DetachItemFromArray array which hp; cJSON_Delete i hp }"

definition cJSON_DetachItemFromObject :: "addr ptr \<Rightarrow> string ptr \<Rightarrow> cheap \<Rightarrow> (addr ptr \<times> cheap) option" where
  "cJSON_DetachItemFromObject object name hp =
     do { i \<leftarrow> cJSON_GetObjectItem object name hp; cJSON_DetachItemViaPointer object i hp }"

definition cJSON_DetachItemFromObjectCaseSensitive :: "addr ptr \<Rightarrow> string ptr \<Rightarrow> cheap \<Rightarrow> (addr ptr \<times> cheap) option" where
  "cJSON_DetachItemFromObjectCaseSensitive object name hp =
     do { i \<leftarrow> cJSON_GetObjectItemCaseSensitive object name hp; cJSON_DetachItemViaPointer object i hp }"

definition cJSON_DeleteItemFromObject :: "addr ptr \<Rightarrow> string ptr \<Rightarrow> cheap \<Rightarrow> cheap option" where
  "cJSON_DeleteItemFromObject object name hp =
     do { (i, hp) \<leftarrow> cJSON_DetachItemFromObject object name hp; cJSON_Delete i hp }"

definition cJSON_DeleteItemFromObjectCaseSensitive :: "addr ptr \<Rightarrow> string ptr \<Rightarrow> cheap \<Rightarrow> cheap option" where
  "cJSON_DeleteItemFromObjectCaseSensitive object name hp =
     do { (i, hp) \<leftarrow> cJSON_DetachItemFromObjectCaseSensitive object name hp; cJSON_Delete i hp }"

definition cJSON_InsertItemInArray :: "addr ptr \<Rightarrow> int \<Rightarrow> addr ptr \<Rightarrow> cheap \<Rightarrow> cheap option" where
  "cJSON_InsertItemInArray array which newitem hp =
     (if which < 0 then Some hp
      else do {
        after \<leftarrow> get_array_item array (nat which) hp;
        (case after of None \<Rightarrow> map_option snd (add_item_to_array array newitem hp)
         | Some f \<Rightarrow> do {
             i \<leftarrow> newitem;
             a \<leftarrow> array;
             fn \<leftarrow> ch_items hp f;
             hp \<leftarrow> upd_item i (\<lambda>m. m\<lparr>cj_next := after, cj_prev := cj_prev fn\<rparr>) hp;
             hp \<leftarrow> upd_item f (\<lambda>m. m\<lparr>cj_prev := newitem\<rparr>) hp;
             an \<leftarrow> ch_items hp a;
             if cj_child an = after then upd_item a (\<lambda>m. m\<lparr>cj_child := newitem\<rparr>) hp
             else do {
               n \<leftarrow> ch_items hp i;
               p \<leftarrow> cj_prev n;
               upd_item p (\<lambda>m. m\<lparr>cj_next := newitem\<rparr>) hp } }) })"

definition cJSON_ReplaceItemViaPointer :: "addr ptr \<Rightarrow> addr ptr \<Rightarrow> addr ptr \<Rightarrow> cheap \<Rightarrow> (bool \<times> cheap) option" where
  "cJSON_ReplaceItemViaPointer parent item replacement hp =
     (case (parent, replacement, item) of
        (Some p, Some r, Some i) \<Rightarrow>
          if r = i then Some (True, hp)
          else do {
            n \<leftarrow> ch_items hp i;
            hp \<leftarrow> upd_item r (\<lambda>m. m\<lparr>cj_next := cj_next n, cj_prev := cj_prev n\<rparr>) hp;
            hp \<leftarrow> upd_ptr (cj_next n) (\<lambda>m. m\<lparr>cj_prev := replacement\<rparr>) hp;
            rn \<leftarrow> ch_items hp r;
            hp \<leftarrow> upd_ptr (cj_prev rn) (\<lambda>m. m\<lparr>cj_next := replacement\<rparr>) hp;
            pn \<leftarrow> ch_items hp p;
            hp \<leftarrow> (if cj_child pn = item then upd_item p (\<lambda>m. m\<lparr>cj_child := replacement\<rparr>) hp else Some hp);
            hp \<leftarrow> upd_item i (\<lambda>m. m\<lparr>cj_next := None, cj_prev := None\<rparr>) hp;
            hp \<leftarrow> cJSON_Delete item hp;
            Some (True, hp) }
      | _ \<Rightarrow> Some (False, hp))"

definition cJSON_ReplaceItemInArray :: "addr ptr \<Rightarrow> int \<Rightarrow> addr ptr \<Rightarrow> cheap \<Rightarrow> cheap option" where
  "cJSON_ReplaceItemInArray array which newitem hp =
     (if which < 0 then Some hp
      else do {
        i \<leftarrow> get_array_item array (nat which) hp;
        map_option snd (cJSON_ReplaceItemViaPointer array i newitem hp) })"

text \<open>A name that cannot be copied is not noticed: the replacement then has none.\<close>

definition replace_item_in_object :: "chooks \<Rightarrow> addr ptr \<Rightarrow> string ptr \<Rightarrow> addr ptr \<Rightarrow> bool \<Rightarrow> cheap \<Rightarrow> (bool \<times> cheap) option" where
  "replace_item_in_object K object name replacement case_sensitive hp =
     (case (replacement, name) of
        (Some r, Some s) \<Rightarrow> do {
          n \<leftarrow> ch_items hp r;
          hp \<leftarrow> (if \<not> string_is_const (cj_data n) then free_str (cd_string (cj_data n)) hp else Some hp);
          let (k, hp) = cJSON_strdup K name hp;
          hp \<leftarrow> upd_data r (\<lambda>d. d\<lparr>cd_string := k, cd_type := cd_type d AND NOT cJSON_StringIsConst\<rparr>) hp;
          i \<leftarrow> get_object_item object name case_sensitive hp;
          (_, hp) \<leftarrow> cJSON_ReplaceItemViaPointer object i replacement hp;
          Some (True, hp) }
      | _ \<Rightarrow> Some (False, hp))"

definition cJSON_ReplaceItemInObject where
  "cJSON_ReplaceItemInObject K object name newitem hp = map_option snd (replace_item_in_object K object name newitem False hp)"

definition cJSON_ReplaceItemInObjectCaseSensitive where
  "cJSON_ReplaceItemInObjectCaseSensitive K object name newitem hp =
     map_option snd (replace_item_in_object K object name newitem True hp)"

section \<open>Copying\<close>

text \<open>
  The copy of an item without its children.  When there is no memory for one of its strings, the new
  item is released and the result is NULL.
\<close>

definition dup_strings :: "chooks \<Rightarrow> cjson_data \<Rightarrow> addr \<Rightarrow> cheap \<Rightarrow> (addr ptr \<times> cheap) option" where
  "dup_strings K d b hp = do {
     vs \<leftarrow> read_str (cd_valuestring d) hp;
     let (vp, hp) = cJSON_strdup K vs hp;
     hp \<leftarrow> upd_data b (\<lambda>e. e\<lparr>cd_valuestring := vp\<rparr>) hp;
     if cd_valuestring d \<noteq> None \<and> vp = None then do { hp \<leftarrow> cJSON_Delete (Some b) hp; Some (None, hp) }
     else do {
       (kp, hp) \<leftarrow> (if string_is_const d then Some (cd_string d, hp)
                    else do { ks \<leftarrow> read_str (cd_string d) hp; Some (cJSON_strdup K ks hp) });
       hp \<leftarrow> upd_data b (\<lambda>e. e\<lparr>cd_string := kp\<rparr>) hp;
       if cd_string d \<noteq> None \<and> kp = None then do { hp \<leftarrow> cJSON_Delete (Some b) hp; Some (None, hp) }
       else Some (Some b, hp) } }"

definition dup_item :: "chooks \<Rightarrow> addr \<Rightarrow> cheap \<Rightarrow> (addr ptr \<times> cheap) option" where
  "dup_item K a hp =
     (case cJSON_New_Item K hp of
        (None, hp) \<Rightarrow> Some (None, hp)
      | (Some b, hp) \<Rightarrow> do {
          n \<leftarrow> ch_items hp a;
          hp \<leftarrow> upd_data b (\<lambda>e. e\<lparr>cd_type := cd_type (cj_data n) AND NOT cJSON_IsReference,
                  cd_valueint := cd_valueint (cj_data n), cd_valuedouble := cd_valuedouble (cj_data n)\<rparr>) hp;
          dup_strings K (cj_data n) b hp })"

text \<open>The loop over the children of one item; \<open>last\<close> is the copy made last.\<close>

partial_function (option) dup_children ::
    "chooks \<Rightarrow> addr ptr \<Rightarrow> addr \<Rightarrow> addr ptr \<Rightarrow> cheap \<Rightarrow> (bool \<times> cheap) option" where
  "dup_children K child newitem lst hp =
     (case child of None \<Rightarrow> Some (True, hp)
      | Some c \<Rightarrow> do {
          (newchild, hp) \<leftarrow> dup_item K c hp;
          (case newchild of None \<Rightarrow> Some (False, hp)
           | Some nc \<Rightarrow> do {
               n \<leftarrow> ch_items hp c;
               (ok, hp) \<leftarrow> dup_children K (cj_child n) nc None hp;
               if \<not> ok then do { hp \<leftarrow> cJSON_Delete (Some nc) hp; Some (False, hp) }
               else do {
                 hp \<leftarrow> (case lst of
                     None \<Rightarrow> upd_item newitem (\<lambda>m. m\<lparr>cj_child := newchild\<rparr>) hp
                   | Some l \<Rightarrow> suffix_object l nc hp);
                 n \<leftarrow> ch_items hp c;
                 dup_children K (cj_next n) newitem newchild hp } }) })"

definition cJSON_Duplicate :: "chooks \<Rightarrow> addr ptr \<Rightarrow> bool \<Rightarrow> cheap \<Rightarrow> (addr ptr \<times> cheap) option" where
  "cJSON_Duplicate K item recurse hp =
     (case item of None \<Rightarrow> Some (None, hp)
      | Some a \<Rightarrow> do {
          (newitem, hp) \<leftarrow> dup_item K a hp;
          (case newitem of None \<Rightarrow> Some (None, hp)
           | Some b \<Rightarrow>
               if \<not> recurse then Some (newitem, hp)
               else do {
                 n \<leftarrow> ch_items hp a;
                 (ok, hp) \<leftarrow> dup_children K (cj_child n) b None hp;
                 if ok then Some (newitem, hp)
                 else do { hp \<leftarrow> cJSON_Delete newitem hp; Some (None, hp) } }) })"

end
