(* ===== verification/CJson_Tree.thy ===== *)
theory CJson_Tree
  imports CJson
begin

text \<open>
  What the tree operations of \<^verbatim>\<open>common/cjson/cJSON.c\<close> do on well-formed trees: a tree in the heap owns its
  items and strings, deleting it frees exactly these, editing by index is editing a list, and a copy
  is a tree of its own.
\<close>

section \<open>Trees in the heap\<close>

text \<open>
  A tree with the addresses of its items.  \<open>seg h p prev ts q\<close>: from \<open>p\<close> on there are exactly the items
  of the trees \<open>ts\<close>, linked in both directions; the first one's predecessor is \<open>prev\<close>, the last one's
  successor is \<open>q\<close>.
\<close>

datatype ltree = LT (lt_addr: addr) (lt_data: cjson_data) (lt_kids: "ltree list")

fun seg :: "(addr \<rightharpoonup> cJSON) \<Rightarrow> addr ptr \<Rightarrow> addr ptr \<Rightarrow> ltree list \<Rightarrow> addr ptr \<Rightarrow> bool" where
  "seg h p prev [] q \<longleftrightarrow> p = q"
| "seg h p prev (LT a d cs # ts) q \<longleftrightarrow> p = Some a \<and>
     (case h a of None \<Rightarrow> False
      | Some n \<Rightarrow> cj_prev n = prev \<and> cj_data n = d \<and> seg h (cj_child n) None cs None \<and> seg h (cj_next n) (Some a) ts q)"

abbreviation chain :: "(addr \<rightharpoonup> cJSON) \<Rightarrow> addr ptr \<Rightarrow> addr ptr \<Rightarrow> ltree list \<Rightarrow> bool" where
  "chain h p prev ts \<equiv> seg h p prev ts None"

fun addrs :: "ltree list \<Rightarrow> addr list" where
  "addrs [] = []"
| "addrs (LT a d cs # ts) = a # addrs cs @ addrs ts"

text \<open>The strings that belong to the items.\<close>

definition ptr_list :: "'a ptr \<Rightarrow> 'a list" where
  "ptr_list p = (case p of None \<Rightarrow> [] | Some s \<Rightarrow> [s])"

definition data_strs :: "cjson_data \<Rightarrow> addr list" where
  "data_strs d = ptr_list (cd_valuestring d) @ (if string_is_const d then [] else ptr_list (cd_string d))"

fun strs :: "ltree list \<Rightarrow> addr list" where
  "strs [] = []"
| "strs (LT a d cs # ts) = data_strs d @ strs cs @ strs ts"

fun no_refs :: "ltree list \<Rightarrow> bool" where
  "no_refs [] = True"
| "no_refs (LT a d cs # ts) \<longleftrightarrow> \<not> is_reference d \<and> no_refs cs \<and> no_refs ts"

definition owned :: "cheap \<Rightarrow> addr ptr \<Rightarrow> addr ptr \<Rightarrow> ltree list \<Rightarrow> bool" where
  "owned hp p prev ts \<longleftrightarrow> chain (ch_items hp) p prev ts \<and> distinct (addrs ts) \<and> distinct (strs ts)
     \<and> set (strs ts) \<subseteq> dom (ch_strs hp) \<and> no_refs ts"

lemma addrs_append [simp]: "addrs (ts @ us) = addrs ts @ addrs us"
  by (induction ts rule: addrs.induct) auto

lemma strs_append [simp]: "strs (ts @ us) = strs ts @ strs us"
  by (induction ts rule: strs.induct) auto

lemma no_refs_append [simp]: "no_refs (ts @ us) \<longleftrightarrow> no_refs ts \<and> no_refs us"
  by (induction ts rule: no_refs.induct) auto

lemma item_seg_cong:
  "(\<And>a. a \<in> set (addrs ts) \<Longrightarrow> h a = h' a) \<Longrightarrow> seg h p prev ts q = seg h' p prev ts q"
  by (induction ts arbitrary: p prev q rule: addrs.induct) (auto split: option.split)

lemma seg_upd_other [simp]: "a \<notin> set (addrs ts) \<Longrightarrow> seg (h(a := x)) p prev ts q = seg h p prev ts q"
  by (rule item_seg_cong) auto

lemma item_seg_dom: "seg h p prev ts q \<Longrightarrow> set (addrs ts) \<subseteq> dom h"
  by (induction h p prev ts q rule: seg.induct) (auto split: option.splits)

lemma chain_Nil_iff: "chain h None prev ts \<longleftrightarrow> ts = []"
  by (cases "(h, None :: addr ptr, prev, ts, None :: addr ptr)" rule: seg.cases) auto

definition end_of :: "addr ptr \<Rightarrow> ltree list \<Rightarrow> addr ptr" where
  "end_of prev ts = (if ts = [] then prev else Some (lt_addr (last ts)))"

lemma end_of_simps [simp]:
  "end_of prev [] = prev" "end_of prev (ts @ [t]) = Some (lt_addr t)"
  "end_of prev (t # ts) = end_of (Some (lt_addr t)) ts"
  by (simp_all add: end_of_def)

lemma item_seg_append:
  "seg h p prev (ts @ us) q \<longleftrightarrow> (\<exists>m. seg h p prev ts m \<and> seg h m (end_of prev ts) us q)"
proof (induction ts arbitrary: p prev)
  case (Cons t ts)
  then show ?case by (cases t) (auto split: option.splits)
qed auto

text \<open>Changing the link before and behind a segment.\<close>

lemma seg_set_prev:
  assumes "seg h p prev (t # ts) q" "distinct (addrs (t # ts))"
  shows "seg (h(lt_addr t \<mapsto> (the (h (lt_addr t)))\<lparr>cj_prev := r\<rparr>)) p r (t # ts) q"
  using assms by (cases t) (auto split: option.splits)

lemma seg_set_next:
  assumes "seg h p prev (ts @ [t]) q" "distinct (addrs (ts @ [t]))"
  shows "seg (h(lt_addr t \<mapsto> (the (h (lt_addr t)))\<lparr>cj_next := r\<rparr>)) p prev (ts @ [t]) r"
  using assms by (cases t) (auto simp: item_seg_append split: option.splits)

lemma cJSON_Delete_None [simp]: "cJSON_Delete None hp = Some hp"
  by (subst cJSON_Delete.simps) simp

lemma ptr_list_simps [simp]: "ptr_list None = []" "ptr_list (Some s) = [s]"
  by (simp_all add: ptr_list_def)

lemma restrict_UNIV [simp]: "m |` UNIV = m"
  by (simp add: restrict_map_def)

lemma free_str_owned:
  "set (ptr_list p) \<subseteq> dom (ch_strs hp) \<Longrightarrow>
   free_str p hp = Some (hp\<lparr>ch_strs := ch_strs hp |` (- set (ptr_list p))\<rparr>)"
  by (cases p) (auto simp: free_str_def mem_simps restrict_complement_singleton_eq)

text \<open>Deleting frees every item and every string of the trees, each once, and nothing else.\<close>

lemma cJSON_Delete_seg:
  "\<lbrakk>seg (ch_items hp) p prev ts q; distinct (addrs ts); distinct (strs ts); set (strs ts) \<subseteq> dom (ch_strs hp);
    no_refs ts\<rbrakk> \<Longrightarrow>
   cJSON_Delete p hp = cJSON_Delete q \<lparr>ch_items = ch_items hp |` (- set (addrs ts)), ch_strs = ch_strs hp |` (- set (strs ts))\<rparr>"
proof (induction ts arbitrary: p prev hp q rule: addrs.induct)
  case 1
  then show ?case by (cases hp) (simp add: restrict_map_def)
next
  case (2 a d cs ts)
  then obtain n where n: "p = Some a" "ch_items hp a = Some n" "cj_data n = d" "chain (ch_items hp) (cj_child n) None cs"
    "seg (ch_items hp) (cj_next n) (Some a) ts q" by (auto split: option.splits)
  have sub: "set (data_strs d) \<subseteq> dom (ch_strs hp)" "set (strs cs) \<subseteq> dom (ch_strs hp)" "set (strs ts) \<subseteq> dom (ch_strs hp)"
    and dist: "distinct (data_strs d)" "distinct (strs cs)" "distinct (strs ts)"
      "set (data_strs d) \<inter> set (strs cs) = {}" "set (data_strs d) \<inter> set (strs ts) = {}" "set (strs cs) \<inter> set (strs ts) = {}"
    and ad: "a \<notin> set (addrs cs)" "a \<notin> set (addrs ts)" "distinct (addrs cs)" "distinct (addrs ts)" "set (addrs cs) \<inter> set (addrs ts) = {}"
    and ref: "\<not> is_reference d" "no_refs cs" "no_refs ts"
    using 2(4-7) by auto
  define hp1 where "hp1 = \<lparr>ch_items = ch_items hp |` (- set (addrs cs)), ch_strs = ch_strs hp |` (- set (strs cs))\<rparr>"
  have kids: "(if \<not> is_reference (cj_data n) \<and> cj_child n \<noteq> None then cJSON_Delete (cj_child n) hp else Some hp) = Some hp1"
  proof (cases "cj_child n")
    case None
    with n(4) have "cs = []" by (simp add: chain_Nil_iff)
    with None show ?thesis by (simp add: hp1_def restrict_map_def)
  next
    case (Some c)
    with 2(1) [OF n(4) ad(3) dist(2) sub(2) ref(2)] ref n(3) show ?thesis by (simp add: hp1_def)
  qed
  define hp2 where "hp2 = hp1\<lparr>ch_strs := ch_strs hp1 |` (- set (data_strs d))\<rparr>"
  have n1: "ch_items hp1 a = Some n" using n(2) ad by (simp add: hp1_def)
  define sd where "sd = (if string_is_const d then None else cd_string d)"
  have ds: "data_strs d = ptr_list (cd_valuestring d) @ ptr_list sd" by (simp add: data_strs_def sd_def)
  have sub1: "set (ptr_list (cd_valuestring d)) \<subseteq> dom (ch_strs hp1)"
    "set (ptr_list sd) \<subseteq> dom (ch_strs hp1 |` (- set (ptr_list (cd_valuestring d))))"
    using sub(1) dist(1,4) unfolding ds hp1_def by (auto 0 4 simp: dom_def restrict_map_def)
  have strs: "do { hp \<leftarrow> (if \<not> is_reference d then free_str (cd_valuestring d) hp1 else Some hp1);
      (if \<not> string_is_const d then free_str (cd_string d) hp else Some hp) } = Some hp2"
  proof -
    have "(if \<not> string_is_const d then free_str (cd_string d) hp' else Some hp') = free_str sd hp'" for hp'
      by (simp add: sd_def free_str_def)
    moreover have "ch_strs hp1 |` (- set (data_strs d))
        = ch_strs hp1 |` (- set (ptr_list (cd_valuestring d))) |` (- set (ptr_list sd))"
      by (simp add: ds Compl_Un)
    ultimately show ?thesis using sub1 ref by (simp add: free_str_owned hp2_def)
  qed
  define hp3 where "hp3 = hp2\<lparr>ch_items := (ch_items hp2)(a := None)\<rparr>"
  have fr: "h_free (ch_items hp2) a = Some (ch_items hp3)" using n1 by (simp add: hp2_def hp3_def mem_simps)
  have "ch_items hp3 b = ch_items hp b" if "b \<in> set (addrs ts)" for b
    using that ad by (auto simp: hp3_def hp2_def hp1_def restrict_map_def)
  then have "seg (ch_items hp3) (cj_next n) (Some a) ts q" using n(5) item_seg_cong [of ts] by metis
  moreover have "set (strs ts) \<subseteq> dom (ch_strs hp3)"
    using sub dist by (auto simp: hp3_def hp2_def hp1_def dom_def restrict_map_def)
  ultimately have tl: "cJSON_Delete (cj_next n) hp3
      = cJSON_Delete q \<lparr>ch_items = ch_items hp3 |` (- set (addrs ts)), ch_strs = ch_strs hp3 |` (- set (strs ts))\<rparr>"
    using 2(2) ad(4) dist(3) ref(3) by blast
  have step: "cJSON_Delete p hp = cJSON_Delete (cj_next n) hp3"
    using n(1-3) kids n1 strs fr
    by (subst cJSON_Delete.simps) (auto simp: hp3_def hp2_def bind_eq_Some_conv split: if_splits)
  have "ch_items hp3 |` (- set (addrs ts)) = ch_items hp |` (- set (addrs (LT a d cs # ts)))"
    "ch_strs hp3 |` (- set (strs ts)) = ch_strs hp |` (- set (strs (LT a d cs # ts)))"
    by (auto simp: hp3_def hp2_def hp1_def restrict_map_def fun_eq_iff)
  with step tl show ?case by simp
qed

lemma cJSON_Delete_chain:
  "\<lbrakk>chain (ch_items hp) p prev ts; distinct (addrs ts); distinct (strs ts); set (strs ts) \<subseteq> dom (ch_strs hp);
    no_refs ts\<rbrakk> \<Longrightarrow>
   cJSON_Delete p hp = Some \<lparr>ch_items = ch_items hp |` (- set (addrs ts)), ch_strs = ch_strs hp |` (- set (strs ts))\<rparr>"
  by (simp add: cJSON_Delete_seg)

section \<open>Editing arrays\<close>

definition tree :: "cheap \<Rightarrow> ltree \<Rightarrow> bool" where
  "tree hp t \<longleftrightarrow> owned hp (Some (lt_addr t)) None [t]"

definition apart :: "ltree \<Rightarrow> ltree \<Rightarrow> bool" where
  "apart t u \<longleftrightarrow> set (addrs [t]) \<inter> set (addrs [u]) = {} \<and> set (strs [t]) \<inter> set (strs [u]) = {}"

text \<open>Only items of the given trees differ.\<close>

definition only_items :: "ltree list \<Rightarrow> cheap \<Rightarrow> cheap \<Rightarrow> bool" where
  "only_items ts hp hp' \<longleftrightarrow> ch_strs hp' = ch_strs hp \<and> (\<forall>a. a \<notin> set (addrs ts) \<longrightarrow> ch_items hp' a = ch_items hp a)"

lemma treeI:
  assumes "ch_items hp a = Some n" "cj_next n = None" "cj_prev n = None" "cj_data n = d" "chain (ch_items hp) (cj_child n) None ts"
    "distinct (a # addrs ts)" "distinct (data_strs d @ strs ts)" "set (data_strs d @ strs ts) \<subseteq> dom (ch_strs hp)"
    "\<not> is_reference d" "no_refs ts"
  shows "tree hp (LT a d ts)"
  using assms by (simp add: tree_def owned_def)

lemma treeE:
  assumes "tree hp (LT a d ts)"
  obtains n where "ch_items hp a = Some n" "cj_next n = None" "cj_prev n = None" "cj_data n = d"
    "chain (ch_items hp) (cj_child n) None ts"
    "a \<notin> set (addrs ts)" "distinct (addrs ts)" "distinct (data_strs d @ strs ts)"
    "set (data_strs d @ strs ts) \<subseteq> dom (ch_strs hp)" "\<not> is_reference d" "no_refs ts"
  using assms by (auto simp: tree_def owned_def split: option.splits)

lemma last_item_seg:
  "seg (ch_items hp) (Some c) prev ts None \<Longrightarrow> ts \<noteq> [] \<Longrightarrow> last_item c hp = Some (lt_addr (last ts))"
proof (induction ts arbitrary: c prev)
  case (Cons t ts)
  obtain a d cs where t: "t = LT a d cs" by (cases t)
  with Cons.prems(1) obtain n where n: "c = a" "ch_items hp a = Some n" "seg (ch_items hp) (cj_next n) (Some a) ts None"
    by (auto split: option.splits)
  show ?case
  proof (cases "cj_next n")
    case None
    with n t have "ts = []" by (simp add: chain_Nil_iff)
    with None n t show ?thesis by (subst last_item.simps) simp
  next
    case (Some b)
    with n have "ts \<noteq> []" by auto
    with Some n t Cons.IH [of b] show ?thesis by (subst last_item.simps) simp
  qed
qed simp

text \<open>
  Adding an item links it behind the last child and leaves its own successors linked: they become children
  too.
\<close>

lemma add_item_chain:
  assumes arr: "tree hp (LT a d ts)" and new: "chain (ch_items hp) (Some (lt_addr t)) pv (t # us)" "ts = [] \<longrightarrow> pv = None"
    and dist: "distinct (addrs (LT a d ts # t # us))" "distinct (strs (LT a d ts # t # us))"
      "set (strs (t # us)) \<subseteq> dom (ch_strs hp)" "no_refs (t # us)"
  shows "\<exists>hp'. add_item_to_array (Some a) (Some (lt_addr t)) hp = Some (True, hp')
     \<and> tree hp' (LT a d (ts @ t # us)) \<and> ch_strs hp' = ch_strs hp
     \<and> (\<forall>x. x \<notin> set (addrs [LT a d ts]) \<longrightarrow> x \<noteq> lt_addr t \<longrightarrow> ch_items hp' x = ch_items hp x)"
proof -
  obtain i e cs where t: "t = LT i e cs" by (cases t)
  obtain n where n: "ch_items hp a = Some n" "cj_next n = None" "cj_prev n = None" "cj_data n = d"
    "chain (ch_items hp) (cj_child n) None ts" "a \<notin> set (addrs ts)" "distinct (addrs ts)" "distinct (data_strs d @ strs ts)"
    "set (data_strs d @ strs ts) \<subseteq> dom (ch_strs hp)" "\<not> is_reference d" "no_refs ts" by (rule treeE [OF arr])
  obtain m where m: "ch_items hp i = Some m" "cj_prev m = pv" "cj_data m = e" "chain (ch_items hp) (cj_child m) None cs"
    "chain (ch_items hp) (cj_next m) (Some i) us"
    using new(1) t by (auto split: option.splits)
  have ap: "a \<noteq> i" "i \<notin> set (addrs ts)" "i \<notin> set (addrs cs)" "i \<notin> set (addrs us)"
    "set (addrs ts) \<inter> set (addrs cs) = {}" "set (addrs ts) \<inter> set (addrs us) = {}" "a \<notin> set (addrs cs)" "a \<notin> set (addrs us)"
    using dist(1) t by auto
  have dd: "distinct (a # addrs (ts @ t # us))" "distinct (data_strs d @ strs (ts @ t # us))"
    "set (data_strs d @ strs (ts @ t # us)) \<subseteq> dom (ch_strs hp)" "no_refs (ts @ t # us)"
    using n(9,11) dist t by auto
  show ?thesis
  proof (cases ts rule: rev_cases)
    case Nil
    then have c: "cj_child n = None" using n(5) by simp
    define hp' where "hp' = hp\<lparr>ch_items := (ch_items hp)(a \<mapsto> n\<lparr>cj_child := Some i\<rparr>)\<rparr>"
    have "add_item_to_array (Some a) (Some i) hp = Some (True, hp')"
      using n(1) c by (simp add: add_item_to_array_def upd_item_def hp'_def)
    moreover have "tree hp' (LT a d (ts @ t # us))"
      by (rule treeI [of _ _ "n\<lparr>cj_child := Some i\<rparr>"]) (use n m ap dd Nil t new(2) in \<open>simp_all add: hp'_def\<close>)
    ultimately show ?thesis using t by (intro exI [of _ hp']) (simp add: hp'_def)
  next
    case (snoc vs u)
    obtain l f ds where u: "u = LT l f ds" by (cases u)
    then obtain c where c: "cj_child n = Some c" using n(5) snoc by (cases "cj_child n") (auto simp: chain_Nil_iff)
    have lst: "last_item c hp = Some l" using last_item_seg [of hp c None ts] n(5) c snoc u by simp
    have "l \<in> dom (ch_items hp)" using item_seg_dom [OF n(5)] snoc u by auto
    then obtain k where k: "ch_items hp l = Some k" by auto
    have ne: "l \<noteq> a" "l \<noteq> i" "l \<notin> set (addrs cs)" "l \<notin> set (addrs us)" using n(6) ap snoc u by auto
    define h1 where "h1 = (ch_items hp)(l \<mapsto> k\<lparr>cj_next := Some i\<rparr>)"
    define hp' where "hp' = hp\<lparr>ch_items := h1(i \<mapsto> m\<lparr>cj_prev := Some l\<rparr>)\<rparr>"
    have run: "add_item_to_array (Some a) (Some i) hp = Some (True, hp')"
      using n(1) c lst k m(1) ne by (simp add: add_item_to_array_def suffix_object_def upd_item_def hp'_def h1_def)
    have "seg h1 (Some c) None (vs @ [u]) (Some i)"
      using seg_set_next [of "ch_items hp" "Some c" None vs u None "Some i"] n(5,7) snoc c u k by (simp add: h1_def)
    then have "seg (ch_items hp') (Some c) None ts (Some i)" using ap snoc by (simp add: hp'_def)
    moreover have "chain (ch_items hp') (Some i) (Some l) (t # us)"
      using m ne ap t by (simp add: hp'_def h1_def)
    moreover have "end_of None ts = Some l" using snoc u by simp
    ultimately have "chain (ch_items hp') (Some c) None (ts @ t # us)" unfolding item_seg_append by metis
    then have "tree hp' (LT a d (ts @ t # us))"
      by (intro treeI [of _ _ n]) (use n ap dd c ne in \<open>simp_all add: hp'_def h1_def\<close>)
    moreover have "ch_items hp' x = ch_items hp x" if "x \<notin> set (addrs [LT a d ts])" "x \<noteq> i" for x
      using that snoc u by (simp add: hp'_def h1_def)
    ultimately show ?thesis using t run by (intro exI [of _ hp']) (simp add: hp'_def)
  qed
qed

lemma add_item_to_array_tree:
  assumes arr: "tree hp (LT a d ts)" and new: "tree hp t" and ap: "apart (LT a d ts) t"
  shows "\<exists>hp'. add_item_to_array (Some a) (Some (lt_addr t)) hp = Some (True, hp')
     \<and> tree hp' (LT a d (ts @ [t])) \<and> only_items [LT a d ts, t] hp hp'"
proof -
  have n: "chain (ch_items hp) (Some (lt_addr t)) None [t]" "distinct (addrs [t])" "distinct (strs [t])"
    "set (strs [t]) \<subseteq> dom (ch_strs hp)" "no_refs [t]"
    using new unfolding tree_def owned_def by simp_all
  have "distinct (addrs [LT a d ts])" "distinct (strs [LT a d ts])" using arr unfolding tree_def owned_def by simp_all
  then have "distinct (addrs ([LT a d ts] @ [t]))" "distinct (strs ([LT a d ts] @ [t]))"
    using n(2,3) ap unfolding addrs_append strs_append distinct_append apart_def by simp_all
  then obtain hp' where h: "add_item_to_array (Some a) (Some (lt_addr t)) hp = Some (True, hp')"
    "tree hp' (LT a d (ts @ [t]))" "ch_strs hp' = ch_strs hp"
    "\<forall>x. x \<notin> set (addrs [LT a d ts]) \<longrightarrow> x \<noteq> lt_addr t \<longrightarrow> ch_items hp' x = ch_items hp x"
    using add_item_chain [OF arr n(1)] n(4,5) by auto
  have "only_items [LT a d ts, t] hp hp'" using h(3,4) by (cases t) (auto simp: only_items_def)
  with h show ?thesis by blast
qed

lemma walk_items_seg:
  "seg (ch_items hp) p prev ts None \<Longrightarrow>
   walk_items p i hp = Some (if i < length ts then Some (lt_addr (ts ! i)) else None)"
proof (induction ts arbitrary: p prev i)
  case (Cons t ts)
  obtain a d cs where t: "t = LT a d cs" by (cases t)
  with Cons.prems obtain n where "p = Some a" "ch_items hp a = Some n" "seg (ch_items hp) (cj_next n) (Some a) ts None"
    by (auto split: option.splits)
  with Cons.IH t show ?case by (cases i) auto
qed auto

lemma get_array_item_tree:
  "tree hp (LT a d ts) \<Longrightarrow>
   get_array_item (Some a) i hp = Some (if i < length ts then Some (lt_addr (ts ! i)) else None)"
  by (erule treeE) (simp add: get_array_item_def walk_items_seg)

lemma only_itemsD: "only_items ts hp hp' \<Longrightarrow> a \<notin> set (addrs ts) \<Longrightarrow> ch_items hp' a = ch_items hp a"
  by (simp add: only_items_def)

lemma seg_only_items:
  "only_items us hp hp' \<Longrightarrow> set (addrs ts) \<inter> set (addrs us) = {} \<Longrightarrow>
   seg (ch_items hp') p prev ts q = seg (ch_items hp) p prev ts q"
  by (rule item_seg_cong) (auto simp: only_items_def)

text \<open>Writing the link behind a segment and the link before one.\<close>

lemma upd_ptr_end:
  assumes "seg (ch_items hp) p None us m" "distinct (addrs us)"
  obtains hp' where "upd_ptr (end_of None us) (\<lambda>k. k\<lparr>cj_next := q\<rparr>) hp = Some hp'"
    "seg (ch_items hp') (if us = [] then q else p) None us q" "only_items us hp hp'"
proof (cases us rule: rev_cases)
  case Nil
  then show ?thesis using that [of hp] by (simp add: upd_ptr_def only_items_def)
next
  case (snoc ws u)
  have "lt_addr u \<in> dom (ch_items hp)" using item_seg_dom [OF assms(1)] snoc by (cases u) auto
  then obtain k where k: "ch_items hp (lt_addr u) = Some k" by auto
  have mem: "lt_addr u \<in> set (addrs us)" using snoc by (cases u) auto
  show ?thesis
    by (rule that [of "hp\<lparr>ch_items := (ch_items hp)(lt_addr u \<mapsto> k\<lparr>cj_next := q\<rparr>)\<rparr>"])
      (use k mem snoc assms seg_set_next [of "ch_items hp" p None ws u m q] in
        \<open>auto simp: upd_ptr_def upd_item_def only_items_def\<close>)
qed

lemma upd_ptr_start:
  assumes "seg (ch_items hp) q x vs None" "distinct (addrs vs)"
  obtains hp' where "upd_ptr q (\<lambda>k. k\<lparr>cj_prev := r\<rparr>) hp = Some hp'"
    "seg (ch_items hp') q r vs None" "only_items vs hp hp'"
proof (cases vs)
  case Nil
  then show ?thesis using that [of hp] assms by (simp add: upd_ptr_def only_items_def)
next
  case (Cons v ws)
  then have q: "q = Some (lt_addr v)" using assms(1) by (cases v) simp
  have "lt_addr v \<in> dom (ch_items hp)" using item_seg_dom [OF assms(1)] Cons by (cases v) auto
  then obtain k where k: "ch_items hp (lt_addr v) = Some k" by auto
  have mem: "lt_addr v \<in> set (addrs vs)" using Cons by (cases v) auto
  show ?thesis
    by (rule that [of "hp\<lparr>ch_items := (ch_items hp)(lt_addr v \<mapsto> k\<lparr>cj_prev := r\<rparr>)\<rparr>"])
      (use k q mem Cons assms seg_set_prev [of "ch_items hp" q x v ws None r] in
        \<open>auto simp: upd_ptr_def upd_item_def only_items_def\<close>)
qed

lemma addr_mem: "lt_addr t \<in> set (addrs [t])"
  by (cases t) simp

lemma first_child:
  assumes "chain h p None (us @ t # vs)" "lt_addr t \<notin> set (addrs us)"
  shows "p = Some (lt_addr t) \<longleftrightarrow> us = []"
proof (cases us)
  case Nil
  then show ?thesis using assms by (cases t) simp
next
  case (Cons u ws)
  then have "p = Some (lt_addr u)" using assms by (cases u) simp
  then show ?thesis using assms(2) Cons by (cases u) auto
qed

lemma detach_tree:
  assumes arr: "tree hp (LT a d (us @ t # vs))"
  shows "\<exists>hp'. cJSON_DetachItemViaPointer (Some a) (Some (lt_addr t)) hp = Some (Some (lt_addr t), hp')
     \<and> tree hp' (LT a d (us @ vs)) \<and> tree hp' t \<and> only_items [LT a d (us @ t # vs)] hp hp'"
proof -
  obtain i e cs where t: "t = LT i e cs" by (cases t)
  obtain n where n: "ch_items hp a = Some n" "cj_next n = None" "cj_prev n = None" "cj_data n = d"
    "chain (ch_items hp) (cj_child n) None (us @ t # vs)" "a \<notin> set (addrs (us @ t # vs))" "distinct (addrs (us @ t # vs))"
    "distinct (data_strs d @ strs (us @ t # vs))"
    "set (data_strs d @ strs (us @ t # vs)) \<subseteq> dom (ch_strs hp)" "\<not> is_reference d" "no_refs (us @ t # vs)"
    by (rule treeE [OF arr])
  have D: "a \<noteq> i" "a \<notin> set (addrs us)" "a \<notin> set (addrs cs)" "a \<notin> set (addrs vs)" "i \<notin> set (addrs us)" "i \<notin> set (addrs cs)"
    "i \<notin> set (addrs vs)" "distinct (addrs us)" "distinct (addrs cs)" "distinct (addrs vs)"
    "set (addrs us) \<inter> set (addrs cs) = {}" "set (addrs us) \<inter> set (addrs vs) = {}" "set (addrs cs) \<inter> set (addrs vs) = {}"
    using n(6,7) t by auto
  obtain k where k: "seg (ch_items hp) (cj_child n) None us (Some i)" "ch_items hp i = Some k" "cj_prev k = end_of None us"
    "cj_data k = e" "chain (ch_items hp) (cj_child k) None cs" "chain (ch_items hp) (cj_next k) (Some i) vs"
    using n(5) t by (auto simp: item_seg_append split: option.splits)
  obtain h1 where h1: "upd_ptr (cj_prev k) (\<lambda>m. m\<lparr>cj_next := cj_next k\<rparr>) hp = Some h1"
    "seg (ch_items h1) (if us = [] then cj_next k else cj_child n) None us (cj_next k)" "only_items us hp h1"
    using upd_ptr_end [OF k(1) D(8)] k(3) by metis
  have k1: "ch_items h1 i = Some k" "ch_items h1 a = Some n" "chain (ch_items h1) (cj_next k) (Some i) vs"
    using only_itemsD [OF h1(3)] seg_only_items [OF h1(3), of vs] D k n(1) by (auto simp: Int_commute)
  obtain h2 where h2: "upd_ptr (cj_next k) (\<lambda>m. m\<lparr>cj_prev := cj_prev k\<rparr>) h1 = Some h2"
    "chain (ch_items h2) (cj_next k) (cj_prev k) vs" "only_items vs h1 h2"
    using upd_ptr_start [OF k1(3) D(10)] by metis
  have k2: "ch_items h2 i = Some k" "ch_items h2 a = Some n"
    using only_itemsD [OF h2(3)] D k1 by auto
  have us2: "seg (ch_items h2) (if us = [] then cj_next k else cj_child n) None us (cj_next k)"
    using seg_only_items [OF h2(3), of us] D h1(2) by simp
  have cs2: "chain (ch_items h2) (cj_child k) None cs"
    using seg_only_items [OF h2(3), of cs] seg_only_items [OF h1(3), of cs] D k(5) by (simp add: Int_commute)
  have fc: "cj_child n = Some i \<longleftrightarrow> us = []" using first_child [OF n(5)] D t by simp
  define c' where "c' = (if us = [] then cj_next k else cj_child n)"
  define hp' where "hp' = h2\<lparr>ch_items := (ch_items h2)(a \<mapsto> n\<lparr>cj_child := c'\<rparr>, i \<mapsto> k\<lparr>cj_prev := None, cj_next := None\<rparr>)\<rparr>"
  have S: "distinct (data_strs d @ strs (us @ vs))" "set (data_strs d @ strs (us @ vs)) \<subseteq> dom (ch_strs hp)" "no_refs (us @ vs)"
    "distinct (data_strs e @ strs cs)" "set (data_strs e @ strs cs) \<subseteq> dom (ch_strs hp)" "\<not> is_reference e" "no_refs cs"
    using n(8-11) t by auto
  have strs': "ch_strs hp' = ch_strs hp" using h1(3) h2(3) by (simp add: only_items_def hp'_def)
  have n_same: "n\<lparr>cj_child := cj_child n\<rparr> = n" by simp
  have run: "cJSON_DetachItemViaPointer (Some a) (Some i) hp = Some (Some i, hp')"
    using k(2) h1(1) k1(1) h2(1) k2 fc D(1) n_same
    by (auto simp: cJSON_DetachItemViaPointer_def upd_item_def hp'_def c'_def fun_upd_idem)
  have "chain (ch_items h2) c' None (us @ vs)"
    using us2 h2(2) k(3) unfolding c'_def item_seg_append by auto
  then have "chain (ch_items hp') c' None (us @ vs)" using D by (simp add: hp'_def)
  then have t1: "tree hp' (LT a d (us @ vs))"
    by (intro treeI [of _ _ "n\<lparr>cj_child := c'\<rparr>"])
      (use n(1-4,10) D S strs' in \<open>simp_all add: hp'_def\<close>)
  have "chain (ch_items hp') (cj_child k) None cs" using cs2 D by (simp add: hp'_def)
  then have t2: "tree hp' t" unfolding t
    by (intro treeI [of _ _ "k\<lparr>cj_prev := None, cj_next := None\<rparr>"])
      (use D k(4) S strs' in \<open>simp_all add: hp'_def\<close>)
  have "only_items [LT a d (us @ t # vs)] hp hp'"
    using h1(3) h2(3) t by (auto simp: only_items_def hp'_def)
  with run t1 t2 t show ?thesis by auto
qed

lemma detach_apart:
  assumes "tree hp (LT a d (us @ t # vs))"
  shows "apart (LT a d (us @ vs)) t"
proof -
  obtain i e cs where t: "t = LT i e cs" by (cases t)
  show ?thesis using assms by (auto elim!: treeE simp: apart_def t)
qed

text \<open>The links of a new item between two segments, the parent's first-child link included.\<close>

lemma tree_link_between:
  assumes h: "ch_items h a = Some n" "cj_next n = None" "cj_prev n = None" "cj_data n = d"
      "seg (ch_items h) (if us = [] then Some (lt_addr t) else p) None us (Some (lt_addr t))"
      "chain (ch_items h) q (Some (lt_addr t)) vs"
      "ch_items h (lt_addr t) = Some m" "cj_next m = q" "cj_prev m = end_of None us" "cj_data m = lt_data t"
      "chain (ch_items h) (cj_child m) None (lt_kids t)"
    and D: "distinct (a # addrs (us @ t # vs))" "distinct (data_strs d @ strs (us @ t # vs))"
      "set (data_strs d @ strs (us @ t # vs)) \<subseteq> dom (ch_strs h)" "\<not> is_reference d" "no_refs (us @ t # vs)"
    and c: "cj_child n = (if us = [] then Some (lt_addr t) else p)"
  shows "tree h (LT a d (us @ t # vs))"
proof -
  have "seg (ch_items h) (Some (lt_addr t)) (end_of None us) (t # vs) None"
    using h by (cases t) simp
  then have "chain (ch_items h) (cj_child n) None (us @ t # vs)" using h(5) unfolding c item_seg_append by blast
  then show ?thesis using h D by (intro treeI [of _ _ n]) simp_all
qed

lemma insert_tree:
  assumes arr: "tree hp (LT a d (us @ ws))" and new: "tree hp t" and ap: "apart (LT a d (us @ ws)) t"
  shows "\<exists>hp'. cJSON_InsertItemInArray (Some a) (int (length us)) (Some (lt_addr t)) hp = Some hp'
     \<and> tree hp' (LT a d (us @ t # ws)) \<and> only_items [LT a d (us @ ws), t] hp hp'"
proof (cases ws)
  case Nil
  then have "get_array_item (Some a) (length us) hp = Some None" using get_array_item_tree [OF arr] by simp
  with Nil add_item_to_array_tree [OF arr new ap] show ?thesis by (auto simp: cJSON_InsertItemInArray_def)
next
  case (Cons f vs)
  obtain i e cs where t: "t = LT i e cs" by (cases t)
  obtain n where n: "ch_items hp a = Some n" "cj_next n = None" "cj_prev n = None" "cj_data n = d"
    "chain (ch_items hp) (cj_child n) None (us @ ws)" "a \<notin> set (addrs (us @ ws))" "distinct (addrs (us @ ws))"
    "distinct (data_strs d @ strs (us @ ws))"
    "set (data_strs d @ strs (us @ ws)) \<subseteq> dom (ch_strs hp)" "\<not> is_reference d" "no_refs (us @ ws)"
    by (rule treeE [OF arr])
  obtain m where m: "ch_items hp i = Some m" "cj_next m = None" "cj_prev m = None" "cj_data m = e"
    "chain (ch_items hp) (cj_child m) None cs" "i \<notin> set (addrs cs)" "distinct (addrs cs)" "distinct (data_strs e @ strs cs)"
    "set (data_strs e @ strs cs) \<subseteq> dom (ch_strs hp)" "\<not> is_reference e" "no_refs cs" using new t treeE by metis
  have A: "i \<noteq> a" "a \<notin> set (addrs cs)" "a \<notin> set (addrs us)" "a \<notin> set (addrs ws)" "i \<notin> set (addrs us)" "i \<notin> set (addrs ws)"
    "distinct (addrs us)" "distinct (addrs ws)" "set (addrs us) \<inter> set (addrs ws) = {}" "set (addrs us) \<inter> set (addrs cs) = {}"
    "set (addrs ws) \<inter> set (addrs cs) = {}" "set (data_strs d @ strs (us @ ws)) \<inter> set (data_strs e @ strs cs) = {}"
    using n(6,7) ap t by (auto simp: apart_def)
  have dist: "distinct (a # addrs (us @ t # ws))" "distinct (data_strs d @ strs (us @ t # ws))"
    "set (data_strs d @ strs (us @ t # ws)) \<subseteq> dom (ch_strs hp)" "no_refs (us @ t # ws)"
    using n(8-11) m A t by auto
  obtain q where q: "seg (ch_items hp) (cj_child n) None us q" "chain (ch_items hp) q (end_of None us) ws"
    using n(5) by (auto simp: item_seg_append)
  define b where "b = lt_addr f"
  have qb: "q = Some b" and b: "b \<in> set (addrs ws)" using q(2) Cons by (cases f; simp add: b_def)+
  then have bA: "b \<noteq> a" "b \<noteq> i" "b \<notin> set (addrs us)" using A by auto
  have after: "get_array_item (Some a) (length us) hp = Some (Some b)"
    using get_array_item_tree [OF arr] Cons by (simp add: b_def)
  obtain fn where fn: "ch_items hp b = Some fn" "cj_prev fn = end_of None us"
    using q(2) Cons qb by (cases f) (auto split: option.splits)
  define h1 where "h1 = hp\<lparr>ch_items := (ch_items hp)(i \<mapsto> m\<lparr>cj_next := Some b, cj_prev := end_of None us\<rparr>)\<rparr>"
  have "chain (ch_items h1) q (end_of None us) ws" using q(2) A by (simp add: h1_def)
  then obtain h2 where h2: "upd_ptr q (\<lambda>k. k\<lparr>cj_prev := Some i\<rparr>) h1 = Some h2" "chain (ch_items h2) q (Some i) ws"
    "only_items ws h1 h2" by (rule upd_ptr_start [OF _ A(8)])
  have items2: "ch_items h2 c = ch_items hp c" if "c \<noteq> i" "c \<notin> set (addrs ws)" for c
    using that h2(3) by (simp add: only_items_def h1_def)
  have i2: "ch_items h2 i = Some (m\<lparr>cj_next := Some b, cj_prev := end_of None us\<rparr>)"
    using h2(3) A by (simp add: only_items_def h1_def)
  have a2: "ch_items h2 a = Some n" using items2 A n(1) by simp
  have "ch_items hp c = ch_items h2 c" if "c \<in> set (addrs us)" for c
  proof -
    have "c \<noteq> i" "c \<notin> set (addrs ws)" using that A(5,9) by auto
    then show ?thesis by (simp add: items2)
  qed
  then have us2: "seg (ch_items h2) (cj_child n) None us q" by (rule item_seg_cong [THEN iffD1, OF _ q(1)])
  have "ch_items hp c = ch_items h2 c" if "c \<in> set (addrs cs)" for c
  proof -
    have "c \<noteq> i" "c \<notin> set (addrs ws)" using that A(11) m(6) by auto
    then show ?thesis by (simp add: items2)
  qed
  then have cs2: "chain (ch_items h2) (cj_child m) None cs" by (rule item_seg_cong [THEN iffD1, OF _ m(5)])
  have fc: "cj_child n = Some b \<longleftrightarrow> us = []"
    using first_child [of "ch_items hp" "cj_child n" us f vs] n(5) bA Cons by (simp add: b_def)
  obtain h3 where h3: "upd_ptr (end_of None us) (\<lambda>k. k\<lparr>cj_next := Some i\<rparr>) h2 = Some h3"
    "seg (ch_items h3) (if us = [] then Some i else cj_child n) None us (Some i)" "only_items us h2 h3"
    by (rule upd_ptr_end [OF us2 A(7)])
  define n' where "n' = (if us = [] then n\<lparr>cj_child := Some i\<rparr> else n)"
  define hp' where "hp' = h3\<lparr>ch_items := (ch_items h3)(a \<mapsto> n')\<rparr>"
  have a3: "ch_items h3 a = Some n" using h3(3) a2 A by (simp add: only_items_def)
  have run: "cJSON_InsertItemInArray (Some a) (int (length us)) (Some i) hp = Some hp'"
  proof (cases "us = []")
    case True
    then have "h3 = h2" using h3(1) by (simp add: upd_ptr_def)
    then show ?thesis using True after fn m(1) h2(1) qb a2 fc
      by (simp add: cJSON_InsertItemInArray_def upd_item_def upd_ptr_def h1_def hp'_def n'_def)
  next
    case False
    then obtain l where l: "end_of None us = Some l" by (auto simp: end_of_def)
    have "hp' = h3" using False a3 by (simp add: hp'_def n'_def fun_upd_idem)
    then show ?thesis using False after fn m(1) h2(1) qb a2 fc i2 h3(1) l
      by (simp add: cJSON_InsertItemInArray_def upd_item_def [of i] upd_ptr_def h1_def)
  qed
  have "tree hp' (LT a d (us @ t # ws))"
  proof (rule tree_link_between [where n = n' and p = "cj_child n" and q = q and
        m = "m\<lparr>cj_next := Some b, cj_prev := end_of None us\<rparr>"])
    show "seg (ch_items hp') (if us = [] then Some (lt_addr t) else cj_child n) None us (Some (lt_addr t))"
      using h3(2) A(3) t by (cases "us = []") (simp_all add: hp'_def)
    show "chain (ch_items hp') q (Some (lt_addr t)) ws"
      using h2(2) seg_only_items [OF h3(3), of ws q "Some i" None] A t by (simp add: hp'_def Int_commute)
    show "chain (ch_items hp') (cj_child (m\<lparr>cj_next := Some b, cj_prev := end_of None us\<rparr>)) None (lt_kids t)"
      using cs2 seg_only_items [OF h3(3), of cs] A t by (simp add: hp'_def Int_commute)
    show "ch_items hp' (lt_addr t) = Some (m\<lparr>cj_next := Some b, cj_prev := end_of None us\<rparr>)"
      using i2 h3(3) A t by (simp add: hp'_def only_items_def)
    have "ch_strs hp' = ch_strs hp" using h2(3) h3(3) by (simp add: hp'_def only_items_def h1_def)
    then show "set (data_strs d @ strs (us @ t # ws)) \<subseteq> dom (ch_strs hp')" using dist(3) by simp
  qed (use n(2-4,10) m(4) dist qb t in \<open>simp_all add: hp'_def n'_def\<close>)
  moreover have "only_items [LT a d (us @ ws), t] hp hp'"
    using h2(3) h3(3) t by (auto simp: only_items_def hp'_def h1_def)
  ultimately show ?thesis using run t by auto
qed

lemma tree_restrict:
  assumes "tree hp t" "set (addrs [t]) \<inter> A = {}" "set (strs [t]) \<inter> B = {}"
  shows "tree \<lparr>ch_items = ch_items hp |` (- A), ch_strs = ch_strs hp |` (- B)\<rparr> t"
proof -
  have "chain (ch_items hp |` (- A)) (Some (lt_addr t)) None [t]"
  proof (rule item_seg_cong [THEN iffD1])
    show "chain (ch_items hp) (Some (lt_addr t)) None [t]" using assms(1) by (simp add: tree_def owned_def)
    show "ch_items hp c = (ch_items hp |` (- A)) c" if "c \<in> set (addrs [t])" for c
      using that assms(2) by (metis ComplI disjoint_iff restrict_in)
  qed
  then show ?thesis using assms unfolding tree_def owned_def by (auto simp del: seg.simps addrs.simps strs.simps)
qed

lemma replace_tree:
  assumes arr: "tree hp (LT a d (us @ t # vs))" and new: "tree hp r" and ap: "apart (LT a d (us @ t # vs)) r"
  shows "\<exists>hp'. cJSON_ReplaceItemViaPointer (Some a) (Some (lt_addr t)) (Some (lt_addr r)) hp = Some (True, hp')
     \<and> tree hp' (LT a d (us @ r # vs)) \<and> ch_strs hp' = ch_strs hp |` (- set (strs [t]))
     \<and> (\<forall>c \<in> set (addrs [t]). ch_items hp' c = None)
     \<and> (\<forall>c. c \<notin> set (addrs [LT a d (us @ t # vs), r]) \<longrightarrow> ch_items hp' c = ch_items hp c)"
proof -
  obtain i e cs where t: "t = LT i e cs" by (cases t)
  obtain j g ds where r: "r = LT j g ds" by (cases r)
  obtain n where n: "ch_items hp a = Some n" "cj_next n = None" "cj_prev n = None" "cj_data n = d"
    "chain (ch_items hp) (cj_child n) None (us @ t # vs)" "a \<notin> set (addrs (us @ t # vs))" "distinct (addrs (us @ t # vs))"
    "distinct (data_strs d @ strs (us @ t # vs))"
    "set (data_strs d @ strs (us @ t # vs)) \<subseteq> dom (ch_strs hp)" "\<not> is_reference d" "no_refs (us @ t # vs)"
    by (rule treeE [OF arr])
  obtain m where m: "ch_items hp j = Some m" "cj_next m = None" "cj_prev m = None" "cj_data m = g"
    "chain (ch_items hp) (cj_child m) None ds" "j \<notin> set (addrs ds)" "distinct (addrs ds)" "distinct (data_strs g @ strs ds)"
    "set (data_strs g @ strs ds) \<subseteq> dom (ch_strs hp)" "\<not> is_reference g" "no_refs ds" using new r treeE by metis
  have A: "j \<noteq> a" "a \<notin> set (addrs ds)" "a \<notin> set (addrs us)" "a \<notin> set (addrs vs)" "j \<notin> set (addrs us)" "j \<notin> set (addrs vs)"
    "distinct (addrs us)" "distinct (addrs vs)" "set (addrs us) \<inter> set (addrs vs) = {}" "set (addrs us) \<inter> set (addrs ds) = {}"
    "set (addrs vs) \<inter> set (addrs ds) = {}"
    and I: "a \<noteq> i" "j \<noteq> i" "a \<notin> set (addrs cs)" "j \<notin> set (addrs cs)" "i \<notin> set (addrs us)" "i \<notin> set (addrs vs)" "i \<notin> set (addrs ds)"
      "i \<notin> set (addrs cs)" "distinct (addrs cs)" "set (addrs us) \<inter> set (addrs cs) = {}" "set (addrs cs) \<inter> set (addrs vs) = {}"
      "set (addrs cs) \<inter> set (addrs ds) = {}"
    using n(6,7) ap t r by (auto simp: apart_def)
  have dist: "distinct (a # addrs (us @ r # vs))" "distinct (data_strs d @ strs (us @ r # vs))"
    "set (data_strs d @ strs (us @ r # vs)) \<subseteq> dom (ch_strs hp)" "no_refs (us @ r # vs)"
    "set (strs [t]) \<inter> set (data_strs d @ strs (us @ r # vs)) = {}"
    using n(8-11) m A ap t r by (auto simp: apart_def)
  obtain k where k: "seg (ch_items hp) (cj_child n) None us (Some i)" "ch_items hp i = Some k" "cj_prev k = end_of None us"
    "cj_data k = e" "chain (ch_items hp) (cj_child k) None cs" "chain (ch_items hp) (cj_next k) (Some i) vs"
    using n(5) t by (auto simp: item_seg_append split: option.splits)
  define m' where "m' = m\<lparr>cj_next := cj_next k, cj_prev := cj_prev k\<rparr>"
  define h1 where "h1 = hp\<lparr>ch_items := (ch_items hp)(j \<mapsto> m')\<rparr>"
  have "chain (ch_items h1) (cj_next k) (Some i) vs" using k(6) A by (simp add: h1_def)
  then obtain h2 where h2: "upd_ptr (cj_next k) (\<lambda>x. x\<lparr>cj_prev := Some j\<rparr>) h1 = Some h2"
    "chain (ch_items h2) (cj_next k) (Some j) vs" "only_items vs h1 h2" by (rule upd_ptr_start [OF _ A(8)])
  have items2: "ch_items h2 c = ch_items hp c" if "c \<noteq> j" "c \<notin> set (addrs vs)" for c
    using that h2(3) by (simp add: only_items_def h1_def)
  have j2: "ch_items h2 j = Some m'" using h2(3) A by (simp add: only_items_def h1_def)
  have "ch_items hp c = ch_items h2 c" if "c \<in> set (addrs us)" for c
  proof -
    have "c \<noteq> j" "c \<notin> set (addrs vs)" using that A(5,9) by auto
    then show ?thesis by (simp add: items2)
  qed
  then have us2: "seg (ch_items h2) (cj_child n) None us (Some i)" by (rule item_seg_cong [THEN iffD1, OF _ k(1)])
  obtain h3 where h3: "upd_ptr (end_of None us) (\<lambda>x. x\<lparr>cj_next := Some j\<rparr>) h2 = Some h3"
    "seg (ch_items h3) (if us = [] then Some j else cj_child n) None us (Some j)" "only_items us h2 h3"
    by (rule upd_ptr_end [OF us2 A(7)])
  have items3: "ch_items h3 c = ch_items hp c" if "c \<noteq> j" "c \<notin> set (addrs vs)" "c \<notin> set (addrs us)" for c
    using that items2 h3(3) by (simp add: only_items_def)
  have j3: "ch_items h3 j = Some m'" using j2 h3(3) A by (simp add: only_items_def)
  have a3: "ch_items h3 a = Some n" using items3 [of a] A n(1) by simp
  have i3: "ch_items h3 i = Some k" using items3 [of i] I k(2) by simp
  have fc: "cj_child n = Some i \<longleftrightarrow> us = []" using first_child [OF n(5)] I t by simp
  define n' where "n' = (if us = [] then n\<lparr>cj_child := Some j\<rparr> else n)"
  define h4 where "h4 = h3\<lparr>ch_items := (ch_items h3)(a \<mapsto> n', i \<mapsto> k\<lparr>cj_next := None, cj_prev := None\<rparr>)\<rparr>"
  have strs4: "ch_strs h4 = ch_strs hp" using h2(3) h3(3) by (simp add: h4_def only_items_def h1_def)
  have "ch_items hp c = ch_items h3 c" if "c \<in> set (addrs cs)" for c
  proof -
    have "c \<noteq> j" "c \<notin> set (addrs vs)" "c \<notin> set (addrs us)" using that I by auto
    then show ?thesis by (simp add: items3)
  qed
  then have cs3: "chain (ch_items h3) (cj_child k) None cs" by (rule item_seg_cong [THEN iffD1, OF _ k(5)])
  have "ch_items hp c = ch_items h3 c" if "c \<in> set (addrs ds)" for c
  proof -
    have "c \<noteq> j" "c \<notin> set (addrs vs)" "c \<notin> set (addrs us)" using that A m(6) by auto
    then show ?thesis by (simp add: items3)
  qed
  then have ds3: "chain (ch_items h3) (cj_child m) None ds" by (rule item_seg_cong [THEN iffD1, OF _ m(5)])
  have t4: "chain (ch_items h4) (Some i) None [t]" using cs3 I k(4) t by (simp add: h4_def)
  have del: "cJSON_Delete (Some i) h4 = Some \<lparr>ch_items = ch_items h4 |` (- set (addrs [t])), ch_strs = ch_strs h4 |` (- set (strs [t]))\<rparr>"
    by (rule cJSON_Delete_chain [OF t4]) (use I n(8,9,11) t strs4 in auto)
  define hp' where "hp' = \<lparr>ch_items = ch_items h4 |` (- set (addrs [t])), ch_strs = ch_strs h4 |` (- set (strs [t]))\<rparr>"
  have e1: "upd_item j (\<lambda>x. x\<lparr>cj_next := cj_next k, cj_prev := cj_prev k\<rparr>) hp = Some h1"
    using m(1) by (simp add: upd_item_def h1_def m'_def)
  have e2: "upd_ptr (cj_prev m') (\<lambda>x. x\<lparr>cj_next := Some j\<rparr>) h2 = Some h3" using h3(1) k(3) by (simp add: m'_def)
  have e3: "(if cj_child n = Some i then upd_item a (\<lambda>x. x\<lparr>cj_child := Some j\<rparr>) h3 else Some h3)
      = Some (h3\<lparr>ch_items := (ch_items h3)(a \<mapsto> n')\<rparr>)"
    using a3 fc by (simp add: upd_item_def n'_def fun_upd_idem)
  have e4: "upd_item i (\<lambda>x. x\<lparr>cj_next := None, cj_prev := None\<rparr>) (h3\<lparr>ch_items := (ch_items h3)(a \<mapsto> n')\<rparr>) = Some h4"
    using i3 I(1) by (simp add: upd_item_def h4_def)
  have run: "cJSON_ReplaceItemViaPointer (Some a) (Some i) (Some j) hp = Some (True, hp')"
    using I(2) by (simp add: cJSON_ReplaceItemViaPointer_def k(2) e1 h2(1) j2 e2 a3 e3 e4 del hp'_def)
  have "tree h4 (LT a d (us @ r # vs))"
  proof (rule tree_link_between [where n = n' and p = "cj_child n" and q = "cj_next k" and m = m'])
    show "seg (ch_items h4) (if us = [] then Some (lt_addr r) else cj_child n) None us (Some (lt_addr r))"
      using h3(2) A(3) I(5) r by (cases "us = []") (simp_all add: h4_def)
    show "chain (ch_items h4) (cj_next k) (Some (lt_addr r)) vs"
      using h2(2) seg_only_items [OF h3(3), of vs "cj_next k" "Some j" None] A I r by (simp add: h4_def Int_commute)
    show "chain (ch_items h4) (cj_child m') None (lt_kids r)" using ds3 A I r by (simp add: h4_def m'_def)
  qed (use n(2-4,10) m(4) dist j3 k(3) I A strs4 r in \<open>simp_all add: h4_def n'_def m'_def\<close>)
  then have "tree hp' (LT a d (us @ r # vs))" unfolding hp'_def
    by (rule tree_restrict) (use A I dist(5) t r m(6) in \<open>auto\<close>)
  moreover have "\<forall>c. c \<notin> set (addrs [LT a d (us @ t # vs), r]) \<longrightarrow> ch_items hp' c = ch_items hp c"
    using items3 t r by (auto simp: hp'_def h4_def)
  moreover have "ch_strs hp' = ch_strs hp |` (- set (strs [t]))" using strs4 by (simp add: hp'_def)
  moreover have "\<forall>c \<in> set (addrs [t]). ch_items hp' c = None" by (simp add: hp'_def)
  ultimately show ?thesis using run t r by auto
qed

section \<open>Copies\<close>

text \<open>What a tree says, without addresses.\<close>

datatype jval = JVal (jv_type: u32) (jv_text: "string ptr") (jv_int: int) (jv_double: double) (jv_name: "string ptr") (jv_kids: "jval list")

definition content :: "(addr \<rightharpoonup> string) \<Rightarrow> addr ptr \<Rightarrow> string ptr" where
  "content m p = (case p of None \<Rightarrow> None | Some s \<Rightarrow> m s)"

fun jvalues :: "(addr \<rightharpoonup> string) \<Rightarrow> ltree list \<Rightarrow> jval list" where
  "jvalues m [] = []"
| "jvalues m (LT a d cs # ts) = JVal (cd_type d) (content m (cd_valuestring d)) (cd_valueint d) (cd_valuedouble d)
     (content m (cd_string d)) (jvalues m cs) # jvalues m ts"

lemma jvalues_append [simp]: "jvalues m (ts @ us) = jvalues m ts @ jvalues m us"
  by (induction m ts rule: jvalues.induct) auto

fun const_names :: "ltree list \<Rightarrow> addr list" where
  "const_names [] = []"
| "const_names (LT a d cs # ts) = (if string_is_const d then ptr_list (cd_string d) else []) @ const_names cs @ const_names ts"

lemma jvalues_cong:
  "(\<And>s. s \<in> set (strs ts) \<union> set (const_names ts) \<Longrightarrow> m s = m' s) \<Longrightarrow> jvalues m ts = jvalues m' ts"
proof (induction ts rule: addrs.induct)
  case (2 a d cs ts)
  have "m s = m' s" if "s \<in> set (ptr_list (cd_valuestring d)) \<union> set (ptr_list (cd_string d))" for s
    using that 2(3) by (cases "string_is_const d") (auto simp: data_strs_def)
  then have "content m (cd_valuestring d) = content m' (cd_valuestring d)" "content m (cd_string d) = content m' (cd_string d)"
    by (auto simp: content_def split: option.split)
  with 2 show ?case by auto
qed simp

lemma clear_reference: "\<not> is_reference d \<Longrightarrow> cd_type d AND NOT cJSON_IsReference = cd_type d"
proof -
  assume "\<not> is_reference d"
  then have "cd_type d AND 256 = 0" by (simp add: is_reference_def)
  moreover have "cd_type d AND (256 OR NOT 256) = cd_type d" by simp
  ultimately show ?thesis by (simp only: bit.conj_disj_distrib or.left_neutral)
qed

text \<open>Copying one item: nothing changes when memory runs out.\<close>

definition fresh_item :: "cheap \<Rightarrow> addr \<Rightarrow> cjson_data \<Rightarrow> cheap \<Rightarrow> bool" where
  "fresh_item hp b e hp' \<longleftrightarrow> ch_items hp b = None
     \<and> ch_items hp' = (ch_items hp)(b \<mapsto> \<lparr>cj_next = None, cj_prev = None, cj_child = None, cj_data = e\<rparr>)
     \<and> distinct (data_strs e) \<and> set (data_strs e) \<inter> dom (ch_strs hp) = {} \<and> set (data_strs e) \<subseteq> dom (ch_strs hp')
     \<and> (\<forall>s. s \<notin> set (data_strs e) \<longrightarrow> ch_strs hp' s = ch_strs hp s)"

text \<open>There is memory left: the allocators give a free address whatever is in use.\<close>

definition plenty :: "chooks \<Rightarrow> cheap \<Rightarrow> bool" where
  "plenty K hp \<longleftrightarrow> alloc_fresh (ck_item K) \<and> alloc_total (ck_item K) \<and> alloc_fresh (ck_str K) \<and> alloc_total (ck_str K)
     \<and> finite (dom (ch_items hp)) \<and> finite (dom (ch_strs hp))"

lemma plenty_off:
  assumes "plenty K hp" "\<And>x. x \<notin> set xs \<Longrightarrow> ch_items hp' x = ch_items hp x" "\<And>s. s \<notin> set ss \<Longrightarrow> ch_strs hp' s = ch_strs hp s"
  shows "plenty K hp'"
proof -
  have "dom (ch_items hp') \<subseteq> dom (ch_items hp) \<union> set xs"
  proof
    fix x assume "x \<in> dom (ch_items hp')"
    then show "x \<in> dom (ch_items hp) \<union> set xs" using assms(2) [of x] by (cases "x \<in> set xs") (simp_all add: domIff)
  qed
  moreover have "dom (ch_strs hp') \<subseteq> dom (ch_strs hp) \<union> set ss"
  proof
    fix x assume "x \<in> dom (ch_strs hp')"
    then show "x \<in> dom (ch_strs hp) \<union> set ss" using assms(3) [of x] by (cases "x \<in> set ss") (simp_all add: domIff)
  qed
  ultimately show ?thesis using assms(1) unfolding plenty_def by (meson List.finite_set finite_UnI finite_subset)
qed

lemma fresh_plenty: "fresh_item hp b e hp' \<Longrightarrow> plenty K hp \<Longrightarrow> plenty K hp'"
  by (rule plenty_off [of K hp "[b]" hp' "data_strs e"]) (simp_all add: fresh_item_def)

lemma strdup_cases:
  assumes "alloc_fresh (ck_str K)"
  obtains (none) "cJSON_strdup K s hp = (None, hp)" "s = None \<or> \<not> plenty K hp" | (copy) x b where "s = Some x" "ch_strs hp b = None"
    "cJSON_strdup K s hp = (Some b, hp\<lparr>ch_strs := (ch_strs hp)(b \<mapsto> x)\<rparr>)"
  using assms by (cases s; cases "ck_str K (ch_strs hp)") (auto simp: cJSON_strdup_def plenty_def alloc_total_def dest: alloc_freshD)

lemma delete_fresh:
  assumes f: "fresh_item hp b e hp'" and ref: "\<not> is_reference e"
  shows "cJSON_Delete (Some b) hp' = Some hp"
proof -
  have "(ch_items hp' |` (- {b})) x = ch_items hp x" for x
    using f by (simp add: fresh_item_def restrict_map_def)
  moreover have "(ch_strs hp' |` (- set (data_strs e))) x = ch_strs hp x" for x
  proof (cases "x \<in> set (data_strs e)")
    case True
    then have "x \<notin> dom (ch_strs hp)" using f by (auto simp: fresh_item_def)
    then have "ch_strs hp x = None" by (simp add: domIff)
    with True show ?thesis by (simp add: restrict_map_def)
  qed (use f in \<open>simp add: fresh_item_def\<close>)
  ultimately have "ch_items hp' |` (- {b}) = ch_items hp" "ch_strs hp' |` (- set (data_strs e)) = ch_strs hp"
    by blast+
  then show ?thesis
    using cJSON_Delete_chain [of hp' "Some b" None "[LT b e []]"] f ref by (simp add: fresh_item_def)
qed

lemma fresh_item_data:
  "fresh_item hp b e hp' \<Longrightarrow> data_strs e' = data_strs e \<Longrightarrow> f e = e' \<Longrightarrow>
   \<exists>hp2. upd_data b f hp' = Some hp2 \<and> fresh_item hp b e' hp2 \<and> ch_strs hp2 = ch_strs hp'"
  by (auto simp: fresh_item_def upd_data_def upd_item_def)

lemma fresh_item_strdup:
  assumes f: "fresh_item hp b e hp'" and s: "ch_strs hp' v = None" and e: "data_strs e' = data_strs e @ [v]" "g e = e'"
  shows "\<exists>hp2. upd_data b g (hp'\<lparr>ch_strs := (ch_strs hp')(v \<mapsto> x)\<rparr>) = Some hp2 \<and> fresh_item hp b e' hp2
    \<and> ch_strs hp2 = (ch_strs hp')(v \<mapsto> x)"
proof -
  have v: "v \<notin> set (data_strs e)" using f s by (auto simp: fresh_item_def)
  then have "ch_strs hp v = None" using f s by (metis fresh_item_def)
  note this v
  then show ?thesis using f e by (auto simp: fresh_item_def upd_data_def upd_item_def)
qed

lemma dup_strings_spec:
  assumes K: "alloc_fresh (ck_str K)" and f: "fresh_item hp b e hp'"
    and e: "data_strs e = []" "cd_string e = None" "\<not> is_reference e" "string_is_const e = string_is_const d"
    and d: "set (ptr_list (cd_valuestring d)) \<union> set (ptr_list (cd_string d)) \<subseteq> dom (ch_strs hp)"
  shows "dup_strings K d b hp' = Some (None, hp) \<and> \<not> plenty K hp \<or> (\<exists>p q hp2. dup_strings K d b hp' = Some (Some b, hp2)
     \<and> fresh_item hp b (e\<lparr>cd_valuestring := p, cd_string := q\<rparr>) hp2
     \<and> content (ch_strs hp2) p = content (ch_strs hp) (cd_valuestring d)
     \<and> content (ch_strs hp2) q = content (ch_strs hp) (cd_string d)
     \<and> (string_is_const d \<longrightarrow> q = cd_string d))"
proof -
  have strs0: "ch_strs hp' s = ch_strs hp s" for s using f e(1) by (simp add: fresh_item_def)
  have e0: "cd_valuestring e = None" using e(1) by (cases "cd_valuestring e") (auto simp: data_strs_def)
  define stage where "stage = (\<lambda>hp. do {
       (kp, hp) \<leftarrow> (if string_is_const d then Some (cd_string d, hp)
                    else do { ks \<leftarrow> read_str (cd_string d) hp; Some (cJSON_strdup K ks hp) });
       hp \<leftarrow> upd_data b (\<lambda>e. e\<lparr>cd_string := kp\<rparr>) hp;
       if cd_string d \<noteq> None \<and> kp = None then do { hp \<leftarrow> cJSON_Delete (Some b) hp; Some (None, hp) }
       else Some (Some b, hp) })"
  have name: "stage hp1 = Some (None, hp) \<and> \<not> plenty K hp \<or> (\<exists>q hp2. stage hp1 = Some (Some b, hp2)
     \<and> fresh_item hp b (e\<lparr>cd_valuestring := p, cd_string := q\<rparr>) hp2
     \<and> content (ch_strs hp2) p = content (ch_strs hp1) p
     \<and> content (ch_strs hp2) q = content (ch_strs hp) (cd_string d)
     \<and> (string_is_const d \<longrightarrow> q = cd_string d))"
    if f1: "fresh_item hp b (e\<lparr>cd_valuestring := p\<rparr>) hp1" for p hp1
  proof -
    let ?e1 = "e\<lparr>cd_valuestring := p\<rparr>"
    have c1: "string_is_const (e\<lparr>cd_valuestring := p, cd_string := q\<rparr>) = string_is_const d" for q
      using e(4) by (simp add: string_is_const_def)
    have ds: "data_strs (e\<lparr>cd_valuestring := p, cd_string := q\<rparr>) = ptr_list p @ (if string_is_const d then [] else ptr_list q)" for q
      using c1 by (simp add: data_strs_def)
    have ds1: "data_strs ?e1 = ptr_list p" using e(2) by (simp add: data_strs_def string_is_const_def)
    have old: "ch_strs hp1 s = ch_strs hp s" if "s \<in> dom (ch_strs hp)" for s
      using f1 that unfolding fresh_item_def by blast
    have p1: "set (ptr_list p) \<subseteq> dom (ch_strs hp1)" using f1 ds1 by (simp add: fresh_item_def)
    have data: "\<exists>hp2. upd_data b (\<lambda>e. e\<lparr>cd_string := q\<rparr>) hp1 = Some hp2
        \<and> fresh_item hp b (e\<lparr>cd_valuestring := p, cd_string := q\<rparr>) hp2 \<and> ch_strs hp2 = ch_strs hp1"
      if "string_is_const d \<or> q = None" for q
      by (rule fresh_item_data [OF f1]) (use that ds ds1 in auto)
    show ?thesis
    proof (cases "string_is_const d \<or> cd_string d = None")
      case True
      then obtain hp2 where hp2: "upd_data b (\<lambda>e. e\<lparr>cd_string := cd_string d\<rparr>) hp1 = Some hp2"
        "fresh_item hp b (e\<lparr>cd_valuestring := p, cd_string := cd_string d\<rparr>) hp2" "ch_strs hp2 = ch_strs hp1"
        using data by blast
      have "stage hp1 = Some (Some b, hp2)"
        using True hp2(1) by (auto simp: stage_def read_str_def cJSON_strdup_def)
      moreover have "content (ch_strs hp1) (cd_string d) = content (ch_strs hp) (cd_string d)"
        using old d by (cases "cd_string d") (auto simp: content_def)
      ultimately show ?thesis using hp2 by auto
    next
      case False
      then obtain s where s: "cd_string d = Some s" by auto
      then obtain x where x: "ch_strs hp s = Some x" using d by auto
      then have rd: "read_str (cd_string d) hp1 = Some (Some x)" using old [of s] s by (simp add: read_str_def domIff)
      from K show ?thesis
      proof (rule strdup_cases [of K "Some x" hp1])
        assume none: "cJSON_strdup K (Some x) hp1 = (None, hp1)" and out: "Some x = None \<or> \<not> plenty K hp1"
        obtain hp2 where hp2: "upd_data b (\<lambda>e. e\<lparr>cd_string := None\<rparr>) hp1 = Some hp2"
          "fresh_item hp b (e\<lparr>cd_valuestring := p, cd_string := None\<rparr>) hp2" using data by blast
        have "cJSON_Delete (Some b) hp2 = Some hp"
          by (rule delete_fresh [OF hp2(2)]) (use e(3) in \<open>simp add: is_reference_def\<close>)
        then have "stage hp1 = Some (None, hp)"
          using False rd none hp2(1) s by (simp add: stage_def)
        then show ?thesis using out fresh_plenty [OF f1] by auto
      next
        fix y v assume y: "Some x = Some y" "ch_strs hp1 v = None"
          "cJSON_strdup K (Some x) hp1 = (Some v, hp1\<lparr>ch_strs := (ch_strs hp1)(v \<mapsto> y)\<rparr>)"
        obtain hp2 where hp2: "upd_data b (\<lambda>e. e\<lparr>cd_string := Some v\<rparr>) (hp1\<lparr>ch_strs := (ch_strs hp1)(v \<mapsto> y)\<rparr>) = Some hp2"
          "fresh_item hp b (e\<lparr>cd_valuestring := p, cd_string := Some v\<rparr>) hp2" "ch_strs hp2 = (ch_strs hp1)(v \<mapsto> y)"
          using fresh_item_strdup [OF f1 y(2), of "e\<lparr>cd_valuestring := p, cd_string := Some v\<rparr>" "\<lambda>e. e\<lparr>cd_string := Some v\<rparr>" y]
            ds ds1 False by auto
        have "stage hp1 = Some (Some b, hp2)" using False rd y(3) hp2(1) s by (simp add: stage_def)
        moreover have "content (ch_strs hp2) p = content (ch_strs hp1) p"
          using p1 y(2) hp2(3) by (cases p) (auto simp: content_def)
        moreover have "content (ch_strs hp2) (Some v) = content (ch_strs hp) (cd_string d)"
          using hp2(3) x y(1) s by (simp add: content_def)
        ultimately show ?thesis using hp2(2) False by blast
      qed
    qed
  qed
  have finish: ?thesis if "dup_strings K d b hp' = stage hp1" "fresh_item hp b (e\<lparr>cd_valuestring := p\<rparr>) hp1"
    "content (ch_strs hp1) p = content (ch_strs hp) (cd_valuestring d)" for p hp1
    using name [OF that(2)] that(1,3) by metis
  show ?thesis
  proof (cases "cd_valuestring d")
    case None
    have same: "e\<lparr>cd_valuestring := None\<rparr> = e" using e0 by simp
    obtain hp1 where hp1: "upd_data b (\<lambda>e. e\<lparr>cd_valuestring := None\<rparr>) hp' = Some hp1" "fresh_item hp b e hp1"
      using fresh_item_data [OF f, of e "\<lambda>e. e\<lparr>cd_valuestring := None\<rparr>"] e0 by auto
    then have "dup_strings K d b hp' = stage hp1" using None
      by (simp add: dup_strings_def stage_def read_str_def cJSON_strdup_def)
    then show ?thesis by (rule finish [of hp1 None]) (simp_all add: same hp1(2) None content_def)
  next
    case (Some s)
    then obtain x where x: "ch_strs hp s = Some x" using d by auto
    then have rd: "read_str (cd_valuestring d) hp' = Some (Some x)" using Some strs0 by (simp add: read_str_def)
    from K show ?thesis
    proof (rule strdup_cases [of K "Some x" hp'])
      assume none: "cJSON_strdup K (Some x) hp' = (None, hp')" and out: "Some x = None \<or> \<not> plenty K hp'"
      obtain hp1 where hp1: "upd_data b (\<lambda>e. e\<lparr>cd_valuestring := None\<rparr>) hp' = Some hp1" "fresh_item hp b e hp1"
        using fresh_item_data [OF f, of e "\<lambda>e. e\<lparr>cd_valuestring := None\<rparr>"] e0 by auto
      have "dup_strings K d b hp' = Some (None, hp)"
        using Some rd none hp1(1) delete_fresh [OF hp1(2) e(3)] by (simp add: dup_strings_def)
      then show ?thesis using out fresh_plenty [OF f] by auto
    next
      fix y v assume y: "Some x = Some y" "ch_strs hp' v = None"
        "cJSON_strdup K (Some x) hp' = (Some v, hp'\<lparr>ch_strs := (ch_strs hp')(v \<mapsto> y)\<rparr>)"
      have "data_strs (e\<lparr>cd_valuestring := Some v\<rparr>) = data_strs e @ [v]"
        using e(1,2) by (simp add: data_strs_def split: if_splits)
      then obtain hp1 where hp1: "upd_data b (\<lambda>e. e\<lparr>cd_valuestring := Some v\<rparr>) (hp'\<lparr>ch_strs := (ch_strs hp')(v \<mapsto> y)\<rparr>) = Some hp1"
        "fresh_item hp b (e\<lparr>cd_valuestring := Some v\<rparr>) hp1" "ch_strs hp1 = (ch_strs hp')(v \<mapsto> y)"
        using fresh_item_strdup [OF f y(2), of "e\<lparr>cd_valuestring := Some v\<rparr>" "\<lambda>e. e\<lparr>cd_valuestring := Some v\<rparr>" y] by auto
      have "dup_strings K d b hp' = stage hp1" using Some rd y(3) hp1(1) by (simp add: dup_strings_def stage_def)
      then show ?thesis by (rule finish [OF _ hp1(2)]) (simp add: content_def hp1(3) Some x y(1) [symmetric])
    qed
  qed
qed

lemma dup_item_spec:
  assumes K: "alloc_fresh (ck_item K)" "alloc_fresh (ck_str K)"
    and n: "ch_items hp a = Some n" "cj_data n = d" "\<not> is_reference d"
      "set (ptr_list (cd_valuestring d)) \<union> set (ptr_list (cd_string d)) \<subseteq> dom (ch_strs hp)"
  shows "dup_item K a hp = Some (None, hp) \<and> \<not> plenty K hp \<or> (\<exists>b e hp'. dup_item K a hp = Some (Some b, hp') \<and> fresh_item hp b e hp'
     \<and> jvalues (ch_strs hp') [LT b e []] = jvalues (ch_strs hp) [LT a d []]
     \<and> \<not> is_reference e \<and> const_names [LT b e []] = const_names [LT a d []])"
proof (cases "ck_item K (ch_items hp)")
  case None
  then show ?thesis by (auto simp: dup_item_def cJSON_New_Item_def plenty_def alloc_total_def)
next
  case (Some b)
  then have b: "ch_items hp b = None" using K(1) alloc_freshD by metis
  define e0 where "e0 = zero_data\<lparr>cd_type := cd_type d, cd_valueint := cd_valueint d, cd_valuedouble := cd_valuedouble d\<rparr>"
  define hp0 where "hp0 = hp\<lparr>ch_items := (ch_items hp)(b \<mapsto> \<lparr>cj_next = None, cj_prev = None, cj_child = None, cj_data = zero_data\<rparr>)\<rparr>"
  have z: "data_strs zero_data = []" "data_strs e0 = []" by (simp_all add: data_strs_def zero_data_def e0_def)
  have "fresh_item hp b zero_data hp0" using b z by (simp add: fresh_item_def hp0_def)
  from fresh_item_data [OF this, of e0 "\<lambda>e. e\<lparr>cd_type := cd_type d AND NOT cJSON_IsReference,
      cd_valueint := cd_valueint d, cd_valuedouble := cd_valuedouble d\<rparr>"]
  obtain hp1 where hp1: "upd_data b (\<lambda>e. e\<lparr>cd_type := cd_type d AND NOT cJSON_IsReference,
      cd_valueint := cd_valueint d, cd_valuedouble := cd_valuedouble d\<rparr>) hp0 = Some hp1" "fresh_item hp b e0 hp1"
    using z clear_reference [OF n(3)] by (auto simp: e0_def)
  have n0: "ch_items hp0 a = Some n" using n(1) b by (auto simp: hp0_def)
  have run: "dup_item K a hp = dup_strings K d b hp1"
    using Some n0 n(2) hp1(1) by (simp add: dup_item_def cJSON_New_Item_def hp0_def [symmetric])
  have flags: "\<not> is_reference (e0\<lparr>cd_valuestring := p, cd_string := q\<rparr>)"
    "string_is_const (e0\<lparr>cd_valuestring := p, cd_string := q\<rparr>) = string_is_const d" for p q
    using n(3) by (simp_all add: is_reference_def string_is_const_def e0_def)
  have s0: "cd_string e0 = None" "\<not> is_reference e0" "string_is_const e0 = string_is_const d"
    using n(3) by (simp_all add: is_reference_def string_is_const_def e0_def zero_data_def)
  from dup_strings_spec [OF K(2) hp1(2) z(2) s0 n(4)] show ?thesis
  proof (elim disjE exE conjE)
    fix p q hp2
    assume r: "dup_strings K d b hp1 = Some (Some b, hp2)" "fresh_item hp b (e0\<lparr>cd_valuestring := p, cd_string := q\<rparr>) hp2"
      "content (ch_strs hp2) p = content (ch_strs hp) (cd_valuestring d)" "content (ch_strs hp2) q = content (ch_strs hp) (cd_string d)"
      "string_is_const d \<longrightarrow> q = cd_string d"
    have "jvalues (ch_strs hp2) [LT b (e0\<lparr>cd_valuestring := p, cd_string := q\<rparr>) []] = jvalues (ch_strs hp) [LT a d []]"
      using r(3,4) by (simp add: e0_def)
    moreover have "const_names [LT b (e0\<lparr>cd_valuestring := p, cd_string := q\<rparr>) []] = const_names [LT a d []]"
      using flags(2) r(5) by simp
    ultimately show ?thesis using run r(1,2) flags(1) by metis
  qed (simp add: run)
qed

lemma tree_frame:
  assumes "tree hp t" "\<And>x. x \<in> set (addrs [t]) \<Longrightarrow> ch_items hp' x = ch_items hp x"
    "\<And>s. s \<in> set (strs [t]) \<Longrightarrow> ch_strs hp' s = ch_strs hp s"
  shows "tree hp' t"
proof -
  have "chain (ch_items hp') (Some (lt_addr t)) None [t]"
    using assms(1,2) item_seg_cong [of "[t]" "ch_items hp'" "ch_items hp"] unfolding tree_def owned_def by metis
  moreover have "set (strs [t]) \<subseteq> dom (ch_strs hp')"
  proof
    fix s assume s: "s \<in> set (strs [t])"
    then have "s \<in> dom (ch_strs hp)" using assms(1) unfolding tree_def owned_def by blast
    then show "s \<in> dom (ch_strs hp')" using assms(3) [OF s] by (simp add: domIff)
  qed
  ultimately show ?thesis using assms(1) unfolding tree_def owned_def by blast
qed

text \<open>The step that links a new child is the one of \<^verbatim>\<open>add_item_to_array\<close>.\<close>

lemma link_child:
  assumes "tree hp (LT b e us)"
  shows "add_item_to_array (Some b) (Some i) hp = map_option (Pair True)
    (case end_of None us of None \<Rightarrow> upd_item b (\<lambda>m. m\<lparr>cj_child := Some i\<rparr>) hp | Some l \<Rightarrow> suffix_object l i hp)"
proof -
  obtain n where n: "ch_items hp b = Some n" "chain (ch_items hp) (cj_child n) None us" by (rule treeE [OF assms])
  show ?thesis
  proof (cases us)
    case Nil
    with n show ?thesis by (auto simp: add_item_to_array_def map_option_case split: option.split)
  next
    case (Cons u ws)
    then obtain c where c: "cj_child n = Some c" using n(2) by (cases u) auto
    have "last_item c hp = Some (lt_addr (last us))" using last_item_seg [of hp c None us] n(2) c Cons by simp
    with n(1) c Cons show ?thesis by (simp add: add_item_to_array_def end_of_def map_option_case split: option.split)
  qed
qed

lemma fresh_item_tree:
  assumes "fresh_item hp b e hp'" "\<not> is_reference e"
  shows "tree hp' (LT b e [])"
  using assms by (simp add: fresh_item_def tree_def owned_def)

text \<open>Deleting a tree that was allocated on top of a heap gives that heap back.\<close>

lemma delete_added:
  assumes t: "tree hp' t" and items: "\<And>x. x \<notin> set (addrs [t]) \<Longrightarrow> ch_items hp' x = ch_items hp x"
    and strs: "\<And>s. s \<notin> set (strs [t]) \<Longrightarrow> ch_strs hp' s = ch_strs hp s"
    and fresh: "set (addrs [t]) \<inter> dom (ch_items hp) = {}" "set (strs [t]) \<inter> dom (ch_strs hp) = {}"
  shows "cJSON_Delete (Some (lt_addr t)) hp' = Some hp"
proof -
  have "(ch_items hp' |` (- set (addrs [t]))) x = ch_items hp x" for x
  proof (cases "x \<in> set (addrs [t])")
    case True
    then have "x \<notin> dom (ch_items hp)" using fresh(1) by blast
    with True show ?thesis by (simp add: restrict_map_def domIff)
  qed (use items in \<open>simp add: restrict_map_def\<close>)
  moreover have "(ch_strs hp' |` (- set (strs [t]))) s = ch_strs hp s" for s
  proof (cases "s \<in> set (strs [t])")
    case True
    then have "s \<notin> dom (ch_strs hp)" using fresh(2) by blast
    with True show ?thesis by (simp add: restrict_map_def domIff)
  qed (use strs in \<open>simp add: restrict_map_def\<close>)
  ultimately have "ch_items hp' |` (- set (addrs [t])) = ch_items hp" "ch_strs hp' |` (- set (strs [t])) = ch_strs hp" by blast+
  with cJSON_Delete_chain [of hp' "Some (lt_addr t)" None "[t]"] t show ?thesis by (simp add: tree_def owned_def)
qed

text \<open>
  \<open>hp'\<close> has the new trees \<open>ws\<close> behind the children \<open>us\<close> of the item at \<open>b\<close>; they are at addresses that
  were free, and everything else is as it was.
\<close>

definition grown :: "cheap \<Rightarrow> addr \<Rightarrow> cjson_data \<Rightarrow> ltree list \<Rightarrow> ltree list \<Rightarrow> cheap \<Rightarrow> bool" where
  "grown hp b e us ws hp' \<longleftrightarrow> tree hp' (LT b e (us @ ws))
     \<and> (\<forall>x. x \<notin> set (addrs [LT b e (us @ ws)]) \<longrightarrow> ch_items hp' x = ch_items hp x)
     \<and> (\<forall>s. s \<notin> set (strs ws) \<longrightarrow> ch_strs hp' s = ch_strs hp s)
     \<and> set (addrs ws) \<inter> dom (ch_items hp) = {} \<and> set (strs ws) \<inter> dom (ch_strs hp) = {}"

lemma grown_str: "grown hp b e us ws hp' \<Longrightarrow> s \<in> dom (ch_strs hp) \<Longrightarrow> ch_strs hp' s = ch_strs hp s"
  unfolding grown_def by blast

lemma grown_item:
  "grown hp b e us ws hp' \<Longrightarrow> x \<in> dom (ch_items hp) \<Longrightarrow> x \<notin> set (addrs [LT b e us]) \<Longrightarrow> ch_items hp' x = ch_items hp x"
  unfolding grown_def by auto

lemma grown_refl: "tree hp (LT b e us) \<Longrightarrow> grown hp b e us [] hp"
  by (simp add: grown_def)

lemma tree_addrs: "tree hp t \<Longrightarrow> set (addrs [t]) \<subseteq> dom (ch_items hp)"
  unfolding tree_def owned_def using item_seg_dom by blast

lemma tree_strs: "tree hp t \<Longrightarrow> set (strs [t]) \<subseteq> dom (ch_strs hp)"
  unfolding tree_def owned_def by blast

text \<open>A finished copy of a child on top of a heap.\<close>

definition added :: "cheap \<Rightarrow> ltree \<Rightarrow> cheap \<Rightarrow> bool" where
  "added hp t hp' \<longleftrightarrow> tree hp' t \<and> (\<forall>x. x \<notin> set (addrs [t]) \<longrightarrow> ch_items hp' x = ch_items hp x)
     \<and> (\<forall>s. s \<notin> set (strs [t]) \<longrightarrow> ch_strs hp' s = ch_strs hp s)
     \<and> set (addrs [t]) \<inter> dom (ch_items hp) = {} \<and> set (strs [t]) \<inter> dom (ch_strs hp) = {}"

lemma added_apart:
  assumes "added hp t hp'" "tree hp u"
  shows "tree hp' u" "apart u t"
proof -
  have n: "set (addrs [t]) \<inter> dom (ch_items hp) = {}" "set (strs [t]) \<inter> dom (ch_strs hp) = {}"
    using assms(1) by (simp_all only: added_def)
  have d: "set (addrs [u]) \<inter> set (addrs [t]) = {}" using tree_addrs [OF assms(2)] n(1) by blast
  have e: "set (strs [u]) \<inter> set (strs [t]) = {}" using tree_strs [OF assms(2)] n(2) by blast
  show "apart u t" using d e by (simp only: apart_def)
  show "tree hp' u"
  proof (rule tree_frame [OF assms(2)])
    show "ch_items hp' x = ch_items hp x" if "x \<in> set (addrs [u])" for x
    proof -
      have "x \<notin> set (addrs [t])" using that d by blast
      then show ?thesis using assms(1) unfolding added_def by blast
    qed
    show "ch_strs hp' s = ch_strs hp s" if "s \<in> set (strs [u])" for s
    proof -
      have "s \<notin> set (strs [t])" using that e by blast
      then show ?thesis using assms(1) unfolding added_def by blast
    qed
  qed
qed

lemma fresh_grown_added:
  assumes f: "fresh_item hp b e hp1" and ref: "\<not> is_reference e" and g: "grown hp1 b e [] ws hp2"
  shows "added hp (LT b e ws) hp2"
proof -
  have t: "tree hp2 (LT b e ws)" using g by (simp add: grown_def)
  have b: "ch_items hp b = None" using f by (simp add: fresh_item_def)
  have i1: "ch_items hp1 x = ch_items hp x" if "x \<noteq> b" for x using f that by (simp add: fresh_item_def)
  have s1: "ch_strs hp1 s = ch_strs hp s" if "s \<notin> set (data_strs e)" for s using f that by (simp add: fresh_item_def)
  have items: "ch_items hp2 x = ch_items hp x" if "x \<notin> set (addrs [LT b e ws])" for x
    using g that i1 [of x] by (auto simp: grown_def)
  have strings: "ch_strs hp2 s = ch_strs hp s" if "s \<notin> set (strs [LT b e ws])" for s
    using g that s1 [of s] by (auto simp: grown_def)
  have "dom (ch_items hp) \<subseteq> dom (ch_items hp1)" using f by (auto simp: fresh_item_def)
  then have "set (addrs ws) \<inter> dom (ch_items hp) = {}" using g unfolding grown_def by blast
  then have fa: "set (addrs [LT b e ws]) \<inter> dom (ch_items hp) = {}" using b by auto
  have e: "set (data_strs e) \<inter> dom (ch_strs hp) = {}" using f by (simp add: fresh_item_def)
  have "dom (ch_strs hp) \<subseteq> dom (ch_strs hp1)"
  proof
    fix s assume s: "s \<in> dom (ch_strs hp)"
    then have "s \<notin> set (data_strs e)" using e by blast
    then show "s \<in> dom (ch_strs hp1)" using s s1 [of s] by (simp add: domIff)
  qed
  then have "set (strs ws) \<inter> dom (ch_strs hp) = {}" using g unfolding grown_def by blast
  then have fs: "set (strs [LT b e ws]) \<inter> dom (ch_strs hp) = {}" using e by auto
  show ?thesis unfolding added_def using t items strings fa fs by blast
qed

text \<open>Linking the finished copy and going on.\<close>

lemma grown_step:
  assumes a: "added hp t hp2" and b: "tree hp (LT b e us)" and l: "tree hp3 (LT b e (us @ [t]))"
    "only_items [LT b e us, t] hp2 hp3" and g: "grown hp3 b e (us @ [t]) ws hp4"
  shows "grown hp b e us (t # ws) hp4"
proof -
  have s3: "ch_strs hp3 = ch_strs hp2" using l(2) by (simp add: only_items_def)
  have i3: "ch_items hp3 x = ch_items hp x" if "x \<notin> set (addrs [LT b e us]) \<union> set (addrs [t])" for x
    using that l(2) a unfolding only_items_def added_def by (metis Un_iff append_Cons append_Nil addrs_append set_append)
  have "dom (ch_items hp) \<subseteq> dom (ch_items hp3)"
  proof
    fix x assume x: "x \<in> dom (ch_items hp)"
    show "x \<in> dom (ch_items hp3)"
    proof (cases "x \<in> set (addrs [LT b e us])")
      case True
      then have "x \<in> set (addrs [LT b e (us @ [t])])" by auto
      then show ?thesis using tree_addrs [OF l(1)] by blast
    next
      case False
      moreover have "x \<notin> set (addrs [t])" using a x unfolding added_def by blast
      ultimately show ?thesis using i3 [of x] x by (simp add: domIff)
    qed
  qed
  then have fa: "set (addrs ws) \<inter> dom (ch_items hp) = {}" using g unfolding grown_def by blast
  have "dom (ch_strs hp) \<subseteq> dom (ch_strs hp3)"
  proof
    fix s assume s: "s \<in> dom (ch_strs hp)"
    then have "s \<notin> set (strs [t])" using a unfolding added_def by blast
    then show "s \<in> dom (ch_strs hp3)" using s s3 a unfolding added_def by (metis domIff)
  qed
  then have fs: "set (strs ws) \<inter> dom (ch_strs hp) = {}" using g unfolding grown_def by blast
  have tr: "tree hp4 (LT b e (us @ t # ws))" using g by (simp add: grown_def)
  have items: "ch_items hp4 x = ch_items hp x" if "x \<notin> set (addrs [LT b e (us @ t # ws)])" for x
  proof -
    have x: "x \<notin> set (addrs [LT b e ((us @ [t]) @ ws)])" "x \<notin> set (addrs [LT b e us]) \<union> set (addrs [t])"
      using that by (cases t; auto)+
    then show ?thesis using g i3 [OF x(2)] unfolding grown_def by metis
  qed
  have strings: "ch_strs hp4 s = ch_strs hp s" if "s \<notin> set (strs (t # ws))" for s
  proof -
    have "s \<notin> set (strs [t])" "s \<notin> set (strs ws)" using that strs_append [of "[t]" ws] by auto
    then show ?thesis using g a s3 unfolding grown_def added_def by metis
  qed
  have "addrs (t # ws) = addrs [t] @ addrs ws" "strs (t # ws) = strs [t] @ strs ws"
    using addrs_append [of "[t]" ws] strs_append [of "[t]" ws] by simp_all
  then show ?thesis using tr items strings fa fs a unfolding grown_def added_def by (metis Int_Un_distrib2 set_append sup_bot_left)
qed

lemma const_names_append [simp]: "const_names (ts @ us) = const_names ts @ const_names us"
  by (induction ts rule: const_names.induct) auto

lemma names_in_dom:
  "set (strs [LT a d cs]) \<union> set (const_names [LT a d cs]) \<subseteq> D \<Longrightarrow>
   set (ptr_list (cd_valuestring d)) \<union> set (ptr_list (cd_string d)) \<subseteq> D"
  by (cases "string_is_const d") (auto simp: data_strs_def)

lemma jvalues_grow:
  assumes "set (strs ts) \<union> set (const_names ts) \<subseteq> D" "\<And>s. s \<in> D \<Longrightarrow> m' s = m s"
  shows "jvalues m' ts = jvalues m ts"
  by (rule jvalues_cong) (use assms in blast)

lemma dup_children_None [simp]: "dup_children K None b lst hp = Some (True, hp)"
  by (subst dup_children.simps) simp

lemma dup_children_spec:
  assumes K: "alloc_fresh (ck_item K)" "alloc_fresh (ck_str K)"
  shows "\<lbrakk>seg (ch_items hp) c prev cs None; no_refs cs; set (strs cs) \<union> set (const_names cs) \<subseteq> dom (ch_strs hp);
     tree hp (LT b e us); set (addrs cs) \<inter> set (addrs [LT b e us]) = {}\<rbrakk> \<Longrightarrow>
   \<exists>ok ws hp'. dup_children K c b (end_of None us) hp = Some (ok, hp') \<and> grown hp b e us ws hp'
     \<and> set (const_names ws) \<subseteq> set (const_names cs) \<and> (ok \<longrightarrow> jvalues (ch_strs hp') ws = jvalues (ch_strs hp) cs)
     \<and> (plenty K hp \<longrightarrow> ok)"
proof (induction cs arbitrary: c prev b e us hp rule: addrs.induct)
  case 1
  then have "dup_children K c b (end_of None us) hp = Some (True, hp)" by simp
  then show ?case using grown_refl [OF 1(4)] by (metis const_names.simps(1) jvalues.simps(1) subset_refl)
next
  case (2 a d kids rest)
  obtain n where n: "c = Some a" "ch_items hp a = Some n" "cj_data n = d" "chain (ch_items hp) (cj_child n) None kids"
    "chain (ch_items hp) (cj_next n) (Some a) rest" using 2(3) by (auto split: option.splits)
  have ref: "\<not> is_reference d" "no_refs kids" "no_refs rest" using 2(4) by auto
  have names: "set (strs [LT a d kids]) \<union> set (const_names [LT a d kids]) \<subseteq> dom (ch_strs hp)"
    "set (strs kids) \<union> set (const_names kids) \<subseteq> dom (ch_strs hp)" "set (strs rest) \<union> set (const_names rest) \<subseteq> dom (ch_strs hp)"
    using 2(5) by auto
  have dis: "a \<notin> set (addrs [LT b e us])" "set (addrs kids) \<inter> set (addrs [LT b e us]) = {}" "set (addrs rest) \<inter> set (addrs [LT b e us]) = {}"
    using 2(7) by auto
  have src: "set (addrs kids) \<subseteq> dom (ch_items hp)" "set (addrs rest) \<subseteq> dom (ch_items hp)" "a \<in> dom (ch_items hp)"
    using item_seg_dom [OF n(4)] item_seg_dom [OF n(5)] n(2) by auto
  from dup_item_spec [OF K n(2,3) ref(1) names_in_dom [OF names(1)]] show ?case
  proof (elim disjE exE conjE)
    assume "dup_item K a hp = Some (None, hp)" and out: "\<not> plenty K hp"
    then have "dup_children K c b (end_of None us) hp = Some (False, hp)"
      using n(1) by (subst dup_children.simps) simp
    then show ?thesis using out grown_refl [OF 2(6)] by (metis const_names.simps(1) empty_subsetI list.set(1))
  next
    fix nc e1 hp1
    assume dup: "dup_item K a hp = Some (Some nc, hp1)" and f: "fresh_item hp nc e1 hp1"
      and val: "jvalues (ch_strs hp1) [LT nc e1 []] = jvalues (ch_strs hp) [LT a d []]"
      and r1: "\<not> is_reference e1" and cn: "const_names [LT nc e1 []] = const_names [LT a d []]"
    have nc: "nc \<notin> dom (ch_items hp)" using f by (simp add: fresh_item_def domIff)
    have i1: "ch_items hp1 x = ch_items hp x" if "x \<in> dom (ch_items hp)" for x
      using f that nc by (auto simp: fresh_item_def)
    have s1: "ch_strs hp1 s = ch_strs hp s" if "s \<in> dom (ch_strs hp)" for s
      using f that unfolding fresh_item_def by blast
    have d1: "dom (ch_strs hp) \<subseteq> dom (ch_strs hp1)" using s1 by (auto simp: dom_def)
    have kids1: "chain (ch_items hp1) (cj_child n) None kids"
      by (rule item_seg_cong [THEN iffD1, OF _ n(4)]) (use i1 src(1) in \<open>metis subsetD\<close>)
    have k: "set (strs kids) \<union> set (const_names kids) \<subseteq> dom (ch_strs hp1)" using names(2) d1 by blast
    have kd: "set (addrs kids) \<inter> set (addrs [LT nc e1 []]) = {}" using nc src(1) by auto
    from 2(1) [OF kids1 ref(2) k fresh_item_tree [OF f r1] kd] obtain ok1 ws1 hp2 where
      sub: "dup_children K (cj_child n) nc None hp1 = Some (ok1, hp2)" and g1: "grown hp1 nc e1 [] ws1 hp2"
      and cn1: "set (const_names ws1) \<subseteq> set (const_names kids)"
      and v1: "ok1 \<longrightarrow> jvalues (ch_strs hp2) ws1 = jvalues (ch_strs hp1) kids" and p1: "plenty K hp1 \<longrightarrow> ok1" by auto
    define t where "t = LT nc e1 ws1"
    have added: "added hp t hp2" unfolding t_def by (rule fresh_grown_added [OF f r1 g1])
    have n1: "ch_items hp1 a = Some n" using i1 [OF src(3)] n(2) by simp
    show ?thesis
    proof (cases ok1)
      case False
      have "cJSON_Delete (Some nc) hp2 = Some hp"
        using delete_added [of hp2 t hp] added by (auto simp: added_def t_def)
      then have "dup_children K c b (end_of None us) hp = Some (False, hp)"
        using n(1) dup n1 sub False by (subst dup_children.simps) simp
      moreover have "\<not> plenty K hp" using False p1 fresh_plenty [OF f] by blast
      ultimately show ?thesis using grown_refl [OF 2(6)] by (metis const_names.simps(1) empty_subsetI list.set(1))
    next
      case True
      note ap = added_apart [OF added 2(6)]
      have tt: "tree hp2 t" using added by (simp add: added_def)
      obtain hp3 where hp3: "add_item_to_array (Some b) (Some nc) hp2 = Some (True, hp3)" "tree hp3 (LT b e (us @ [t]))"
        "only_items [LT b e us, t] hp2 hp3" using add_item_to_array_tree [OF ap(1) tt ap(2)] by (auto simp: t_def)
      then have link: "(case end_of None us of None \<Rightarrow> upd_item b (\<lambda>m. m\<lparr>cj_child := Some nc\<rparr>) hp2 | Some l \<Rightarrow> suffix_object l nc hp2) = Some hp3"
        using link_child [OF ap(1), of nc] by simp
      have i3: "ch_items hp3 x = ch_items hp x" if "x \<in> dom (ch_items hp)" "x \<notin> set (addrs [LT b e us])" for x
      proof -
        have "x \<notin> set (addrs [t])" using that(1) added unfolding added_def by blast
        moreover from this have "x \<notin> set (addrs [LT b e us, t])" using that(2) addrs_append [of "[LT b e us]" "[t]"] by auto
        ultimately show ?thesis using hp3(3) added unfolding only_items_def added_def by metis
      qed
      have s3: "ch_strs hp3 = ch_strs hp2" using hp3(3) by (simp add: only_items_def)
      have s2: "ch_strs hp2 s = ch_strs hp s" if "s \<in> dom (ch_strs hp)" for s
        using added that unfolding added_def by blast
      have rest3: "chain (ch_items hp3) (cj_next n) (Some a) rest"
        by (rule item_seg_cong [THEN iffD1, OF _ n(5)]) (use i3 src(2) dis(3) in \<open>metis subsetD disjoint_iff\<close>)
      have n3: "ch_items hp3 a = Some n" using i3 [OF src(3) dis(1)] n(2) by simp
      have d3: "dom (ch_strs hp) \<subseteq> dom (ch_strs hp3)" using s2 s3 by (auto simp: dom_def)
      have nr: "set (strs rest) \<union> set (const_names rest) \<subseteq> dom (ch_strs hp3)" using names(3) d3 by blast
      have "set (addrs [t]) \<inter> dom (ch_items hp) = {}" using added by (simp add: added_def)
      then have dr: "set (addrs rest) \<inter> set (addrs [LT b e (us @ [t])]) = {}"
        using src(2) dis(3) by (auto simp: disjoint_iff)
      from 2(2) [OF rest3 ref(3) nr hp3(2) dr] obtain ok2 ws2 hp4 where
        run2: "dup_children K (cj_next n) b (Some nc) hp3 = Some (ok2, hp4)" and g2: "grown hp3 b e (us @ [t]) ws2 hp4"
        and cn2: "set (const_names ws2) \<subseteq> set (const_names rest)"
        and v2: "ok2 \<longrightarrow> jvalues (ch_strs hp4) ws2 = jvalues (ch_strs hp3) rest" and p2: "plenty K hp3 \<longrightarrow> ok2" by (auto simp: t_def)
      have p3: "plenty K hp3" if "plenty K hp"
      proof (rule plenty_off [OF that])
        show "ch_items hp3 x = ch_items hp x" if "x \<notin> set (addrs [LT b e us, t])" for x
        proof -
          have "x \<notin> set (addrs [t])" using that addrs_append [of "[LT b e us]" "[t]"] by auto
          then show ?thesis using that hp3(3) added unfolding only_items_def added_def by metis
        qed
        show "ch_strs hp3 x = ch_strs hp x" if "x \<notin> set (strs [t])" for x
          using that s3 added unfolding added_def by metis
      qed
      have run: "dup_children K c b (end_of None us) hp = Some (ok2, hp4)"
        using n(1) dup n1 sub True link n3 run2 by (subst dup_children.simps) simp
      have g: "grown hp b e us (t # ws2) hp4" by (rule grown_step [OF added 2(6) hp3(2,3) g2])
      have cnt: "set (const_names [t]) \<subseteq> set (const_names [LT a d kids])" using cn cn1 by (auto simp: t_def)
      have vals: "jvalues (ch_strs hp4) (t # ws2) = jvalues (ch_strs hp) (LT a d kids # rest)" if ok2
      proof -
        have "jvalues (ch_strs hp3) rest = jvalues (ch_strs hp) rest"
          by (rule jvalues_grow [OF names(3)]) (simp add: s2 s3)
        then have rest: "jvalues (ch_strs hp4) ws2 = jvalues (ch_strs hp) rest" using v2 that by simp
        have "jvalues (ch_strs hp1) kids = jvalues (ch_strs hp) kids" by (rule jvalues_grow [OF names(2) s1])
        then have kids: "jvalues (ch_strs hp2) ws1 = jvalues (ch_strs hp) kids" using v1 True by simp
        have "set (const_names [LT a d []]) \<subseteq> dom (ch_strs hp)" using names(1) by auto
        then have "set (const_names [LT nc e1 []]) \<subseteq> dom (ch_strs hp1)" unfolding cn using d1 by (rule order_trans)
        then have "set (strs [LT nc e1 []]) \<union> set (const_names [LT nc e1 []]) \<subseteq> dom (ch_strs hp1)"
          using tree_strs [OF fresh_item_tree [OF f r1]] by blast
        then have "jvalues (ch_strs hp2) [LT nc e1 []] = jvalues (ch_strs hp) [LT a d []]"
          using jvalues_grow [of "[LT nc e1 []]" _ "ch_strs hp2" "ch_strs hp1"] grown_str [OF g1] val by metis
        with kids have "jvalues (ch_strs hp2) [t] = jvalues (ch_strs hp) [LT a d kids]" by (simp add: t_def)
        moreover have "jvalues (ch_strs hp4) [t] = jvalues (ch_strs hp2) [t]"
        proof (rule jvalues_grow)
          have "set (const_names [t]) \<subseteq> dom (ch_strs hp2)" using cnt names(1) d3 s3 by (metis Un_subset_iff subset_trans)
          then show "set (strs [t]) \<union> set (const_names [t]) \<subseteq> dom (ch_strs hp2)" using tree_strs [OF tt] by blast
          show "ch_strs hp4 s = ch_strs hp2 s" if "s \<in> dom (ch_strs hp2)" for s
            using grown_str [OF g2] that s3 by metis
        qed
        ultimately show ?thesis using rest jvalues_append [of _ "[t]" ws2] jvalues_append [of _ "[LT a d kids]" rest] by simp
      qed
      have "set (const_names (t # ws2)) \<subseteq> set (const_names (LT a d kids # rest))"
        using cnt cn2 const_names_append [of "[t]" ws2] const_names_append [of "[LT a d kids]" rest] by auto
      then show ?thesis using run g vals p2 p3 by blast
    qed
  qed
qed

section \<open>Theorems\<close>

text \<open>
  C14: Deleting the root of a tree frees every item of the tree and every string that belongs to it,
  each exactly once, and nothing else.
\<close>

theorem cJSON_Delete_frees_tree:
  assumes "tree hp t"
  shows "cJSON_Delete (Some (lt_addr t)) hp
    = Some \<lparr>ch_items = ch_items hp |` (- set (addrs [t])), ch_strs = ch_strs hp |` (- set (strs [t]))\<rparr>"
  using assms cJSON_Delete_chain [of hp "Some (lt_addr t)" None "[t]"] by (simp add: tree_def owned_def)

text \<open>
  C13: On an array or object whose items are \<open>ts\<close>, appending, inserting, detaching and replacing by
  index do what the same operations on the list \<open>ts\<close> do, and keep the tree well-formed; the detached
  item is a tree of its own, the replaced one is freed.
\<close>

theorem cjson_array_edits:
  assumes arr: "tree hp (LT a d ts)" and new: "tree hp t" and ap: "apart (LT a d ts) t"
  shows "(\<exists>hp'. cJSON_AddItemToArray (Some a) (Some (lt_addr t)) hp = Some hp' \<and> tree hp' (LT a d (ts @ [t])))
    \<and> (\<forall>i. \<exists>hp'. cJSON_InsertItemInArray (Some a) (int i) (Some (lt_addr t)) hp = Some hp'
         \<and> tree hp' (LT a d (take i ts @ t # drop i ts)))
    \<and> (\<forall>i < length ts. \<exists>hp'. cJSON_DetachItemFromArray (Some a) (int i) hp = Some (Some (lt_addr (ts ! i)), hp')
         \<and> tree hp' (LT a d (take i ts @ drop (Suc i) ts)) \<and> tree hp' (ts ! i)
         \<and> apart (LT a d (take i ts @ drop (Suc i) ts)) (ts ! i))
    \<and> (\<forall>i < length ts. \<exists>hp'. cJSON_ReplaceItemInArray (Some a) (int i) (Some (lt_addr t)) hp = Some hp'
         \<and> tree hp' (LT a d (ts[i := t])) \<and> (\<forall>c \<in> set (addrs [ts ! i]). ch_items hp' c = None)
         \<and> ch_strs hp' = ch_strs hp |` (- set (strs [ts ! i])))"
proof (intro conjI allI impI)
  show "\<exists>hp'. cJSON_AddItemToArray (Some a) (Some (lt_addr t)) hp = Some hp' \<and> tree hp' (LT a d (ts @ [t]))"
    using add_item_to_array_tree [OF arr new ap] by (auto simp: cJSON_AddItemToArray_def)
next
  fix i
  show "\<exists>hp'. cJSON_InsertItemInArray (Some a) (int i) (Some (lt_addr t)) hp = Some hp'
         \<and> tree hp' (LT a d (take i ts @ t # drop i ts))"
  proof (cases "i \<le> length ts")
    case True
    then show ?thesis using insert_tree [of hp a d "take i ts" "drop i ts" t] arr new ap by auto
  next
    case False
    then show ?thesis using add_item_to_array_tree [OF arr new ap] get_array_item_tree [OF arr, of i]
      by (auto simp: cJSON_InsertItemInArray_def)
  qed
next
  fix i assume i: "i < length ts"
  note ts = id_take_nth_drop [OF i]
  have get: "get_array_item (Some a) i hp = Some (Some (lt_addr (ts ! i)))"
    using get_array_item_tree [OF arr] i by simp
  have arr': "tree hp (LT a d (take i ts @ ts ! i # drop (Suc i) ts))" using arr ts by simp
  show "\<exists>hp'. cJSON_DetachItemFromArray (Some a) (int i) hp = Some (Some (lt_addr (ts ! i)), hp')
         \<and> tree hp' (LT a d (take i ts @ drop (Suc i) ts)) \<and> tree hp' (ts ! i)
         \<and> apart (LT a d (take i ts @ drop (Suc i) ts)) (ts ! i)"
    using detach_tree [OF arr'] detach_apart [OF arr'] get by (auto simp: cJSON_DetachItemFromArray_def)
  show "\<exists>hp'. cJSON_ReplaceItemInArray (Some a) (int i) (Some (lt_addr t)) hp = Some hp'
         \<and> tree hp' (LT a d (ts[i := t])) \<and> (\<forall>c \<in> set (addrs [ts ! i]). ch_items hp' c = None)
         \<and> ch_strs hp' = ch_strs hp |` (- set (strs [ts ! i]))"
    using replace_tree [OF arr' new] ap ts get upd_conv_take_nth_drop [OF i, of t]
    by (auto simp: cJSON_ReplaceItemInArray_def)
qed

text \<open>
  C15: Copying a tree never fails with undefined behaviour: as long as there is memory it returns a tree at
  fresh addresses that says the same and leaves the original alone, and deleting the copy gives the heap
  back; only when memory runs out on the way it returns NULL, after releasing everything it had allocated.
\<close>

theorem cJSON_Duplicate_copies:
  assumes K: "alloc_fresh (ck_item K)" "alloc_fresh (ck_str K)"
    and t: "tree hp t" "set (const_names [t]) \<subseteq> dom (ch_strs hp)"
  shows "\<exists>p hp'. cJSON_Duplicate K (Some (lt_addr t)) True hp = Some (p, hp')
     \<and> (case p of None \<Rightarrow> hp' = hp \<and> \<not> plenty K hp
        | Some b \<Rightarrow> cJSON_Delete (Some b) hp' = Some hp \<and> (\<exists>u. lt_addr u = b \<and> tree hp' u \<and> tree hp' t \<and> apart t u
            \<and> jvalues (ch_strs hp') [u] = jvalues (ch_strs hp) [t]))"
proof -
  obtain a d kids where ta: "t = LT a d kids" by (cases t)
  obtain n where n: "ch_items hp a = Some n" "cj_data n = d" "chain (ch_items hp) (cj_child n) None kids" "\<not> is_reference d" "no_refs kids"
    using t(1) ta treeE by metis
  have names: "set (strs [t]) \<union> set (const_names [t]) \<subseteq> dom (ch_strs hp)" using tree_strs [OF t(1)] t(2) by blast
  then have nk: "set (strs kids) \<union> set (const_names kids) \<subseteq> dom (ch_strs hp)" using ta by auto
  have src: "a \<in> dom (ch_items hp)" "set (addrs kids) \<subseteq> dom (ch_items hp)" using tree_addrs [OF t(1)] ta by auto
  from dup_item_spec [OF K n(1,2,4) names_in_dom [OF names [unfolded ta]]] show ?thesis
  proof (elim disjE exE conjE)
    fix b e hp1
    assume dup: "dup_item K a hp = Some (Some b, hp1)" and f: "fresh_item hp b e hp1"
      and val: "jvalues (ch_strs hp1) [LT b e []] = jvalues (ch_strs hp) [LT a d []]"
      and r1: "\<not> is_reference e" and cn: "const_names [LT b e []] = const_names [LT a d []]"
    have nb: "b \<notin> dom (ch_items hp)" using f by (simp add: fresh_item_def domIff)
    have i1: "ch_items hp1 x = ch_items hp x" if "x \<in> dom (ch_items hp)" for x
      using f that nb by (auto simp: fresh_item_def)
    have s1: "ch_strs hp1 s = ch_strs hp s" if "s \<in> dom (ch_strs hp)" for s
      using f that unfolding fresh_item_def by blast
    have kids1: "chain (ch_items hp1) (cj_child n) None kids"
      by (rule item_seg_cong [THEN iffD1, OF _ n(3)]) (use i1 src(2) in \<open>metis subsetD\<close>)
    have d1: "dom (ch_strs hp) \<subseteq> dom (ch_strs hp1)" using s1 by (auto simp: dom_def)
    have "set (addrs kids) \<inter> set (addrs [LT b e []]) = {}" using nb src(2) by auto
    from dup_children_spec [OF K kids1 n(5) _ fresh_item_tree [OF f r1] this] nk d1
    obtain ok ws hp2 where sub: "dup_children K (cj_child n) b None hp1 = Some (ok, hp2)" and g: "grown hp1 b e [] ws hp2"
      and v: "ok \<longrightarrow> jvalues (ch_strs hp2) ws = jvalues (ch_strs hp1) kids" and full: "plenty K hp1 \<longrightarrow> ok" by force
    define u where "u = LT b e ws"
    have added: "added hp u hp2" unfolding u_def by (rule fresh_grown_added [OF f r1 g])
    have n1: "ch_items hp1 a = Some n" using i1 [OF src(1)] n(1) by simp
    have del: "cJSON_Delete (Some b) hp2 = Some hp"
      using delete_added [of hp2 u hp] added by (auto simp: added_def u_def)
    show ?thesis
    proof (cases ok)
      case False
      then have "\<not> plenty K hp" using full fresh_plenty [OF f] by blast
      then show ?thesis using False dup n1 sub ta del by (simp add: cJSON_Duplicate_def)
    next
      case True
      have "jvalues (ch_strs hp1) kids = jvalues (ch_strs hp) kids" by (rule jvalues_grow [OF nk s1])
      then have kv: "jvalues (ch_strs hp2) ws = jvalues (ch_strs hp) kids" using v True by simp
      have "set (const_names [LT a d []]) \<subseteq> dom (ch_strs hp)" using t(2) ta by auto
      then have "set (const_names [LT b e []]) \<subseteq> dom (ch_strs hp1)" unfolding cn using d1 by (rule order_trans)
      then have "set (strs [LT b e []]) \<union> set (const_names [LT b e []]) \<subseteq> dom (ch_strs hp1)"
        using tree_strs [OF fresh_item_tree [OF f r1]] by blast
      then have "jvalues (ch_strs hp2) [LT b e []] = jvalues (ch_strs hp) [LT a d []]"
        using jvalues_grow [of "[LT b e []]" _ "ch_strs hp2" "ch_strs hp1"] grown_str [OF g] val by metis
      with kv have vals: "jvalues (ch_strs hp2) [u] = jvalues (ch_strs hp) [t]" by (simp add: u_def ta)
      have run: "cJSON_Duplicate K (Some (lt_addr t)) True hp = Some (Some b, hp2)"
        using True dup n1 sub ta by (simp add: cJSON_Duplicate_def)
      have "tree hp2 u" "lt_addr u = b" using added by (simp_all add: added_def u_def)
      with vals added_apart [OF added t(1)] have ex: "\<exists>u. lt_addr u = b \<and> tree hp2 u \<and> tree hp2 t \<and> apart t u
          \<and> jvalues (ch_strs hp2) [u] = jvalues (ch_strs hp) [t]" by (intro exI [of _ u] conjI)
      show ?thesis by (rule exI, rule exI, rule conjI [OF run]) (simp only: option.case, rule conjI [OF del ex])
    qed
  qed (simp add: cJSON_Duplicate_def ta)
qed


text \<open>The heap of \<open>[1, "a"]\<close> at address 10 and of the number 7 at address 20.\<close>

definition jd_num :: "int \<Rightarrow> cjson_data" where
  "jd_num k = \<lparr>cd_type = cJSON_Number, cd_valuestring = None, cd_valueint = k, cd_valuedouble = whole k, cd_string = None\<rparr>"
definition jd_text :: "addr \<Rightarrow> cjson_data" where
  "jd_text s = \<lparr>cd_type = cJSON_String, cd_valuestring = Some s, cd_valueint = 0, cd_valuedouble = 0, cd_string = None\<rparr>"
definition jd_array :: cjson_data where
  "jd_array = \<lparr>cd_type = cJSON_Array, cd_valuestring = None, cd_valueint = 0, cd_valuedouble = 0, cd_string = None\<rparr>"

definition cheap0 :: cheap where
  "cheap0 = \<lparr>ch_items = [10 \<mapsto> \<lparr>cj_next = None, cj_prev = None, cj_child = Some 11, cj_data = jd_array\<rparr>,
       11 \<mapsto> \<lparr>cj_next = Some 12, cj_prev = None, cj_child = None, cj_data = jd_num 1\<rparr>,
       12 \<mapsto> \<lparr>cj_next = None, cj_prev = Some 11, cj_child = None, cj_data = jd_text 1\<rparr>,
       20 \<mapsto> \<lparr>cj_next = None, cj_prev = None, cj_child = None, cj_data = jd_num 7\<rparr>],
     ch_strs = [1 \<mapsto> ''a'', 2 \<mapsto> ''b'']\<rparr>"

definition tree0 :: ltree where
  "tree0 = LT 10 jd_array [LT 11 (jd_num 1) [], LT 12 (jd_text 1) []]"

lemma cheap0_trees: "tree cheap0 tree0" "tree cheap0 (LT 20 (jd_num 7) [])" "apart tree0 (LT 20 (jd_num 7) [])"
  by (simp_all add: tree_def owned_def cheap0_def tree0_def apart_def data_strs_def jd_num_def jd_text_def jd_array_def
    string_is_const_def is_reference_def)

lemma cJSON_Delete_frees_tree_witness:
  "\<exists>hp'. cJSON_Delete (Some 10) cheap0 = Some hp' \<and> dom (ch_items hp') = {20} \<and> dom (ch_strs hp') = {2}"
  using cJSON_Delete_frees_tree [OF cheap0_trees(1)]
  by (auto simp: tree0_def cheap0_def data_strs_def jd_num_def jd_text_def jd_array_def split: if_splits)

lemma cjson_array_edits_witness:
  "\<exists>hp'. cJSON_InsertItemInArray (Some 10) 1 (Some 20) cheap0 = Some hp'
     \<and> tree hp' (LT 10 jd_array [LT 11 (jd_num 1) [], LT 20 (jd_num 7) [], LT 12 (jd_text 1) []])"
proof -
  have "\<forall>i. \<exists>hp'. cJSON_InsertItemInArray (Some 10) (int i) (Some 20) cheap0 = Some hp'
      \<and> tree hp' (LT 10 jd_array (take i [LT 11 (jd_num 1) [], LT 12 (jd_text 1) []]
          @ LT 20 (jd_num 7) [] # drop i [LT 11 (jd_num 1) [], LT 12 (jd_text 1) []]))"
    using cjson_array_edits [OF cheap0_trees [unfolded tree0_def]] by auto
  from this [THEN spec, of 1] show ?thesis by simp
qed

lemma cJSON_Duplicate_copies_witness:
  "\<exists>b hp' u. cJSON_Duplicate \<lparr>ck_item = alloc0, ck_str = alloc0\<rparr> (Some 10) True cheap0 = Some (Some b, hp') \<and> lt_addr u = b \<and> tree hp' u
     \<and> jvalues (ch_strs hp') [u] = jvalues (ch_strs cheap0) [tree0] \<and> cJSON_Delete (Some b) hp' = Some cheap0"
proof -
  have K: "alloc_fresh (ck_item \<lparr>ck_item = alloc0, ck_str = alloc0\<rparr>)" "alloc_fresh (ck_str \<lparr>ck_item = alloc0, ck_str = alloc0\<rparr>)"
    by (simp_all add: alloc0_fresh)
  have pl: "plenty \<lparr>ck_item = alloc0, ck_str = alloc0\<rparr> cheap0"
    by (simp add: plenty_def alloc0_fresh alloc0_total cheap0_def)
  have "set (const_names [tree0]) \<subseteq> dom (ch_strs cheap0)"
    by (simp add: tree0_def jd_num_def jd_text_def jd_array_def string_is_const_def)
  from cJSON_Duplicate_copies [OF K cheap0_trees(1) this] obtain p hp' where
    r: "cJSON_Duplicate \<lparr>ck_item = alloc0, ck_str = alloc0\<rparr> (Some (lt_addr tree0)) True cheap0 = Some (p, hp')"
      "case p of None \<Rightarrow> hp' = cheap0 \<and> \<not> plenty \<lparr>ck_item = alloc0, ck_str = alloc0\<rparr> cheap0
       | Some b \<Rightarrow> cJSON_Delete (Some b) hp' = Some cheap0 \<and> (\<exists>u. lt_addr u = b \<and> tree hp' u \<and> tree hp' tree0 \<and> apart tree0 u
            \<and> jvalues (ch_strs hp') [u] = jvalues (ch_strs cheap0) [tree0])" by blast
  obtain b where b: "p = Some b" using r(2) pl by (cases p) simp_all
  have "lt_addr tree0 = 10" by (simp add: tree0_def)
  with r b show ?thesis by (simp del: jvalues.simps) blast
qed

end
