(* ===== verification/CJson_Number.thy ===== *)
theory CJson_Number
  imports CJson
begin

text \<open>
  The numbers of JSON text: what \<^verbatim>\<open>strtod\<close>, \<^verbatim>\<open>sscanf\<close> with \<^verbatim>\<open>%lg\<close> and \<^verbatim>\<open>sprintf\<close> with
  \<^verbatim>\<open>%1.15g\<close> do (ISO C 7.20.1.3 and 7.19.6.1, in the \<^verbatim>\<open>C\<close> locale) with IEEE doubles: reading rounds the
  decimal to the nearest double, ties to even, and printing rounds the double to the digits asked for.
\<close>

section \<open>Decimal digits\<close>

abbreviation code :: "char \<Rightarrow> nat" where "code c \<equiv> of_char c"

definition is_digit :: "char \<Rightarrow> bool" where
  "is_digit c \<longleftrightarrow> 48 \<le> code c \<and> code c \<le> 57"

definition digit_char :: "nat \<Rightarrow> char" where
  "digit_char d = char_of (48 + d)"

definition digits_value :: "string \<Rightarrow> nat" where
  "digits_value s = foldl (\<lambda>n c. 10 * n + (code c - 48)) 0 s"

fun nat_digits :: "nat \<Rightarrow> string" where
  "nat_digits n = (if n < 10 then [digit_char n] else nat_digits (n div 10) @ [digit_char (n mod 10)])"

declare nat_digits.simps [simp del]

definition pow10 :: "int \<Rightarrow> rat" where
  "pow10 k = (if 0 \<le> k then 10 ^ nat k else 1 / 10 ^ nat (- k))"

section \<open>Rounding\<close>

text \<open>The integer next to a nonnegative number, the even one of two.\<close>

definition round_even :: "rat \<Rightarrow> nat" where
  "round_even q =
     (let f = nat \<lfloor>q\<rfloor>; r = q - of_nat f in
      if r < 1 / 2 then f else if 1 / 2 < r then f + 1 else if even f then f else f + 1)"

fun bits :: "nat \<Rightarrow> nat" where
  "bits n = (if n = 0 then 0 else bits (n div 2) + 1)"

declare bits.simps [simp del]

definition pow2 :: "int \<Rightarrow> rat" where
  "pow2 k = (if 0 \<le> k then 2 ^ nat k else 1 / 2 ^ nat (- k))"

text \<open>The binary exponent of a positive number.\<close>

definition bin_exponent :: "rat \<Rightarrow> int" where
  "bin_exponent x =
     (if 1 \<le> x then int (bits (nat \<lfloor>x\<rfloor>)) - 1 else - int (bits (nat (\<lceil>1 / x\<rceil> - 1))))"

definition signed_zero :: "bool \<Rightarrow> double" where
  "signed_zero neg = (if neg then NegZero else 0)"

text \<open>
  The double next to a number given by its sign and its absolute value: 53 bits, fewer below \<open>2 ^ -1022\<close>,
  infinity from \<open>2 ^ 1024\<close> on.
\<close>

definition to_double :: "bool \<Rightarrow> rat \<Rightarrow> double" where
  "to_double neg q =
     (if q = 0 then signed_zero neg
      else
        (let e = max (bin_exponent q - 52) (-1074); v = of_nat (round_even (q / pow2 e)) * pow2 e in
         if v = 0 then signed_zero neg else if pow2 1024 \<le> v then Inf neg else Fin (if neg then - v else v)))"

section \<open>Reading\<close>

text \<open>
  The value of the longest number at the start of the text, and its length; the length is 0 when there
  is none.  The text has no white space, no hexadecimal prefix, no \<^verbatim>\<open>inf\<close> and no \<^verbatim>\<open>nan\<close>: the caller
  copies digits, signs, \<^verbatim>\<open>e\<close>, \<^verbatim>\<open>E\<close> and \<^verbatim>\<open>.\<close> only.
\<close>

definition take_sign :: "string \<Rightarrow> bool \<times> string" where
  "take_sign s = (case s of [] \<Rightarrow> (False, s)
     | c # r \<Rightarrow> if c = CHR ''-'' then (True, r) else if c = CHR ''+'' then (False, r) else (False, s))"

definition take_exponent :: "string \<Rightarrow> int \<times> string" where
  "take_exponent s = (case s of [] \<Rightarrow> (0, s)
     | c # r \<Rightarrow>
        if c = CHR ''e'' \<or> c = CHR ''E'' then
          (let (neg, r) = take_sign r; ds = takeWhile is_digit r in
           if ds = [] then (0, s)
           else ((if neg then - int (digits_value ds) else int (digits_value ds)), dropWhile is_digit r))
        else (0, s))"

definition take_fraction :: "string \<Rightarrow> string \<times> string" where
  "take_fraction s = (case s of [] \<Rightarrow> ([], s)
     | c # r \<Rightarrow> if c = CHR ''.'' then (takeWhile is_digit r, dropWhile is_digit r) else ([], s))"

definition strtod :: "string \<Rightarrow> double \<times> nat" where
  "strtod s =
     (let (neg, s1) = take_sign s;
          ip = takeWhile is_digit s1;
          (fp, s3) = take_fraction (dropWhile is_digit s1) in
      if ip = [] \<and> fp = [] then (0, 0)
      else
        (let (x, s4) = take_exponent s3;
             v = of_nat (digits_value (ip @ fp)) * pow10 (x - int (length fp)) in
         (to_double neg v, length s - length s4)))"

section \<open>Printing\<close>

text \<open>The decimal exponent of a positive number.\<close>

definition dec_exponent :: "rat \<Rightarrow> int" where
  "dec_exponent x =
     (if 1 \<le> x then int (length (nat_digits (nat \<lfloor>x\<rfloor>))) - 1
      else - int (length (nat_digits (nat (\<lceil>1 / x\<rceil> - 1)))))"

text \<open>The \<open>p\<close> leading digits as a number, and the exponent after rounding.\<close>

definition scientific :: "nat \<Rightarrow> rat \<Rightarrow> nat \<times> int" where
  "scientific p x =
     (let k = dec_exponent x; m = round_even (x * pow10 (int p - 1 - k)) in
      if m = 10 ^ p then (10 ^ (p - 1), k + 1) else (m, k))"

definition strip_zeros :: "string \<Rightarrow> string" where
  "strip_zeros s = rev (dropWhile (\<lambda>c. c = CHR ''0'') (rev s))"

definition with_fraction :: "string \<Rightarrow> string \<Rightarrow> string" where
  "with_fraction ip fp = (let f = strip_zeros fp in if f = [] then ip else ip @ CHR ''.'' # f)"

definition exponent_digits :: "nat \<Rightarrow> string" where
  "exponent_digits n = (if n < 10 then CHR ''0'' # nat_digits n else nat_digits n)"

text \<open>The conversion \<^verbatim>\<open>%g\<close> with precision \<open>p > 0\<close>.\<close>

definition format_finite :: "nat \<Rightarrow> rat \<Rightarrow> string" where
  "format_finite p d =
     (if d = 0 then ''0''
      else
        (let (m, k) = scientific p \<bar>d\<bar>; ds = nat_digits m in
         (if d < 0 then ''-'' else '''') @
         (if k < -4 \<or> int p \<le> k then
            with_fraction (take 1 ds) (drop 1 ds) @ CHR ''e'' # (if k < 0 then CHR ''-'' else CHR ''+'') #
              exponent_digits (nat \<bar>k\<bar>)
          else if 0 \<le> k then with_fraction (take (nat k + 1) ds) (drop (nat k + 1) ds)
          else with_fraction ''0'' (replicate (nat (- k) - 1) (CHR ''0'') @ ds))))"

primrec format_g :: "nat \<Rightarrow> double \<Rightarrow> string" where
  "format_g p (Fin d) = format_finite p d"
| "format_g p NegZero = ''-0''"
| "format_g p (Inf neg) = (if neg then ''-inf'' else ''inf'')"

section \<open>Integers of at most 15 digits\<close>

lemma bits_bound: "0 < n \<Longrightarrow> 2 ^ (bits n - 1) \<le> n \<and> n < 2 ^ bits n \<and> 0 < bits n"
proof (induction n rule: bits.induct)
  case (1 n)
  show ?case
  proof (cases "n = 1")
    case True
    then show ?thesis by (simp add: bits.simps)
  next
    case False
    then have h: "0 < n div 2" using 1(2) by simp
    define k where "k = bits (n div 2)"
    have k: "2 ^ (k - 1) \<le> n div 2" "n div 2 < 2 ^ k" "0 < k" using 1(1) 1(2) h by (simp_all add: k_def)
    have b: "bits n = Suc k" using 1(2) by (simp add: bits.simps [of n] k_def)
    have "2 * 2 ^ (k - 1) \<le> n" "n < 2 * 2 ^ k" using k by linarith+
    moreover have "2 * 2 ^ (k - 1) = (2::nat) ^ k" using k(3) by (cases k) simp_all
    ultimately show ?thesis unfolding b by simp
  qed
qed

lemma bits_le: "0 < n \<Longrightarrow> n < 2 ^ k \<Longrightarrow> bits n \<le> k"
proof -
  assume n: "0 < n" "n < 2 ^ k"
  then have "(2::nat) ^ (bits n - 1) < 2 ^ k" using bits_bound [of n] by linarith
  then have "bits n - 1 < k" by (rule power_less_imp_less_exp [rotated]) simp
  then show ?thesis by simp
qed

text \<open>Integers below \<open>2 ^ 53\<close> are doubles.\<close>

lemma to_double_nat:
  assumes "n < 2 ^ 53"
  shows "to_double neg (of_nat n) = (if n = 0 then signed_zero neg else Fin (if neg then - of_nat n else of_nat n))"
proof (cases "n = 0")
  case False
  define k where "k = bits n"
  have k: "0 < k" "k \<le> 53" using bits_bound [of n] bits_le [of n 53] False assms by (auto simp: k_def)
  have e: "max (bin_exponent (of_nat n) - 52) (-1074) = int k - 53"
    using False k by (simp add: bin_exponent_def k_def)
  have p: "pow2 (int k - 53) = 1 / 2 ^ (53 - k)" using k(2) by (simp add: pow2_def nat_diff_distrib')
  have "(of_nat n :: rat) / pow2 (int k - 53) = of_nat (n * 2 ^ (53 - k))" by (simp add: p)
  then have r: "round_even (of_nat n / pow2 (int k - 53)) = n * 2 ^ (53 - k)"
    by (simp add: round_even_def flip: of_nat_mult of_nat_power)
  have v: "of_nat (n * 2 ^ (53 - k)) * pow2 (int k - 53) = (of_nat n :: rat)" by (simp add: p)
  have "(of_nat n :: rat) < 2 ^ 53" using assms by (metis of_nat_less_iff of_nat_numeral of_nat_power)
  also have "\<dots> \<le> pow2 1024" by (simp add: pow2_def)
  finally show ?thesis using False unfolding to_double_def e Let_def r v by simp
qed (simp add: to_double_def)

lemma code_digit_char [simp]: "d < 10 \<Longrightarrow> code (digit_char d) = 48 + d"
  by (simp add: digit_char_def take_bit_nat_eq_self_iff)

lemma is_digit_char [simp]: "d < 10 \<Longrightarrow> is_digit (digit_char d)"
  by (simp add: is_digit_def)

lemma digit_char_0 [simp]: "digit_char 0 = CHR ''0''"
  by code_simp

lemma digits_value_snoc: "digits_value (s @ [c]) = 10 * digits_value s + (code c - 48)"
  by (simp add: digits_value_def)

lemma nat_digits_value [simp]: "digits_value (nat_digits n) = n"
proof (induction n rule: nat_digits.induct)
  case (1 n)
  then show ?case
    by (subst nat_digits.simps) (auto simp: digits_value_snoc digits_value_def)
qed

lemma nat_digits_all: "c \<in> set (nat_digits n) \<Longrightarrow> is_digit c"
proof (induction n rule: nat_digits.induct)
  case (1 n)
  then show ?case by (subst (asm) nat_digits.simps) (auto split: if_splits)
qed

lemma nat_digits_not_Nil [simp]: "nat_digits n \<noteq> []"
  by (subst nat_digits.simps) simp

lemma nat_digits_shift: "0 < n \<Longrightarrow> nat_digits (n * 10 ^ j) = nat_digits n @ replicate j (CHR ''0'')"
proof (induction j)
  case (Suc j)
  have "\<not> n * 10 ^ Suc j < 10" using Suc.prems by simp
  then have "nat_digits (n * 10 ^ Suc j) = nat_digits (n * 10 ^ Suc j div 10) @ [digit_char (n * 10 ^ Suc j mod 10)]"
    by (subst nat_digits.simps) simp
  also have "n * 10 ^ Suc j div 10 = n * 10 ^ j" by simp
  also have "n * 10 ^ Suc j mod 10 = 0" by simp
  finally show ?case using Suc by (simp add: replicate_append_same)
qed simp

lemma nat_digits_length: "0 < n \<Longrightarrow> 10 ^ (length (nat_digits n) - 1) \<le> n \<and> n < 10 ^ length (nat_digits n)"
proof (induction n rule: nat_digits.induct)
  case (1 n)
  show ?case
  proof (cases "n < 10")
    case True
    with 1(2) show ?thesis by (simp add: nat_digits.simps [of n])
  next
    case False
    then have l: "length (nat_digits n) = Suc (length (nat_digits (n div 10)))" by (simp add: nat_digits.simps [of n])
    define k where "k = length (nat_digits (n div 10))"
    have k: "0 < k" by (simp add: k_def)
    have "10 ^ (k - 1) \<le> n div 10" "n div 10 < 10 ^ k" using 1(1) False by (simp_all add: k_def)
    then have "10 * 10 ^ (k - 1) \<le> n" "n < 10 * 10 ^ k" by linarith+
    moreover have "10 * 10 ^ (k - 1) = (10::nat) ^ k" using k by (cases k) simp_all
    ultimately show ?thesis unfolding l k_def [symmetric] by simp
  qed
qed

lemma nat_digits_bound: "0 < n \<Longrightarrow> n < 10 ^ k \<Longrightarrow> length (nat_digits n) \<le> k"
proof -
  assume "0 < n" "n < 10 ^ k"
  then have "(10::nat) ^ (length (nat_digits n) - 1) < 10 ^ k" using nat_digits_length [of n] by linarith
  then have "length (nat_digits n) - 1 < k" by (rule power_less_imp_less_exp [rotated]) simp
  moreover have "0 < length (nat_digits n)" by simp
  ultimately show ?thesis by linarith
qed

lemma strip_zeros_replicate [simp]: "strip_zeros (replicate j (CHR ''0'')) = []"
  by (simp add: strip_zeros_def dropWhile_eq_Nil_conv)

text \<open>Fewer digits than the precision: the integer is printed as it is.\<close>

definition int_digits :: "int \<Rightarrow> string" where
  "int_digits i = (if i < 0 then ''-'' else '''') @ nat_digits (nat \<bar>i\<bar>)"

lemma scientific_nat:
  assumes n: "0 < n" "n < 10 ^ p"
  shows "scientific p (of_nat n) = (n * 10 ^ (p - length (nat_digits n)), int (length (nat_digits n)) - 1)"
proof -
  define k where "k = length (nat_digits n)"
  have k: "0 < k" "k \<le> p" "n < 10 ^ k" using nat_digits_bound [OF n] nat_digits_length [OF n(1)] by (auto simp: k_def)
  have e: "dec_exponent (of_nat n) = int k - 1"
    using n(1) by (simp add: dec_exponent_def k_def)
  have "(of_nat n :: rat) * pow10 (int p - 1 - (int k - 1)) = of_nat (n * 10 ^ (p - k))"
    using k(2) by (simp add: pow10_def nat_diff_distrib' flip: of_nat_power)
  then have m: "round_even (of_nat n * pow10 (int p - 1 - (int k - 1))) = n * 10 ^ (p - k)"
    by (simp add: round_even_def flip: of_nat_mult of_nat_power)
  have "n * 10 ^ (p - k) < 10 ^ k * 10 ^ (p - k)" using k(3) by simp
  also have "\<dots> = (10::nat) ^ p" using k(2) by (simp flip: power_add)
  finally have "n * 10 ^ (p - k) \<noteq> 10 ^ p" by simp
  then show ?thesis unfolding scientific_def Let_def e m k_def [symmetric] by simp
qed

lemma format_g_int:
  assumes "\<bar>i\<bar> < 10 ^ p" "0 < p"
  shows "format_g p (whole i) = int_digits i"
proof (cases "i = 0")
  case True
  then show ?thesis by (simp add: format_finite_def int_digits_def nat_digits.simps [of 0])
next
  case False
  define n where "n = nat \<bar>i\<bar>"
  define k where "k = length (nat_digits n)"
  have n: "0 < n" "n < 10 ^ p" "\<bar>of_int i\<bar> = (of_nat n :: rat)"
    using False assms(1) by (auto simp: n_def nat_less_iff)
  have k: "0 < k" "k \<le> p" using nat_digits_bound [OF n(1,2)] by (auto simp: k_def)
  have "take k (nat_digits n @ replicate (p - k) (CHR ''0'')) = nat_digits n" by (simp add: k_def)
  moreover have "drop k (nat_digits n @ replicate (p - k) (CHR ''0'')) = replicate (p - k) (CHR ''0'')" by (simp add: k_def)
  moreover have "nat (int k - 1) + 1 = k" using k(1) by linarith
  ultimately show ?thesis
    using False k by (simp add: format_finite_def int_digits_def n(3) scientific_nat [OF n(1,2)] nat_digits_shift n(1)
        k_def [symmetric] n_def [symmetric] with_fraction_def)
qed

text \<open>Reading back, up to the first character that is no part of a number.\<close>

definition number_char :: "char \<Rightarrow> bool" where
  "number_char c \<longleftrightarrow> is_digit c \<or> c \<in> {CHR ''+'', CHR ''-'', CHR ''e'', CHR ''E'', CHR ''.''}"

lemma not_digits [simp]: "\<not> is_digit (CHR ''-'')" "\<not> is_digit (CHR ''+'')" "\<not> is_digit (CHR ''.'')"
    "\<not> is_digit (CHR ''e'')" "\<not> is_digit (CHR ''E'')"
  by (simp_all add: is_digit_def)

lemma takeWhile_digits [simp]: "takeWhile is_digit (nat_digits n) = nat_digits n" "dropWhile is_digit (nat_digits n) = []"
  using nat_digits_all by (auto simp: takeWhile_eq_all_conv)

lemma take_sign_digits: "take_sign (nat_digits n) = (False, nat_digits n)"
  using nat_digits_all [of "hd (nat_digits n)" n] by (auto simp: take_sign_def split: list.split)

lemma strtod_int:
  assumes "\<bar>i\<bar> < 2 ^ 53"
  shows "strtod (int_digits i) = (whole i, length (int_digits i))"
proof -
  have "nat \<bar>i\<bar> < 2 ^ 53" using assms by (simp add: nat_less_iff)
  from to_double_nat [OF this] show ?thesis
    by (auto simp: strtod_def int_digits_def take_sign_digits take_sign_def [of "CHR ''-'' # s" for s] take_fraction_def
        take_exponent_def pow10_def signed_zero_def zero_double_def)
qed

lemma int_digits_chars: "c \<in> set (int_digits i) \<Longrightarrow> number_char c"
  using nat_digits_all by (auto simp: int_digits_def number_char_def split: if_splits)

lemma int_digits_length: "\<bar>i\<bar> < 10 ^ 15 \<Longrightarrow> length (int_digits i) \<le> 16"
proof -
  assume "\<bar>i\<bar> < 10 ^ 15"
  then have "length (nat_digits (nat \<bar>i\<bar>)) \<le> 15"
    using nat_digits_bound [of "nat \<bar>i\<bar>" 15] by (cases "i = 0") (auto simp: nat_less_iff nat_digits.simps [of 0])
  then show ?thesis by (cases "i < 0") (simp_all add: int_digits_def)
qed

end
