(* ===== verification/CJson_Parse.thy ===== *)
theory CJson_Parse
  imports CJson CJson_Number
begin

text \<open>
  The parser of \<^verbatim>\<open>common/cjson/cJSON.c\<close> on the heap of items and strings.  The input is the text with its
  terminating zero byte; every read of it and every write into the string under construction is checked
  against the size of the block, and is undefined outside it.
\<close>

section \<open>The input buffer\<close>

definition CJSON_NESTING_LIMIT :: nat where "CJSON_NESTING_LIMIT = 1000"

record parse_buffer =
  pb_content :: string
  pb_offset :: nat
  pb_depth :: nat

definition can_read :: "parse_buffer \<Rightarrow> nat \<Rightarrow> bool" where
  "can_read b n \<longleftrightarrow> pb_offset b + n \<le> length (pb_content b)"

definition can_access_at_index :: "parse_buffer \<Rightarrow> nat \<Rightarrow> bool" where
  "can_access_at_index b i \<longleftrightarrow> pb_offset b + i < length (pb_content b)"

definition char_at :: "string \<Rightarrow> nat \<Rightarrow> char option" where
  "char_at s i = (if i < length s then Some (s ! i) else None)"

definition buffer_at :: "parse_buffer \<Rightarrow> nat \<Rightarrow> char option" where
  "buffer_at b i = char_at (pb_content b) (pb_offset b + i)"

definition move :: "nat \<Rightarrow> parse_buffer \<Rightarrow> parse_buffer" where
  "move n b = b\<lparr>pb_offset := pb_offset b + n\<rparr>"

definition goto_pos :: "nat \<Rightarrow> parse_buffer \<Rightarrow> parse_buffer" where
  "goto_pos n b = b\<lparr>pb_offset := n\<rparr>"

text \<open>\<^verbatim>\<open>strncmp(buffer_at_offset(b), s, strlen(s)) == 0\<close> after \<^verbatim>\<open>can_read(b, strlen(s))\<close>.\<close>

definition looking_at :: "parse_buffer \<Rightarrow> string \<Rightarrow> bool" where
  "looking_at b s \<longleftrightarrow> can_read b (length s) \<and> take (length s) (drop (pb_offset b) (pb_content b)) = s"

definition next_is :: "parse_buffer \<Rightarrow> char \<Rightarrow> bool" where
  "next_is b c \<longleftrightarrow> can_access_at_index b 0 \<and> buffer_at b 0 = Some c"

text \<open>Skips everything up to and including the space, the terminating zero too; then it steps back on it.\<close>

definition buffer_skip_whitespace :: "parse_buffer \<Rightarrow> parse_buffer" where
  "buffer_skip_whitespace b =
     (let n = pb_offset b + length (takeWhile (\<lambda>c. code c \<le> 32) (drop (pb_offset b) (pb_content b))) in
      b\<lparr>pb_offset := (if n = length (pb_content b) then n - 1 else n)\<rparr>)"

text \<open>The byte order mark is looked for at offset 0, and only when there are five bytes.\<close>

definition skip_utf8_bom :: "parse_buffer \<Rightarrow> parse_buffer ptr" where
  "skip_utf8_bom b =
     (if pb_offset b \<noteq> 0 then None
      else if can_access_at_index b 4 \<and> take 3 (pb_content b) = [char_of (0xEF::nat), char_of (0xBB::nat), char_of (0xBF::nat)]
      then Some (move 3 b) else Some b)"

section \<open>Numbers\<close>

text \<open>At most 63 characters are copied out of the input.\<close>

definition number_text :: "parse_buffer \<Rightarrow> string" where
  "number_text b = takeWhile number_char (take 63 (drop (pb_offset b) (pb_content b)))"

definition parse_number :: "addr \<Rightarrow> parse_buffer \<Rightarrow> cheap \<Rightarrow> (bool \<times> parse_buffer \<times> cheap) option" where
  "parse_number item b hp =
     (let (number, n) = strtod (number_text b) in
      if n = 0 then Some (False, b, hp)
      else do {
        hp \<leftarrow> upd_data item (\<lambda>d. d\<lparr>cd_valuedouble := number, cd_valueint := saturate_int number,
               cd_type := cJSON_Number\<rparr>) hp;
        Some (True, move n b, hp) })"

definition cJSON_SetNumberHelper :: "addr \<Rightarrow> double \<Rightarrow> cheap \<Rightarrow> (double \<times> cheap) option" where
  "cJSON_SetNumberHelper object number hp = do {
     hp \<leftarrow> upd_data object (\<lambda>d. d\<lparr>cd_valueint := saturate_int number, cd_valuedouble := number\<rparr>) hp;
     Some (number, hp) }"

section \<open>Strings\<close>

definition hex_digit :: "char \<Rightarrow> nat ptr" where
  "hex_digit c =
     (if 48 \<le> code c \<and> code c \<le> 57 then Some (code c - 48)
      else if 65 \<le> code c \<and> code c \<le> 70 then Some (10 + code c - 65)
      else if 97 \<le> code c \<and> code c \<le> 102 then Some (10 + code c - 97)
      else None)"

text \<open>The loop over the four digits: an invalid one ends it with 0.\<close>

fun hex_loop :: "string \<Rightarrow> nat \<Rightarrow> nat \<Rightarrow> nat \<Rightarrow> nat option" where
  "hex_loop s pos 0 h = Some h"
| "hex_loop s pos (Suc left) h = do {
     c \<leftarrow> char_at s pos;
     (case hex_digit c of None \<Rightarrow> Some 0
      | Some d \<Rightarrow> hex_loop s (pos + 1) left (if left = 0 then h + d else (h + d) * 16)) }"

definition parse_hex4 :: "string \<Rightarrow> nat \<Rightarrow> nat option" where
  "parse_hex4 s pos = hex_loop s pos 4 0"

unbundle bit_operations_syntax

text \<open>The bytes of a code point: the last \<open>n\<close> ones, and what is left for the first.\<close>

fun utf8_tail :: "nat \<Rightarrow> nat \<Rightarrow> string \<Rightarrow> nat \<times> string" where
  "utf8_tail 0 cp bs = (cp, bs)"
| "utf8_tail (Suc n) cp bs = utf8_tail n (drop_bit 6 cp) (char_of ((cp OR 0x80) AND 0xBF) # bs)"

definition encode_utf8 :: "nat \<Rightarrow> string ptr" where
  "encode_utf8 codepoint =
     (if codepoint < 0x80 then Some [char_of (codepoint AND 0x7F)]
      else
        (case (if codepoint < 0x800 then Some (1, 0xC0)
               else if codepoint < 0x10000 then Some (2, 0xE0)
               else if codepoint \<le> 0x10FFFF then Some (3, 0xF0) else None) of
           None \<Rightarrow> None
         | Some (n, mark) \<Rightarrow> (let (cp, bs) = utf8_tail n codepoint [] in Some (char_of ((cp OR mark) AND 0xFF) # bs))))"

text \<open>The number of characters read, which is 0 for a failure, and the bytes written.\<close>

definition utf16_literal_to_utf8 :: "string \<Rightarrow> nat \<Rightarrow> nat \<Rightarrow> (nat \<times> string) option" where
  "utf16_literal_to_utf8 s first_sequence input_end =
     (let finish = (\<lambda>n codepoint. case encode_utf8 codepoint of None \<Rightarrow> Some (0, []) | Some bs \<Rightarrow> Some (n, bs)) in
      if input_end < first_sequence + 6 then Some (0, [])
      else do {
        first_code \<leftarrow> parse_hex4 s (first_sequence + 2);
        if 0xDC00 \<le> first_code \<and> first_code \<le> 0xDFFF then Some (0, [])
        else if 0xD800 \<le> first_code \<and> first_code \<le> 0xDBFF then
          (let second_sequence = first_sequence + 6 in
           if input_end < second_sequence + 6 then Some (0, [])
           else do {
             c0 \<leftarrow> char_at s second_sequence;
             c1 \<leftarrow> char_at s (second_sequence + 1);
             if c0 \<noteq> CHR 0x5C \<or> c1 \<noteq> CHR ''u'' then Some (0, [])
             else do {
               second_code \<leftarrow> parse_hex4 s (second_sequence + 2);
               if second_code < 0xDC00 \<or> 0xDFFF < second_code then Some (0, [])
               else finish 12 (0x10000 + (push_bit 10 (first_code AND 0x3FF) OR (second_code AND 0x3FF))) } })
        else finish 6 first_code })"

text \<open>
  The end of the literal, and the number of escaping backslashes; NULL when it does not end.
\<close>

function scan_string :: "string \<Rightarrow> nat \<Rightarrow> nat \<Rightarrow> (nat \<times> nat) ptr" where
  "scan_string s pos skipped =
     (if pos < length s \<and> s ! pos \<noteq> CHR 0x22 then
        (if s ! pos = CHR 0x5C then
           (if length s \<le> pos + 1 then None else scan_string s (pos + 2) (skipped + 1))
         else scan_string s (pos + 1) skipped)
      else if length s \<le> pos then None else Some (pos, skipped))"
  by pat_completeness auto
termination by (relation "measure (\<lambda>(s, pos, _). length s - pos)") auto

declare scan_string.simps [simp del]

text \<open>Appends to the output, which is a block of \<open>cap\<close> bytes.\<close>

definition emit :: "nat \<Rightarrow> string \<Rightarrow> string \<Rightarrow> string option" where
  "emit cap out bs = (if length out + length bs \<le> cap then Some (out @ bs) else None)"

definition simple_escape :: "char \<Rightarrow> char ptr" where
  "simple_escape c =
     (if c = CHR ''b'' then Some (CHR 0x08) else if c = CHR ''f'' then Some (CHR 0x0C)
      else if c = CHR ''n'' then Some (CHR 0x0A) else if c = CHR ''r'' then Some (CHR 0x0D)
      else if c = CHR ''t'' then Some (CHR 0x09)
      else if c = CHR 0x22 \<or> c = CHR 0x5C \<or> c = CHR ''/'' then Some c else None)"

text \<open>The loop over the literal: where it stopped, and the output or NULL for a failure.\<close>

function unescape :: "string \<Rightarrow> nat \<Rightarrow> nat \<Rightarrow> nat \<Rightarrow> string \<Rightarrow> (nat \<times> string ptr) option" where
  "unescape s input_pointer input_end cap out =
     (if input_end \<le> input_pointer then Some (input_pointer, Some out)
      else do {
        c \<leftarrow> char_at s input_pointer;
        if c \<noteq> CHR 0x5C then do {
          out \<leftarrow> emit cap out [c];
          unescape s (input_pointer + 1) input_end cap out }
        else do {
          e \<leftarrow> char_at s (input_pointer + 1);
          (case simple_escape e of
             Some b \<Rightarrow> do {
               out \<leftarrow> emit cap out [b];
               unescape s (input_pointer + 2) input_end cap out }
           | None \<Rightarrow>
               if e \<noteq> CHR ''u'' then Some (input_pointer, None)
               else do {
                 (n, bs) \<leftarrow> utf16_literal_to_utf8 s input_pointer input_end;
                 if n = 0 then Some (input_pointer, None)
                 else do {
                   out \<leftarrow> emit cap out bs;
                   unescape s (input_pointer + n) input_end cap out } }) } })"
  by pat_completeness auto
termination by (relation "measure (\<lambda>(s, p, e, _). e - p)") auto

declare unescape.simps [simp del]

text \<open>The characters before the first zero byte.\<close>

definition c_string :: "string \<Rightarrow> string" where
  "c_string s = takeWhile (\<lambda>c. c \<noteq> CHR 0x00) s"

definition parse_string :: "chooks \<Rightarrow> addr \<Rightarrow> parse_buffer \<Rightarrow> cheap \<Rightarrow> (bool \<times> parse_buffer \<times> cheap) option" where
  "parse_string K item b hp = do {
     q \<leftarrow> buffer_at b 0;
     let start = pb_offset b + 1;
     if q \<noteq> CHR 0x22 then Some (False, goto_pos start b, hp)
     else
       (case scan_string (pb_content b) start 0 of
          None \<Rightarrow> Some (False, goto_pos start b, hp)
        | Some (input_end, skipped_bytes) \<Rightarrow>
            (let allocation_length = input_end - pb_offset b - skipped_bytes in
             case ck_str K (ch_strs hp) of
               None \<Rightarrow> Some (False, goto_pos start b, hp)
             | Some output \<Rightarrow> do {
                 (input_pointer, r) \<leftarrow> unescape (pb_content b) start input_end (allocation_length + 1) [];
                 let hp = hp\<lparr>ch_strs := (ch_strs hp)(output \<mapsto> [])\<rparr>;
                 (case r of
                    None \<Rightarrow> do {
                      hp \<leftarrow> free_str (Some output) hp;
                      Some (False, goto_pos input_pointer b, hp) }
                  | Some out \<Rightarrow> do {
                      out \<leftarrow> emit (allocation_length + 1) out [CHR 0x00];
                      let hp = hp\<lparr>ch_strs := (ch_strs hp)(output \<mapsto> c_string out)\<rparr>;
                      hp \<leftarrow> upd_data item (\<lambda>d. d\<lparr>cd_type := cJSON_String, cd_valuestring := Some output\<rparr>) hp;
                      Some (True, goto_pos (input_end + 1) b, hp) }) })) }"

section \<open>Values\<close>

text \<open>
  What parsing a value into an item does: whether it succeeded, the buffer behind it, the heap.  The
  recursion of \<^verbatim>\<open>parse_value\<close> through \<^verbatim>\<open>parse_array\<close> and \<^verbatim>\<open>parse_object\<close> is written with the inner
  \<^verbatim>\<open>parse_value\<close> as an argument of these two.
\<close>

type_synonym value_parser = "addr \<Rightarrow> parse_buffer \<Rightarrow> cheap \<Rightarrow> (bool \<times> parse_buffer \<times> cheap) option"

text \<open>The next item, linked behind the current one: the same two assignments as \<^verbatim>\<open>suffix_object\<close>.\<close>

definition append_new_item :: "chooks \<Rightarrow> addr ptr \<Rightarrow> cheap \<Rightarrow> (addr ptr \<times> cheap) option" where
  "append_new_item K current_item hp =
     (case cJSON_New_Item K hp of
        (None, hp) \<Rightarrow> Some (None, hp)
      | (Some new_item, hp) \<Rightarrow> do {
          hp \<leftarrow> (case current_item of None \<Rightarrow> Some hp | Some c \<Rightarrow> suffix_object c new_item hp);
          Some (Some new_item, hp) })"

text \<open>The loop over the elements of an array; the result includes the head of the list.\<close>

partial_function (option) parse_elements ::
    "chooks \<Rightarrow> value_parser \<Rightarrow> addr ptr \<Rightarrow> addr ptr \<Rightarrow> parse_buffer \<Rightarrow> cheap
     \<Rightarrow> (bool \<times> addr ptr \<times> parse_buffer \<times> cheap) option" where
  "parse_elements K parse_value head current_item b hp = do {
     (new_item, hp) \<leftarrow> append_new_item K current_item hp;
     (case new_item of
        None \<Rightarrow> Some (False, head, b, hp)
      | Some i \<Rightarrow> do {
          let head = (if head = None then new_item else head);
          (ok, b, hp) \<leftarrow> parse_value i (buffer_skip_whitespace (move 1 b)) hp;
          if \<not> ok then Some (False, head, b, hp)
          else do {
            let b = buffer_skip_whitespace b;
            if next_is b (CHR '','') then parse_elements K parse_value head new_item b hp
            else Some (True, head, b, hp) } }) }"

definition finish_value :: "u32 \<Rightarrow> addr \<Rightarrow> addr ptr \<Rightarrow> parse_buffer \<Rightarrow> cheap \<Rightarrow> (bool \<times> parse_buffer \<times> cheap) option" where
  "finish_value t item head b hp = do {
     hp \<leftarrow> upd_item item (\<lambda>m. m\<lparr>cj_child := head, cj_data := (cj_data m)\<lparr>cd_type := t\<rparr>\<rparr>) hp;
     Some (True, move 1 (b\<lparr>pb_depth := pb_depth b - 1\<rparr>), hp) }"

definition parse_array :: "chooks \<Rightarrow> value_parser \<Rightarrow> value_parser" where
  "parse_array K parse_value item b hp =
     (if CJSON_NESTING_LIMIT \<le> pb_depth b then Some (False, b, hp)
      else do {
        let b = b\<lparr>pb_depth := pb_depth b + 1\<rparr>;
        c \<leftarrow> buffer_at b 0;
        if c \<noteq> CHR ''['' then Some (False, b, hp)
        else do {
          let b = buffer_skip_whitespace (move 1 b);
          if next_is b (CHR '']'') then finish_value cJSON_Array item None b hp
          else if \<not> can_access_at_index b 0 then Some (False, goto_pos (pb_offset b - 1) b, hp)
          else do {
            (ok, head, b, hp) \<leftarrow> parse_elements K parse_value None None (goto_pos (pb_offset b - 1) b) hp;
            if ok \<and> next_is b (CHR '']'') then finish_value cJSON_Array item head b hp
            else do { hp \<leftarrow> cJSON_Delete head hp; Some (False, b, hp) } } } })"

text \<open>The loop over the members of an object: the name is parsed as the value, then moved.\<close>

partial_function (option) parse_members ::
    "chooks \<Rightarrow> value_parser \<Rightarrow> addr ptr \<Rightarrow> addr ptr \<Rightarrow> parse_buffer \<Rightarrow> cheap
     \<Rightarrow> (bool \<times> addr ptr \<times> parse_buffer \<times> cheap) option" where
  "parse_members K parse_value head current_item b hp = do {
     (new_item, hp) \<leftarrow> append_new_item K current_item hp;
     (case new_item of
        None \<Rightarrow> Some (False, head, b, hp)
      | Some i \<Rightarrow> do {
          let head = (if head = None then new_item else head);
          (ok, b, hp) \<leftarrow> parse_string K i (buffer_skip_whitespace (move 1 b)) hp;
          if \<not> ok then Some (False, head, b, hp)
          else do {
            let b = buffer_skip_whitespace b;
            hp \<leftarrow> upd_data i (\<lambda>d. d\<lparr>cd_string := cd_valuestring d, cd_valuestring := None\<rparr>) hp;
            if \<not> next_is b (CHR '':'') then Some (False, head, b, hp)
            else do {
              (ok, b, hp) \<leftarrow> parse_value i (buffer_skip_whitespace (move 1 b)) hp;
              if \<not> ok then Some (False, head, b, hp)
              else do {
                let b = buffer_skip_whitespace b;
                if next_is b (CHR '','') then parse_members K parse_value head new_item b hp
                else Some (True, head, b, hp) } } } }) }"

definition parse_object :: "chooks \<Rightarrow> value_parser \<Rightarrow> value_parser" where
  "parse_object K parse_value item b hp =
     (if CJSON_NESTING_LIMIT \<le> pb_depth b then Some (False, b, hp)
      else do {
        let b = b\<lparr>pb_depth := pb_depth b + 1\<rparr>;
        if \<not> next_is b (CHR ''{'') then Some (False, b, hp)
        else do {
          let b = buffer_skip_whitespace (move 1 b);
          if next_is b (CHR ''}'') then finish_value cJSON_Object item None b hp
          else if \<not> can_access_at_index b 0 then Some (False, goto_pos (pb_offset b - 1) b, hp)
          else do {
            (ok, head, b, hp) \<leftarrow> parse_members K parse_value None None (goto_pos (pb_offset b - 1) b) hp;
            if ok \<and> next_is b (CHR ''}'') then finish_value cJSON_Object item head b hp
            else do { hp \<leftarrow> cJSON_Delete head hp; Some (False, b, hp) } } } })"

text \<open>
  \<open>levels\<close> bounds the depth of the C stack; the nesting limit is reached before it is used up, so 0 levels
  are never needed.
\<close>

fun parse_value :: "nat \<Rightarrow> chooks \<Rightarrow> value_parser" where
  "parse_value 0 K item b hp = None"
| "parse_value (Suc levels) K item b hp =
     (if looking_at b ''null'' then do {
        hp \<leftarrow> upd_data item (\<lambda>d. d\<lparr>cd_type := cJSON_NULL\<rparr>) hp; Some (True, move 4 b, hp) }
      else if looking_at b ''false'' then do {
        hp \<leftarrow> upd_data item (\<lambda>d. d\<lparr>cd_type := cJSON_False\<rparr>) hp; Some (True, move 5 b, hp) }
      else if looking_at b ''true'' then do {
        hp \<leftarrow> upd_data item (\<lambda>d. d\<lparr>cd_type := cJSON_True, cd_valueint := 1\<rparr>) hp; Some (True, move 4 b, hp) }
      else if next_is b (CHR 0x22) then parse_string K item b hp
      else if (case buffer_at b 0 of None \<Rightarrow> False | Some c \<Rightarrow> c = CHR ''-'' \<or> is_digit c) then parse_number item b hp
      else if next_is b (CHR ''['') then parse_array K (parse_value levels K) item b hp
      else if next_is b (CHR ''{'') then parse_object K (parse_value levels K) item b hp
      else Some (False, b, hp))"

declare parse_value.simps [simp del]

text \<open>
  The result, where parsing ended, the error position kept in \<^verbatim>\<open>global_error\<close> (NULL when there is none),
  and the heap.
\<close>

definition cJSON_ParseWithOpts :: "chooks \<Rightarrow> string ptr \<Rightarrow> bool \<Rightarrow> cheap \<Rightarrow> (addr ptr \<times> nat \<times> nat ptr \<times> cheap) option" where
  "cJSON_ParseWithOpts K text require_null_terminated hp =
     (case text of
        None \<Rightarrow> Some (None, 0, None, hp)
      | Some s \<Rightarrow>
          (let b = \<lparr>pb_content = s @ [CHR 0x00], pb_offset = 0, pb_depth = 0\<rparr>;
               error_position = (\<lambda>b. if pb_offset b < length (pb_content b) then pb_offset b
                                       else length (pb_content b) - 1) in
           case cJSON_New_Item K hp of
             (None, hp) \<Rightarrow> Some (None, 0, Some (error_position b), hp)
           | (Some item, hp) \<Rightarrow> do {
               (ok, b, hp) \<leftarrow> (case skip_utf8_bom b of
                   None \<Rightarrow> Some (False, b, hp)
                 | Some b \<Rightarrow> parse_value (CJSON_NESTING_LIMIT + 1) K item (buffer_skip_whitespace b) hp);
               let b = (if ok \<and> require_null_terminated then buffer_skip_whitespace b else b);
               if ok \<and> (require_null_terminated \<longrightarrow> next_is b (CHR 0x00))
               then Some (Some item, pb_offset b, None, hp)
               else do {
                 hp \<leftarrow> cJSON_Delete (Some item) hp;
                 Some (None, error_position b, Some (error_position b), hp) } }))"

definition cJSON_Parse :: "chooks \<Rightarrow> string ptr \<Rightarrow> cheap \<Rightarrow> (addr ptr \<times> cheap) option" where
  "cJSON_Parse K text hp =
     map_option (\<lambda>(item, _, _, hp). (item, hp)) (cJSON_ParseWithOpts K text False hp)"

end
