(* ===== verification/CJson_Parse_Safe.thy ===== *)
theory CJson_Parse_Safe
  imports CJson_String CJson_Tree
begin

text \<open>
  What the parser of \<^verbatim>\<open>common/cjson/cJSON.c\<close> does on any input: it stays inside its buffers, it ends, and it
  either builds a well-typed tree out of memory that was free or gives everything back.
\<close>

section \<open>Lists of trees on top of a heap\<close>

definition off_same :: "addr set \<Rightarrow> addr set \<Rightarrow> cheap \<Rightarrow> cheap \<Rightarrow> bool" where
  "off_same A S hp hp' \<longleftrightarrow> (\<forall>x. x \<notin> A \<longrightarrow> ch_items hp' x = ch_items hp x) \<and> (\<forall>s. s \<notin> S \<longrightarrow> ch_strs hp' s = ch_strs hp s)"

definition first_of :: "ltree list \<Rightarrow> addr ptr" where
  "first_of ts = (case ts of [] \<Rightarrow> None | t # _ \<Rightarrow> Some (lt_addr t))"

lemma first_of_simps [simp]:
  "first_of [] = None" "first_of (t # ts) = Some (lt_addr t)"
  "first_of (ts @ [t]) = (if ts = [] then Some (lt_addr t) else first_of ts)"
  by (simp_all add: first_of_def split: list.split)

lemma off_sameD:
  "off_same A S hp hp' \<Longrightarrow> x \<notin> A \<Longrightarrow> ch_items hp' x = ch_items hp x"
  "off_same A S hp hp' \<Longrightarrow> s \<notin> S \<Longrightarrow> ch_strs hp' s = ch_strs hp s"
  by (simp_all add: off_same_def)

lemma off_same_dom:
  assumes "off_same A S hp hp'"
  shows "A \<inter> dom (ch_items hp) = {} \<Longrightarrow> dom (ch_items hp) \<subseteq> dom (ch_items hp')"
    "S \<inter> dom (ch_strs hp) = {} \<Longrightarrow> dom (ch_strs hp) \<subseteq> dom (ch_strs hp')"
  using assms by (auto simp: off_same_def) (metis IntI domI domIff emptyE)+

text \<open>The list \<open>ts\<close> is all that \<open>hp'\<close> has and \<open>hp\<close> does not.\<close>

definition spread :: "cheap \<Rightarrow> ltree list \<Rightarrow> cheap \<Rightarrow> bool" where
  "spread hp ts hp' \<longleftrightarrow> owned hp' (first_of ts) None ts \<and> off_same (set (addrs ts)) (set (strs ts)) hp hp'
     \<and> set (addrs ts) \<inter> dom (ch_items hp) = {} \<and> set (strs ts) \<inter> dom (ch_strs hp) = {}"

lemma spread_refl: "spread hp [] hp"
  by (simp add: spread_def owned_def off_same_def)

lemma restrict_fresh:
  assumes "\<And>x. x \<notin> A \<Longrightarrow> m' x = m x" "A \<inter> dom m = {}"
  shows "m' |` (- A) = m"
proof
  fix x
  show "(m' |` (- A)) x = m x"
  proof (cases "x \<in> A")
    case True
    then have "x \<notin> dom m" using assms(2) by blast
    with True show ?thesis by (simp add: restrict_map_def domIff)
  qed (use assms(1) in \<open>simp add: restrict_map_def\<close>)
qed

lemma spread_delete:
  assumes "spread hp ts hp'"
  shows "cJSON_Delete (first_of ts) hp' = Some hp"
proof -
  have o: "owned hp' (first_of ts) None ts" using assms by (simp add: spread_def)
  have "ch_items hp' |` (- set (addrs ts)) = ch_items hp" "ch_strs hp' |` (- set (strs ts)) = ch_strs hp"
    by (rule restrict_fresh; use assms in \<open>simp add: spread_def off_same_def\<close>)+
  with cJSON_Delete_chain [of hp' "first_of ts" None ts] o show ?thesis by (simp add: owned_def)
qed

section \<open>A new item and its value\<close>

text \<open>An item that has a place in a list but no value yet.\<close>

definition ready :: "cheap \<Rightarrow> addr \<Rightarrow> cjson_data \<Rightarrow> bool" where
  "ready hp a e \<longleftrightarrow> (\<exists>m. ch_items hp a = Some m \<and> cj_next m = None \<and> cj_child m = None \<and> cj_data m = e)
     \<and> cd_valuestring e = None \<and> \<not> is_reference e \<and> \<not> string_is_const e"

text \<open>The item has got the value \<open>d\<close> with the children \<open>kids\<close>; all of it is in memory that was free.\<close>

definition filled :: "cheap \<Rightarrow> addr \<Rightarrow> cjson_data \<Rightarrow> ltree list \<Rightarrow> cheap \<Rightarrow> bool" where
  "filled hp a d kids hp' \<longleftrightarrow>
     (\<exists>m. ch_items hp a = Some m \<and> ch_items hp' a = Some (m\<lparr>cj_child := first_of kids, cj_data := d\<rparr>)
        \<and> cd_string d = cd_string (cj_data m))
     \<and> \<not> is_reference d \<and> \<not> string_is_const d \<and> no_refs kids
     \<and> chain (ch_items hp') (first_of kids) None kids \<and> distinct (addrs kids)
     \<and> set (addrs kids) \<inter> dom (ch_items hp) = {}
     \<and> distinct (ptr_list (cd_valuestring d) @ strs kids)
     \<and> set (ptr_list (cd_valuestring d) @ strs kids) \<inter> dom (ch_strs hp) = {}
     \<and> set (ptr_list (cd_valuestring d) @ strs kids) \<subseteq> dom (ch_strs hp')
     \<and> off_same (insert a (set (addrs kids))) (set (ptr_list (cd_valuestring d) @ strs kids)) hp hp'"

lemma zero_flags [simp]: "\<not> is_reference zero_data" "\<not> string_is_const zero_data" "cd_valuestring zero_data = None"
    "cd_string zero_data = None"
  by (simp_all add: is_reference_def string_is_const_def zero_data_def)

lemma new_item_cases:
  assumes "alloc_fresh (ck_item K)"
  obtains (none) "cJSON_New_Item K hp = (None, hp)"
  | (item) a where "ch_items hp a = None" "cJSON_New_Item K hp = (Some a, hp\<lparr>ch_items := (ch_items hp)(a \<mapsto>
      \<lparr>cj_next = None, cj_prev = None, cj_child = None, cj_data = zero_data\<rparr>)\<rparr>)"
  using assms by (cases "ck_item K (ch_items hp)") (auto simp: cJSON_New_Item_def dest: alloc_freshD)

lemma append_new_item_spread:
  assumes s: "spread hp0 ts hp" and K: "alloc_fresh (ck_item K)"
  shows "append_new_item K (end_of None ts) hp = Some (None, hp)
    \<or> (\<exists>a hp'. append_new_item K (end_of None ts) hp = Some (Some a, hp') \<and> ready hp' a zero_data
        \<and> spread hp0 (ts @ [LT a zero_data []]) hp' \<and> ck_item K (ch_items hp) = Some a \<and> ch_strs hp' = ch_strs hp)"
proof (cases rule: new_item_cases [OF K, of hp, case_names none item])
  case none
  then show ?thesis by (simp add: append_new_item_def)
next
  case (item a)
  define n where "n = \<lparr>cj_next = None, cj_prev = None, cj_child = None, cj_data = zero_data\<rparr>"
  define hp1 where "hp1 = hp\<lparr>ch_items := (ch_items hp)(a \<mapsto> n)\<rparr>"
  have ck: "ck_item K (ch_items hp) = Some a" using item(2) by (auto simp: cJSON_New_Item_def split: option.splits)
  have sp: "chain (ch_items hp) (first_of ts) None ts" "distinct (addrs ts)" "distinct (strs ts)"
    "set (strs ts) \<subseteq> dom (ch_strs hp)" "no_refs ts" and off: "off_same (set (addrs ts)) (set (strs ts)) hp0 hp"
    and fresh: "set (addrs ts) \<inter> dom (ch_items hp0) = {}" "set (strs ts) \<inter> dom (ch_strs hp0) = {}"
    using s by (auto simp: spread_def owned_def)
  have a: "a \<notin> set (addrs ts)" using item_seg_dom [OF sp(1)] item(1) by (auto simp: domIff)
  then have a0: "a \<notin> dom (ch_items hp0)" using off item(1) by (simp add: off_same_def domIff)
  have ch1: "chain (ch_items hp1) (first_of ts) None ts" using sp(1) a by (simp add: hp1_def)
  obtain hp2 where hp2: "upd_ptr (end_of None ts) (\<lambda>k. k\<lparr>cj_next := Some a\<rparr>) hp1 = Some hp2"
    "seg (ch_items hp2) (if ts = [] then Some a else first_of ts) None ts (Some a)" "only_items ts hp1 hp2"
    by (rule upd_ptr_end [OF ch1 sp(2), of "Some a"])
  define hp' where "hp' = hp2\<lparr>ch_items := (ch_items hp2)(a \<mapsto> n\<lparr>cj_prev := end_of None ts\<rparr>)\<rparr>"
  have a2: "ch_items hp2 a = Some n" using only_itemsD [OF hp2(3) a] by (simp add: hp1_def)
  have run: "append_new_item K (end_of None ts) hp = Some (Some a, hp')"
  proof (cases "ts = []")
    case True
    then have "hp2 = hp1" using hp2(1) by (simp add: upd_ptr_def)
    then have "hp' = hp1" using True a2 by (simp add: hp'_def hp1_def n_def)
    with True item show ?thesis by (simp add: append_new_item_def hp1_def n_def)
  next
    case False
    then obtain c where "end_of None ts = Some c" by (simp add: end_of_def)
    with hp2(1) a2 item show ?thesis
      by (simp add: append_new_item_def suffix_object_def upd_ptr_def hp'_def upd_item_def [of a]
          flip: hp1_def n_def)
  qed
  have strs': "ch_strs hp' = ch_strs hp" using hp2(3) by (simp add: hp'_def only_items_def hp1_def)
  have "seg (ch_items hp') (first_of (ts @ [LT a zero_data []])) None (ts @ [LT a zero_data []]) None"
    using hp2(2) a by (auto simp: item_seg_append hp'_def n_def)
  then have "owned hp' (first_of (ts @ [LT a zero_data []])) None (ts @ [LT a zero_data []])"
    using sp a by (simp add: owned_def strs' data_strs_def)
  moreover have "off_same (set (addrs (ts @ [LT a zero_data []]))) (set (strs (ts @ [LT a zero_data []]))) hp0 hp'"
  proof -
    have "ch_items hp' x = ch_items hp0 x" if "x \<notin> set (addrs ts)" "x \<noteq> a" for x
      using that only_itemsD [OF hp2(3), of x] off_sameD(1) [OF off, of x] by (simp add: hp'_def hp1_def)
    moreover have "ch_strs hp' x = ch_strs hp0 x" if "x \<notin> set (strs ts)" for x
      using off_sameD(2) [OF off that] by (simp add: strs')
    ultimately show ?thesis by (simp add: off_same_def data_strs_def)
  qed
  ultimately have "spread hp0 (ts @ [LT a zero_data []]) hp'"
    using fresh a0 by (simp add: spread_def data_strs_def)
  moreover have "ready hp' a zero_data" by (simp add: ready_def hp'_def n_def)
  ultimately show ?thesis using run ck strs' by blast
qed

lemma data_strs_plain: "\<not> string_is_const d \<Longrightarrow> data_strs d = ptr_list (cd_valuestring d) @ ptr_list (cd_string d)"
  by (simp add: data_strs_def)

text \<open>The last item of the list gets its value.\<close>

lemma spread_fill:
  assumes s: "spread hp0 (ts @ [LT a e []]) hp" and r: "ready hp a e" and f: "filled hp a d kids hp'"
  shows "spread hp0 (ts @ [LT a d kids]) hp'"
proof -
  define vs where "vs = ptr_list (cd_valuestring d) @ strs kids"
  have e: "data_strs e = ptr_list (cd_string e)" using r by (simp add: ready_def data_strs_plain)
  obtain m where m: "ch_items hp a = Some m" "cj_next m = None" "cj_data m = e"
    "ch_items hp' a = Some (m\<lparr>cj_child := first_of kids, cj_data := d\<rparr>)" "cd_string d = cd_string e"
    using r f by (auto simp: ready_def filled_def)
  have fl: "\<not> is_reference d" "\<not> string_is_const d" "no_refs kids" "chain (ch_items hp') (first_of kids) None kids"
    "distinct (addrs kids)" "set (addrs kids) \<inter> dom (ch_items hp) = {}" "distinct vs" "set vs \<inter> dom (ch_strs hp) = {}"
    "set vs \<subseteq> dom (ch_strs hp')" and off: "off_same (insert a (set (addrs kids))) (set vs) hp hp'"
    using f by (simp_all add: filled_def vs_def)
  define p where "p = first_of (ts @ [LT a e []])"
  have sp: "seg (ch_items hp) p None ts (Some a)" "seg (ch_items hp) (Some a) (end_of None ts) [LT a e []] None"
    "distinct (addrs ts)" "a \<notin> set (addrs ts)" "distinct (strs ts)" "set (ptr_list (cd_string e)) \<inter> set (strs ts) = {}"
    "distinct (ptr_list (cd_string e))" "set (strs ts) \<union> set (ptr_list (cd_string e)) \<subseteq> dom (ch_strs hp)" "no_refs ts"
    and off0: "off_same (insert a (set (addrs ts))) (set (strs ts) \<union> set (ptr_list (cd_string e))) hp0 hp"
    and fresh: "set (addrs ts) \<inter> dom (ch_items hp0) = {}" "a \<notin> dom (ch_items hp0)"
      "(set (strs ts) \<union> set (ptr_list (cd_string e))) \<inter> dom (ch_strs hp0) = {}"
    using s by (auto simp: spread_def owned_def item_seg_append e p_def Un_commute)
  have ts_dom: "set (addrs ts) \<subseteq> dom (ch_items hp)" by (rule item_seg_dom [OF sp(1)])
  have kt: "set (addrs kids) \<inter> set (addrs ts) = {}" "a \<notin> set (addrs kids)" using fl(6) ts_dom m(1) by blast+
  have vt: "set vs \<inter> (set (strs ts) \<union> set (ptr_list (cd_string e))) = {}" using fl(8) sp(8) by blast
  have "ch_items hp' x = ch_items hp x" if "x \<in> set (addrs ts)" for x
  proof -
    have "x \<notin> insert a (set (addrs kids))" using that kt sp(4) by blast
    then show ?thesis by (rule off_sameD [OF off])
  qed
  then have "seg (ch_items hp') p None ts (Some a)" using sp(1) item_seg_cong [of ts "ch_items hp'" "ch_items hp"] by metis
  moreover have "seg (ch_items hp') (Some a) (end_of None ts) [LT a d kids] None"
    using sp(2) m fl(4) by simp
  moreover have "first_of (ts @ [LT a d kids]) = p" by (simp add: p_def)
  ultimately have "chain (ch_items hp') (first_of (ts @ [LT a d kids])) None (ts @ [LT a d kids])"
    unfolding item_seg_append by metis
  moreover have "distinct (addrs (ts @ [LT a d kids]))" using sp fl(5) kt by auto
  moreover have ds: "set (strs (ts @ [LT a d kids])) = set (strs ts) \<union> set (ptr_list (cd_string e)) \<union> set vs"
    using fl(2) m(5) by (auto simp: data_strs_plain vs_def)
  moreover have "distinct (strs (ts @ [LT a d kids]))"
    using fl(2,7) m(5) sp(5-7) vt by (auto simp: data_strs_plain vs_def)
  moreover have "set (strs (ts @ [LT a d kids])) \<subseteq> dom (ch_strs hp')"
    unfolding ds using sp(8) fl(9) off_same_dom(2) [OF off fl(8)] by blast
  moreover have "no_refs (ts @ [LT a d kids])" using sp(9) fl(1,3) by simp
  ultimately have own: "owned hp' (first_of (ts @ [LT a d kids])) None (ts @ [LT a d kids])" by (simp only: owned_def)
  have "off_same (set (addrs (ts @ [LT a d kids]))) (set (strs (ts @ [LT a d kids]))) hp0 hp'"
    unfolding ds using off off0 by (auto simp: off_same_def)
  moreover have "set (addrs (ts @ [LT a d kids])) \<inter> dom (ch_items hp0) = {}"
  proof -
    have "x \<notin> dom (ch_items hp0)" if "x \<in> set (addrs kids)" for x
    proof -
      have "x \<notin> insert a (set (addrs ts))" using that kt by blast
      moreover have "x \<notin> dom (ch_items hp)" using that fl(6) by blast
      ultimately show ?thesis using off_sameD(1) [OF off0, of x] by (simp add: domIff)
    qed
    then show ?thesis using fresh by auto
  qed
  moreover have "set (strs (ts @ [LT a d kids])) \<inter> dom (ch_strs hp0) = {}"
  proof -
    have "s \<notin> dom (ch_strs hp0)" if "s \<in> set vs" for s
    proof -
      have "s \<notin> set (strs ts) \<union> set (ptr_list (cd_string e))" using that vt by blast
      moreover have "s \<notin> dom (ch_strs hp)" using that fl(8) by blast
      ultimately show ?thesis using off_sameD(2) [OF off0, of s] by (simp add: domIff)
    qed
    then show ?thesis unfolding ds using fresh by blast
  qed
  ultimately show ?thesis using own by (simp only: spread_def)
qed

text \<open>The list becomes the children of an item.\<close>

lemma filled_children:
  assumes r: "ready hp a e" and s: "spread hp ts hp1"
    and d: "cd_string d = cd_string e" "cd_valuestring d = None" "\<not> is_reference d" "\<not> string_is_const d"
      "f e = d"
  shows "\<exists>hp'. upd_item a (\<lambda>m. m\<lparr>cj_child := first_of ts, cj_data := f (cj_data m)\<rparr>) hp1 = Some hp'
    \<and> filled hp a d ts hp' \<and> ch_strs hp' = ch_strs hp1"
proof -
  obtain m where m: "ch_items hp a = Some m" "cj_data m = e" using r by (auto simp: ready_def)
  have sp: "chain (ch_items hp1) (first_of ts) None ts" "distinct (addrs ts)" "distinct (strs ts)"
    "set (strs ts) \<subseteq> dom (ch_strs hp1)" "no_refs ts" and off: "off_same (set (addrs ts)) (set (strs ts)) hp hp1"
    and fresh: "set (addrs ts) \<inter> dom (ch_items hp) = {}" "set (strs ts) \<inter> dom (ch_strs hp) = {}"
    using s by (auto simp: spread_def owned_def)
  have a: "a \<notin> set (addrs ts)" using fresh(1) m(1) by blast
  then have m1: "ch_items hp1 a = Some m" using off_sameD(1) [OF off a] m(1) by simp
  define hp' where "hp' = hp1\<lparr>ch_items := (ch_items hp1)(a \<mapsto> m\<lparr>cj_child := first_of ts, cj_data := d\<rparr>)\<rparr>"
  have "upd_item a (\<lambda>m. m\<lparr>cj_child := first_of ts, cj_data := f (cj_data m)\<rparr>) hp1 = Some hp'"
    using m1 m(2) d(5) by (simp add: upd_item_def hp'_def)
  moreover have "filled hp a d ts hp'"
    using m sp fresh d a off by (auto simp: filled_def hp'_def off_same_def)
  ultimately show ?thesis by (auto simp: hp'_def)
qed

lemma filled_data:
  assumes r: "ready hp a e" and d: "cd_string (f e) = cd_string e" "cd_valuestring (f e) = None"
    "\<not> is_reference (f e)" "\<not> string_is_const (f e)"
  shows "\<exists>hp'. upd_data a f hp = Some hp' \<and> filled hp a (f e) [] hp' \<and> ch_strs hp' = ch_strs hp"
proof -
  obtain m where m: "ch_items hp a = Some m" "cj_child m = None" "cj_data m = e" using r by (auto simp: ready_def)
  have "m\<lparr>cj_child := None, cj_data := x\<rparr> = m\<lparr>cj_data := x\<rparr>" for x using m(2) by (cases m) simp
  with filled_children [OF r spread_refl, of "f e" f] d m show ?thesis
    by (auto simp: upd_data_def upd_item_def)
qed

section \<open>Buffers and results\<close>

definition buffer_ok :: "parse_buffer \<Rightarrow> bool" where
  "buffer_ok b \<longleftrightarrow> pb_content b \<noteq> [] \<and> last (pb_content b) = CHR 0x00 \<and> pb_offset b \<le> length (pb_content b)"

definition inside :: "parse_buffer \<Rightarrow> bool" where
  "inside b \<longleftrightarrow> buffer_ok b \<and> pb_offset b < length (pb_content b)"

lemma inside_skip:
  assumes "buffer_ok b"
  shows "inside (buffer_skip_whitespace b)" "pb_content (buffer_skip_whitespace b) = pb_content b"
    "pb_depth (buffer_skip_whitespace b) = pb_depth b"
    "pb_offset b < length (pb_content b) \<Longrightarrow> pb_offset b \<le> pb_offset (buffer_skip_whitespace b)"
    "pb_offset b = length (pb_content b) \<Longrightarrow> pb_offset (buffer_skip_whitespace b) = length (pb_content b) - 1"
proof -
  define n where "n = length (takeWhile (\<lambda>c. code c \<le> 32) (drop (pb_offset b) (pb_content b)))"
  have "n \<le> length (pb_content b) - pb_offset b"
    unfolding n_def using length_takeWhile_le [of _ "drop (pb_offset b) (pb_content b)"] by simp
  moreover have "0 < length (pb_content b)" using assms by (simp add: buffer_ok_def)
  ultimately show "inside (buffer_skip_whitespace b)" "pb_content (buffer_skip_whitespace b) = pb_content b"
    "pb_depth (buffer_skip_whitespace b) = pb_depth b"
    "pb_offset b < length (pb_content b) \<Longrightarrow> pb_offset b \<le> pb_offset (buffer_skip_whitespace b)"
    "pb_offset b = length (pb_content b) \<Longrightarrow> pb_offset (buffer_skip_whitespace b) = length (pb_content b) - 1"
    using assms unfolding inside_def buffer_ok_def buffer_skip_whitespace_def n_def [symmetric] Let_def
    by (auto simp: le_diff_conv2)
qed

lemma next_is_iff: "next_is b c \<longleftrightarrow> pb_offset b < length (pb_content b) \<and> pb_content b ! pb_offset b = c"
  by (auto simp: next_is_def can_access_at_index_def buffer_at_def char_at_def)

text \<open>After a character other than the terminating zero there is another one.\<close>

lemma inside_move:
  assumes "buffer_ok b" "next_is b c" "c \<noteq> CHR 0x00"
  shows "inside (move 1 b)"
proof -
  have "pb_offset b \<noteq> length (pb_content b) - 1" using assms by (auto simp: next_is_iff buffer_ok_def last_conv_nth)
  then show ?thesis using assms by (auto simp: next_is_iff inside_def buffer_ok_def move_def)
qed

lemma looking_at_move:
  assumes "buffer_ok b" "looking_at b s"
  shows "buffer_ok (move (length s) b)"
  using assms by (simp add: looking_at_def can_read_def buffer_ok_def move_def)

text \<open>A value of the item \<open>a\<close> was read, or nothing has changed.\<close>

definition read_result ::
    "cheap \<Rightarrow> addr \<Rightarrow> (cjson_data \<Rightarrow> ltree list \<Rightarrow> bool) \<Rightarrow> parse_buffer \<Rightarrow> (bool \<times> parse_buffer \<times> cheap) option \<Rightarrow> bool" where
  "read_result hp a P b r \<longleftrightarrow> (\<exists>ok b' hp'. r = Some (ok, b', hp') \<and> pb_content b' = pb_content b
     \<and> (if ok then buffer_ok b' \<and> pb_depth b' = pb_depth b \<and> pb_offset b < pb_offset b'
              \<and> (\<exists>d kids. filled hp a d kids hp' \<and> P d kids)
        else hp' = hp))"

lemma read_resultI:
  assumes "r = Some (True, b', hp')" "pb_content b' = pb_content b" "buffer_ok b'" "pb_depth b' = pb_depth b"
    "pb_offset b < pb_offset b'" "filled hp a d kids hp'" "P d kids"
  shows "read_result hp a P b r"
  using assms by (auto simp: read_result_def)

lemma read_result_fail: "r = Some (False, b', hp) \<Longrightarrow> pb_content b' = pb_content b \<Longrightarrow> read_result hp a P b r"
  by (auto simp: read_result_def intro: exI [of _ False])

section \<open>Strings and numbers\<close>

lemma flags_type [simp]:
  "is_reference (d\<lparr>cd_type := 16, cd_valuestring := v\<rparr>) = False" "string_is_const (d\<lparr>cd_type := 16, cd_valuestring := v\<rparr>) = False"
  by (simp_all add: is_reference_def string_is_const_def)

lemma parse_string_success:
  assumes r: "ready hp a e" and b: "inside b" "pb_content b ! pb_offset b = CHR 0x22"
    and s: "scan_string (pb_content b) (pb_offset b + 1) 0 = Some (en, sk)" "en < length (pb_content b)"
    and v: "ck_str K (ch_strs hp) = Some v" "ch_strs hp v = None"
    and un: "unescape (pb_content b) (pb_offset b + 1) en (en - pb_offset b - sk + 1) [] = Some (q, Some out)"
      "length out \<le> en - pb_offset b - sk"
  shows "\<exists>hp'. parse_string K a b hp = Some (True, goto_pos (en + 1) b, hp')
     \<and> filled hp a (e\<lparr>cd_type := 16, cd_valuestring := Some v\<rparr>) [] hp'
     \<and> ch_strs hp' = (ch_strs hp)(v \<mapsto> c_string (out @ [CHR 0x00]))"
proof -
  define c where "c = pb_content b"
  define o' where "o' = pb_offset b"
  have at0: "buffer_at b 0 = Some (c ! o')" using b(1) by (simp add: buffer_at_def char_at_def inside_def c_def o'_def)
  define tx where "tx = c_string (out @ [CHR 0x00])"
  have em: "emit (en - o' - sk + 1) out [CHR 0x00] = Some (out @ [CHR 0x00])"
    using un(2) by (simp add: emit_def o'_def)
  obtain m where m: "ch_items hp a = Some m" "cj_next m = None" "cj_child m = None" "cj_data m = e" "cd_valuestring e = None"
    using r by (auto simp: ready_def)
  define d where "d = e\<lparr>cd_type := 16, cd_valuestring := Some v\<rparr>"
  define hp' where "hp' = \<lparr>ch_items = (ch_items hp)(a \<mapsto> m\<lparr>cj_data := d\<rparr>), ch_strs = (ch_strs hp)(v \<mapsto> tx)\<rparr>"
  have "parse_string K a b hp = Some (True, goto_pos (en + 1) b, hp')"
    using at0 b(2) s(1) v(1) un(1) em m
    by (simp add: parse_string_def c_def [symmetric] o'_def [symmetric] Let_def upd_data_def upd_item_def hp'_def d_def tx_def)
  moreover have mc: "m\<lparr>cj_child := None, cj_data := d\<rparr> = m\<lparr>cj_data := d\<rparr>" using m(3) by (cases m) simp
  then have "filled hp a d [] hp'"
    using m v by (auto simp: filled_def hp'_def off_same_def d_def domIff)
  ultimately show ?thesis by (auto simp: d_def hp'_def tx_def)
qed

lemma parse_string_safe:
  assumes r: "ready hp a e" and b: "inside b" and K: "alloc_fresh (ck_str K)"
  shows "read_result hp a (\<lambda>d kids. kids = [] \<and> (\<exists>v. d = e\<lparr>cd_type := 16, cd_valuestring := Some v\<rparr>)) b (parse_string K a b hp)"
proof -
  define c where "c = pb_content b"
  define o' where "o' = pb_offset b"
  have at0: "buffer_at b 0 = Some (c ! o')" using b by (simp add: buffer_at_def char_at_def inside_def c_def o'_def)
  have eq: "pb_content (goto_pos n b) = pb_content b" for n by (simp add: goto_pos_def)
  show ?thesis
  proof (cases "c ! o' = CHR 0x22")
    case False
    with at0 show ?thesis by (intro read_result_fail [OF _ eq]) (simp add: parse_string_def)
  next
    case quote: True
    show ?thesis
    proof (cases "scan_string c (o' + 1) 0")
      case None
      with at0 quote show ?thesis
        by (intro read_result_fail [OF _ eq]) (simp add: parse_string_def c_def o'_def)
    next
      case (Some es)
      then obtain en sk where s: "scan_string c (o' + 1) 0 = Some (en, sk)" by (cases es) simp
      from scan_string_literal [OF this]
      obtain u where u: "literal c en (o' + 1) u" "en = o' + 1 + u + sk" "en < length c" by auto
      show ?thesis
      proof (cases "ck_str K (ch_strs hp)")
        case None
        with at0 quote s show ?thesis
          by (intro read_result_fail [OF _ eq]) (simp add: parse_string_def c_def o'_def)
      next
        case (Some v)
        have v: "ch_strs hp v = None" by (rule alloc_freshD [OF K Some])
        have "en - o' - sk = u + 1" using u(2) by simp
        moreover have "room c en (o' + 1) u" using u(1) by (auto simp: room_def)
        ultimately obtain q res where un: "unescape c (o' + 1) en (en - o' - sk + 1) [] = Some (q, res)"
          "\<And>out. res = Some out \<Longrightarrow> length out \<le> u"
          using unescape_room [of c en "o' + 1" u "[]" "en - o' - sk + 1"] u(3) by auto
        show ?thesis
        proof (cases res)
          case None
          have freed: "(ch_strs hp)(v := None) = ch_strs hp" using v by (auto simp: fun_eq_iff)
          with None at0 quote s Some un(1) show ?thesis
            by (intro read_result_fail [OF _ eq])
              (simp add: parse_string_def c_def [symmetric] o'_def [symmetric] free_str_def mem_simps Let_def freed)
        next
          case res: (Some out)
          obtain hp' where run: "parse_string K a b hp = Some (True, goto_pos (en + 1) b, hp')"
            and f: "filled hp a (e\<lparr>cd_type := 16, cd_valuestring := Some v\<rparr>) [] hp'"
            using parse_string_success [OF r b, of en sk K v q out] quote s u(2,3) Some v un(1) un(2) [OF res] res
            by (auto simp: c_def o'_def)
          have "buffer_ok (goto_pos (en + 1) b)" using b u(3) by (simp add: inside_def buffer_ok_def goto_pos_def c_def)
          moreover have "o' < en + 1" using u(2) by simp
          ultimately show ?thesis
            by (intro read_resultI [OF run _ _ _ _ f]) (auto simp: goto_pos_def o'_def)
        qed
      qed
    qed
  qed
qed

lemma strtod_bound: "snd (strtod s) \<le> length s"
  by (auto simp: strtod_def Let_def split: prod.split)

lemma parse_number_safe:
  assumes r: "ready hp a e" and b: "inside b"
  shows "read_result hp a (\<lambda>d kids. kids = [] \<and> (\<exists>x. d = e\<lparr>cd_valuedouble := x, cd_valueint := saturate_int x, cd_type := 8\<rparr>)) b
    (parse_number a b hp)"
proof -
  obtain x n where x: "strtod (number_text b) = (x, n)" by (cases "strtod (number_text b)")
  show ?thesis
  proof (cases "n = 0")
    case True
    with x show ?thesis by (intro read_result_fail) (simp_all add: parse_number_def)
  next
    case False
    define f :: "cjson_data \<Rightarrow> cjson_data" where "f = (\<lambda>d. d\<lparr>cd_valuedouble := x, cd_valueint := saturate_int x, cd_type := 8\<rparr>)"
    obtain hp' where hp': "upd_data a f hp = Some hp'" "filled hp a (f e) [] hp'"
      using filled_data [OF r, of f] r by (auto simp: f_def ready_def is_reference_def string_is_const_def)
    have "n \<le> length (number_text b)" using strtod_bound [of "number_text b"] x by simp
    also have "\<dots> \<le> length (pb_content b) - pb_offset b"
      unfolding number_text_def by (rule order_trans [OF length_takeWhile_le]) simp
    finally have "buffer_ok (move n b)" using b by (auto simp: inside_def buffer_ok_def move_def)
    moreover have run: "parse_number a b hp = Some (True, move n b, hp')" using x False hp'(1) by (simp add: parse_number_def f_def)
    ultimately show ?thesis using False hp'(2)
      by (intro read_resultI [OF run]) (auto simp: move_def f_def)
  qed
qed

section \<open>Well-typed trees\<close>

text \<open>What the parser promises of an item and its children.\<close>

definition typed_item :: "cjson_data \<Rightarrow> ltree list \<Rightarrow> bool" where
  "typed_item d kids \<longleftrightarrow>
     cd_type d \<in> {cJSON_NULL, cJSON_False, cJSON_True} \<and> kids = [] \<and> cd_valuestring d = None
   \<or> cd_type d = cJSON_Number \<and> kids = [] \<and> cd_valuestring d = None \<and> cd_valueint d = saturate_int (cd_valuedouble d)
   \<or> cd_type d = cJSON_String \<and> kids = [] \<and> cd_valuestring d \<noteq> None
   \<or> cd_type d = cJSON_Array \<and> cd_valuestring d = None \<and> (\<forall>t \<in> set kids. cd_string (lt_data t) = None)
   \<or> cd_type d = cJSON_Object \<and> cd_valuestring d = None \<and> (\<forall>t \<in> set kids. cd_string (lt_data t) \<noteq> None)"

fun well_typed :: "ltree list \<Rightarrow> bool" where
  "well_typed [] = True"
| "well_typed (LT a d kids # ts) \<longleftrightarrow> typed_item d kids \<and> well_typed kids \<and> well_typed ts"

lemma well_typed_append [simp]: "well_typed (ts @ us) \<longleftrightarrow> well_typed ts \<and> well_typed us"
  by (induction ts rule: well_typed.induct) auto

definition typed_value :: "cjson_data \<Rightarrow> ltree list \<Rightarrow> bool" where
  "typed_value d kids \<longleftrightarrow> typed_item d kids \<and> well_typed kids"

definition parser_ok :: "nat \<Rightarrow> value_parser \<Rightarrow> bool" where
  "parser_ok D pv \<longleftrightarrow> (\<forall>hp a e b. ready hp a e \<and> inside b \<and> pb_depth b = D \<longrightarrow> read_result hp a typed_value b (pv a b hp))"

section \<open>Lists of values\<close>

text \<open>What the two loops return: the items read so far on top of the heap, complete when they succeeded.\<close>

definition list_result ::
    "cheap \<Rightarrow> (ltree \<Rightarrow> bool) \<Rightarrow> parse_buffer \<Rightarrow> (bool \<times> addr ptr \<times> parse_buffer \<times> cheap) option \<Rightarrow> bool" where
  "list_result hp0 Q b r \<longleftrightarrow> (\<exists>ok b' hp' ts. r = Some (ok, first_of ts, b', hp') \<and> pb_content b' = pb_content b
     \<and> spread hp0 ts hp'
     \<and> (ok \<longrightarrow> well_typed ts \<and> (\<forall>t \<in> set ts. Q t) \<and> inside b' \<and> pb_depth b' = pb_depth b \<and> pb_offset b < pb_offset b'))"

lemma list_result_fail:
  "r = Some (False, first_of ts, b', hp') \<Longrightarrow> pb_content b' = pb_content b \<Longrightarrow> spread hp0 ts hp' \<Longrightarrow> list_result hp0 Q b r"
  by (auto simp: list_result_def intro: exI [of _ False])

lemma list_result_ok:
  assumes "r = Some (True, first_of ts, b', hp')" "pb_content b' = pb_content b" "spread hp0 ts hp'" "well_typed ts"
    "\<forall>t \<in> set ts. Q t" "inside b'" "pb_depth b' = pb_depth b" "pb_offset b < pb_offset b'"
  shows "list_result hp0 Q b r"
  using assms unfolding list_result_def by blast

lemma list_result_later:
  assumes "list_result hp0 Q b1 r" "pb_content b1 = pb_content b" "pb_depth b1 = pb_depth b" "pb_offset b \<le> pb_offset b1"
  shows "list_result hp0 Q b r"
proof -
  obtain ok b' hp' ts where r: "r = Some (ok, first_of ts, b', hp')" "pb_content b' = pb_content b1" "spread hp0 ts hp'"
    "ok \<longrightarrow> well_typed ts \<and> (\<forall>t \<in> set ts. Q t) \<and> inside b' \<and> pb_depth b' = pb_depth b1 \<and> pb_offset b1 < pb_offset b'"
    using assms(1) unfolding list_result_def by blast
  show ?thesis
  proof (cases ok)
    case True
    then show ?thesis using r assms by (intro list_result_ok [of _ ts b' hp']) auto
  qed (use r assms in \<open>auto intro: list_result_fail\<close>)
qed

text \<open>The step over the character in front of a value, and the space behind it.\<close>

lemma value_steps:
  assumes m: "inside (move 1 b)" and v: "buffer_ok b1" "pb_content b1 = pb_content b"
    "pb_offset (buffer_skip_whitespace (move 1 b)) < pb_offset b1"
  shows "inside (buffer_skip_whitespace b1)" "pb_content (buffer_skip_whitespace b1) = pb_content b"
    "pb_offset b < pb_offset (buffer_skip_whitespace b1)"
proof -
  have mo: "buffer_ok (move 1 b)" "pb_offset (move 1 b) < length (pb_content (move 1 b))" using m by (simp_all add: inside_def)
  have le: "pb_offset (move 1 b) \<le> pb_offset (buffer_skip_whitespace (move 1 b))" by (rule inside_skip(4) [OF mo])
  show "inside (buffer_skip_whitespace b1)" "pb_content (buffer_skip_whitespace b1) = pb_content b"
    using inside_skip(1,2) [OF v(1)] v(2) by simp_all
  show "pb_offset b < pb_offset (buffer_skip_whitespace b1)"
    using inside_skip(4,5) [OF v(1)] v le by (cases "pb_offset b1 < length (pb_content b1)") (auto simp: move_def buffer_ok_def)
qed

lemma move_simps [simp]: "pb_content (move n b) = pb_content b" "pb_depth (move n b) = pb_depth b"
    "pb_content (goto_pos n b) = pb_content b" "pb_depth (goto_pos n b) = pb_depth b"
    "pb_offset (move n b) = pb_offset b + n" "pb_offset (goto_pos n b) = n"
  by (simp_all add: move_def goto_pos_def)

lemma parse_elements_step:
  assumes "append_new_item K cur hp = Some (Some a, hp1)" "pv a (buffer_skip_whitespace (move 1 b)) hp1 = Some (ok, b1, hp2)"
    "h = (if head = None then Some a else head)"
  shows "parse_elements K pv head cur b hp =
    (if \<not> ok then Some (False, h, b1, hp2)
     else if next_is (buffer_skip_whitespace b1) (CHR '','') then parse_elements K pv h (Some a) (buffer_skip_whitespace b1) hp2
     else Some (True, h, buffer_skip_whitespace b1, hp2))"
  using assms(1,2) unfolding assms(3) by (subst parse_elements.simps) (simp add: Let_def del: One_nat_def)

lemma parse_elements_safe:
  assumes pv: "parser_ok D pv" and K: "alloc_fresh (ck_item K)"
  shows "\<lbrakk>spread hp0 ts hp; well_typed ts; \<forall>t \<in> set ts. cd_string (lt_data t) = None; inside (move 1 b); pb_depth b = D\<rbrakk> \<Longrightarrow>
    list_result hp0 (\<lambda>t. cd_string (lt_data t) = None) b (parse_elements K pv (first_of ts) (end_of None ts) b hp)"
proof (induction "length (pb_content b) - pb_offset b" arbitrary: ts b hp rule: less_induct)
  case less
  define b0 where "b0 = buffer_skip_whitespace (move 1 b)"
  have mo: "buffer_ok (move 1 b)" using less.prems(4) by (simp add: inside_def)
  have b0: "inside b0" "pb_content b0 = pb_content b" "pb_depth b0 = D"
    unfolding b0_def using inside_skip(1-3) [OF mo] less.prems(5) by simp_all
  from append_new_item_spread [OF less.prems(1) K] show ?case
  proof (elim disjE exE conjE)
    assume "append_new_item K (end_of None ts) hp = Some (None, hp)"
    then show ?thesis using less.prems(1)
      by (intro list_result_fail [of _ ts b hp]) (subst parse_elements.simps, simp_all)
  next
    fix a hp1
    assume new: "append_new_item K (end_of None ts) hp = Some (Some a, hp1)" and rd: "ready hp1 a zero_data"
      and sp: "spread hp0 (ts @ [LT a zero_data []]) hp1"
    have hd: "first_of (ts @ [LT a d kids]) = (if first_of ts = None then Some a else first_of ts)" for d kids
      by (simp add: first_of_def split: list.split)
    have "read_result hp1 a typed_value b0 (pv a b0 hp1)" using pv rd b0 by (auto simp: parser_ok_def)
    then obtain ok b1 hp2 where v: "pv a b0 hp1 = Some (ok, b1, hp2)" "pb_content b1 = pb_content b0"
      "if ok then buffer_ok b1 \<and> pb_depth b1 = pb_depth b0 \<and> pb_offset b0 < pb_offset b1
         \<and> (\<exists>d kids. filled hp1 a d kids hp2 \<and> typed_value d kids) else hp2 = hp1"
      unfolding read_result_def by blast
    show ?thesis
    proof (cases ok)
      case False
      then have run: "parse_elements K pv (first_of ts) (end_of None ts) b hp
          = Some (False, first_of (ts @ [LT a zero_data []]), b1, hp1)"
        using parse_elements_step [where pv = pv, OF new v(1) [unfolded b0_def] hd] v(3) by simp
      show ?thesis by (rule list_result_fail [OF run _ sp]) (use v b0 in simp)
    next
      case True
      then obtain d kids where d: "filled hp1 a d kids hp2" "typed_value d kids" using v(3) by auto
      define us where "us = ts @ [LT a d kids]"
      define b2 where "b2 = buffer_skip_whitespace b1"
      have b1: "buffer_ok b1" "pb_content b1 = pb_content b" "pb_offset b0 < pb_offset b1" "pb_depth b1 = D"
        using True v b0 by auto
      have b2: "inside b2" "pb_content b2 = pb_content b" "pb_offset b < pb_offset b2" "pb_depth b2 = D"
        unfolding b2_def using value_steps [OF less.prems(4) b1(1,2) b1(3) [unfolded b0_def]] inside_skip(3) [OF b1(1)] b1(4) by simp_all
      have su: "spread hp0 us hp2" unfolding us_def by (rule spread_fill [OF sp rd d(1)])
      obtain m where "ch_items hp1 a = Some m" "cd_string d = cd_string (cj_data m)" using d(1) by (auto simp: filled_def)
      then have "cd_string d = None" using rd by (auto simp: ready_def)
      then have names: "\<forall>t \<in> set us. cd_string (lt_data t) = None" and wt: "well_typed us"
        using less.prems(2,3) d(2) by (auto simp: us_def typed_value_def)
      show ?thesis
      proof (cases "next_is b2 (CHR '','')")
        case stop: False
        then have run: "parse_elements K pv (first_of ts) (end_of None ts) b hp = Some (True, first_of us, b2, hp2)"
          using parse_elements_step [where pv = pv, OF new v(1) [unfolded b0_def] hd [of d kids]] True
          by (simp add: b2_def us_def del: first_of_simps)
        show ?thesis by (rule list_result_ok [OF run b2(2) su wt names b2(1)]) (use b2 less.prems(5) in simp_all)
      next
        case comma: True
        then have run: "parse_elements K pv (first_of ts) (end_of None ts) b hp = parse_elements K pv (first_of us) (end_of None us) b2 hp2"
          using parse_elements_step [where pv = pv, OF new v(1) [unfolded b0_def] hd [of d kids]] True
          by (simp add: b2_def us_def del: first_of_simps)
        have m2: "inside (move 1 b2)" by (rule inside_move [OF _ comma]) (use b2(1) in \<open>simp_all add: inside_def\<close>)
        have "length (pb_content b2) - pb_offset b2 < length (pb_content b) - pb_offset b"
          using b2 by (simp add: inside_def diff_less_mono2)
        from less.hyps [OF this su wt names m2 b2(4)] show ?thesis
          unfolding run by (rule list_result_later) (use b2 less.prems(5) in simp_all)
      qed
    qed
  qed
qed


text \<open>Changing the data of the last item, its strings staying the same.\<close>

lemma spread_data:
  assumes s: "spread hp0 (ts @ [LT a d []]) hp" and f: "data_strs (f d) = data_strs d" "\<not> is_reference (f d)"
    and r: "ch_items hp a = Some m" "cj_data m = d"
  shows "\<exists>hp'. upd_data a f hp = Some hp' \<and> ch_items hp' a = Some (m\<lparr>cj_data := f d\<rparr>) \<and> ch_strs hp' = ch_strs hp
    \<and> spread hp0 (ts @ [LT a (f d) []]) hp'"
proof -
  define hp' where "hp' = hp\<lparr>ch_items := (ch_items hp)(a \<mapsto> m\<lparr>cj_data := f d\<rparr>)\<rparr>"
  have o: "owned hp (first_of (ts @ [LT a d []])) None (ts @ [LT a d []])" using s by (simp add: spread_def)
  then have a: "a \<notin> set (addrs ts)" by (auto simp: owned_def)
  have "owned hp' (first_of (ts @ [LT a (f d) []])) None (ts @ [LT a (f d) []])"
    using o f r a by (auto simp: owned_def hp'_def item_seg_append)
  then have "spread hp0 (ts @ [LT a (f d) []]) hp'"
    using s f(1) by (auto simp: spread_def hp'_def off_same_def)
  then show ?thesis using r by (auto simp: upd_data_def upd_item_def hp'_def)
qed

lemma parse_members_name_fail:
  assumes "append_new_item K cur hp = Some (Some a, hp1)"
    "parse_string K a (buffer_skip_whitespace (move 1 b)) hp1 = Some (False, b1, hp2)"
    "h = (if head = None then Some a else head)"
  shows "parse_members K pv head cur b hp = Some (False, h, b1, hp2)"
  using assms(1,2) unfolding assms(3) by (subst parse_members.simps) (simp add: Let_def del: One_nat_def)

lemma parse_members_step:
  assumes "append_new_item K cur hp = Some (Some a, hp1)"
    "parse_string K a (buffer_skip_whitespace (move 1 b)) hp1 = Some (True, b1, hp2)"
    "upd_data a (\<lambda>d. d\<lparr>cd_string := cd_valuestring d, cd_valuestring := None\<rparr>) hp2 = Some hp3"
    "h = (if head = None then Some a else head)"
  shows "parse_members K pv head cur b hp =
    (if \<not> next_is (buffer_skip_whitespace b1) (CHR '':'') then Some (False, h, buffer_skip_whitespace b1, hp3)
     else do {
       (ok, b, hp) \<leftarrow> pv a (buffer_skip_whitespace (move 1 (buffer_skip_whitespace b1))) hp3;
       if \<not> ok then Some (False, h, b, hp)
       else if next_is (buffer_skip_whitespace b) (CHR '','') then parse_members K pv h (Some a) (buffer_skip_whitespace b) hp
       else Some (True, h, buffer_skip_whitespace b, hp) })"
  using assms(1-3) unfolding assms(4) by (subst parse_members.simps) (simp add: Let_def del: One_nat_def cong: if_cong)

lemma parse_members_safe:
  assumes pv: "parser_ok D pv" and K: "alloc_fresh (ck_item K)" "alloc_fresh (ck_str K)"
  shows "\<lbrakk>spread hp0 ts hp; well_typed ts; \<forall>t \<in> set ts. cd_string (lt_data t) \<noteq> None; inside (move 1 b); pb_depth b = D\<rbrakk> \<Longrightarrow>
    list_result hp0 (\<lambda>t. cd_string (lt_data t) \<noteq> None) b (parse_members K pv (first_of ts) (end_of None ts) b hp)"
proof (induction "length (pb_content b) - pb_offset b" arbitrary: ts b hp rule: less_induct)
  case less
  define b0 where "b0 = buffer_skip_whitespace (move 1 b)"
  have mo: "buffer_ok (move 1 b)" using less.prems(4) by (simp add: inside_def)
  have b0: "inside b0" "pb_content b0 = pb_content b" "pb_depth b0 = D"
    unfolding b0_def using inside_skip(1-3) [OF mo] less.prems(5) by simp_all
  from append_new_item_spread [OF less.prems(1) K(1)] show ?case
  proof (elim disjE exE conjE)
    assume "append_new_item K (end_of None ts) hp = Some (None, hp)"
    then show ?thesis using less.prems(1)
      by (intro list_result_fail [of _ ts b hp]) (subst parse_members.simps, simp_all)
  next
    fix a hp1
    assume new: "append_new_item K (end_of None ts) hp = Some (Some a, hp1)" and rd: "ready hp1 a zero_data"
      and sp: "spread hp0 (ts @ [LT a zero_data []]) hp1"
    have hd: "first_of (ts @ [LT a d kids]) = (if first_of ts = None then Some a else first_of ts)" for d kids
      by (simp add: first_of_def split: list.split)
    obtain ok b1 hp2 where n: "parse_string K a b0 hp1 = Some (ok, b1, hp2)" "pb_content b1 = pb_content b0"
      "if ok then buffer_ok b1 \<and> pb_depth b1 = pb_depth b0 \<and> pb_offset b0 < pb_offset b1
         \<and> (\<exists>d kids. filled hp1 a d kids hp2 \<and> kids = [] \<and> (\<exists>v. d = zero_data\<lparr>cd_type := 16, cd_valuestring := Some v\<rparr>)) else hp2 = hp1"
      using parse_string_safe [OF rd b0(1) K(2)] unfolding read_result_def by blast
    show ?thesis
    proof (cases ok)
      case False
      then have run: "parse_members K pv (first_of ts) (end_of None ts) b hp
          = Some (False, first_of (ts @ [LT a zero_data []]), b1, hp1)"
        using parse_members_name_fail [OF new _ hd] n unfolding b0_def by simp
      show ?thesis by (rule list_result_fail [OF run _ sp]) (use n b0 in simp)
    next
      case True
      define vd where "vd = (\<lambda>v. zero_data\<lparr>cd_type := 16, cd_valuestring := Some v\<rparr>)"
      define f :: "cjson_data \<Rightarrow> cjson_data" where "f = (\<lambda>d. d\<lparr>cd_string := cd_valuestring d, cd_valuestring := None\<rparr>)"
      obtain v where v: "filled hp1 a (vd v) [] hp2" using n(3) True by (auto simp: vd_def)
      have sp2: "spread hp0 (ts @ [LT a (vd v) []]) hp2" by (rule spread_fill [OF sp rd v])
      obtain m where m: "ch_items hp2 a = Some m" "cj_next m = None" "cj_child m = None" "cj_data m = vd v"
        using v rd by (auto simp: filled_def ready_def)
      have fv: "data_strs (f (vd v)) = data_strs (vd v)" "\<not> is_reference (f (vd v))" "\<not> string_is_const (f (vd v))"
        by (simp_all add: f_def vd_def data_strs_def is_reference_def string_is_const_def zero_data_def)
      obtain hp3 where h3: "upd_data a f hp2 = Some hp3" "ch_items hp3 a = Some (m\<lparr>cj_data := f (vd v)\<rparr>)"
        "spread hp0 (ts @ [LT a (f (vd v)) []]) hp3"
        using spread_data [where f = f, OF sp2 fv(1,2) m(1,4)] by blast
      have rd3: "ready hp3 a (f (vd v))" using h3(2) m fv by (simp add: ready_def) (simp add: f_def)
      define b2 where "b2 = buffer_skip_whitespace b1"
      have b1: "buffer_ok b1" "pb_content b1 = pb_content b" "pb_offset b0 < pb_offset b1" "pb_depth b1 = D"
        using True n b0 by auto
      have b2: "inside b2" "pb_content b2 = pb_content b" "pb_offset b < pb_offset b2" "pb_depth b2 = D"
        unfolding b2_def using value_steps [OF less.prems(4) b1(1,2) b1(3) [unfolded b0_def]] inside_skip(3) [OF b1(1)] b1(4) by simp_all
      have n': "parse_string K a (buffer_skip_whitespace (move 1 b)) hp1 = Some (True, b1, hp2)"
        using n(1) True by (simp add: b0_def)
      note step = parse_members_step [where pv = pv, OF new n' h3(1) [unfolded f_def] hd]
      show ?thesis
      proof (cases "next_is b2 (CHR '':'')")
        case False
        then have run: "parse_members K pv (first_of ts) (end_of None ts) b hp
            = Some (False, first_of (ts @ [LT a (f (vd v)) []]), b2, hp3)"
          using step True n by (simp add: b2_def)
        show ?thesis by (rule list_result_fail [OF run b2(2) h3(3)])
      next
        case colon: True
        have m2: "inside (move 1 b2)" by (rule inside_move [OF _ colon]) (use b2(1) in \<open>simp_all add: inside_def\<close>)
        then have mo2: "buffer_ok (move 1 b2)" by (simp add: inside_def)
        define b3 where "b3 = buffer_skip_whitespace (move 1 b2)"
        have b3: "inside b3" "pb_content b3 = pb_content b" "pb_depth b3 = D"
          unfolding b3_def using inside_skip(1-3) [OF mo2] b2 by simp_all
        have "read_result hp3 a typed_value b3 (pv a b3 hp3)" using pv rd3 b3 by (auto simp: parser_ok_def)
        then obtain ok' b4 hp4 where w: "pv a b3 hp3 = Some (ok', b4, hp4)" "pb_content b4 = pb_content b3"
          "if ok' then buffer_ok b4 \<and> pb_depth b4 = pb_depth b3 \<and> pb_offset b3 < pb_offset b4
             \<and> (\<exists>d kids. filled hp3 a d kids hp4 \<and> typed_value d kids) else hp4 = hp3"
          unfolding read_result_def by blast
        show ?thesis
        proof (cases ok')
          case False
          then have run: "parse_members K pv (first_of ts) (end_of None ts) b hp
              = Some (False, first_of (ts @ [LT a (f (vd v)) []]), b4, hp3)"
            using step True n w colon unfolding b2_def b3_def by (simp del: One_nat_def)
          show ?thesis by (rule list_result_fail [OF run _ h3(3)]) (use w b3 in simp)
        next
          case ok': True
          then obtain d kids where d: "filled hp3 a d kids hp4" "typed_value d kids" using w(3) by auto
          define us where "us = ts @ [LT a d kids]"
          define b5 where "b5 = buffer_skip_whitespace b4"
          have b4: "buffer_ok b4" "pb_content b4 = pb_content b2" "pb_offset b3 < pb_offset b4" "pb_depth b4 = D"
            using ok' w b3 b2 by auto
          have b5: "inside b5" "pb_content b5 = pb_content b" "pb_offset b < pb_offset b5" "pb_depth b5 = D"
            unfolding b5_def using value_steps [OF m2 b4(1,2) b4(3) [unfolded b3_def]] inside_skip(3) [OF b4(1)] b4(4) b2
            by simp_all
          have su: "spread hp0 us hp4" unfolding us_def by (rule spread_fill [OF h3(3) rd3 d(1)])
          obtain m' where "ch_items hp3 a = Some m'" "cd_string d = cd_string (cj_data m')" using d(1) by (auto simp: filled_def)
          then have "cd_string d = Some v" using rd3 by (auto simp: ready_def f_def vd_def)
          then have names: "\<forall>t \<in> set us. cd_string (lt_data t) \<noteq> None" and wt: "well_typed us"
            using less.prems(2,3) d(2) by (auto simp: us_def typed_value_def)
          have hu: "first_of us = (if first_of ts = None then Some a else first_of ts)" unfolding us_def by (rule hd)
          note step' = parse_members_step [where pv = pv, OF new n' h3(1) [unfolded f_def] hu]
          show ?thesis
          proof (cases "next_is b5 (CHR '','')")
            case stop: False
            then have run: "parse_members K pv (first_of ts) (end_of None ts) b hp = Some (True, first_of us, b5, hp4)"
              using step' colon w ok' unfolding b2_def b3_def b5_def by (simp del: One_nat_def first_of_simps)
            show ?thesis by (rule list_result_ok [OF run b5(2) su wt names b5(1)]) (use b5 less.prems(5) in simp_all)
          next
            case comma: True
            then have run: "parse_members K pv (first_of ts) (end_of None ts) b hp
                = parse_members K pv (first_of us) (end_of None us) b5 hp4"
              using step' colon w ok' unfolding b2_def b3_def b5_def us_def by (simp del: One_nat_def first_of_simps)
            have m5: "inside (move 1 b5)" by (rule inside_move [OF _ comma]) (use b5(1) in \<open>simp_all add: inside_def\<close>)
            have "length (pb_content b5) - pb_offset b5 < length (pb_content b) - pb_offset b"
              using b5 by (simp add: inside_def diff_less_mono2)
            from less.hyps [OF this su wt names m5 b5(4)] show ?thesis
              unfolding run by (rule list_result_later) (use b5 less.prems(5) in simp_all)
          qed
        qed
      qed
    qed
  qed
qed

section \<open>Values and texts\<close>

lemma finish_value_safe:
  assumes r: "ready hp a e" and s: "spread hp ts hp1" and b: "inside b" "next_is b c" "c \<noteq> CHR 0x00"
    and t: "t \<in> {32, 64}" "typed_value (e\<lparr>cd_type := t\<rparr>) ts"
    and b0: "pb_content b = pb_content b0" "pb_depth b = pb_depth b0 + 1" "pb_offset b0 \<le> pb_offset b"
  shows "read_result hp a typed_value b0 (finish_value t a (first_of ts) b hp1)"
proof -
  have d: "cd_string (e\<lparr>cd_type := t\<rparr>) = cd_string e" "cd_valuestring (e\<lparr>cd_type := t\<rparr>) = None"
    "\<not> is_reference (e\<lparr>cd_type := t\<rparr>)" "\<not> string_is_const (e\<lparr>cd_type := t\<rparr>)"
    using r t(1) by (auto simp: ready_def is_reference_def string_is_const_def)
  obtain hp' where hp': "upd_item a (\<lambda>m. m\<lparr>cj_child := first_of ts, cj_data := (cj_data m)\<lparr>cd_type := t\<rparr>\<rparr>) hp1 = Some hp'"
    "filled hp a (e\<lparr>cd_type := t\<rparr>) ts hp'"
    using filled_children [where f = "\<lambda>d. d\<lparr>cd_type := t\<rparr>", OF r s d refl] by blast
  have "inside (move 1 b)" by (rule inside_move [OF _ b(2,3)]) (use b(1) in \<open>simp add: inside_def\<close>)
  then have "buffer_ok (move 1 (b\<lparr>pb_depth := pb_depth b - 1\<rparr>))" by (simp add: inside_def buffer_ok_def)
  moreover have run: "finish_value t a (first_of ts) b hp1 = Some (True, move 1 (b\<lparr>pb_depth := pb_depth b - 1\<rparr>), hp')"
    using hp'(1) by (simp add: finish_value_def)
  ultimately show ?thesis
    by (intro read_resultI [where P = typed_value, OF run _ _ _ _ hp'(2) t(2)]) (use b0 in simp_all)
qed

lemma read_result_list_fail:
  assumes "list_result hp Q b1 r" "pb_content b1 = pb_content b"
  shows "\<exists>ok head b' hp' ts. r = Some (ok, head, b', hp') \<and> head = first_of ts \<and> pb_content b' = pb_content b \<and> spread hp ts hp'
    \<and> (ok \<longrightarrow> well_typed ts \<and> (\<forall>t \<in> set ts. Q t) \<and> inside b' \<and> pb_depth b' = pb_depth b1 \<and> pb_offset b1 < pb_offset b')
    \<and> read_result hp a P b (do { hp \<leftarrow> cJSON_Delete head hp'; Some (False, b', hp) })"
  using assms spread_delete unfolding list_result_def by (fastforce intro!: read_result_fail)

text \<open>The part that arrays and objects share: what follows the opening bracket.\<close>

lemma parse_container_safe:
  assumes r: "ready hp a e" and b: "inside b" "next_is b lbr" "lbr \<noteq> CHR 0x00" "rbr \<noteq> CHR 0x00"
    and t: "t \<in> {32, 64}" "\<And>ts. well_typed ts \<Longrightarrow> \<forall>u \<in> set ts. Q u \<Longrightarrow> typed_value (e\<lparr>cd_type := t\<rparr>) ts"
    and body: "\<And>b'. inside (move 1 b') \<Longrightarrow> pb_content b' = pb_content b \<Longrightarrow> pb_depth b' = pb_depth b + 1 \<Longrightarrow>
      list_result hp Q b' (body b')"
  shows "read_result hp a typed_value b
    (let b = buffer_skip_whitespace (move 1 (b\<lparr>pb_depth := pb_depth b + 1\<rparr>)) in
     if next_is b rbr then finish_value t a None b hp
     else if \<not> can_access_at_index b 0 then Some (False, goto_pos (pb_offset b - 1) b, hp)
     else do {
       (ok, head, b, hp) \<leftarrow> body (goto_pos (pb_offset b - 1) b);
       if ok \<and> next_is b rbr then finish_value t a head b hp
       else do { hp \<leftarrow> cJSON_Delete head hp; Some (False, b, hp) } })"
proof -
  define b0 where "b0 = b\<lparr>pb_depth := pb_depth b + 1\<rparr>"
  define b1 where "b1 = buffer_skip_whitespace (move 1 b0)"
  have b0: "buffer_ok b0" "next_is b0 lbr" "pb_content b0 = pb_content b" "pb_offset b0 = pb_offset b"
    using b(1,2) by (auto simp: b0_def inside_def buffer_ok_def next_is_iff)
  have mo: "inside (move 1 b0)" by (rule inside_move [OF b0(1,2) b(3)])
  have b1: "inside b1" "pb_content b1 = pb_content b" "pb_depth b1 = pb_depth b + 1" "pb_offset b < pb_offset b1"
    unfolding b1_def using inside_skip(1-4) [of "move 1 b0"] mo b0(3,4) by (auto simp: inside_def b0_def)
  have acc: "can_access_at_index b1 0" using b1(1) by (simp add: inside_def can_access_at_index_def)
  show ?thesis
  proof (cases "next_is b1 rbr")
    case True
    have "read_result hp a typed_value b (finish_value t a (first_of []) b1 hp)"
      by (rule finish_value_safe [OF r spread_refl b1(1) True b(4) t(1)]) (use t(2) [of "[]"] b1 in simp_all)
    with True show ?thesis by (simp add: b1_def b0_def)
  next
    case False
    define b2 where "b2 = goto_pos (pb_offset b1 - 1) b1"
    have b2: "inside (move 1 b2)" "pb_content b2 = pb_content b" "pb_depth b2 = pb_depth b + 1" "pb_offset b \<le> pb_offset b2"
      using b1 by (auto simp: b2_def inside_def buffer_ok_def)
    obtain ok head b' hp' ts where l: "body b2 = Some (ok, head, b', hp')" "head = first_of ts" "pb_content b' = pb_content b"
      "spread hp ts hp'"
      "ok \<longrightarrow> well_typed ts \<and> (\<forall>t \<in> set ts. Q t) \<and> inside b' \<and> pb_depth b' = pb_depth b2 \<and> pb_offset b2 < pb_offset b'"
      "read_result hp a typed_value b (do { hp \<leftarrow> cJSON_Delete head hp'; Some (False, b', hp) })"
      using read_result_list_fail [OF body [OF b2(1-3)] b2(2), of a typed_value] by blast
    have "read_result hp a typed_value b (if ok \<and> next_is b' rbr then finish_value t a head b' hp'
       else do { hp \<leftarrow> cJSON_Delete head hp'; Some (False, b', hp) })"
    proof (cases "ok \<and> next_is b' rbr")
      case True
      then have "read_result hp a typed_value b (finish_value t a (first_of ts) b' hp')"
        using l b2 t by (intro finish_value_safe [OF r l(4) _ _ b(4) t(1)]) auto
      with True l(2) show ?thesis by simp
    next
      case False
      with l(6) show ?thesis by auto
    qed
    with False acc l(1) show ?thesis by (simp add: b1_def b0_def b2_def Let_def del: One_nat_def)
  qed
qed

lemma buffer_at_depth: "buffer_at (b\<lparr>pb_depth := n\<rparr>) i = buffer_at b i" "next_is (b\<lparr>pb_depth := n\<rparr>) c = next_is b c"
  by (simp_all add: buffer_at_def next_is_def can_access_at_index_def)

lemma parse_array_safe:
  assumes pv: "parser_ok (pb_depth b + 1) pv" and K: "alloc_fresh (ck_item K)" and r: "ready hp a e"
    and b: "inside b" "next_is b (CHR ''['')" "pb_depth b < CJSON_NESTING_LIMIT"
  shows "read_result hp a typed_value b (parse_array K pv a b hp)"
proof -
  have "read_result hp a typed_value b
    (let b = buffer_skip_whitespace (move 1 (b\<lparr>pb_depth := pb_depth b + 1\<rparr>)) in
     if next_is b (CHR '']'') then finish_value 32 a None b hp
     else if \<not> can_access_at_index b 0 then Some (False, goto_pos (pb_offset b - 1) b, hp)
     else do {
       (ok, head, b, hp) \<leftarrow> parse_elements K pv None None (goto_pos (pb_offset b - 1) b) hp;
       if ok \<and> next_is b (CHR '']'') then finish_value 32 a head b hp
       else do { hp \<leftarrow> cJSON_Delete head hp; Some (False, b, hp) } })"
  proof (rule parse_container_safe [OF r b(1,2)])
    show "typed_value (e\<lparr>cd_type := 32\<rparr>) ts" if "well_typed ts" "\<forall>u \<in> set ts. cd_string (lt_data u) = None" for ts
      using that r by (simp add: typed_value_def typed_item_def ready_def)
    show "list_result hp (\<lambda>u. cd_string (lt_data u) = None) b' (parse_elements K pv None None b' hp)"
      if "inside (move 1 b')" "pb_depth b' = pb_depth b + 1" for b'
      using parse_elements_safe [OF pv K spread_refl _ _ that] by simp
  qed simp_all
  then show ?thesis using b by (simp add: parse_array_def Let_def buffer_at_depth next_is_def del: One_nat_def)
qed

lemma parse_object_safe:
  assumes pv: "parser_ok (pb_depth b + 1) pv" and K: "alloc_fresh (ck_item K)" "alloc_fresh (ck_str K)" and r: "ready hp a e"
    and b: "inside b" "next_is b (CHR ''{'')" "pb_depth b < CJSON_NESTING_LIMIT"
  shows "read_result hp a typed_value b (parse_object K pv a b hp)"
proof -
  have "read_result hp a typed_value b
    (let b = buffer_skip_whitespace (move 1 (b\<lparr>pb_depth := pb_depth b + 1\<rparr>)) in
     if next_is b (CHR ''}'') then finish_value 64 a None b hp
     else if \<not> can_access_at_index b 0 then Some (False, goto_pos (pb_offset b - 1) b, hp)
     else do {
       (ok, head, b, hp) \<leftarrow> parse_members K pv None None (goto_pos (pb_offset b - 1) b) hp;
       if ok \<and> next_is b (CHR ''}'') then finish_value 64 a head b hp
       else do { hp \<leftarrow> cJSON_Delete head hp; Some (False, b, hp) } })"
  proof (rule parse_container_safe [OF r b(1,2)])
    show "typed_value (e\<lparr>cd_type := 64\<rparr>) ts" if "well_typed ts" "\<forall>u \<in> set ts. cd_string (lt_data u) \<noteq> None" for ts
      using that r by (simp add: typed_value_def typed_item_def ready_def)
    show "list_result hp (\<lambda>u. cd_string (lt_data u) \<noteq> None) b' (parse_members K pv None None b' hp)"
      if "inside (move 1 b')" "pb_depth b' = pb_depth b + 1" for b'
      using parse_members_safe [OF pv K spread_refl _ _ that] by simp
  qed simp_all
  then show ?thesis using b by (simp add: parse_object_def Let_def buffer_at_depth del: One_nat_def)
qed

lemma read_result_weaken:
  "read_result hp a P b r \<Longrightarrow> (\<And>d kids. P d kids \<Longrightarrow> Q d kids) \<Longrightarrow> read_result hp a Q b r"
  unfolding read_result_def by (elim exE conjE, rename_tac ok b' hp') (rule_tac x = ok in exI, auto, blast)

lemma literal_value_safe:
  assumes r: "ready hp a e" and b: "inside b" "looking_at b s" "s \<noteq> []" "n = length s"
    and f: "cd_string (f e) = cd_string e" "cd_valuestring (f e) = None" "\<not> is_reference (f e)" "\<not> string_is_const (f e)"
      "typed_value (f e) []"
  shows "read_result hp a typed_value b (do { hp \<leftarrow> upd_data a f hp; Some (True, move n b, hp) })"
proof -
  obtain hp' where hp': "upd_data a f hp = Some hp'" "filled hp a (f e) [] hp'" using filled_data [where f = f, OF r f(1-4)] by blast
  have run: "do { hp \<leftarrow> upd_data a f hp; Some (True, move n b, hp) } = Some (True, move n b, hp')"
    using hp'(1) by simp
  show ?thesis
    by (rule read_resultI [where P = typed_value, OF run _ _ _ _ hp'(2) f(5)])
      (use b looking_at_move [of b s] in \<open>simp_all add: inside_def\<close>)
qed

lemma parse_value_safe:
  assumes K: "alloc_fresh (ck_item K)" "alloc_fresh (ck_str K)"
  shows "D \<le> CJSON_NESTING_LIMIT \<Longrightarrow> CJSON_NESTING_LIMIT < D + levels \<Longrightarrow> parser_ok D (parse_value levels K)"
proof (induction levels arbitrary: D)
  case (Suc levels)
  show ?case unfolding parser_ok_def
  proof (intro allI impI, elim conjE)
    fix hp a e b
    assume r: "ready hp a e" and b: "inside b" "pb_depth b = D"
    have lit: "typed_value (e\<lparr>cd_type := t\<rparr>) []" "typed_value (e\<lparr>cd_type := 2, cd_valueint := 1\<rparr>) []"
      "\<not> is_reference (e\<lparr>cd_type := t\<rparr>)" "\<not> string_is_const (e\<lparr>cd_type := t\<rparr>)"
      "\<not> is_reference (e\<lparr>cd_type := 2, cd_valueint := 1\<rparr>)" "\<not> string_is_const (e\<lparr>cd_type := 2, cd_valueint := 1\<rparr>)"
      if "t \<in> {4, 1}" for t
      using that r by (auto simp: typed_value_def typed_item_def ready_def is_reference_def string_is_const_def)
    have vs: "cd_valuestring e = None" using r by (simp add: ready_def)
    have deep: "read_result hp a typed_value b (parse_array K (parse_value levels K) a b hp)"
      "read_result hp a typed_value b (parse_object K (parse_value levels K) a b hp)" if "CJSON_NESTING_LIMIT \<le> D"
      using that b(2) by (auto simp: parse_array_def parse_object_def intro: read_result_fail)
    have inner: "parser_ok (pb_depth b + 1) (parse_value levels K)" if "\<not> CJSON_NESTING_LIMIT \<le> D"
      using Suc.IH [of "D + 1"] Suc.prems(2) that b(2) by simp
    consider "looking_at b ''null''" | "\<not> looking_at b ''null''" "looking_at b ''false''"
      | "\<not> looking_at b ''null''" "\<not> looking_at b ''false''" "looking_at b ''true''"
      | "\<not> looking_at b ''null''" "\<not> looking_at b ''false''" "\<not> looking_at b ''true''" by blast
    then show "read_result hp a typed_value b (parse_value (Suc levels) K a b hp)"
    proof cases
      case 1
      have "read_result hp a typed_value b
          (do { hp \<leftarrow> upd_data a (\<lambda>d. d\<lparr>cd_type := 4\<rparr>) hp; Some (True, move 4 b, hp) })"
        by (rule literal_value_safe [OF r b(1) 1]) (use lit [of 4] vs in simp_all)
      with 1 show ?thesis by (simp add: parse_value.simps)
    next
      case 2
      have "read_result hp a typed_value b
          (do { hp \<leftarrow> upd_data a (\<lambda>d. d\<lparr>cd_type := 1\<rparr>) hp; Some (True, move 5 b, hp) })"
        by (rule literal_value_safe [OF r b(1) 2(2)]) (use lit [of 1] vs in simp_all)
      with 2 show ?thesis by (simp add: parse_value.simps)
    next
      case 3
      have "read_result hp a typed_value b
          (do { hp \<leftarrow> upd_data a (\<lambda>d. d\<lparr>cd_type := 2, cd_valueint := 1\<rparr>) hp; Some (True, move 4 b, hp) })"
        by (rule literal_value_safe [OF r b(1) 3(3)]) (use lit [of 1] vs in simp_all)
      with 3 show ?thesis by (simp add: parse_value.simps)
    next
      case 4
      have str: "read_result hp a typed_value b (parse_string K a b hp)"
        by (rule read_result_weaken [OF parse_string_safe [OF r b(1) K(2)]]) (auto simp: typed_value_def typed_item_def)
      have num: "read_result hp a typed_value b (parse_number a b hp)"
        by (rule read_result_weaken [OF parse_number_safe [OF r b(1)]]) (use vs in \<open>auto simp: typed_value_def typed_item_def\<close>)
      have arr: "read_result hp a typed_value b (parse_array K (parse_value levels K) a b hp)" if "next_is b (CHR ''['')"
        using deep(1) parse_array_safe [OF inner K(1) r b(1) that] b(2) by (cases "CJSON_NESTING_LIMIT \<le> D") auto
      have obj: "read_result hp a typed_value b (parse_object K (parse_value levels K) a b hp)" if "next_is b (CHR ''{'')"
        using deep(2) parse_object_safe [OF inner K r b(1) that] b(2) by (cases "CJSON_NESTING_LIMIT \<le> D") auto
      show ?thesis using 4 str num arr obj by (simp add: parse_value.simps read_result_fail split: option.split)
    qed
  qed
qed simp


text \<open>The item that \<^verbatim>\<open>cJSON_ParseWithOpts\<close> starts from, and its value as a tree of its own.\<close>

lemma new_item_spread:
  assumes "ch_items hp a = None"
  defines "hp1 \<equiv> hp\<lparr>ch_items := (ch_items hp)(a \<mapsto> \<lparr>cj_next = None, cj_prev = None, cj_child = None, cj_data = zero_data\<rparr>)\<rparr>"
  shows "ready hp1 a zero_data" "spread hp [LT a zero_data []] hp1"
  using assms(1) by (auto simp: hp1_def ready_def spread_def owned_def off_same_def data_strs_def domIff)

lemma skip_bom_inside:
  assumes "b = \<lparr>pb_content = s @ [CHR 0x00], pb_offset = 0, pb_depth = 0\<rparr>"
  obtains b' where "skip_utf8_bom b = Some b'" "buffer_ok b'" "pb_content b' = pb_content b" "pb_depth b' = 0"
proof (cases "can_access_at_index b 4 \<and> take 3 (pb_content b) = [char_of (0xEF::nat), char_of (0xBB::nat), char_of (0xBF::nat)]")
  case True
  then show ?thesis using assms by (intro that [of "move 3 b"]) (auto simp: skip_utf8_bom_def buffer_ok_def can_access_at_index_def)
next
  case False
  then show ?thesis using assms by (intro that [of b]) (auto simp: skip_utf8_bom_def buffer_ok_def)
qed

lemma parse_with_opts_cases:
  assumes K: "alloc_fresh (ck_item K)" "alloc_fresh (ck_str K)"
  shows "(\<exists>stop err. cJSON_ParseWithOpts K (Some s) full hp = Some (None, stop, Some err, hp))
    \<or> (\<exists>t stop hp'. cJSON_ParseWithOpts K (Some s) full hp = Some (Some (lt_addr t), stop, None, hp')
         \<and> spread hp [t] hp' \<and> well_typed [t] \<and> cd_string (lt_data t) = None)"
proof (cases rule: new_item_cases [OF K(1), of hp, case_names none item])
  case none
  then show ?thesis by (simp add: cJSON_ParseWithOpts_def Let_def)
next
  case (item a)
  define hp1 where "hp1 = hp\<lparr>ch_items := (ch_items hp)(a \<mapsto> \<lparr>cj_next = None, cj_prev = None, cj_child = None, cj_data = zero_data\<rparr>)\<rparr>"
  have n: "ready hp1 a zero_data" "spread hp [LT a zero_data []] hp1" unfolding hp1_def by (rule new_item_spread [OF item(1)])+
  have del0: "cJSON_Delete (Some a) hp1 = Some hp" using spread_delete [OF n(2)] by simp
  define b where "b = \<lparr>pb_content = s @ [CHR 0x00], pb_offset = 0, pb_depth = 0\<rparr>"
  obtain b1 where b1: "skip_utf8_bom b = Some b1" "buffer_ok b1" "pb_depth b1 = 0" by (rule skip_bom_inside [OF b_def])
  have "parser_ok 0 (parse_value (CJSON_NESTING_LIMIT + 1) K)" by (rule parse_value_safe [OF K]) simp_all
  then have "read_result hp1 a typed_value (buffer_skip_whitespace b1)
      (parse_value (CJSON_NESTING_LIMIT + 1) K a (buffer_skip_whitespace b1) hp1)"
    using n(1) inside_skip(1,3) [OF b1(2)] b1(3) by (auto simp: parser_ok_def)
  then obtain ok b2 hp2 where v: "parse_value (CJSON_NESTING_LIMIT + 1) K a (buffer_skip_whitespace b1) hp1 = Some (ok, b2, hp2)"
    "if ok then buffer_ok b2 \<and> pb_depth b2 = pb_depth (buffer_skip_whitespace b1)
       \<and> pb_offset (buffer_skip_whitespace b1) < pb_offset b2
       \<and> (\<exists>d kids. filled hp1 a d kids hp2 \<and> typed_value d kids) else hp2 = hp1"
    unfolding read_result_def by blast
  define b3 where "b3 = (if ok \<and> full then buffer_skip_whitespace b2 else b2)"
  have run: "cJSON_ParseWithOpts K (Some s) full hp =
      (if ok \<and> (full \<longrightarrow> next_is b3 (CHR 0x00)) then Some (Some a, pb_offset b3, None, hp2)
       else do {
         hp \<leftarrow> cJSON_Delete (Some a) hp2;
         (let e = (if pb_offset b3 < length (pb_content b3) then pb_offset b3 else length (pb_content b3) - 1) in
          Some (None, e, Some e, hp)) })"
    using item(2) b1(1) v(1) by (cases full; cases ok; simp add: cJSON_ParseWithOpts_def b_def [symmetric] hp1_def [symmetric] b3_def Let_def)
  show ?thesis
  proof (cases ok)
    case False
    then show ?thesis using run v(2) del0 by (simp add: Let_def)
  next
    case True
    then obtain d kids where d: "filled hp1 a d kids hp2" "typed_value d kids" using v(2) by auto
    have sp: "spread hp [LT a d kids] hp2" using spread_fill [of hp "[]" a zero_data hp1 d kids hp2] n d(1) by simp
    have del: "cJSON_Delete (Some a) hp2 = Some hp" using spread_delete [OF sp] by simp
    have "cd_string d = None" using d(1) n(1) by (auto simp: filled_def ready_def)
    moreover have "well_typed [LT a d kids]" using d(2) by (simp add: typed_value_def)
    ultimately show ?thesis using run True sp del
      by (cases "full \<longrightarrow> next_is b3 (CHR 0x00)") (auto simp: Let_def intro!: exI [of _ "LT a d kids"])
  qed
qed

section \<open>Claims\<close>

text \<open>
  C11: Parsing is safe and total: on every text, with any outcome of the allocations, it ends without an
  access outside the text, the string buffers or the heap; it returns either NULL, with every allocation
  given back and an error position, or a well-typed tree of its own on top of the unchanged heap.
\<close>

theorem cJSON_Parse_total:
  assumes "alloc_fresh (ck_item K)" "alloc_fresh (ck_str K)"
  shows "(\<exists>stop err. cJSON_ParseWithOpts K (Some s) full hp = Some (None, stop, Some err, hp))
    \<or> (\<exists>t stop hp'. cJSON_ParseWithOpts K (Some s) full hp = Some (Some (lt_addr t), stop, None, hp')
         \<and> tree hp' t \<and> well_typed [t] \<and> cJSON_Delete (Some (lt_addr t)) hp' = Some hp
         \<and> (\<forall>u. tree hp u \<longrightarrow> tree hp' u \<and> apart u t))"
proof -
  have main: "tree hp' t \<and> cJSON_Delete (Some (lt_addr t)) hp' = Some hp \<and> (\<forall>u. tree hp u \<longrightarrow> tree hp' u \<and> apart u t)"
    if s: "spread hp [t] hp'" for t hp'
  proof -
    have "added hp t hp'" using s by (auto simp: added_def spread_def off_same_def tree_def)
    then show ?thesis using spread_delete [OF s] added_apart s by (auto simp: spread_def tree_def)
  qed
  from parse_with_opts_cases [OF assms, of s full hp] show ?thesis
  proof (elim disjE exE conjE)
    fix t stop hp'
    assume a: "cJSON_ParseWithOpts K (Some s) full hp = Some (Some (lt_addr t), stop, None, hp')" "spread hp [t] hp'" "well_typed [t]"
    show ?thesis using a(1,3) main [OF a(2)] by blast
  qed blast
qed

lemma cJSON_Parse_total_witness:
  "(\<exists>stop err. cJSON_ParseWithOpts \<lparr>ck_item = alloc0, ck_str = alloc0\<rparr> (Some ''[1, {}]'') True \<lparr>ch_items = Map.empty, ch_strs = Map.empty\<rparr>
      = Some (None, stop, Some err, \<lparr>ch_items = Map.empty, ch_strs = Map.empty\<rparr>))
    \<or> (\<exists>t stop hp'. cJSON_ParseWithOpts \<lparr>ck_item = alloc0, ck_str = alloc0\<rparr> (Some ''[1, {}]'') True \<lparr>ch_items = Map.empty, ch_strs = Map.empty\<rparr>
      = Some (Some (lt_addr t), stop, None, hp')
         \<and> tree hp' t \<and> well_typed [t] \<and> cJSON_Delete (Some (lt_addr t)) hp' = Some \<lparr>ch_items = Map.empty, ch_strs = Map.empty\<rparr>
         \<and> (\<forall>u. tree \<lparr>ch_items = Map.empty, ch_strs = Map.empty\<rparr> u \<longrightarrow> tree hp' u \<and> apart u t))"
  by (rule cJSON_Parse_total) (simp_all add: alloc0_fresh)

end
