(* ===== verification/CJson_Print.thy ===== *)
theory CJson_Print
  imports CJson_Parse
begin

text \<open>
  The printer of \<^verbatim>\<open>common/cjson/cJSON.c\<close>: a growing block of bytes, into which the text of a value is written
  at an offset; every write is checked against the size of the block, and is undefined outside it.
\<close>

section \<open>The print buffer\<close>

definition INT_MAX :: nat where "INT_MAX = 2147483647"

text \<open>
  \<open>ph_alloc\<close> gives the address of a new block of the requested size and the bytes that happen to be in it,
  or NULL; \<open>ph_realloc\<close> tells whether \<^verbatim>\<open>realloc\<close> may be used, which is so until \<^verbatim>\<open>cJSON_InitHooks\<close> installs
  functions of its own.  The blocks lie in the heap of the strings, \<open>pr_heap\<close>, as bytes.
\<close>

record phooks =
  ph_alloc :: "nat \<Rightarrow> (addr \<rightharpoonup> string) \<Rightarrow> (addr \<times> string) ptr"
  ph_realloc :: bool

record printbuffer =
  pr_buffer :: "addr ptr"
  pr_length :: nat
  pr_offset :: nat
  pr_depth :: nat
  pr_noalloc :: bool
  pr_format :: bool
  pr_heap :: "addr \<rightharpoonup> string"

text \<open>
  Moving to a block of \<open>newsize\<close> bytes: \<^verbatim>\<open>realloc\<close>, or allocate, copy \<open>offset + 1\<close> bytes and free.  Without
  memory the old block is freed.
\<close>

definition grow :: "phooks \<Rightarrow> nat \<Rightarrow> addr \<Rightarrow> printbuffer \<Rightarrow> (nat ptr \<times> printbuffer) option" where
  "grow K newsize a p =
     (case ph_alloc K newsize (pr_heap p) of
        None \<Rightarrow> do {
          h \<leftarrow> h_free (pr_heap p) a;
          Some (None, p\<lparr>pr_heap := h, pr_length := 0, pr_buffer := None\<rparr>) }
      | Some (b, new) \<Rightarrow> do {
          blk \<leftarrow> pr_heap p a;
          old \<leftarrow> (if ph_realloc K then Some (take newsize blk) else mem_read blk 0 (pr_offset p + 1));
          new \<leftarrow> mem_write new 0 old;
          h \<leftarrow> h_free ((pr_heap p)(b \<mapsto> new)) a;
          Some (Some (pr_offset p), p\<lparr>pr_heap := h, pr_length := newsize, pr_buffer := Some b\<rparr>) })"

definition ensure :: "phooks \<Rightarrow> nat \<Rightarrow> printbuffer \<Rightarrow> (nat ptr \<times> printbuffer) option" where
  "ensure K needed p =
     (case pr_buffer p of
        None \<Rightarrow> Some (None, p)
      | Some a \<Rightarrow>
          if 0 < pr_length p \<and> pr_length p \<le> pr_offset p then Some (None, p)
          else if INT_MAX < needed then Some (None, p)
          else
            (let needed = needed + (pr_offset p + 1) in
             if needed \<le> pr_length p then Some (Some (pr_offset p), p)
             else if pr_noalloc p then Some (None, p)
             else if INT_MAX div 2 < needed then
               (if needed \<le> INT_MAX then grow K INT_MAX a p else Some (None, p))
             else grow K (needed * 2) a p))"

text \<open>The offset moves on to the terminating zero.\<close>

definition update_offset :: "printbuffer \<Rightarrow> printbuffer option" where
  "update_offset p =
     (case pr_buffer p of
        None \<Rightarrow> Some p
      | Some a \<Rightarrow> do {
          blk \<leftarrow> pr_heap p a;
          let n = length (takeWhile (\<lambda>c. c \<noteq> CHR 0x00) (drop (pr_offset p) blk));
          if pr_offset p + n < length blk then Some (p\<lparr>pr_offset := pr_offset p + n\<rparr>) else None })"

text \<open>The bytes \<open>bs\<close> at position \<open>i\<close> of the block.\<close>

definition put :: "nat \<Rightarrow> string \<Rightarrow> printbuffer \<Rightarrow> printbuffer option" where
  "put i bs p = do {
     a \<leftarrow> pr_buffer p;
     blk \<leftarrow> pr_heap p a;
     blk \<leftarrow> mem_write blk i bs;
     Some (p\<lparr>pr_heap := (pr_heap p)(a \<mapsto> blk)\<rparr>) }"

text \<open>Room for \<open>needed\<close> bytes, the bytes at the offset, and the offset \<open>n\<close> further.\<close>

definition ensure_put :: "phooks \<Rightarrow> nat \<Rightarrow> string \<Rightarrow> nat \<Rightarrow> printbuffer \<Rightarrow> (bool \<times> printbuffer) option" where
  "ensure_put K needed bs n p = do {
     (output, p) \<leftarrow> ensure K needed p;
     (case output of
        None \<Rightarrow> Some (False, p)
      | Some i \<Rightarrow> do {
          p \<leftarrow> put i bs p;
          Some (True, p\<lparr>pr_offset := pr_offset p + n\<rparr>) }) }"

section \<open>Numbers and strings\<close>

definition CJSON_DOUBLE_PRECISION :: double where "CJSON_DOUBLE_PRECISION = to_double False (1 / 10 ^ 16)"

text \<open>The difference is a double again; with an infinity it is one, or NaN, and no comparison holds.\<close>

definition compare_double :: "double \<Rightarrow> double \<Rightarrow> bool" where
  "compare_double a b \<longleftrightarrow>
     (case (finite_value a, finite_value b) of
        (Some x, Some y) \<Rightarrow>
          (case (finite_value (to_double False \<bar>x - y\<bar>), finite_value CJSON_DOUBLE_PRECISION) of
             (Some d, Some e) \<Rightarrow> d \<le> e
           | _ \<Rightarrow> False)
      | _ \<Rightarrow> False)"

text \<open>The text in \<^verbatim>\<open>number_buffer\<close>: 15 digits when they give the number back, else 17; an infinity is \<^verbatim>\<open>null\<close>.\<close>

definition number_buffer :: "double \<Rightarrow> string" where
  "number_buffer d =
     (if finite_value d = None then ''null''
      else
        (let s = format_g 15 d; (test, n) = strtod s in
         if n = 0 \<or> \<not> compare_double test d then format_g 17 d else s))"

definition print_number :: "phooks \<Rightarrow> double \<Rightarrow> printbuffer \<Rightarrow> (bool \<times> printbuffer) option" where
  "print_number K d p =
     (let s = number_buffer d in
      if 25 < length s then Some (False, p)
      else ensure_put K (length s + 1) (s @ [CHR 0x00]) (length s) p)"

definition hex_char :: "nat \<Rightarrow> char" where
  "hex_char n = (if n < 10 then char_of (48 + n) else char_of (87 + n))"

definition u_escape :: "char \<Rightarrow> string" where
  "u_escape c = [CHR ''u'', CHR ''0'', CHR ''0'', hex_char (code c div 16), hex_char (code c mod 16)]"

definition short_escape :: "char \<Rightarrow> char ptr" where
  "short_escape c =
     (if c = CHR 0x5C then Some (CHR 0x5C) else if c = CHR 0x22 then Some (CHR 0x22)
      else if c = CHR 0x08 then Some (CHR ''b'') else if c = CHR 0x0C then Some (CHR ''f'')
      else if c = CHR 0x0A then Some (CHR ''n'') else if c = CHR 0x0D then Some (CHR ''r'')
      else if c = CHR 0x09 then Some (CHR ''t'') else None)"

text \<open>The additional characters, counted before anything is written.\<close>

definition escape_characters :: "string \<Rightarrow> nat" where
  "escape_characters s =
     sum_list (map (\<lambda>c. if short_escape c \<noteq> None then 1 else if code c < 32 then 5 else 0) s)"

definition escape_char :: "char \<Rightarrow> string" where
  "escape_char c =
     (if 31 < code c \<and> c \<noteq> CHR 0x22 \<and> c \<noteq> CHR 0x5C then [c]
      else CHR 0x5C # (case short_escape c of Some e \<Rightarrow> [e] | None \<Rightarrow> u_escape c))"

text \<open>The copying loop; \<^verbatim>\<open>sprintf\<close> writes a zero byte behind its digits, which is overwritten.\<close>

fun escape_loop :: "string \<Rightarrow> nat \<Rightarrow> printbuffer \<Rightarrow> printbuffer option" where
  "escape_loop [] i p = Some p"
| "escape_loop (c # cs) i p = do {
     p \<leftarrow> put i (escape_char c @ (if length (escape_char c) = 6 then [CHR 0x00] else [])) p;
     escape_loop cs (i + length (escape_char c)) p }"

definition print_string_ptr :: "phooks \<Rightarrow> string ptr \<Rightarrow> printbuffer \<Rightarrow> (bool \<times> printbuffer) option" where
  "print_string_ptr K input p =
     (case input of
        None \<Rightarrow> ensure_put K 3 [CHR 0x22, CHR 0x22, CHR 0x00] 0 p
      | Some s \<Rightarrow>
          (let output_length = length s + escape_characters s in do {
             (output, p) \<leftarrow> ensure K (output_length + 3) p;
             (case output of
                None \<Rightarrow> Some (False, p)
              | Some i \<Rightarrow> do {
                  p \<leftarrow> put i [CHR 0x22] p;
                  p \<leftarrow> (if escape_characters s = 0 then put (i + 1) s p else escape_loop s (i + 1) p);
                  p \<leftarrow> put (i + output_length + 1) [CHR 0x22, CHR 0x00] p;
                  Some (True, p) }) }))"

section \<open>Values\<close>

definition print_literal :: "phooks \<Rightarrow> string \<Rightarrow> printbuffer \<Rightarrow> (bool \<times> printbuffer) option" where
  "print_literal K s p = ensure_put K (length s + 1) (s @ [CHR 0x00]) 0 p"

definition print_raw :: "phooks \<Rightarrow> string ptr \<Rightarrow> printbuffer \<Rightarrow> (bool \<times> printbuffer) option" where
  "print_raw K valuestring p =
     (case valuestring of None \<Rightarrow> Some (False, p) | Some s \<Rightarrow> ensure_put K (length s + 1) (s @ [CHR 0x00]) 0 p)"

definition open_array :: "phooks \<Rightarrow> printbuffer \<Rightarrow> (bool \<times> printbuffer) option" where
  "open_array K p = do {
     (ok, p) \<leftarrow> ensure_put K 1 ''['' 1 p;
     Some (ok, if ok then p\<lparr>pr_depth := pr_depth p + 1\<rparr> else p) }"

definition array_comma :: "phooks \<Rightarrow> printbuffer \<Rightarrow> (bool \<times> printbuffer) option" where
  "array_comma K p =
     (let s = (if pr_format p then '', '' else '','') in ensure_put K (length s + 1) (s @ [CHR 0x00]) (length s) p)"

definition close_array :: "phooks \<Rightarrow> printbuffer \<Rightarrow> (bool \<times> printbuffer) option" where
  "close_array K p = do {
     (ok, p) \<leftarrow> ensure_put K 2 ('']'' @ [CHR 0x00]) 0 p;
     Some (ok, if ok then p\<lparr>pr_depth := pr_depth p - 1\<rparr> else p) }"

definition open_object :: "phooks \<Rightarrow> printbuffer \<Rightarrow> (bool \<times> printbuffer) option" where
  "open_object K p = do {
     let s = (if pr_format p then ''{'' @ [CHR 0x0A] else ''{'');
     (ok, p) \<leftarrow> ensure_put K (length s + 1) s (length s) p;
     Some (ok, if ok then p\<lparr>pr_depth := pr_depth p + 1\<rparr> else p) }"

definition member_indent :: "phooks \<Rightarrow> printbuffer \<Rightarrow> (bool \<times> printbuffer) option" where
  "member_indent K p =
     (if pr_format p then ensure_put K (pr_depth p) (replicate (pr_depth p) (CHR 0x09)) (pr_depth p) p
      else Some (True, p))"

definition member_colon :: "phooks \<Rightarrow> printbuffer \<Rightarrow> (bool \<times> printbuffer) option" where
  "member_colon K p =
     (let s = (if pr_format p then '':'' @ [CHR 0x09] else '':'') in ensure_put K (length s) s (length s) p)"

definition member_end :: "phooks \<Rightarrow> bool \<Rightarrow> printbuffer \<Rightarrow> (bool \<times> printbuffer) option" where
  "member_end K has_next p =
     (let s = (if has_next then '','' else '''') @ (if pr_format p then [CHR 0x0A] else '''') in
      ensure_put K (length s + 1) (s @ [CHR 0x00]) (length s) p)"

definition close_object :: "phooks \<Rightarrow> printbuffer \<Rightarrow> (bool \<times> printbuffer) option" where
  "close_object K p = do {
     (ok, p) \<leftarrow> (if pr_format p
        then ensure_put K (pr_depth p + 1) (replicate (pr_depth p - 1) (CHR 0x09) @ ''}'' @ [CHR 0x00]) 0 p
        else ensure_put K 2 (''}'' @ [CHR 0x00]) 0 p);
     Some (ok, if ok then p\<lparr>pr_depth := pr_depth p - 1\<rparr> else p) }"

text \<open>The next step, when the one before has succeeded.\<close>

definition and_then :: "(bool \<times> printbuffer) option \<Rightarrow> (printbuffer \<Rightarrow> (bool \<times> printbuffer) option) \<Rightarrow> (bool \<times> printbuffer) option" where
  "and_then r f = do { (ok, p) \<leftarrow> r; if ok then f p else Some (False, p) }"

lemma and_then_mono [partial_function_mono]:
  assumes "mono_option r" "\<And>p. mono_option (\<lambda>g. f g p)"
  shows "mono_option (\<lambda>g. and_then (r g) (f g))"
  unfolding and_then_def
proof (rule bind_mono [OF assms(1)])
  fix y :: "bool \<times> printbuffer"
  obtain ok p where y: "y = (ok, p)" by (cases y)
  show "mono_option (\<lambda>g. case y of (ok, p) \<Rightarrow> if ok then f g p else Some (False, p))"
    using assms(2) [of p] by (cases ok) (simp_all add: y monotone_def option.leq_refl)
qed

text \<open>
  The functions \<^verbatim>\<open>print_value\<close>, \<^verbatim>\<open>print_array\<close> and \<^verbatim>\<open>print_object\<close> call each other; here they are one function
  of what is to be printed: a value, or the rest of the elements or members.  The strings are read from the
  heap that the block lies in.
\<close>

datatype print_task = Value addr | Elements "addr ptr" | Members "addr ptr"

partial_function (option) print_run :: "phooks \<Rightarrow> print_task \<Rightarrow> printbuffer \<Rightarrow> cheap \<Rightarrow> (bool \<times> printbuffer) option" where
  "print_run K task p hp =
     (case task of
        Value a \<Rightarrow> do {
          n \<leftarrow> ch_items hp a;
          let t = cd_type (cj_data n) AND 0xFF;
          if t = cJSON_NULL then print_literal K ''null'' p
          else if t = cJSON_False then print_literal K ''false'' p
          else if t = cJSON_True then print_literal K ''true'' p
          else if t = cJSON_Number then print_number K (cd_valuedouble (cj_data n)) p
          else if t = cJSON_Raw then do { text \<leftarrow> read_str (cd_valuestring (cj_data n)) (hp\<lparr>ch_strs := pr_heap p\<rparr>); print_raw K text p }
          else if t = cJSON_String then do { text \<leftarrow> read_str (cd_valuestring (cj_data n)) (hp\<lparr>ch_strs := pr_heap p\<rparr>); print_string_ptr K text p }
          else if t = cJSON_Array then
            and_then (open_array K p) (\<lambda>p. and_then (print_run K (Elements (cj_child n)) p hp) (close_array K))
          else if t = cJSON_Object then
            and_then (open_object K p) (\<lambda>p. and_then (print_run K (Members (cj_child n)) p hp) (close_object K))
          else Some (False, p) }
      | Elements None \<Rightarrow> Some (True, p)
      | Elements (Some a) \<Rightarrow>
          and_then (print_run K (Value a) p hp) (\<lambda>p. do {
            p \<leftarrow> update_offset p;
            n \<leftarrow> ch_items hp a;
            and_then (if cj_next n \<noteq> None then array_comma K p else Some (True, p))
              (\<lambda>p. print_run K (Elements (cj_next n)) p hp) })
      | Members None \<Rightarrow> Some (True, p)
      | Members (Some a) \<Rightarrow>
          and_then (member_indent K p) (\<lambda>p. do {
            n \<leftarrow> ch_items hp a;
            name \<leftarrow> read_str (cd_string (cj_data n)) (hp\<lparr>ch_strs := pr_heap p\<rparr>);
            and_then (print_string_ptr K name p) (\<lambda>p. do {
              p \<leftarrow> update_offset p;
              and_then (member_colon K p) (\<lambda>p.
                and_then (print_run K (Value a) p hp) (\<lambda>p. do {
                  p \<leftarrow> update_offset p;
                  and_then (member_end K (cj_next n \<noteq> None) p)
                    (\<lambda>p. print_run K (Members (cj_next n)) p hp) })) }) }))"

definition print_value :: "phooks \<Rightarrow> addr ptr \<Rightarrow> printbuffer \<Rightarrow> cheap \<Rightarrow> (bool \<times> printbuffer) option" where
  "print_value K item p hp = (case item of None \<Rightarrow> Some (False, p) | Some a \<Rightarrow> print_run K (Value a) p hp)"

text \<open>
  The address of the printed text in a block of its own size, or NULL, and the heap; a failure frees the
  block.  On return the block of the text is the C string in it.
\<close>

definition print_text :: "phooks \<Rightarrow> addr ptr \<Rightarrow> bool \<Rightarrow> cheap \<Rightarrow> (addr ptr \<times> cheap) option" where
  "print_text K item format hp =
     (case ph_alloc K 256 (ch_strs hp) of
        None \<Rightarrow> Some (None, hp)
      | Some (a, blk) \<Rightarrow> do {
          (ok, p) \<leftarrow> print_value K item \<lparr>pr_buffer = Some a, pr_length = 256, pr_offset = 0, pr_depth = 0, pr_noalloc = False,
                        pr_format = format, pr_heap = (ch_strs hp)(a \<mapsto> blk)\<rparr> hp;
          if \<not> ok then do {
            hp \<leftarrow> free_str (pr_buffer p) (hp\<lparr>ch_strs := pr_heap p\<rparr>);
            Some (None, hp) }
          else do {
            p \<leftarrow> update_offset p;
            a \<leftarrow> pr_buffer p;
            blk \<leftarrow> pr_heap p a;
            (case ph_alloc K (pr_offset p + 1) (pr_heap p) of
               None \<Rightarrow> do {
                 hp \<leftarrow> free_str (Some a) (hp\<lparr>ch_strs := pr_heap p\<rparr>);
                 Some (None, hp) }
             | Some (b, printed) \<Rightarrow> do {
                 old \<leftarrow> mem_read blk 0 (min (pr_length p) (pr_offset p + 1));
                 printed \<leftarrow> mem_write printed 0 old;
                 printed \<leftarrow> (if ph_realloc K then Some printed else mem_write printed (pr_offset p) [CHR 0x00]);
                 hp \<leftarrow> free_str (Some a) (hp\<lparr>ch_strs := (pr_heap p)(b \<mapsto> c_string printed)\<rparr>);
                 Some (Some b, hp) }) } })"

definition cJSON_Print :: "phooks \<Rightarrow> addr ptr \<Rightarrow> cheap \<Rightarrow> (addr ptr \<times> cheap) option" where
  "cJSON_Print K item hp = print_text K item True hp"

definition cJSON_PrintUnformatted :: "phooks \<Rightarrow> addr ptr \<Rightarrow> cheap \<Rightarrow> (addr ptr \<times> cheap) option" where
  "cJSON_PrintUnformatted K item hp = print_text K item False hp"

definition cJSON_PrintBuffered :: "phooks \<Rightarrow> addr ptr \<Rightarrow> int \<Rightarrow> bool \<Rightarrow> cheap \<Rightarrow> (addr ptr \<times> cheap) option" where
  "cJSON_PrintBuffered K item prebuffer fmt hp =
     (if prebuffer < 0 then Some (None, hp)
      else
        (case ph_alloc K (nat prebuffer) (ch_strs hp) of
           None \<Rightarrow> Some (None, hp)
         | Some (a, blk) \<Rightarrow> do {
             (ok, p) \<leftarrow> print_value K item \<lparr>pr_buffer = Some a, pr_length = nat prebuffer, pr_offset = 0, pr_depth = 0,
                           pr_noalloc = False, pr_format = fmt, pr_heap = (ch_strs hp)(a \<mapsto> blk)\<rparr> hp;
             if \<not> ok then do {
               hp \<leftarrow> free_str (pr_buffer p) (hp\<lparr>ch_strs := pr_heap p\<rparr>);
               Some (None, hp) }
             else (case pr_buffer p of
                 None \<Rightarrow> Some (None, hp\<lparr>ch_strs := pr_heap p\<rparr>)
               | Some b \<Rightarrow> do {
                   blk \<leftarrow> pr_heap p b;
                   Some (Some b, hp\<lparr>ch_strs := (pr_heap p)(b \<mapsto> c_string blk)\<rparr>) }) }))"

text \<open>Printing into the first \<open>len\<close> bytes of the caller's buffer, a block of bytes in the heap.\<close>

definition cJSON_PrintPreallocated :: "phooks \<Rightarrow> addr ptr \<Rightarrow> addr ptr \<Rightarrow> int \<Rightarrow> bool \<Rightarrow> cheap \<Rightarrow> (bool \<times> cheap) option" where
  "cJSON_PrintPreallocated K item buffer len format hp =
     (if len < 0 \<or> buffer = None then Some (False, hp)
      else do {
        (ok, p) \<leftarrow> print_value K item \<lparr>pr_buffer = buffer, pr_length = nat len, pr_offset = 0, pr_depth = 0,
                      pr_noalloc = True, pr_format = format, pr_heap = ch_strs hp\<rparr> hp;
        Some (ok, hp\<lparr>ch_strs := pr_heap p\<rparr>) })"

section \<open>The number 3.14\<close>

text \<open>The double next to 3.14 is printed with three digits: they are read back as the same double.\<close>

lemma bits_simps: "bits 0 = 0" "bits (Suc 0) = 1" "bits (numeral (Num.Bit0 n)) = bits (numeral n) + 1"
  "bits (numeral (Num.Bit1 n)) = bits (numeral n) + 1"
proof -
  show "bits 0 = 0" by (simp add: bits.simps)
  then show "bits (Suc 0) = 1" by (simp add: bits.simps [of "Suc 0"])
  show "bits (numeral (Num.Bit0 n)) = bits (numeral n) + 1" "bits (numeral (Num.Bit1 n)) = bits (numeral n) + 1"
    by (subst bits.simps; simp)+
qed

lemma rat_floor: "\<lfloor>(numeral a :: rat) / numeral b\<rfloor> = numeral a div numeral b"
  by (metis floor_divide_of_int_eq of_int_numeral)

lemma precision_value: "CJSON_DOUBLE_PRECISION = Fin (2028240960365167 / 2 ^ 104)"
proof -
  have "bin_exponent (1 / 10 ^ 16) = - 54" by (simp add: bin_exponent_def bits_simps)
  then show ?thesis by (simp add: CJSON_DOUBLE_PRECISION_def to_double_def pow2_def round_even_def Let_def rat_floor)
qed

lemma to_double_zero: "to_double False 0 = Fin 0"
  by (simp add: to_double_def signed_zero_def zero_double_def)

lemma compare_double_refl: "compare_double a a \<longleftrightarrow> finite_value a \<noteq> None"
  by (cases a) (simp_all add: compare_double_def to_double_zero precision_value)

abbreviation (input) double_3_14 :: double where "double_3_14 \<equiv> Fin (7070651414971679 / 2251799813685248)"

lemma number_3_14: "number_buffer double_3_14 = ''3.14''" "strtod ''3.14'' = (double_3_14, 4)"
proof -
  have "bin_exponent (157 / 50) = 1" by (simp add: bin_exponent_def bits_simps rat_floor)
  then have t: "to_double False (157 / 50) = double_3_14"
    by (simp add: to_double_def pow2_def round_even_def Let_def rat_floor)
  have "take_sign ''3.14'' = (False, ''3.14'')" "takeWhile is_digit ''3.14'' = ''3''" "dropWhile is_digit ''3.14'' = ''.14''"
    "take_fraction ''.14'' = (''14'', [])" "take_exponent [] = (0, [])" "digits_value ''314'' = 314" by code_simp+
  then show s: "strtod ''3.14'' = (double_3_14, 4)" by (simp add: strtod_def Let_def pow10_def t)
  have "dec_exponent (7070651414971679 / 2251799813685248) = 0"
    by (simp add: dec_exponent_def rat_floor nat_digits.simps)
  then have c: "scientific 15 (7070651414971679 / 2251799813685248) = (314000000000000, 0)"
    by (simp add: scientific_def pow10_def round_even_def Let_def rat_floor)
  have "nat_digits 314 = ''314''" "replicate 12 (CHR ''0'') = ''000000000000''" by code_simp+
  then have n: "nat_digits 314000000000000 = ''314000000000000''" using nat_digits_shift [of 314 12] by simp
  have "strip_zeros ''14000000000000'' = ''14''" by code_simp
  then have "format_g 15 double_3_14 = ''3.14''" by (simp add: format_finite_def c n with_fraction_def Let_def)
  then show "number_buffer double_3_14 = ''3.14''" by (simp add: number_buffer_def s compare_double_refl)
qed

end
