(* ===== verification/CJson_Print_Text.thy ===== *)
theory CJson_Print_Text
  imports CJson_Print CJson_Tree
begin

text \<open>
  What the printer of \<^verbatim>\<open>common/cjson/cJSON.c\<close> writes: the text of a value as a function of the value alone, and
  the proof that printing into the growing block gives this text, inside the block, or nothing.
\<close>

section \<open>The text of a value\<close>

definition quoted :: "string ptr \<Rightarrow> string" where
  "quoted s = CHR 0x22 # concat (map escape_char (case s of None \<Rightarrow> [] | Some s \<Rightarrow> s)) @ [CHR 0x22]"

definition tabs :: "bool \<Rightarrow> nat \<Rightarrow> string" where
  "tabs fmt n = (if fmt then replicate n (CHR 0x09) else [])"

definition newline :: "bool \<Rightarrow> string" where
  "newline fmt = (if fmt then [CHR 0x0A] else [])"

fun text_value :: "bool \<Rightarrow> nat \<Rightarrow> jval \<Rightarrow> string ptr"
  and text_elements :: "bool \<Rightarrow> nat \<Rightarrow> jval list \<Rightarrow> string ptr"
  and text_members :: "bool \<Rightarrow> nat \<Rightarrow> jval list \<Rightarrow> string ptr" where
  "text_value fmt n (JVal t s i d nm kids) =
     (let t = t AND 0xFF in
      if t = cJSON_NULL then Some ''null'' else if t = cJSON_False then Some ''false''
      else if t = cJSON_True then Some ''true''
      else if t = cJSON_Number then (if 25 < length (number_buffer d) then None else Some (number_buffer d))
      else if t = cJSON_Raw then s
      else if t = cJSON_String then Some (quoted s)
      else if t = cJSON_Array then map_option (\<lambda>x. ''['' @ x @ '']'') (text_elements fmt (n + 1) kids)
      else if t = cJSON_Object then
        map_option (\<lambda>x. ''{'' @ newline fmt @ x @ tabs fmt n @ ''}'') (text_members fmt (n + 1) kids)
      else None)"
| "text_elements fmt n [] = Some []"
| "text_elements fmt n (v # vs) = do {
     x \<leftarrow> text_value fmt n v;
     y \<leftarrow> text_elements fmt n vs;
     Some (x @ (if vs = [] then [] else if fmt then '', '' else '','') @ y) }"
| "text_members fmt n [] = Some []"
| "text_members fmt n (v # vs) = do {
     x \<leftarrow> text_value fmt n v;
     y \<leftarrow> text_members fmt n vs;
     Some (tabs fmt n @ quoted (jv_name v) @ '':'' @ tabs fmt 1 @ x @ (if vs = [] then [] else '','') @ newline fmt @ y) }"

section \<open>Pieces\<close>

definition blocks_ok :: "phooks \<Rightarrow> bool" where
  "blocks_ok K \<longleftrightarrow> (\<forall>n h a b. ph_alloc K n h = Some (a, b) \<longrightarrow> h a = None \<and> length b = n)"

definition never_full :: "phooks \<Rightarrow> bool" where
  "never_full K \<longleftrightarrow> (\<forall>n h. finite (dom h) \<longrightarrow> ph_alloc K n h \<noteq> None)"

text \<open>The block the text goes to, and the blocks of everything else.\<close>

definition block :: "printbuffer \<Rightarrow> string ptr" where
  "block p = (case pr_buffer p of None \<Rightarrow> None | Some a \<Rightarrow> pr_heap p a)"

definition others :: "printbuffer \<Rightarrow> addr \<rightharpoonup> string" where
  "others p = (case pr_buffer p of None \<Rightarrow> pr_heap p | Some a \<Rightarrow> (pr_heap p)(a := None))"

definition set_block :: "string \<Rightarrow> printbuffer \<Rightarrow> printbuffer" where
  "set_block blk p = (case pr_buffer p of None \<Rightarrow> p | Some a \<Rightarrow> p\<lparr>pr_heap := (pr_heap p)(a \<mapsto> blk)\<rparr>)"

lemma set_block_simps [simp]:
  "pr_buffer (set_block x p) = pr_buffer p" "pr_length (set_block x p) = pr_length p" "pr_offset (set_block x p) = pr_offset p"
  "pr_depth (set_block x p) = pr_depth p" "pr_noalloc (set_block x p) = pr_noalloc p" "pr_format (set_block x p) = pr_format p"
  "others (set_block x p) = others p" "set_block x (set_block y p) = set_block x p"
  by (cases p; cases "pr_buffer p"; simp add: set_block_def others_def)+

lemma block_set [simp]: "block p = Some b \<Longrightarrow> block (set_block x p) = Some x"
  by (auto simp: block_def set_block_def split: option.splits)

lemma block_fields [simp]: "block (p\<lparr>pr_offset := i\<rparr>) = block p" "block (p\<lparr>pr_depth := k\<rparr>) = block p"
  "others (p\<lparr>pr_offset := i\<rparr>) = others p" "others (p\<lparr>pr_depth := k\<rparr>) = others p"
  by (simp_all add: block_def others_def split: option.split)

lemma others_buffer: "pr_buffer p = Some a \<Longrightarrow> others p a = None"
  by (simp add: others_def)

lemma blockD: "block p = Some b \<Longrightarrow> \<exists>a. pr_buffer p = Some a \<and> pr_heap p a = Some b \<and> pr_heap p = (others p)(a \<mapsto> b)"
  by (auto simp: block_def others_def split: option.splits)

text \<open>The text \<open>x\<close> is behind the old offset, what was before it is as it was, and there is a byte left.\<close>

definition wrote :: "printbuffer \<Rightarrow> string \<Rightarrow> printbuffer \<Rightarrow> bool" where
  "wrote p x p' \<longleftrightarrow> (\<exists>blk blk'. block p = Some blk \<and> block p' = Some blk'
     \<and> take (pr_offset p) blk' = take (pr_offset p) blk \<and> pr_offset p < pr_length p \<and> pr_length p \<le> length blk
     \<and> take (length x) (drop (pr_offset p) blk') = x \<and> pr_offset p + length x < pr_length p' \<and> pr_length p' \<le> length blk'
     \<and> (pr_noalloc p \<longrightarrow> pr_buffer p' = pr_buffer p \<and> pr_length p' = pr_length p \<and> length blk' = length blk
          \<and> drop (pr_length p) blk' = drop (pr_length p) blk))
     \<and> pr_format p' = pr_format p \<and> pr_noalloc p' = pr_noalloc p \<and> others p' = others p"

definition advanced :: "printbuffer \<Rightarrow> string \<Rightarrow> printbuffer \<Rightarrow> bool" where
  "advanced p x p' \<longleftrightarrow> wrote p x p' \<and> pr_offset p' = pr_offset p + length x"

text \<open>The offset is still to move on to the zero byte behind the text.\<close>

definition pending :: "printbuffer \<Rightarrow> string \<Rightarrow> printbuffer \<Rightarrow> bool" where
  "pending p x p' \<longleftrightarrow> wrote p x p' \<and> pr_offset p \<le> pr_offset p' \<and> pr_offset p' \<le> pr_offset p + length x
     \<and> the (block p') ! (pr_offset p + length x) = CHR 0x00"

definition writable :: "printbuffer \<Rightarrow> bool" where
  "writable p \<longleftrightarrow> (\<exists>blk. block p = Some blk \<and> pr_offset p < pr_length p \<and> pr_length p \<le> length blk)"

lemma writable_advanced: "advanced p x p' \<Longrightarrow> writable p'"
  by (auto simp: advanced_def wrote_def writable_def)

lemma advanced_refl: "writable p \<Longrightarrow> advanced p [] p"
  by (auto simp: advanced_def wrote_def writable_def)

lemma wrote_append:
  assumes "advanced p x p1" "wrote p1 y p2"
  shows "wrote p (x @ y) p2"
proof -
  define i where "i = pr_offset p"
  obtain b b1 b2 where b: "block p = Some b" "block p1 = Some b1" "block p2 = Some b2"
    "take i b1 = take i b" "i < pr_length p" "pr_length p \<le> length b" "take (length x) (drop i b1) = x" "i + length x < pr_length p1"
    "take (i + length x) b2 = take (i + length x) b1" "take (length y) (drop (i + length x) b2) = y"
    "i + length x + length y < pr_length p2" "pr_length p2 \<le> length b2"
    using assms by (auto simp: advanced_def wrote_def i_def)
  have "take i b2 = take i (take (i + length x) b2)" by simp
  also have "\<dots> = take i b1" unfolding b(9) by simp
  finally have t: "take i b2 = take i b" using b(4) by simp
  have "take (length x) (drop i b2) = drop i (take (i + length x) b2)" by (simp add: take_drop add.commute)
  then have x: "take (length x) (drop i b2) = x" unfolding b(9) using b(7) by (simp add: take_drop add.commute)
  have xy: "take (length (x @ y)) (drop i b2) = x @ y" using x b(10) by (simp add: take_add add.commute)
  have "pr_noalloc p \<longrightarrow> pr_buffer p2 = pr_buffer p \<and> pr_length p2 = pr_length p \<and> length b2 = length b \<and> drop (pr_length p) b2 = drop (pr_length p) b"
    using assms b(1,2,3) by (auto simp: advanced_def wrote_def)
  then show ?thesis unfolding wrote_def i_def [symmetric]
    using b(1,3,5,6,11,12) t xy assms by (auto simp: wrote_def advanced_def add.assoc)
qed

lemma advanced_append: "advanced p x p1 \<Longrightarrow> advanced p1 y p2 \<Longrightarrow> advanced p (x @ y) p2"
  using wrote_append by (auto simp: advanced_def)

lemma pending_append: "advanced p x p1 \<Longrightarrow> pending p1 y p2 \<Longrightarrow> pending p (x @ y) p2"
  using wrote_append by (auto simp: advanced_def pending_def add.assoc)

lemma update_offset_pending:
  assumes "pending p x p'" "CHR 0x00 \<notin> set x"
  shows "\<exists>p''. update_offset p' = Some p'' \<and> advanced p x p'' \<and> pr_depth p'' = pr_depth p'"
proof -
  define i where "i = pr_offset p"
  define j where "j = pr_offset p'"
  obtain b b' where b: "block p = Some b" "block p' = Some b'" "take i b' = take i b" "i < length b"
    "take (length x) (drop i b') = x" "i + length x < length b'" "i \<le> j" "j \<le> i + length x" "b' ! (i + length x) = CHR 0x00"
    using assms(1) by (auto simp: pending_def wrote_def i_def j_def)
  define k where "k = i + length x - j"
  have "drop j b' = drop (j - i) x @ CHR 0x00 # drop (i + length x + 1) b'"
  proof -
    have "drop i b' = x @ drop (i + length x) b'" using b(5) append_take_drop_id [of "length x" "drop i b'"] by (simp add: add.commute)
    then have "drop (j - i) (drop i b') = drop (j - i) x @ drop (i + length x) b'" using b(8) by simp
    moreover have "drop (i + length x) b' = CHR 0x00 # drop (i + length x + 1) b'" using b(6,9) by (simp add: Cons_nth_drop_Suc [symmetric])
    ultimately show ?thesis using b(7) by simp
  qed
  moreover have "CHR 0x00 \<notin> set (drop (j - i) x)" using assms(2) by (meson in_set_dropD)
  ultimately have "takeWhile (\<lambda>c. c \<noteq> CHR 0x00) (drop j b') = drop (j - i) x"
    by (auto simp: takeWhile_append)
  then have "length (takeWhile (\<lambda>c. c \<noteq> CHR 0x00) (drop j b')) = k" using b(7,8) by (simp add: k_def)
  moreover have "j + k = i + length x" using b(8) by (simp add: k_def)
  ultimately have "update_offset p' = Some (p'\<lparr>pr_offset := i + length x\<rparr>)"
    using b(2,6) blockD [OF b(2)] by (auto simp: update_offset_def j_def Let_def)
  then show ?thesis using assms(1) by (auto simp: advanced_def pending_def wrote_def i_def)
qed

section \<open>Making room\<close>

text \<open>Why a call can fail that has room for \<open>n\<close> bytes from offset \<open>i\<close> on to make.\<close>

definition may_fail :: "phooks \<Rightarrow> printbuffer \<Rightarrow> nat \<Rightarrow> bool" where
  "may_fail K p n \<longleftrightarrow> INT_MAX < pr_offset p + n + 4
     \<or> (if pr_noalloc p then pr_length p < pr_offset p + n + 4 else \<not> (never_full K \<and> finite (dom (others p))))"

text \<open>What a failure leaves: the rest of the heap, and the block while it is still there.\<close>

definition released :: "printbuffer \<Rightarrow> printbuffer \<Rightarrow> bool" where
  "released p p' \<longleftrightarrow> others p' = others p \<and> (pr_buffer p' = None \<or> block p' \<noteq> None)"

lemma released_then: "others p1 = others p \<Longrightarrow> released p1 p' \<Longrightarrow> released p p'"
  by (simp add: released_def)

lemma released_refl: "writable p \<Longrightarrow> released p p"
  by (auto simp: released_def writable_def)

text \<open>A block that was given stays where it is, and so do its bytes behind the length.\<close>

definition kept_tail :: "printbuffer \<Rightarrow> printbuffer \<Rightarrow> bool" where
  "kept_tail p p' \<longleftrightarrow> pr_buffer p' = pr_buffer p
     \<and> (\<exists>blk blk'. block p = Some blk \<and> block p' = Some blk' \<and> length blk' = length blk \<and> drop (pr_length p) blk' = drop (pr_length p) blk)"

lemma kept_tail_refl: "writable p \<Longrightarrow> kept_tail p p"
  by (auto simp: kept_tail_def writable_def)

lemma kept_tail_wrote: "wrote p x p' \<Longrightarrow> pr_noalloc p \<Longrightarrow> kept_tail p p'"
  by (auto simp: kept_tail_def wrote_def)

lemma kept_tail_then: "wrote p x p1 \<Longrightarrow> pr_noalloc p \<Longrightarrow> kept_tail p1 p' \<Longrightarrow> kept_tail p p'"
  by (auto simp: kept_tail_def wrote_def)

text \<open>A step that writes the text \<open>T\<close>, or fails because there is no such text or no room.\<close>

definition outcome ::
    "phooks \<Rightarrow> printbuffer \<Rightarrow> string ptr \<Rightarrow> (string \<Rightarrow> printbuffer \<Rightarrow> bool) \<Rightarrow> (bool \<times> printbuffer) option \<Rightarrow> bool" where
  "outcome K p T Q r \<longleftrightarrow> (\<exists>ok p'. r = Some (ok, p') \<and>
     (if ok then \<exists>x. T = Some x \<and> Q x p'
      else released p p' \<and> (pr_noalloc p \<longrightarrow> kept_tail p p') \<and> (\<forall>x. T = Some x \<longrightarrow> may_fail K p (length x))))"

lemma outcome_fail: "r = Some (False, p') \<Longrightarrow> released p p' \<Longrightarrow> (pr_noalloc p \<Longrightarrow> kept_tail p p') \<Longrightarrow>
    (\<And>x. T = Some x \<Longrightarrow> may_fail K p (length x)) \<Longrightarrow> outcome K p T Q r"
  by (auto simp: outcome_def intro: exI [of _ False])

lemma outcome_ok: "r = Some (True, p') \<Longrightarrow> T = Some x \<Longrightarrow> Q x p' \<Longrightarrow> outcome K p T Q r"
  by (auto simp: outcome_def intro: exI [of _ True])

lemma outcomeE:
  assumes "outcome K p T Q r"
  obtains (ok) p' x where "r = Some (True, p')" "T = Some x" "Q x p'"
  | (fail) p' where "r = Some (False, p')" "released p p'" "pr_noalloc p \<Longrightarrow> kept_tail p p'" "\<And>x. T = Some x \<Longrightarrow> may_fail K p (length x)"
  using assms unfolding outcome_def by (auto split: if_splits)

lemma outcome_mono: "outcome K p T Q r \<Longrightarrow> (\<And>x p'. Q x p' \<Longrightarrow> Q' x p') \<Longrightarrow> outcome K p T Q' r"
  by (erule outcomeE) (auto intro: outcome_ok outcome_fail)

text \<open>One step after the other.\<close>

lemma outcome_then:
  assumes r: "outcome K p T1 (\<lambda>x p'. advanced p x p' \<and> D p') r"
    and f: "\<And>x p'. advanced p x p' \<Longrightarrow> D p' \<Longrightarrow> outcome K p' T2 (Q p') (f p')"
    and Q: "\<And>x y p' p''. advanced p x p' \<Longrightarrow> D p' \<Longrightarrow> Q p' y p'' \<Longrightarrow> Q' (x @ y) p''"
    and T: "\<And>x y. T1 = Some x \<Longrightarrow> T2 = Some y \<Longrightarrow> T = Some (x @ y)" "\<And>z. T = Some z \<Longrightarrow> \<exists>x y. T1 = Some x \<and> T2 = Some y \<and> z = x @ y"
  shows "outcome K p T Q' (and_then r f)"
  using r
proof (rule outcomeE)
  fix p' assume a: "r = Some (False, p')" "released p p'" "pr_noalloc p \<Longrightarrow> kept_tail p p'" "\<And>x. T1 = Some x \<Longrightarrow> may_fail K p (length x)"
  show ?thesis
  proof (rule outcome_fail)
    show "and_then r f = Some (False, p')" using a by (simp add: and_then_def)
    show "released p p'" "pr_noalloc p \<Longrightarrow> kept_tail p p'" by (rule a(2), rule a(3))
    show "may_fail K p (length z)" if "T = Some z" for z
      using T(2) [OF that] a(4) by (auto simp: may_fail_def)
  qed
next
  fix p' x assume a: "r = Some (True, p')" "T1 = Some x" "advanced p x p' \<and> D p'"
  then have run: "and_then r f = f p'" by (simp add: and_then_def)
  from f [of x p'] a(3) have "outcome K p' T2 (Q p') (f p')" by simp
  then show ?thesis
  proof (rule outcomeE)
    fix p'' y assume "f p' = Some (True, p'')" "T2 = Some y" "Q p' y p''"
    then show ?thesis using a T(1) Q unfolding run by (intro outcome_ok) auto
  next
    fix p'' assume c: "f p' = Some (False, p'')" "released p' p''" "pr_noalloc p' \<Longrightarrow> kept_tail p' p''"
      "\<And>y. T2 = Some y \<Longrightarrow> may_fail K p' (length y)"
    have w: "wrote p x p'" "pr_noalloc p' = pr_noalloc p" "others p' = others p" using a(3) by (auto simp: advanced_def wrote_def)
    show ?thesis unfolding run
    proof (rule outcome_fail [OF c(1)])
      show "released p p''" by (rule released_then [OF w(3) c(2)])
      show "kept_tail p p''" if "pr_noalloc p" using kept_tail_then [OF w(1) that] c(3) that w(2) by simp
      show "may_fail K p (length z)" if "T = Some z" for z
        using T(2) [OF that] c(4) a(2,3) by (auto simp: may_fail_def advanced_def wrote_def)
    qed
  qed
qed

text \<open>Room is there, or made, or there is none.\<close>

lemma ensure_cases:
  assumes K: "blocks_ok K" and p: "block p = Some blk" "pr_offset p < pr_length p" "pr_length p \<le> length blk"
  shows "(\<exists>p'. ensure K needed p = Some (None, p') \<and> released p p' \<and> (pr_noalloc p \<longrightarrow> p' = p) \<and> (needed \<le> n + 3 \<longrightarrow> may_fail K p n))
    \<or> (\<exists>p' blk'. ensure K needed p = Some (Some (pr_offset p), p') \<and> block p' = Some blk' \<and> others p' = others p
        \<and> take (pr_offset p + 1) blk' = take (pr_offset p + 1) blk \<and> pr_offset p + needed < pr_length p' \<and> pr_length p' \<le> length blk'
        \<and> pr_offset p' = pr_offset p \<and> pr_depth p' = pr_depth p \<and> pr_format p' = pr_format p \<and> pr_noalloc p' = pr_noalloc p
        \<and> (pr_noalloc p \<longrightarrow> p' = p))"
proof -
  define i where "i = pr_offset p"
  obtain a where a: "pr_buffer p = Some a" "pr_heap p a = Some blk" "pr_heap p = (others p)(a \<mapsto> blk)" using blockD [OF p(1)] by blast
  have oa: "others p a = None" by (rule others_buffer [OF a(1)])
  have grow: "(\<exists>p'. grow K m a p = Some (None, p') \<and> released p p' \<and> \<not> (never_full K \<and> finite (dom (others p))))
    \<or> (\<exists>p' blk'. grow K m a p = Some (Some i, p') \<and> block p' = Some blk' \<and> others p' = others p
        \<and> take (i + 1) blk' = take (i + 1) blk \<and> length blk' = m \<and> pr_length p' = m
        \<and> pr_offset p' = pr_offset p \<and> pr_depth p' = pr_depth p \<and> pr_format p' = pr_format p \<and> pr_noalloc p' = pr_noalloc p)"
    if m: "i + 1 \<le> m" for m
  proof (cases "ph_alloc K m (pr_heap p)")
    case None
    have "dom (pr_heap p) = insert a (dom (others p))" using a(3) by (metis dom_fun_upd option.distinct(1))
    then have "\<not> (never_full K \<and> finite (dom (others p)))" using None unfolding never_full_def by (metis finite_insert)
    moreover have "h_free (pr_heap p) a = Some (others p)" using a(1,2) by (simp add: h_free_def others_def)
    ultimately show ?thesis using None by (auto simp: grow_def released_def others_def)
  next
    case (Some r)
    obtain b new where r: "r = (b, new)" by (cases r)
    then have f: "length new = m" "pr_heap p b = None" using K Some by (auto simp: blocks_ok_def)
    then have ba: "b \<noteq> a" using a(2) by auto
    define old where "old = (if ph_realloc K then take m blk else take (i + 1) blk)"
    have o: "(if ph_realloc K then Some (take m blk) else mem_read blk 0 (pr_offset p + 1)) = Some old"
      using p(2,3) by (simp add: old_def mem_read_def i_def)
    have ol: "length old \<le> m" "take (i + 1) old = take (i + 1) blk" "i + 1 \<le> length old"
      using m p(2,3) by (auto simp: old_def i_def min_def)
    define new' where "new' = old @ drop (length old) new"
    have w: "mem_write new 0 old = Some new'" using ol(1) f(1) by (simp add: mem_write_def new'_def)
    have n': "length new' = m" "take (i + 1) new' = take (i + 1) blk" using ol f(1) by (simp_all add: new'_def)
    have h: "h_free ((pr_heap p)(b \<mapsto> new')) a = Some ((others p)(b \<mapsto> new'))"
      using a(1,2) ba by (simp add: h_free_def others_def fun_upd_twist)
    have ob: "others p b = None" using f(2) a(3) ba by (metis fun_upd_apply)
    show ?thesis using Some r a(2) o w h n' ob
      by (intro disjI2 exI [of _ "p\<lparr>pr_heap := (others p)(b \<mapsto> new'), pr_length := m, pr_buffer := Some b\<rparr>"] exI [of _ new'])
        (simp add: grow_def i_def block_def others_def fun_upd_idem)
  qed
  show ?thesis
  proof (cases "INT_MAX < needed \<or> (\<not> needed + (i + 1) \<le> pr_length p \<and> (pr_noalloc p \<or> INT_MAX < needed + (i + 1)))")
    case True
    then have "ensure K needed p = Some (None, p)" "released p p" using p a(1) by (auto simp: ensure_def i_def Let_def INT_MAX_def released_def)
    moreover have "needed \<le> n + 3 \<longrightarrow> may_fail K p n" using True p by (auto simp: may_fail_def i_def)
    ultimately show ?thesis by blast
  next
    case ok: False
    show ?thesis
    proof (cases "needed + (i + 1) \<le> pr_length p")
      case True
      then have "ensure K needed p = Some (Some i, p)" using p a(1) ok by (simp add: ensure_def i_def)
      with True p show ?thesis by (auto simp: i_def)
    next
      case False
      define m where "m = (if INT_MAX div 2 < needed + (i + 1) then INT_MAX else (needed + (i + 1)) * 2)"
      have run: "ensure K needed p = grow K m a p"
        using p a(1) ok False by (simp add: ensure_def i_def m_def Let_def)
      have m: "i + 1 + needed \<le> m" using ok False by (auto simp: m_def)
      have na: "\<not> pr_noalloc p" using ok False by simp
      have "i + 1 \<le> m" using m by simp
      from grow [OF this] show ?thesis
      proof (elim disjE exE conjE)
        fix p' assume g: "grow K m a p = Some (None, p')" "released p p'" "\<not> (never_full K \<and> finite (dom (others p)))"
        show ?thesis by (rule disjI1, rule exI [of _ p']) (use g na run in \<open>simp add: may_fail_def\<close>)
      next
        fix p' blk' assume g: "grow K m a p = Some (Some i, p')" "block p' = Some blk'" "others p' = others p"
          "take (i + 1) blk' = take (i + 1) blk" "length blk' = m" "pr_length p' = m" "pr_offset p' = pr_offset p" "pr_depth p' = pr_depth p"
          "pr_format p' = pr_format p" "pr_noalloc p' = pr_noalloc p"
        show ?thesis
          by (rule disjI2, rule exI [of _ p'], rule exI [of _ blk']) (use g na run m in \<open>simp add: i_def\<close>)
      qed
    qed
  qed
qed

text \<open>The basic step.\<close>

lemma put_block:
  assumes "block p = Some blk" "i + length bs \<le> length blk"
  shows "put i bs p = Some (set_block (take i blk @ bs @ drop (i + length bs) blk) p)"
  using blockD [OF assms(1)] assms(2) by (auto simp: put_def mem_write_def set_block_def)

lemma ensure_put_outcome:
  assumes K: "blocks_ok K" and p: "writable p" and s: "length bs \<le> needed + 1" "length x \<le> needed" "needed \<le> length x + 3"
    "take (length x) bs = x" "length x \<le> length bs"
  shows "outcome K p (Some x) (\<lambda>y p'. y = x \<and> (\<exists>blk. block p' = Some blk \<and> take (length bs) (drop (pr_offset p) blk) = bs)
      \<and> wrote p x p' \<and> pr_offset p' = pr_offset p + n \<and> pr_depth p' = pr_depth p) (ensure_put K needed bs n p)"
proof -
  obtain blk where b: "block p = Some blk" "pr_offset p < pr_length p" "pr_length p \<le> length blk" using p by (auto simp: writable_def)
  define i where "i = pr_offset p"
  from ensure_cases [OF K b, of needed "length x"] show ?thesis
  proof (elim disjE exE conjE)
    fix p' assume "ensure K needed p = Some (None, p')" "released p p'" "pr_noalloc p \<longrightarrow> p' = p"
      "needed \<le> length x + 3 \<longrightarrow> may_fail K p (length x)"
    then show ?thesis using s kept_tail_refl [OF p] by (intro outcome_fail [of _ p']) (auto simp: ensure_put_def)
  next
    fix p' blk' assume e: "ensure K needed p = Some (Some (pr_offset p), p')" "block p' = Some blk'" "others p' = others p"
      "take (pr_offset p + 1) blk' = take (pr_offset p + 1) blk" "pr_offset p + needed < pr_length p'" "pr_length p' \<le> length blk'"
      "pr_offset p' = pr_offset p" "pr_depth p' = pr_depth p" "pr_format p' = pr_format p" "pr_noalloc p' = pr_noalloc p"
      and keep: "pr_noalloc p \<longrightarrow> p' = p"
    define w where "w = take i blk' @ bs @ drop (i + length bs) blk'"
    have il: "i \<le> length blk'" "i + length bs \<le> pr_length p'" using e(5,6) s(1) by (simp_all add: i_def)
    have run: "ensure_put K needed bs n p = Some (True, (set_block w p')\<lparr>pr_offset := i + n\<rparr>)"
      using e(1,7) put_block [OF e(2), of i bs] il e(6) by (simp add: ensure_put_def w_def i_def)
    have ti: "take i blk' = take i blk" using arg_cong [OF e(4), of "take i"] by (simp add: i_def min_def)
    have "take (length x) (drop i w) = x" using s(4,5) il by (simp add: w_def)
    moreover have "i \<le> length blk" using b(2,3) by (simp add: i_def)
    then have "take i w = take i blk" using ti il by (simp add: w_def min_def)
    moreover have "i + length x < pr_length p'" using s e(5) by (simp add: i_def)
    moreover have "take (length bs) (drop i w) = bs" using il by (simp add: w_def)
    moreover have lw: "length w = length blk'" using il e(6) by (simp add: w_def)
    moreover have "pr_buffer p' = pr_buffer p \<and> pr_length p' = pr_length p \<and> length w = length blk \<and> drop (pr_length p) w = drop (pr_length p) blk"
      if "pr_noalloc p"
    proof -
      have "p' = p" "blk' = blk" using keep that e(2) b(1) by auto
      then show ?thesis using lw il by (simp add: w_def)
    qed
    ultimately show ?thesis using b e
      by (intro outcome_ok [OF run refl]) (simp add: wrote_def i_def block_set [OF e(2)])
  qed
qed

lemma put_advanced:
  assumes K: "blocks_ok K" "writable p" and s: "length bs \<le> needed + 1" "length x \<le> needed" "needed \<le> length x + 3" "take (length x) bs = x"
    "length x \<le> length bs"
  shows "outcome K p (Some x) (\<lambda>y p'. advanced p y p' \<and> pr_depth p' = pr_depth p) (ensure_put K needed bs (length x) p)"
  by (rule outcome_mono [OF ensure_put_outcome [OF K s]]) (auto simp: advanced_def)

lemma put_pending:
  assumes K: "blocks_ok K" "writable p" and x: "n \<le> length x" "length x + 1 \<le> needed" "needed \<le> length x + 3"
  shows "outcome K p (Some x) (\<lambda>y p'. pending p y p' \<and> pr_depth p' = pr_depth p) (ensure_put K needed (x @ [CHR 0x00]) n p)"
proof (rule outcome_mono [OF ensure_put_outcome [OF K]])
  fix y p'
  assume a: "y = x \<and> (\<exists>blk. block p' = Some blk \<and> take (length (x @ [CHR 0x00])) (drop (pr_offset p) blk) = x @ [CHR 0x00])
      \<and> wrote p x p' \<and> pr_offset p' = pr_offset p + n \<and> pr_depth p' = pr_depth p"
  then obtain blk where b: "block p' = Some blk" "take (length x + 1) (drop (pr_offset p) blk) = x @ [CHR 0x00]" by auto
  then have "take (length x + 1) (drop (pr_offset p) blk) ! length x = CHR 0x00" by simp
  moreover have "pr_offset p + length x < length blk" using a b(1) by (auto simp: wrote_def)
  ultimately have "blk ! (pr_offset p + length x) = CHR 0x00" by (simp add: nth_take)
  then show "pending p y p' \<and> pr_depth p' = pr_depth p" using a b(1) x by (auto simp: pending_def)
qed (use x in simp_all)

section \<open>Strings\<close>

lemma escape_length: "length (concat (map escape_char s)) = length s + escape_characters s"
proof (induction s)
  case (Cons c s)
  have "length (escape_char c) = 1 + (if short_escape c \<noteq> None then 1 else if code c < 32 then 5 else 0)"
    by (auto simp: escape_char_def short_escape_def u_escape_def)
  with Cons show ?case by (simp add: escape_characters_def)
qed (simp add: escape_characters_def)

lemma escape_none: "escape_characters s = 0 \<Longrightarrow> concat (map escape_char s) = s"
proof (induction s)
  case (Cons c s)
  then have "escape_characters s = 0" and c: "short_escape c = None" "\<not> code c < 32"
    by (auto simp: escape_characters_def split: if_splits)
  moreover have "escape_char c = [c]" using c by (auto simp: escape_char_def short_escape_def split: if_splits)
  ultimately show ?case using Cons by simp
qed simp

lemma escape_loop_run:
  assumes "block p = Some blk" "i + length (concat (map escape_char s)) < length blk"
  shows "\<exists>blk'. escape_loop s i p = Some (set_block blk' p) \<and> length blk' = length blk
    \<and> take (i + length (concat (map escape_char s))) blk' = take i blk @ concat (map escape_char s)
    \<and> drop (i + length (concat (map escape_char s)) + 1) blk' = drop (i + length (concat (map escape_char s)) + 1) blk"
  using assms
proof (induction s arbitrary: p blk i)
  case Nil
  then have "set_block blk p = p" using blockD [OF Nil(1)] by (auto simp: set_block_def fun_upd_idem)
  then show ?case by (intro exI [of _ blk]) simp
next
  case (Cons c s)
  define e where "e = escape_char c"
  define r where "r = concat (map escape_char s)"
  define z where "z = (if length e = 6 then [CHR 0x00] else [])"
  have l: "i + length e + length r < length blk" using Cons.prems(2) by (simp add: e_def r_def)
  have lz: "i + length (e @ z) \<le> length blk" "length z \<le> 1" using l by (simp_all add: z_def)
  define blk1 where "blk1 = take i blk @ (e @ z) @ drop (i + length (e @ z)) blk"
  have l1: "length blk1 = length blk" using lz by (simp add: blk1_def)
  have t1: "take (i + length e) blk1 = take i blk @ e" using lz by (simp add: blk1_def)
  have b1: "block (set_block blk1 p) = Some blk1" by (rule block_set [OF Cons.prems(1)])
  obtain blk' where b: "escape_loop s (i + length e) (set_block blk1 p) = Some (set_block blk' p)"
    "length blk' = length blk1" "take (i + length e + length r) blk' = take (i + length e) blk1 @ r"
    "drop (i + length e + length r + 1) blk' = drop (i + length e + length r + 1) blk1"
    using Cons.IH [OF b1, of "i + length e"] l l1 by (auto simp: r_def)
  have "escape_loop (c # s) i p = Some (set_block blk' p)"
    using b(1) put_block [OF Cons.prems(1) lz(1)] by (simp add: e_def [symmetric] z_def [symmetric] blk1_def del: append_assoc)
  moreover have "take (i + length (concat (map escape_char (c # s)))) blk' = take i blk @ concat (map escape_char (c # s))"
    using b(3) t1 by (simp add: e_def r_def add.assoc)
  moreover have "drop (i + length e + length r + 1) blk1 = drop (i + length e + length r + 1) blk"
    using lz by (simp add: blk1_def ac_simps)
  then have "drop (i + length (concat (map escape_char (c # s))) + 1) blk' = drop (i + length (concat (map escape_char (c # s))) + 1) blk"
    using b(4) by (simp add: e_def r_def add.assoc)
  ultimately show ?case using b(2) l1 by auto
qed

lemma quoted_length: "length (quoted (Some s)) = length s + escape_characters s + 2"
  by (simp add: quoted_def escape_length)

lemma print_string_outcome:
  assumes K: "blocks_ok K" "writable p"
  shows "outcome K p (Some (quoted s)) (\<lambda>y p'. pending p y p' \<and> pr_depth p' = pr_depth p) (print_string_ptr K s p)"
proof (cases s)
  case None
  have "print_string_ptr K s p = ensure_put K 3 (quoted s @ [CHR 0x00]) 0 p"
    by (simp add: print_string_ptr_def None quoted_def)
  then show ?thesis using put_pending [OF K, of 0 "quoted s" 3] by (simp add: None quoted_def)
next
  case (Some t)
  define i where "i = pr_offset p"
  define E where "E = concat (map escape_char t)"
  have lE: "length t + escape_characters t = length E" by (simp add: E_def escape_length)
  have q: "quoted s = CHR 0x22 # E @ [CHR 0x22]" by (simp add: Some quoted_def E_def)
  obtain blk where b: "block p = Some blk" "pr_offset p < pr_length p" "pr_length p \<le> length blk" using K(2) by (auto simp: writable_def)
  from ensure_cases [OF K(1) b, of "length E + 3" "length (quoted s)"] show ?thesis
  proof (elim disjE exE conjE)
    fix p' assume "ensure K (length E + 3) p = Some (None, p')" "released p p'" "pr_noalloc p \<longrightarrow> p' = p"
      "length E + 3 \<le> length (quoted s) + 3 \<longrightarrow> may_fail K p (length (quoted s))"
    then show ?thesis using kept_tail_refl [OF K(2)]
      by (intro outcome_fail [of _ p']) (auto simp: print_string_ptr_def Some lE quoted_length)
  next
    fix p' blk' assume e: "ensure K (length E + 3) p = Some (Some (pr_offset p), p')" "block p' = Some blk'" "others p' = others p"
      "take (pr_offset p + 1) blk' = take (pr_offset p + 1) blk" "pr_offset p + (length E + 3) < pr_length p'" "pr_length p' \<le> length blk'"
      "pr_offset p' = pr_offset p" "pr_depth p' = pr_depth p" "pr_format p' = pr_format p" "pr_noalloc p' = pr_noalloc p"
      and keep: "pr_noalloc p \<longrightarrow> p' = p"
    have l: "i + length E + 3 < length blk'" "i + length E + 3 < pr_length p'" using e(5,6) by (simp_all add: i_def)
    have ti: "take i blk' = take i blk" using arg_cong [OF e(4), of "take i"] by (simp add: i_def min_def)
    define b1 where "b1 = take i blk' @ [CHR 0x22] @ drop (i + 1) blk'"
    have b1: "length b1 = length blk'" "take (i + 1) b1 = take i blk' @ [CHR 0x22]" "drop (i + length E + 3) b1 = drop (i + length E + 3) blk'"
      using l by (simp_all add: b1_def drop_Cons' eval_nat_numeral ac_simps)
    have p1: "put i [CHR 0x22] p' = Some (set_block b1 p')" using put_block [OF e(2), of i "[CHR 0x22]"] l by (simp add: b1_def)
    have k1: "block (set_block b1 p') = Some b1" by (rule block_set [OF e(2)])
    obtain b2 where b2: "length b2 = length blk'" "take (i + 1 + length E) b2 = take (i + 1) b1 @ E"
        "drop (i + 1 + length E + 1) b2 = drop (i + 1 + length E + 1) b1"
      and p2: "(if escape_characters t = 0 then put (i + 1) t (set_block b1 p')
          else escape_loop t (i + 1) (set_block b1 p')) = Some (set_block b2 p')"
    proof (cases "escape_characters t = 0")
      case True
      then have "E = t" using escape_none by (simp add: E_def)
      then show ?thesis using that [of "take (i + 1) b1 @ E @ drop (i + 1 + length E) b1"] True l b1(1)
          put_block [OF k1, of "i + 1" E] by simp
    next
      case False
      then show ?thesis using that escape_loop_run [OF k1, of "i + 1" t] l b1(1) by (auto simp: E_def)
    qed
    define w where "w = take (i + length E + 1) b2 @ [CHR 0x22, CHR 0x00] @ drop (i + length E + 1 + 2) b2"
    have p3: "put (i + length E + 1) [CHR 0x22, CHR 0x00] (set_block b2 p') = Some (set_block w p')"
      using put_block [OF block_set [OF e(2)], of "i + length E + 1" "[CHR 0x22, CHR 0x00]" b2] l b2(1) by (simp add: w_def)
    have run: "print_string_ptr K s p = Some (True, set_block w p')"
      using e(1) p1 p2 p3 unfolding print_string_ptr_def Some option.case lE Let_def
      by (cases "escape_characters t = 0") (simp_all add: i_def)
    have "take (i + length E + 1) b2 = take i blk @ CHR 0x22 # E" using b2(2) b1(2) ti by (simp add: add.commute add.left_commute)
    then have w: "w = take i blk @ quoted s @ CHR 0x00 # drop (i + length E + 1 + 2) b2" by (simp add: w_def q)
    have li: "length (take i blk) = i" using b(2,3) by (simp add: i_def)
    have lw: "length w = length blk'" using l b2(1) by (simp add: w_def)
    have "drop (i + length E + 3) w = drop (i + length E + 3) b2" using l b2(1) by (simp add: w_def eval_nat_numeral)
    then have tail: "drop (i + length E + 3) w = drop (i + length E + 3) blk'"
      using arg_cong [OF b2(3), of "drop 1"] b1(3) by (simp add: eval_nat_numeral ac_simps)
    have "pr_buffer p' = pr_buffer p \<and> pr_length p' = pr_length p \<and> length w = length blk \<and> drop (pr_length p) w = drop (pr_length p) blk"
      if "pr_noalloc p"
    proof -
      have k: "p' = p" "blk' = blk" using keep that e(2) b(1) by auto
      then obtain j where "pr_length p = (i + length E + 3) + j" using l(2) less_imp_Suc_add by (metis add.assoc add_Suc_right)
      then have "drop (pr_length p) w = drop (pr_length p) blk" using arg_cong [OF tail, of "drop j"] k by (simp add: add.commute)
      then show ?thesis using k lw by simp
    qed
    then have "wrote p (quoted s) (set_block w p')"
      unfolding wrote_def using b li e l lw by (auto simp: w i_def q block_set [OF e(2)])
    moreover have "w ! (i + length (quoted s)) = CHR 0x00" using li by (simp add: w nth_append)
    ultimately show ?thesis using e(7,8) by (intro outcome_ok [OF run refl]) (simp add: pending_def i_def block_set [OF e(2)])
  qed
qed

section \<open>Composing the steps\<close>

text \<open>A step that leaves the offset behind its text, or before the final zero byte, and the depth \<open>k\<close>.\<close>

definition step_to :: "phooks \<Rightarrow> printbuffer \<Rightarrow> string ptr \<Rightarrow> nat \<Rightarrow> (bool \<times> printbuffer) option \<Rightarrow> bool" where
  "step_to K p T k r \<longleftrightarrow> outcome K p T (\<lambda>x p'. advanced p x p' \<and> pr_depth p' = k) r"

definition last_to :: "phooks \<Rightarrow> printbuffer \<Rightarrow> string ptr \<Rightarrow> nat \<Rightarrow> (bool \<times> printbuffer) option \<Rightarrow> bool" where
  "last_to K p T k r \<longleftrightarrow> outcome K p T (\<lambda>x p'. pending p x p' \<and> pr_depth p' = k) r"

definition joined :: "string ptr \<Rightarrow> string ptr \<Rightarrow> string ptr" where
  "joined S T = do { x \<leftarrow> S; y \<leftarrow> T; Some (x @ y) }"

lemma joined_simps [simp]: "joined (Some x) (Some y) = Some (x @ y)" "joined None T = None" "joined S None = None"
  by (cases S; simp add: joined_def)+

lemma joined_Some: "joined S T = Some z \<longleftrightarrow> (\<exists>x y. S = Some x \<and> T = Some y \<and> z = x @ y)"
  by (cases S; cases T) auto

lemma advanced_format: "advanced p x p' \<Longrightarrow> writable p' \<and> pr_format p' = pr_format p \<and> others p' = others p"
  by (auto simp: advanced_def wrote_def writable_def)

lemma step_then:
  assumes "step_to K p T1 k r"
    and "\<And>p'. writable p' \<Longrightarrow> pr_format p' = pr_format p \<Longrightarrow> pr_depth p' = k \<Longrightarrow> others p' = others p \<Longrightarrow> step_to K p' T2 m (f p')"
  shows "step_to K p (joined T1 T2) m (and_then r f)"
  unfolding step_to_def
  by (rule outcome_then [where ?T1.0 = T1 and ?T2.0 = T2 and D = "\<lambda>p'. pr_depth p' = k"
        and Q = "\<lambda>p' x p''. advanced p' x p'' \<and> pr_depth p'' = m"])
    (use assms advanced_format advanced_append in \<open>auto simp: step_to_def joined_Some\<close>)

lemma last_then:
  assumes "step_to K p T1 k r"
    and "\<And>p'. writable p' \<Longrightarrow> pr_format p' = pr_format p \<Longrightarrow> pr_depth p' = k \<Longrightarrow> others p' = others p \<Longrightarrow> last_to K p' T2 m (f p')"
  shows "last_to K p (joined T1 T2) m (and_then r f)"
  unfolding last_to_def
  by (rule outcome_then [where ?T1.0 = T1 and ?T2.0 = T2 and D = "\<lambda>p'. pr_depth p' = k"
        and Q = "\<lambda>p' x p''. pending p' x p'' \<and> pr_depth p'' = m"])
    (use assms advanced_format pending_append in \<open>auto simp: step_to_def last_to_def joined_Some\<close>)

text \<open>Moving the offset behind the text.\<close>

lemma last_offset:
  assumes "last_to K p T k r" "\<And>x. T = Some x \<Longrightarrow> CHR 0x00 \<notin> set x"
  obtains r' where "step_to K p T k r'" "\<And>f. and_then r (\<lambda>p. update_offset p \<bind> f) = and_then r' f"
proof -
  define r' where "r' = and_then r (\<lambda>p. update_offset p \<bind> (\<lambda>p. Some (True, p)))"
  from assms(1) have "outcome K p T (\<lambda>x p'. pending p x p' \<and> pr_depth p' = k) r" by (simp add: last_to_def)
  then have "step_to K p T k r' \<and> (\<forall>f. and_then r (\<lambda>p. update_offset p \<bind> f) = and_then r' f)"
  proof (rule outcomeE)
    fix p' x assume a: "r = Some (True, p')" "T = Some x" "pending p x p' \<and> pr_depth p' = k"
    then obtain p'' where "update_offset p' = Some p''" "advanced p x p''" "pr_depth p'' = pr_depth p'"
      using update_offset_pending assms(2) by blast
    with a show ?thesis by (auto simp: r'_def and_then_def step_to_def outcome_def)
  next
    fix p' assume a: "r = Some (False, p')" "released p p'" "pr_noalloc p \<Longrightarrow> kept_tail p p'" "\<And>x. T = Some x \<Longrightarrow> may_fail K p (length x)"
    then show ?thesis by (auto simp: r'_def and_then_def step_to_def outcome_def)
  qed
  with that show ?thesis by blast
qed

lemma step_ret: "writable p \<Longrightarrow> step_to K p (Some []) (pr_depth p) (Some (True, p))"
  unfolding step_to_def by (rule outcome_ok) (auto simp: advanced_refl)

lemma step_put:
  assumes "blocks_ok K" "writable p" "length bs \<le> needed + 1" "length x \<le> needed" "needed \<le> length x + 3"
    "take (length x) bs = x" "length x \<le> length bs"
  shows "step_to K p (Some x) (pr_depth p) (ensure_put K needed bs (length x) p)"
  using put_advanced [OF assms] by (simp add: step_to_def)

lemma last_put:
  assumes "blocks_ok K" "writable p" "n \<le> length x" "length x + 1 \<le> needed" "needed \<le> length x + 3"
  shows "last_to K p (Some x) (pr_depth p) (ensure_put K needed (x @ [CHR 0x00]) n p)"
  using put_pending [OF assms] by (simp add: last_to_def)

lemma last_fail: "T = None \<Longrightarrow> writable p \<Longrightarrow> last_to K p T k (Some (False, p))"
  unfolding last_to_def by (rule outcome_fail) (auto intro: kept_tail_refl released_refl)

lemma step_depth:
  "step_to K p T k r \<Longrightarrow> step_to K p T (k + 1) (r \<bind> (\<lambda>(ok, p). Some (ok, if ok then p\<lparr>pr_depth := pr_depth p + 1\<rparr> else p)))"
  by (auto simp: step_to_def outcome_def advanced_def wrote_def split: if_splits)

lemma last_depth:
  "last_to K p T k r \<Longrightarrow> last_to K p T (k - 1) (r \<bind> (\<lambda>(ok, p). Some (ok, if ok then p\<lparr>pr_depth := pr_depth p - 1\<rparr> else p)))"
  by (auto simp: last_to_def outcome_def pending_def wrote_def split: if_splits)

lemma open_array_step: "blocks_ok K \<Longrightarrow> writable p \<Longrightarrow> step_to K p (Some ''['') (pr_depth p + 1) (open_array K p)"
  unfolding open_array_def using step_depth [OF step_put [of K p "''[''" 1 "''[''"]] by simp

lemma close_array_last: "blocks_ok K \<Longrightarrow> writable p \<Longrightarrow> last_to K p (Some '']'') (pr_depth p - 1) (close_array K p)"
  unfolding close_array_def using last_depth [OF last_put [of K p 0 "'']''" 2]] by simp

lemma array_comma_step:
  "blocks_ok K \<Longrightarrow> writable p \<Longrightarrow> step_to K p (Some (if pr_format p then '', '' else '','')) (pr_depth p) (array_comma K p)"
  unfolding array_comma_def Let_def by (rule step_put) simp_all

lemma open_object_step:
  "blocks_ok K \<Longrightarrow> writable p \<Longrightarrow> step_to K p (Some (''{'' @ newline (pr_format p))) (pr_depth p + 1) (open_object K p)"
  unfolding open_object_def Let_def
  using step_depth [OF step_put [of K p "''{'' @ newline (pr_format p)" "length (''{'' @ newline (pr_format p)) + 1" "''{'' @ newline (pr_format p)"]]
  by (cases "pr_format p") (simp_all add: newline_def)

lemma member_indent_step:
  "blocks_ok K \<Longrightarrow> writable p \<Longrightarrow> step_to K p (Some (tabs (pr_format p) (pr_depth p))) (pr_depth p) (member_indent K p)"
  using step_put [of K p "tabs True (pr_depth p)" "pr_depth p" "tabs True (pr_depth p)"] step_ret [of p K]
  by (cases "pr_format p") (simp_all add: member_indent_def tabs_def)

lemma member_colon_step:
  "blocks_ok K \<Longrightarrow> writable p \<Longrightarrow> step_to K p (Some ('':'' @ tabs (pr_format p) 1)) (pr_depth p) (member_colon K p)"
  using step_put [of K p "'':'' @ tabs (pr_format p) 1" "length ('':'' @ tabs (pr_format p) 1)" "'':'' @ tabs (pr_format p) 1"]
  by (cases "pr_format p") (simp_all add: member_colon_def tabs_def)

lemma member_end_step:
  "blocks_ok K \<Longrightarrow> writable p \<Longrightarrow>
   step_to K p (Some ((if b then '','' else '''') @ newline (pr_format p))) (pr_depth p) (member_end K b p)"
  unfolding member_end_def Let_def newline_def by (rule step_put) simp_all

lemma close_object_last:
  assumes "blocks_ok K" "writable p" "0 < pr_depth p"
  shows "last_to K p (Some (tabs (pr_format p) (pr_depth p - 1) @ ''}'')) (pr_depth p - 1) (close_object K p)"
proof (cases "pr_format p")
  case True
  define x where "x = replicate (pr_depth p - 1) (CHR 0x09) @ ''}''"
  have "last_to K p (Some x) (pr_depth p) (ensure_put K (pr_depth p + 1) (x @ [CHR 0x00]) 0 p)"
    using last_put [OF assms(1,2), of 0 x "pr_depth p + 1"] assms(3) by (simp add: x_def)
  from last_depth [OF this] show ?thesis using True by (simp add: close_object_def x_def tabs_def)
next
  case False
  show ?thesis using last_depth [OF last_put [OF assms(1,2), of 0 "''}''" 2]] False by (simp add: close_object_def tabs_def)
qed

section \<open>No zero bytes\<close>

definition clean :: "string \<Rightarrow> bool" where
  "clean s \<longleftrightarrow> CHR 0x00 \<notin> set s"

lemma clean_simps [simp]: "clean []" "clean (x @ y) \<longleftrightarrow> clean x \<and> clean y" "clean (c # x) \<longleftrightarrow> c \<noteq> CHR 0x00 \<and> clean x"
  by (auto simp: clean_def)

lemma clean_sub: "set x \<subseteq> set y \<Longrightarrow> clean y \<Longrightarrow> clean x"
  by (auto simp: clean_def)

lemma hex_char_nonzero: "n < 16 \<Longrightarrow> hex_char n \<noteq> CHR 0x00"
proof -
  assume "n < 16"
  then have "code (hex_char n) \<noteq> 0" by (auto simp: hex_char_def take_bit_nat_eq_self_iff)
  then show ?thesis by auto
qed

lemma escape_clean: "clean (escape_char c)"
proof -
  have "code c < 256" by simp
  then have "code c div 16 < 16" "code c mod 16 < 16" by (rule less_mult_imp_div_less [of _ 16 16, simplified]) simp
  then show ?thesis using hex_char_nonzero
    by (auto simp: escape_char_def short_escape_def u_escape_def)
qed

lemma quoted_clean [simp]: "clean (quoted s)"
  using escape_clean by (auto simp: quoted_def clean_def)

lemma digits_clean [simp]: "clean (nat_digits n)"
proof -
  have "\<not> is_digit (CHR 0x00)" by (simp add: is_digit_def)
  then show ?thesis using nat_digits_all by (auto simp: clean_def)
qed

lemma strip_clean: "clean s \<Longrightarrow> clean (strip_zeros s)"
  by (rule clean_sub) (auto simp: strip_zeros_def dest: set_dropWhileD)

lemma fraction_clean: "clean a \<Longrightarrow> clean b \<Longrightarrow> clean (with_fraction a b)"
  using strip_clean by (simp add: with_fraction_def Let_def)

lemma take_clean: "clean s \<Longrightarrow> clean (take n s)" "clean s \<Longrightarrow> clean (drop n s)"
  by (auto simp: clean_def dest: in_set_takeD in_set_dropD)

lemma format_g_clean: "clean (format_g p d)"
proof -
  have "clean (replicate n (CHR ''0''))" for n by (simp add: clean_def)
  then show ?thesis
    by (cases d) (auto simp: format_finite_def Let_def exponent_digits_def fraction_clean take_clean split: prod.split)
qed

lemma number_clean: "clean (number_buffer d)"
  by (simp add: number_buffer_def Let_def format_g_clean split: prod.split)

lemma layout_clean [simp]: "clean (tabs f n)" "clean (newline f)"
  by (simp_all add: tabs_def newline_def clean_def)

fun clean_texts :: "jval list \<Rightarrow> bool" where
  "clean_texts [] = True"
| "clean_texts (JVal t s i d nm kids # vs) \<longleftrightarrow> (\<forall>x. s = Some x \<longrightarrow> clean x) \<and> clean_texts kids \<and> clean_texts vs"

lemma text_value_cases:
  assumes "text_value f n (JVal t s i d nm kids) = Some x"
  shows "x \<in> {''null'', ''false'', ''true'', number_buffer d, quoted s} \<or> s = Some x
    \<or> (\<exists>y. text_elements f (n + 1) kids = Some y \<and> x = ''['' @ y @ '']'')
    \<or> (\<exists>y. text_members f (n + 1) kids = Some y \<and> x = ''{'' @ newline f @ y @ tabs f n @ ''}'')"
  using assms by (simp add: Let_def split: if_splits) auto

lemma text_clean:
  "clean_texts vs \<Longrightarrow> (\<forall>f n x. text_elements f n vs = Some x \<or> text_members f n vs = Some x \<longrightarrow> clean x)
     \<and> (\<forall>f n x v. v \<in> set vs \<longrightarrow> text_value f n v = Some x \<longrightarrow> clean x)"
proof (induction vs rule: clean_texts.induct)
  case (2 t s i d nm kids vs)
  have k: "clean y" if "text_elements f n kids = Some y \<or> text_members f n kids = Some y" for f n y
    using that 2 by auto
  have v: "clean x" if "text_value f n (JVal t s i d nm kids) = Some x" for f n x
    using text_value_cases [OF that] 2(3) by (elim disjE exE conjE insertE emptyE) (auto simp: number_clean dest: k [OF disjI1] k [OF disjI2])
  have vs: "clean y" if "text_elements f n vs = Some y \<or> text_members f n vs = Some y" for f n y
    using that 2 by auto
  have ws: "clean x" if "v \<in> set vs" "text_value f n v = Some x" for f n x v
    using that 2 by auto
  have "clean x" if "text_elements f n (JVal t s i d nm kids # vs) = Some x \<or> text_members f n (JVal t s i d nm kids # vs) = Some x" for f n x
    using that
  proof
    assume "text_elements f n (JVal t s i d nm kids # vs) = Some x"
    then obtain y z where yz: "text_value f n (JVal t s i d nm kids) = Some y" "text_elements f n vs = Some z"
      "x = y @ (if vs = [] then [] else if f then '', '' else '','') @ z" by (auto simp: bind_eq_Some_conv simp del: text_value.simps)
    moreover have "clean y" "clean z" using v [OF yz(1)] vs yz(2) by blast+
    ultimately show ?thesis by simp
  next
    assume "text_members f n (JVal t s i d nm kids # vs) = Some x"
    then obtain y z where yz: "text_value f n (JVal t s i d nm kids) = Some y" "text_members f n vs = Some z"
      "x = tabs f n @ quoted nm @ '':'' @ tabs f 1 @ y @ (if vs = [] then [] else '','') @ newline f @ z"
      by (auto simp: bind_eq_Some_conv simp del: text_value.simps)
    moreover have "clean y" "clean z" using v [OF yz(1)] vs yz(2) by blast+
    ultimately show ?thesis by simp
  qed
  then show ?case using v ws by auto
qed simp

section \<open>The printer\<close>

text \<open>The strings of the trees are allocated.\<close>

definition readable :: "cheap \<Rightarrow> ltree list \<Rightarrow> bool" where
  "readable hp ts \<longleftrightarrow> set (strs ts) \<union> set (const_names ts) \<subseteq> dom (ch_strs hp)"

lemma readable_Cons:
  assumes "readable hp (LT a d cs # ts)"
  shows "readable hp cs" "readable hp ts" "read_str (cd_valuestring d) hp = Some (content (ch_strs hp) (cd_valuestring d))"
    "read_str (cd_string d) hp = Some (content (ch_strs hp) (cd_string d))"
proof -
  show "readable hp cs" "readable hp ts" using assms by (auto simp: readable_def)
  have "set (ptr_list (cd_valuestring d)) \<subseteq> dom (ch_strs hp)" "set (ptr_list (cd_string d)) \<subseteq> dom (ch_strs hp)"
    using assms by (auto simp: readable_def data_strs_def split: if_splits)
  then show "read_str (cd_valuestring d) hp = Some (content (ch_strs hp) (cd_valuestring d))"
    "read_str (cd_string d) hp = Some (content (ch_strs hp) (cd_string d))"
    by (cases "cd_valuestring d"; cases "cd_string d"; auto simp: read_str_def content_def)+
qed

lemma read_others:
  assumes p: "writable p" "others p = ch_strs hp" and r: "readable hp (LT a d cs # ts)"
  shows "read_str (cd_valuestring d) (hp\<lparr>ch_strs := pr_heap p\<rparr>) = Some (content (ch_strs hp) (cd_valuestring d))"
    "read_str (cd_string d) (hp\<lparr>ch_strs := pr_heap p\<rparr>) = Some (content (ch_strs hp) (cd_string d))"
proof -
  have "read_str q (hp\<lparr>ch_strs := pr_heap p\<rparr>) = v" if v: "read_str q hp = Some w" "v = Some w" for q v w
  proof (cases q)
    case (Some x)
    then obtain y where y: "ch_strs hp x = Some y" "w = Some y" using v(1) by (auto simp: read_str_def split: option.splits)
    obtain b where "block p = Some b" using p(1) by (auto simp: writable_def)
    then obtain c where c: "pr_buffer p = Some c" "pr_heap p = (ch_strs hp)(c \<mapsto> b)" using blockD p(2) by metis
    have "ch_strs hp c = None" using others_buffer [OF c(1)] p(2) by simp
    then have "c \<noteq> x" using y by auto
    then show ?thesis using y c(2) Some v(2) by (simp add: read_str_def)
  qed (use v in \<open>simp add: read_str_def\<close>)
  then show "read_str (cd_valuestring d) (hp\<lparr>ch_strs := pr_heap p\<rparr>) = Some (content (ch_strs hp) (cd_valuestring d))"
    "read_str (cd_string d) (hp\<lparr>ch_strs := pr_heap p\<rparr>) = Some (content (ch_strs hp) (cd_string d))"
    using readable_Cons(3,4) [OF r] by blast+
qed

lemma print_string_last: "blocks_ok K \<Longrightarrow> writable p \<Longrightarrow> last_to K p (Some (quoted s)) (pr_depth p) (print_string_ptr K s p)"
  unfolding last_to_def by (rule print_string_outcome)

lemma print_number_last:
  assumes "blocks_ok K" "writable p"
  shows "last_to K p (if 25 < length (number_buffer d) then None else Some (number_buffer d)) (pr_depth p) (print_number K d p)"
proof (cases "25 < length (number_buffer d)")
  case True
  then show ?thesis using last_fail [OF refl assms(2)] by (simp add: print_number_def)
next
  case False
  then show ?thesis using last_put [OF assms, of "length (number_buffer d)" "number_buffer d" "length (number_buffer d) + 1"]
    by (simp add: print_number_def Let_def)
qed

lemma print_literal_last: "blocks_ok K \<Longrightarrow> writable p \<Longrightarrow> last_to K p (Some x) (pr_depth p) (print_literal K x p)"
  unfolding print_literal_def by (rule last_put) simp_all

lemma print_raw_last: "blocks_ok K \<Longrightarrow> writable p \<Longrightarrow> last_to K p s (pr_depth p) (print_raw K s p)"
  using print_literal_last [of K p] by (cases s) (simp_all add: print_raw_def print_literal_def last_fail)

text \<open>Only the items of the heap the printer is called with matter; the strings are those around its block.\<close>

definition lists_printed :: "phooks \<Rightarrow> (addr \<rightharpoonup> string) \<Rightarrow> cheap \<Rightarrow> ltree list \<Rightarrow> addr ptr \<Rightarrow> bool" where
  "lists_printed K m hp ts q \<longleftrightarrow> (\<forall>p. writable p \<and> others p = ch_strs hp \<longrightarrow>
     step_to K p (text_elements (pr_format p) (pr_depth p) (jvalues (ch_strs hp) ts)) (pr_depth p) (print_run K (Elements q) p (hp\<lparr>ch_strs := m\<rparr>))
     \<and> (0 < pr_depth p \<longrightarrow>
        step_to K p (text_members (pr_format p) (pr_depth p) (jvalues (ch_strs hp) ts)) (pr_depth p) (print_run K (Members q) p (hp\<lparr>ch_strs := m\<rparr>))))"

lemma array_parts: "joined (Some ''['') (joined T (Some '']'')) = map_option (\<lambda>x. ''['' @ x @ '']'') T"
  by (cases T) simp_all

lemma object_parts:
  "joined (Some (''{'' @ newline f)) (joined T (Some (tabs f n @ ''}''))) = map_option (\<lambda>x. ''{'' @ newline f @ x @ tabs f n @ ''}'') T"
  by (cases T) simp_all

lemma value_printed:
  assumes K: "blocks_ok K" and p: "writable p" and o: "others p = ch_strs hp" and n: "ch_items hp a = Some n" "cj_data n = d"
    and r: "readable hp (LT a d cs # ts)" and kids: "lists_printed K m hp cs (cj_child n)"
  shows "last_to K p (text_value (pr_format p) (pr_depth p) (hd (jvalues (ch_strs hp) (LT a d cs # ts)))) (pr_depth p)
           (print_run K (Value a) p (hp\<lparr>ch_strs := m\<rparr>))"
proof -
  have arr: "last_to K p (map_option (\<lambda>x. ''['' @ x @ '']'') (text_elements (pr_format p) (pr_depth p + 1) (jvalues (ch_strs hp) cs)))
      (pr_depth p) (and_then (open_array K p) (\<lambda>p. and_then (print_run K (Elements (cj_child n)) p (hp\<lparr>ch_strs := m\<rparr>)) (close_array K)))"
    unfolding array_parts [symmetric]
  proof (rule last_then [OF open_array_step [OF K p]])
    fix p' assume p': "writable p'" "pr_format p' = pr_format p" "pr_depth p' = pr_depth p + 1" "others p' = others p"
    then have "step_to K p' (text_elements (pr_format p) (pr_depth p + 1) (jvalues (ch_strs hp) cs)) (pr_depth p')
        (print_run K (Elements (cj_child n)) p' (hp\<lparr>ch_strs := m\<rparr>))" using kids [unfolded lists_printed_def, rule_format, of p'] p' o by simp
    then show "last_to K p' (joined (text_elements (pr_format p) (pr_depth p + 1) (jvalues (ch_strs hp) cs)) (Some '']'')) (pr_depth p)
        (and_then (print_run K (Elements (cj_child n)) p' (hp\<lparr>ch_strs := m\<rparr>)) (close_array K))"
    proof (rule last_then)
      fix p'' assume p'': "writable p''" "pr_format p'' = pr_format p'" "pr_depth p'' = pr_depth p'" "others p'' = others p'"
      show "last_to K p'' (Some '']'') (pr_depth p) (close_array K p'')"
        using close_array_last [OF K p''(1)] p' p'' by simp
    qed
  qed
  have obj: "last_to K p (map_option (\<lambda>x. ''{'' @ newline (pr_format p) @ x @ tabs (pr_format p) (pr_depth p) @ ''}'')
        (text_members (pr_format p) (pr_depth p + 1) (jvalues (ch_strs hp) cs)))
      (pr_depth p) (and_then (open_object K p) (\<lambda>p. and_then (print_run K (Members (cj_child n)) p (hp\<lparr>ch_strs := m\<rparr>)) (close_object K)))"
    unfolding object_parts [symmetric]
  proof (rule last_then [OF open_object_step [OF K p]])
    fix p' assume p': "writable p'" "pr_format p' = pr_format p" "pr_depth p' = pr_depth p + 1" "others p' = others p"
    then have "step_to K p' (text_members (pr_format p) (pr_depth p + 1) (jvalues (ch_strs hp) cs)) (pr_depth p')
        (print_run K (Members (cj_child n)) p' (hp\<lparr>ch_strs := m\<rparr>))" using kids [unfolded lists_printed_def, rule_format, of p'] p' o by simp
    then show "last_to K p' (joined (text_members (pr_format p) (pr_depth p + 1) (jvalues (ch_strs hp) cs))
          (Some (tabs (pr_format p) (pr_depth p) @ ''}''))) (pr_depth p)
        (and_then (print_run K (Members (cj_child n)) p' (hp\<lparr>ch_strs := m\<rparr>)) (close_object K))"
    proof (rule last_then)
      fix p'' assume p'': "writable p''" "pr_format p'' = pr_format p'" "pr_depth p'' = pr_depth p'" "others p'' = others p'"
      show "last_to K p'' (Some (tabs (pr_format p) (pr_depth p) @ ''}'')) (pr_depth p) (close_object K p'')"
        using close_object_last [OF K p''(1)] p' p'' by simp
    qed
  qed
  show ?thesis
    using n arr obj print_literal_last [OF K p] print_number_last [OF K p] print_raw_last [OF K p] print_string_last [OF K p]
      read_others(1) [OF p o r] last_fail [OF _ p]
    by (subst print_run.simps) (simp add: Let_def)
qed

lemma elements_parts:
  "text_elements f n (v # vs) = joined (text_value f n v)
     (joined (Some (if vs = [] then [] else if f then '', '' else '','')) (text_elements f n vs))"
  by (simp add: joined_def)

lemma members_parts:
  "text_members f n (v # vs) = joined (Some (tabs f n)) (joined (Some (quoted (jv_name v))) (joined (Some ('':'' @ tabs f 1))
     (joined (text_value f n v) (joined (Some ((if vs = [] then [] else '','') @ newline f)) (text_members f n vs)))))"
  by (cases "text_value f n v"; cases "text_members f n vs") simp_all

lemma jvalues_Nil_iff: "jvalues m ts = [] \<longleftrightarrow> ts = []"
  by (induction ts rule: jvalues.induct) simp_all

lemma lists_printed_chain:
  assumes K: "blocks_ok K"
  shows "\<lbrakk>chain (ch_items hp) q prev ts; readable hp ts; clean_texts (jvalues (ch_strs hp) ts)\<rbrakk> \<Longrightarrow> lists_printed K m hp ts q"
proof (induction ts arbitrary: q prev rule: addrs.induct)
  case 1
  then have "q = None" by simp
  moreover have "print_run K (Elements None) p (hp\<lparr>ch_strs := m\<rparr>) = Some (True, p)" "print_run K (Members None) p (hp\<lparr>ch_strs := m\<rparr>) = Some (True, p)" for p
    by (subst print_run.simps, simp)+
  ultimately show ?case by (simp add: lists_printed_def step_ret)
next
  case (2 a d cs ts)
  obtain n where n: "q = Some a" "ch_items hp a = Some n" "cj_data n = d" "chain (ch_items hp) (cj_child n) None cs"
    "chain (ch_items hp) (cj_next n) (Some a) ts" using 2(3) by (auto split: option.splits)
  define v where "v = hd (jvalues (ch_strs hp) (LT a d cs # ts))"
  define vs where "vs = jvalues (ch_strs hp) ts"
  have vvs: "jvalues (ch_strs hp) (LT a d cs # ts) = v # vs" "jv_name v = content (ch_strs hp) (cd_string d)" by (simp_all add: v_def vs_def)
  have kids: "lists_printed K m hp cs (cj_child n)" using 2(1) [OF n(4)] readable_Cons(1) [OF 2(4)] 2(5) by simp
  have rest: "lists_printed K m hp ts (cj_next n)" using 2(2) [OF n(5)] readable_Cons(2) [OF 2(4)] 2(5) by simp
  have nxt: "cj_next n \<noteq> None \<longleftrightarrow> vs \<noteq> []"
    using n(5) by (cases "cj_next n") (auto simp: chain_Nil_iff vs_def jvalues_Nil_iff)
  have val: "last_to K p (text_value (pr_format p) (pr_depth p) v) (pr_depth p) (print_run K (Value a) p (hp\<lparr>ch_strs := m\<rparr>))"
    if "writable p" "others p = ch_strs hp" for p
    unfolding v_def by (rule value_printed [OF K that n(2,3) 2(4) kids])
  have clean: "CHR 0x00 \<notin> set x" if "text_value f k v = Some x" for f k x
    using text_clean [OF 2(5)] that vvs(1) by (auto simp: clean_def)
  have vstep: "\<exists>r. step_to K p (text_value (pr_format p) (pr_depth p) v) (pr_depth p) r
      \<and> (\<forall>f. and_then (print_run K (Value a) p (hp\<lparr>ch_strs := m\<rparr>)) (\<lambda>p. update_offset p \<bind> f) = and_then r f)" if "writable p" "others p = ch_strs hp" for p
    by (rule last_offset [OF val [OF that]], erule clean, blast)
  show ?case unfolding lists_printed_def vvs
  proof (intro allI impI conjI)
    fix p assume p: "writable p \<and> others p = ch_strs hp"
    then have p: "writable p" and o: "others p = ch_strs hp" by simp_all
    let ?f = "pr_format p" and ?k = "pr_depth p"
    obtain r where r: "step_to K p (text_value ?f ?k v) ?k r"
      "\<And>f. and_then (print_run K (Value a) p (hp\<lparr>ch_strs := m\<rparr>)) (\<lambda>p. update_offset p \<bind> f) = and_then r f"
      using vstep [OF p o] by blast
    define g where "g = (\<lambda>p. and_then (if vs \<noteq> [] then array_comma K p else Some (True, p)) (\<lambda>p. print_run K (Elements (cj_next n)) p (hp\<lparr>ch_strs := m\<rparr>)))"
    have run: "print_run K (Elements q) p (hp\<lparr>ch_strs := m\<rparr>) = and_then r g"
      using r(2) [of g] n(1,2) by (subst print_run.simps) (simp add: g_def nxt del: not_None_eq)
    show "step_to K p (text_elements ?f ?k (v # vs)) ?k (print_run K (Elements q) p (hp\<lparr>ch_strs := m\<rparr>))"
      unfolding run elements_parts
    proof (rule step_then [OF r(1)])
      fix p1 assume p1: "writable p1" "pr_format p1 = ?f" "pr_depth p1 = ?k" "others p1 = others p"
      show "step_to K p1 (joined (Some (if vs = [] then [] else if ?f then '', '' else '','')) (text_elements ?f ?k vs)) ?k (g p1)"
        unfolding g_def
      proof (rule step_then)
        show "step_to K p1 (Some (if vs = [] then [] else if ?f then '', '' else '','')) ?k
            (if vs \<noteq> [] then array_comma K p1 else Some (True, p1))"
          using array_comma_step [OF K p1(1)] step_ret [OF p1(1)] p1(2,3) by simp
        fix p2 assume p2: "writable p2" "pr_format p2 = pr_format p1" "pr_depth p2 = ?k" "others p2 = others p1"
        show "step_to K p2 (text_elements ?f ?k vs) ?k (print_run K (Elements (cj_next n)) p2 (hp\<lparr>ch_strs := m\<rparr>))"
          using rest [unfolded lists_printed_def, rule_format, of p2] p1(2,4) p2 o by (simp add: vs_def)
      qed
    qed
  next
    fix p assume "writable p \<and> others p = ch_strs hp" and d: "0 < pr_depth p"
    then have p: "writable p" "0 < pr_depth p" and o: "others p = ch_strs hp" by simp_all
    let ?f = "pr_format p" and ?k = "pr_depth p"
    let ?nm = "content (ch_strs hp) (cd_string d)"
    define g where "g = (\<lambda>p. do { p \<leftarrow> update_offset p;
        and_then (member_end K (vs \<noteq> []) p) (\<lambda>p. print_run K (Members (cj_next n)) p (hp\<lparr>ch_strs := m\<rparr>)) })"
    define w where "w = (\<lambda>p. and_then (member_colon K p) (\<lambda>p. and_then (print_run K (Value a) p (hp\<lparr>ch_strs := m\<rparr>)) g))"
    define u where "u = (\<lambda>p. do { name \<leftarrow> read_str (cd_string d) (hp\<lparr>ch_strs := pr_heap p\<rparr>);
        and_then (print_string_ptr K name p) (\<lambda>p. update_offset p \<bind> w) })"
    have run: "print_run K (Members q) p (hp\<lparr>ch_strs := m\<rparr>) = and_then (member_indent K p) u"
      using n(1,2,3) by (subst print_run.simps) (simp add: g_def w_def u_def nxt del: not_None_eq)
    show "step_to K p (text_members ?f ?k (v # vs)) ?k (print_run K (Members q) p (hp\<lparr>ch_strs := m\<rparr>))"
      unfolding run members_parts vvs(2)
    proof (rule step_then [OF member_indent_step [OF K p(1)]])
      fix p1 assume p1: "writable p1" "pr_format p1 = ?f" "pr_depth p1 = ?k" "others p1 = others p"
      have o1: "others p1 = ch_strs hp" using p1 o by simp
      have u1: "u p1 = and_then (print_string_ptr K ?nm p1) (\<lambda>p. update_offset p \<bind> w)"
        using read_others(2) [OF p1(1) o1 2(4)] by (simp add: u_def)
      obtain r where r: "step_to K p1 (Some (quoted ?nm)) (pr_depth p1) r"
        "\<And>f. and_then (print_string_ptr K ?nm p1) (\<lambda>p. update_offset p \<bind> f) = and_then r f"
        using last_offset [OF print_string_last [OF K p1(1)], of ?nm] quoted_clean [of ?nm] unfolding clean_def by blast
      show "step_to K p1 (joined (Some (quoted ?nm)) (joined (Some ('':'' @ tabs ?f 1)) (joined (text_value ?f ?k v)
          (joined (Some ((if vs = [] then [] else '','') @ newline ?f)) (text_members ?f ?k vs))))) ?k
          (u p1)"
        unfolding u1 r(2)
      proof (rule step_then [OF r(1)])
        fix p2 assume p2: "writable p2" "pr_format p2 = pr_format p1" "pr_depth p2 = pr_depth p1" "others p2 = others p1"
        show "step_to K p2 (joined (Some ('':'' @ tabs ?f 1)) (joined (text_value ?f ?k v)
            (joined (Some ((if vs = [] then [] else '','') @ newline ?f)) (text_members ?f ?k vs)))) ?k (w p2)"
          unfolding w_def
        proof (rule step_then)
          show "step_to K p2 (Some ('':'' @ tabs ?f 1)) ?k (member_colon K p2)"
            using member_colon_step [OF K p2(1)] p1 p2 by simp
          fix p3 assume p3: "writable p3" "pr_format p3 = pr_format p2" "pr_depth p3 = ?k" "others p3 = others p2"
          then have e3: "pr_format p3 = ?f" using p1 p2 by simp
          obtain r' where r': "step_to K p3 (text_value ?f ?k v) ?k r'"
            "\<And>f. and_then (print_run K (Value a) p3 (hp\<lparr>ch_strs := m\<rparr>)) (\<lambda>p. update_offset p \<bind> f) = and_then r' f"
            using vstep [OF p3(1)] e3 p3(3,4) p2(4) o1 by auto
          show "step_to K p3 (joined (text_value ?f ?k v)
              (joined (Some ((if vs = [] then [] else '','') @ newline ?f)) (text_members ?f ?k vs))) ?k
              (and_then (print_run K (Value a) p3 (hp\<lparr>ch_strs := m\<rparr>)) g)"
            unfolding g_def r'(2)
          proof (rule step_then [OF r'(1)])
            fix p4 assume p4: "writable p4" "pr_format p4 = pr_format p3" "pr_depth p4 = ?k" "others p4 = others p3"
            show "step_to K p4 (joined (Some ((if vs = [] then [] else '','') @ newline ?f)) (text_members ?f ?k vs)) ?k
                (and_then (member_end K (vs \<noteq> []) p4) (\<lambda>p. print_run K (Members (cj_next n)) p (hp\<lparr>ch_strs := m\<rparr>)))"
            proof (rule step_then)
              show "step_to K p4 (Some ((if vs = [] then [] else '','') @ newline ?f)) ?k (member_end K (vs \<noteq> []) p4)"
                using member_end_step [OF K p4(1), of "vs \<noteq> []"] p4 e3 by (cases "vs = []") simp_all
              fix p5 assume p5: "writable p5" "pr_format p5 = pr_format p4" "pr_depth p5 = ?k" "others p5 = others p4"
              show "step_to K p5 (text_members ?f ?k vs) ?k (print_run K (Members (cj_next n)) p5 (hp\<lparr>ch_strs := m\<rparr>))"
                using rest [unfolded lists_printed_def, rule_format, of p5] p4(2,4) p5 p3(4) p2(4) o1 e3 p(2) by (simp add: vs_def)
            qed
          qed
        qed
      qed
    qed
  qed
qed

section \<open>The entry points\<close>

definition the_value :: "cheap \<Rightarrow> ltree \<Rightarrow> jval" where
  "the_value hp t = hd (jvalues (ch_strs hp) [t])"

text \<open>A tree whose strings are C strings.\<close>

definition printable :: "cheap \<Rightarrow> ltree \<Rightarrow> bool" where
  "printable hp t \<longleftrightarrow> tree hp t \<and> readable hp [t] \<and> clean_texts (jvalues (ch_strs hp) [t])"

lemma tree_printed:
  assumes "blocks_ok K" "printable hp t" "writable p" "others p = ch_strs hp"
  shows "last_to K p (text_value (pr_format p) (pr_depth p) (the_value hp t)) (pr_depth p) (print_value K (Some (lt_addr t)) p (hp\<lparr>ch_strs := m\<rparr>))"
proof -
  obtain a d cs where t: "t = LT a d cs" by (cases t)
  have h: "tree hp (LT a d cs)" "readable hp [LT a d cs]" "clean_texts (jvalues (ch_strs hp) [LT a d cs])"
    using assms(2) by (simp_all add: printable_def t)
  obtain n where n: "ch_items hp a = Some n" "cj_data n = d" "chain (ch_items hp) (cj_child n) None cs"
    using treeE [OF h(1)] by metis
  have "lists_printed K m hp cs (cj_child n)"
    using lists_printed_chain [OF assms(1) n(3) readable_Cons(1) [OF h(2)]] h(3) by simp
  from value_printed [OF assms(1,3,4) n(1,2) h(2) this] show ?thesis by (simp add: t the_value_def print_value_def)
qed

lemma value_clean: "printable hp t \<Longrightarrow> text_value f n (the_value hp t) = Some x \<Longrightarrow> CHR 0x00 \<notin> set x"
  using text_clean [of "jvalues (ch_strs hp) [t]"] by (cases t) (auto simp: printable_def the_value_def clean_def)

lemma c_string_text: "CHR 0x00 \<notin> set x \<Longrightarrow> c_string (x @ CHR 0x00 # y) = x"
  by (auto simp: c_string_def takeWhile_append)

text \<open>What is in the block after printing at offset 0.\<close>

lemma pending_block:
  assumes "pending p x p'" "pr_offset p = 0"
  obtains blk where "block p' = Some blk" "blk = x @ CHR 0x00 # drop (length x + 1) blk"
proof -
  obtain blk where b: "block p' = Some blk" "take (length x) blk = x" "length x < length blk" "blk ! length x = CHR 0x00"
    using assms by (auto simp: pending_def wrote_def)
  then have "blk = x @ CHR 0x00 # drop (length x + 1) blk" using id_take_nth_drop [of "length x" blk] by simp
  with b(1) that show ?thesis by blast
qed

text \<open>What a call of the printer returns: NULL and the heap as it was, or a new block with the text.\<close>

definition printed :: "cheap \<Rightarrow> string ptr \<Rightarrow> (addr ptr \<times> cheap) option \<Rightarrow> bool" where
  "printed hp T r \<longleftrightarrow> (case T of
     None \<Rightarrow> r = Some (None, hp)
   | Some x \<Rightarrow> (\<exists>b. ch_strs hp b = None \<and> r = Some (Some b, hp\<lparr>ch_strs := (ch_strs hp)(b \<mapsto> x)\<rparr>)))"

lemma print_text_result:
  assumes K: "blocks_ok K" and t: "printable hp t"
  shows "\<exists>T. printed hp T (print_text K (Some (lt_addr t)) fmt hp) \<and> (T = None \<or> T = text_value fmt 0 (the_value hp t))
     \<and> (\<forall>x. never_full K \<longrightarrow> finite (dom (ch_strs hp)) \<longrightarrow> text_value fmt 0 (the_value hp t) = Some x \<longrightarrow> length x + 4 \<le> INT_MAX \<longrightarrow> T = Some x)"
proof (cases "ph_alloc K 256 (ch_strs hp)")
  case None
  then have "\<not> (never_full K \<and> finite (dom (ch_strs hp)))" unfolding never_full_def by blast
  then show ?thesis using None by (intro exI [of _ None]) (auto simp: print_text_def printed_def)
next
  case (Some r)
  obtain a blk where r: "r = (a, blk)" by (cases r)
  define p where "p = \<lparr>pr_buffer = Some a, pr_length = 256, pr_offset = 0, pr_depth = 0, pr_noalloc = False, pr_format = fmt,
      pr_heap = (ch_strs hp)(a \<mapsto> blk)\<rparr>"
  have a: "ch_strs hp a = None" "length blk = 256" using K Some r by (auto simp: blocks_ok_def)
  then have w: "writable p" "others p = ch_strs hp" by (auto simp: writable_def p_def block_def others_def)
  from tree_printed [OF K t w, of "ch_strs hp"]
  have "outcome K p (text_value fmt 0 (the_value hp t)) (\<lambda>x p'. pending p x p' \<and> pr_depth p' = 0) (print_value K (Some (lt_addr t)) p hp)"
    by (simp add: last_to_def p_def)
  then show ?thesis
  proof (rule outcomeE)
    fix p' assume f: "print_value K (Some (lt_addr t)) p hp = Some (False, p')" "released p p'"
      "\<And>x. text_value fmt 0 (the_value hp t) = Some x \<Longrightarrow> may_fail K p (length x)"
    have "free_str (pr_buffer p') (hp\<lparr>ch_strs := pr_heap p'\<rparr>) = Some hp"
      using f(2) w(2) by (cases "pr_buffer p'") (auto simp: free_str_def released_def block_def others_def h_free_def)
    then have "print_text K (Some (lt_addr t)) fmt hp = Some (None, hp)" using Some r f(1) by (simp add: print_text_def p_def)
    then show ?thesis using f(3) w(2) by (intro exI [of _ None]) (auto simp: printed_def may_fail_def p_def)
  next
    fix p' x assume v: "print_value K (Some (lt_addr t)) p hp = Some (True, p')" "text_value fmt 0 (the_value hp t) = Some x"
      "pending p x p' \<and> pr_depth p' = 0"
    have o: "pr_offset p = 0" by (simp add: p_def)
    have nz: "CHR 0x00 \<notin> set x" by (rule value_clean [OF t v(2)])
    obtain q where q: "update_offset p' = Some q" "advanced p x q" using update_offset_pending v(3) nz by blast
    obtain b where b: "block p' = Some b" "b = x @ CHR 0x00 # drop (length x + 1) b"
      by (rule pending_block [OF v(3) [THEN conjunct1] o])
    obtain c where c: "pr_buffer p' = Some c" "pr_heap p' c = Some b" using blockD [OF b(1)] by blast
    have q': "pr_buffer q = Some c" "pr_offset q = length x" "pr_heap q = pr_heap p'" "pr_length q = pr_length p'" "others q = ch_strs hp"
      using q c w(2) by (auto simp: update_offset_def advanced_def wrote_def p_def Let_def split: if_splits)
    have len: "length x + 1 \<le> pr_length p'" using v(3) o by (auto simp: pending_def wrote_def)
    have lb: "length x + 1 \<le> length b" using arg_cong [OF b(2), of length] by simp
    have old: "mem_read b 0 (min (pr_length q) (pr_offset q + 1)) = Some (x @ [CHR 0x00])"
      using lb len q' arg_cong [OF b(2), of "take (length x + 1)"] by (simp add: mem_read_def min_def)
    have hp: "pr_heap q = (ch_strs hp)(c \<mapsto> b)" "ch_strs hp c = None"
      using q' c others_buffer [OF q'(1)] blockD [of q b] by (auto simp: block_def)
    show ?thesis
    proof (cases "ph_alloc K (length x + 1) (pr_heap q)")
      case None
      have "dom (pr_heap q) = insert c (dom (ch_strs hp))" by (simp add: hp(1))
      then have n: "\<not> (never_full K \<and> finite (dom (ch_strs hp)))" using None unfolding never_full_def by (metis finite_insert)
      have "free_str (Some c) (hp\<lparr>ch_strs := pr_heap q\<rparr>) = Some hp" by (simp add: free_str_def h_free_def hp fun_upd_idem)
      then have "print_text K (Some (lt_addr t)) fmt hp = Some (None, hp)"
        using None Some r v(1) q(1) q' c(2) by (simp add: print_text_def p_def)
      then show ?thesis using n by (intro exI [of _ None]) (auto simp: printed_def)
    next
      case new: (Some z)
      obtain d new where z: "z = (d, new)" by (cases z)
      then have d: "length new = length x + 1" "pr_heap q d = None" using K new by (auto simp: blocks_ok_def)
      then have dc: "d \<noteq> c" "ch_strs hp d = None" using hp by (auto split: if_splits)
      have "c_string (x @ [CHR 0x00]) = x" using c_string_text [OF nz, of "[]"] by simp
      moreover have "h_free ((pr_heap q)(d \<mapsto> x)) c = Some ((ch_strs hp)(d \<mapsto> x))"
        using dc hp by (auto simp: h_free_def fun_upd_twist fun_upd_idem)
      ultimately have "print_text K (Some (lt_addr t)) fmt hp = Some (Some d, hp\<lparr>ch_strs := (ch_strs hp)(d \<mapsto> x)\<rparr>)"
        using Some r v(1) q(1) q' c(2) new z d(1) old by (simp add: print_text_def p_def mem_write_def free_str_def)
      then show ?thesis using v(2) dc(2) by (intro exI [of _ "Some x"]) (auto simp: printed_def)
    qed
  qed
qed

text \<open>
  C12: \<^verbatim>\<open>cJSON_Print\<close> and \<^verbatim>\<open>cJSON_PrintUnformatted\<close> of a tree, whatever the allocator does, stay inside their
  blocks and return NULL, with the heap as it was, or one new block with exactly the text of the value, every
  other block they used being freed; when no allocation fails and the text is not longer than an \<^verbatim>\<open>int\<close>
  counts, they return the text.
\<close>

theorem cJSON_Print_text:
  assumes "blocks_ok K" "printable hp t"
  shows "\<exists>S T. printed hp S (cJSON_Print K (Some (lt_addr t)) hp) \<and> (S = None \<or> S = text_value True 0 (the_value hp t))
     \<and> printed hp T (cJSON_PrintUnformatted K (Some (lt_addr t)) hp) \<and> (T = None \<or> T = text_value False 0 (the_value hp t))
     \<and> (never_full K \<and> finite (dom (ch_strs hp)) \<longrightarrow>
          (\<forall>x. text_value True 0 (the_value hp t) = Some x \<longrightarrow> length x + 4 \<le> INT_MAX \<longrightarrow> S = Some x)
        \<and> (\<forall>x. text_value False 0 (the_value hp t) = Some x \<longrightarrow> length x + 4 \<le> INT_MAX \<longrightarrow> T = Some x))"
proof -
  obtain S where "printed hp S (cJSON_Print K (Some (lt_addr t)) hp)" "S = None \<or> S = text_value True 0 (the_value hp t)"
    "\<forall>x. never_full K \<longrightarrow> finite (dom (ch_strs hp)) \<longrightarrow> text_value True 0 (the_value hp t) = Some x \<longrightarrow> length x + 4 \<le> INT_MAX \<longrightarrow> S = Some x"
    using print_text_result [OF assms, of True] unfolding cJSON_Print_def by blast
  moreover obtain T where "printed hp T (cJSON_PrintUnformatted K (Some (lt_addr t)) hp)" "T = None \<or> T = text_value False 0 (the_value hp t)"
    "\<forall>x. never_full K \<longrightarrow> finite (dom (ch_strs hp)) \<longrightarrow> text_value False 0 (the_value hp t) = Some x \<longrightarrow> length x + 4 \<le> INT_MAX \<longrightarrow> T = Some x"
    using print_text_result [OF assms, of False] unfolding cJSON_PrintUnformatted_def by blast
  ultimately show ?thesis by (intro exI [of _ S] exI [of _ T]) simp
qed

text \<open>
  C39: \<^verbatim>\<open>cJSON_PrintPreallocated\<close> writes only into the first \<open>len\<close> bytes of the block it is given, whatever they
  hold, and changes no other block: on success the text of the value with its zero byte is in them, and it
  succeeds with four bytes more than the text has, which is less than the five more bytes the header asks for.
\<close>

theorem cJSON_PrintPreallocated_text:
  assumes "blocks_ok K" "ch_strs hp a = Some blk" "printable (hp\<lparr>ch_strs := (ch_strs hp)(a := None)\<rparr>) t"
    and "0 < len" "nat len \<le> length blk"
  shows "\<exists>ok b. cJSON_PrintPreallocated K (Some (lt_addr t)) (Some a) len fmt hp
         = Some (ok, hp\<lparr>ch_strs := (ch_strs hp)(a \<mapsto> b @ drop (nat len) blk)\<rparr>) \<and> length b = nat len
     \<and> (ok \<longrightarrow> text_value fmt 0 (the_value hp t) = Some (c_string b) \<and> CHR 0x00 \<in> set b)
     \<and> (\<forall>x. text_value fmt 0 (the_value hp t) = Some x \<longrightarrow> length x + 4 \<le> nat len \<longrightarrow> nat len \<le> INT_MAX \<longrightarrow> ok)"
proof -
  define hp0 where "hp0 = hp\<lparr>ch_strs := (ch_strs hp)(a := None)\<rparr>"
  define p where "p = \<lparr>pr_buffer = Some a, pr_length = nat len, pr_offset = 0, pr_depth = 0, pr_noalloc = True, pr_format = fmt,
      pr_heap = ch_strs hp\<rparr>"
  have same: "hp0\<lparr>ch_strs := ch_strs hp\<rparr> = hp" by (simp add: hp0_def)
  have v: "the_value hp0 t = the_value hp t"
  proof -
    have "set (strs [t]) \<union> set (const_names [t]) \<subseteq> dom (ch_strs hp0)" using assms(3) by (simp add: printable_def readable_def hp0_def)
    then have "jvalues (ch_strs hp0) [t] = jvalues (ch_strs hp) [t]" by (intro jvalues_cong) (auto simp: hp0_def split: if_splits)
    then show ?thesis by (simp add: the_value_def)
  qed
  have w: "writable p" "others p = ch_strs hp0" using assms by (auto simp: writable_def p_def block_def others_def hp0_def)
  have bp: "block p = Some blk" using assms(2) by (simp add: block_def p_def)
  from tree_printed [OF assms(1,3) [folded hp0_def] w, of "ch_strs hp"]
  have "outcome K p (text_value fmt 0 (the_value hp t)) (\<lambda>x p'. pending p x p' \<and> pr_depth p' = 0) (print_value K (Some (lt_addr t)) p hp)"
    unfolding same v by (simp add: last_to_def p_def)
  then obtain ok p' where r: "print_value K (Some (lt_addr t)) p hp = Some (ok, p')" "others p' = others p" "kept_tail p p'"
    "ok \<longrightarrow> (\<exists>x. text_value fmt 0 (the_value hp t) = Some x \<and> pending p x p')"
    "\<not> ok \<longrightarrow> (\<forall>x. text_value fmt 0 (the_value hp t) = Some x \<longrightarrow> may_fail K p (length x))"
  proof (rule outcomeE)
    fix p' x assume z: "\<And>ok p'. print_value K (Some (lt_addr t)) p hp = Some (ok, p') \<Longrightarrow> others p' = others p \<Longrightarrow> kept_tail p p' \<Longrightarrow>
       ok \<longrightarrow> (\<exists>x. text_value fmt 0 (the_value hp t) = Some x \<and> pending p x p') \<Longrightarrow>
       \<not> ok \<longrightarrow> (\<forall>x. text_value fmt 0 (the_value hp t) = Some x \<longrightarrow> may_fail K p (length x)) \<Longrightarrow> thesis"
      and a: "print_value K (Some (lt_addr t)) p hp = Some (True, p')" "text_value fmt 0 (the_value hp t) = Some x" "pending p x p' \<and> pr_depth p' = 0"
    then have "wrote p x p'" by (simp add: pending_def)
    then have "others p' = others p" "kept_tail p p'" using kept_tail_wrote [of p x p'] by (simp_all add: wrote_def p_def)
    then show thesis using z [OF a(1)] a(2,3) by blast
  next
    fix p' assume z: "\<And>ok p'. print_value K (Some (lt_addr t)) p hp = Some (ok, p') \<Longrightarrow> others p' = others p \<Longrightarrow> kept_tail p p' \<Longrightarrow>
       ok \<longrightarrow> (\<exists>x. text_value fmt 0 (the_value hp t) = Some x \<and> pending p x p') \<Longrightarrow>
       \<not> ok \<longrightarrow> (\<forall>x. text_value fmt 0 (the_value hp t) = Some x \<longrightarrow> may_fail K p (length x)) \<Longrightarrow> thesis"
      and a: "print_value K (Some (lt_addr t)) p hp = Some (False, p')" "released p p'" "pr_noalloc p \<Longrightarrow> kept_tail p p'"
       "\<And>x. text_value fmt 0 (the_value hp t) = Some x \<Longrightarrow> may_fail K p (length x)"
    then show thesis using z [OF a(1)] by (auto simp: p_def released_def)
  qed
  obtain blk' where k: "pr_buffer p' = Some a" "block p' = Some blk'" "length blk' = length blk" "drop (nat len) blk' = drop (nat len) blk"
    using r(3) bp by (auto simp: kept_tail_def p_def)
  define b where "b = take (nat len) blk'"
  have bb: "blk' = b @ drop (nat len) blk" "length b = nat len" using k(3,4) assms(5) append_take_drop_id [of "nat len" blk']
    by (simp_all add: b_def)
  have "pr_heap p' = (others p')(a \<mapsto> blk')" using blockD [OF k(2)] k(1) by auto
  then have h: "pr_heap p' = (ch_strs hp)(a \<mapsto> b @ drop (nat len) blk)" using r(2) w(2) bb(1) by (simp add: hp0_def)
  have run: "cJSON_PrintPreallocated K (Some (lt_addr t)) (Some a) len fmt hp = Some (ok, hp\<lparr>ch_strs := (ch_strs hp)(a \<mapsto> b @ drop (nat len) blk)\<rparr>)"
    using r(1) h assms(4) by (simp add: cJSON_PrintPreallocated_def p_def)
  have t_ok: "text_value fmt 0 (the_value hp t) = Some (c_string b) \<and> CHR 0x00 \<in> set b" if fine: "ok"
  proof -
    obtain x where x: "text_value fmt 0 (the_value hp t) = Some x" "pending p x p'" using r(4) fine by blast
    have "take (length x) blk' = x" "length x < nat len" "blk' ! length x = CHR 0x00"
      using x(2) k(2) r(3) by (auto simp: pending_def wrote_def p_def)
    then have "b = x @ CHR 0x00 # drop (length x + 1) b"
      using id_take_nth_drop [of "length x" b] bb(2) by (simp add: b_def min_def)
    moreover have "c_string b = x" using calculation c_string_text [of x] value_clean [OF assms(3) [folded hp0_def]] x(1) unfolding v by metis
    ultimately show ?thesis using x(1) by (metis in_set_conv_decomp)
  qed
  have "ok" if "text_value fmt 0 (the_value hp t) = Some x" "length x + 4 \<le> nat len" "nat len \<le> INT_MAX" for x
    using r(5) that by (auto simp: may_fail_def p_def)
  then show ?thesis using run bb(2) t_ok by blast
qed

definition plain_blocks :: phooks where
  "plain_blocks = \<lparr>ph_alloc = (\<lambda>n h. map_option (\<lambda>a. (a, replicate n (CHR ''x''))) (alloc0 h)), ph_realloc = True\<rparr>"

lemma plain_blocks_ok: "blocks_ok plain_blocks" "never_full plain_blocks"
  using alloc0_fresh alloc0_total by (auto simp: blocks_ok_def never_full_def plain_blocks_def alloc_total_def dest: alloc_freshD)

lemma cheap0_printable: "printable cheap0 tree0"
  using cheap0_trees(1)
  by (simp add: printable_def readable_def cheap0_def tree0_def data_strs_def jd_num_def jd_text_def jd_array_def
      string_is_const_def content_def)

lemma number_buffer_int: "\<bar>i\<bar> < 10 ^ 15 \<Longrightarrow> number_buffer (whole i) = int_digits i"
proof -
  assume i: "\<bar>i\<bar> < 10 ^ 15"
  then have "format_g 15 (whole i) = int_digits i" by (rule format_g_int) simp
  moreover have "strtod (int_digits i) = (whole i, length (int_digits i))" by (rule strtod_int) (use i in simp)
  moreover have "int_digits i \<noteq> []" by (simp add: int_digits_def)
  ultimately show ?thesis by (simp add: number_buffer_def compare_double_refl)
qed

lemma cheap0_text: "text_value fmt 0 (the_value cheap0 tree0) = Some (if fmt then ''[1, \"a\"]'' else ''[1,\"a\"]'')"
proof -
  have "number_buffer (whole 1) = ''1''" proof -
    have "int_digits 1 = ''1''" by code_simp
    then show ?thesis using number_buffer_int [of 1] by simp
  qed
  moreover have "quoted (Some ''a'') = ''\"a\"''" by (simp add: quoted_def escape_char_def)
  ultimately show ?thesis
    by (simp add: the_value_def cheap0_def tree0_def jd_num_def jd_text_def jd_array_def content_def)
qed

lemma cJSON_Print_text_witness:
  "printed cheap0 (Some ''[1,\"a\"]'') (cJSON_PrintUnformatted plain_blocks (Some 10) cheap0)"
proof -
  from cJSON_Print_text [OF plain_blocks_ok(1) cheap0_printable] obtain T where
    T: "printed cheap0 T (cJSON_PrintUnformatted plain_blocks (Some (lt_addr tree0)) cheap0)"
    "\<forall>x. text_value False 0 (the_value cheap0 tree0) = Some x \<longrightarrow> length x + 4 \<le> INT_MAX \<longrightarrow> T = Some x"
    using plain_blocks_ok(2) by (auto simp: cheap0_def)
  have "T = Some ''[1,\"a\"]''" using T(2) cheap0_text [of False] by (simp add: INT_MAX_def)
  with T(1) show ?thesis by (simp add: tree0_def)
qed

lemma cJSON_PrintPreallocated_text_witness:
  "\<exists>b. cJSON_PrintPreallocated plain_blocks (Some 10) (Some 7) 12 False (cheap0\<lparr>ch_strs := (ch_strs cheap0)(7 \<mapsto> replicate 20 (CHR ''x''))\<rparr>)
     = Some (True, cheap0\<lparr>ch_strs := (ch_strs cheap0)(7 \<mapsto> b @ replicate 8 (CHR ''x''))\<rparr>) \<and> c_string b = ''[1,\"a\"]''"
proof -
  define hp where "hp = cheap0\<lparr>ch_strs := (ch_strs cheap0)(7 \<mapsto> replicate 20 (CHR ''x''))\<rparr>"
  have e: "hp\<lparr>ch_strs := (ch_strs hp)(7 := None)\<rparr> = cheap0" by (simp add: hp_def cheap0_def fun_upd_idem)
  have p: "printable (hp\<lparr>ch_strs := (ch_strs hp)(7 := None)\<rparr>) tree0" unfolding e by (rule cheap0_printable)
  have h7: "ch_strs hp 7 = Some (replicate 20 (CHR ''x''))" by (simp add: hp_def)
  have v: "the_value hp tree0 = the_value cheap0 tree0"
    by (simp add: the_value_def hp_def tree0_def jd_num_def jd_text_def jd_array_def content_def cheap0_def)
  obtain ok b where r: "cJSON_PrintPreallocated plain_blocks (Some (lt_addr tree0)) (Some 7) 12 False hp
      = Some (ok, hp\<lparr>ch_strs := (ch_strs hp)(7 \<mapsto> b @ drop (nat 12) (replicate 20 (CHR ''x'')))\<rparr>)"
    "ok \<longrightarrow> text_value False 0 (the_value hp tree0) = Some (c_string b)"
    "\<forall>x. text_value False 0 (the_value hp tree0) = Some x \<longrightarrow> length x + 4 \<le> nat 12 \<longrightarrow> nat 12 \<le> INT_MAX \<longrightarrow> ok"
    using cJSON_PrintPreallocated_text [OF plain_blocks_ok(1) h7 p, of 12 False] by auto
  have "ok" using r(3) cheap0_text [of False] unfolding v by (simp add: INT_MAX_def)
  then show ?thesis using r(1,2) cheap0_text [of False] unfolding v hp_def [symmetric]
    by (intro exI [of _ b]) (simp add: tree0_def, simp add: hp_def)
qed

end
