(* ===== verification/CJson_Roundtrip.thy ===== *)
theory CJson_Roundtrip
  imports CJson_Parse_Safe CJson_Print_Text
begin

text \<open>
  Parsing of \<^verbatim>\<open>common/cjson/cJSON.c\<close> reads back what printing writes, in both formats.
\<close>

section \<open>What is ahead in the input\<close>

definition ahead :: "parse_buffer \<Rightarrow> string" where
  "ahead b = drop (pb_offset b) (pb_content b)"

lemma drop_decomp:
  assumes "drop n s = y" "y \<noteq> []"
  obtains u where "s = u @ y" "length u = n"
proof (rule that [of "take n s"])
  show "s = take n s @ y" unfolding assms(1) [symmetric] by simp
  show "length (take n s) = n" using assms by auto
qed

lemma ahead_move: "ahead b = x @ y \<Longrightarrow> ahead (move (length x) b) = y"
proof -
  assume "ahead b = x @ y"
  then have "drop (length x) (drop (pb_offset b) (pb_content b)) = y" by (simp add: ahead_def)
  then show ?thesis by (simp add: ahead_def add.commute)
qed

lemma move_move [simp]: "move m (move n b) = move (n + m) b"
  by (simp add: move_def add.assoc)

lemma move_0 [simp]: "move 0 b = b"
  by (simp add: move_def)

lemma ahead_next:
  assumes "ahead b = c # y"
  shows "next_is b d \<longleftrightarrow> d = c"
proof -
  obtain u where "pb_content b = u @ c # y" "length u = pb_offset b"
    using drop_decomp [of "pb_offset b" "pb_content b" "c # y"] assms by (auto simp: ahead_def)
  then show ?thesis by (auto simp: next_is_iff nth_append)
qed

lemma ahead_at: "ahead b = c # y \<Longrightarrow> buffer_at b 0 = Some c"
  using ahead_next [of b c y c] by (simp add: next_is_def)

lemma ahead_looking:
  assumes "ahead b = y" "y \<noteq> []"
  shows "looking_at b s \<longleftrightarrow> take (length s) y = s"
proof -
  obtain u where "pb_content b = u @ y" "length u = pb_offset b"
    using drop_decomp [of "pb_offset b" "pb_content b" y] assms by (auto simp: ahead_def)
  moreover have "length s \<le> length y" if "take (length s) y = s" using arg_cong [OF that, of length] by simp
  ultimately show ?thesis by (auto simp: looking_at_def can_read_def)
qed

lemma ahead_skip:
  assumes "ahead b = w @ c # y" "\<forall>x \<in> set w. code x \<le> 32" "32 < code c"
  shows "buffer_skip_whitespace b = move (length w) b"
proof -
  have "takeWhile (\<lambda>c. code c \<le> 32) (ahead b) = w" using assms by (simp add: takeWhile_append)
  moreover have "pb_offset b + length w \<noteq> length (pb_content b)"
    using arg_cong [OF assms(1), of length] by (simp add: ahead_def)
  ultimately show ?thesis by (simp add: buffer_skip_whitespace_def ahead_def move_def Let_def)
qed

lemma char_ahead:
  assumes "drop p s = x @ c # y"
  shows "char_at s (p + length x) = Some c"
proof -
  obtain u where "s = u @ x @ c # y" "length u = p" using drop_decomp [OF assms] by auto
  then show ?thesis by (simp add: char_at_def nth_append)
qed

lemma drop_ahead: "drop p s = x @ y \<Longrightarrow> drop (p + length x) s = y"
proof -
  assume "drop p s = x @ y"
  then have "drop (length x) (drop p s) = y" by simp
  then show ?thesis by (simp add: add.commute)
qed

section \<open>Strings\<close>

definition escapes :: "string \<Rightarrow> nat" where
  "escapes s = length (filter (\<lambda>c. length (escape_char c) \<noteq> 1) s)"

lemma escape_cases:
  obtains (plain) "escape_char c = [c]" "31 < code c" "c \<noteq> CHR 0x22" "c \<noteq> CHR 0x5C"
  | (short) e where "escape_char c = [CHR 0x5C, e]" "simple_escape e = Some c"
  | (unicode) "escape_char c = CHR 0x5C # u_escape c" "code c < 32"
proof (cases "31 < code c \<and> c \<noteq> CHR 0x22 \<and> c \<noteq> CHR 0x5C")
  case True
  then show ?thesis using plain by (simp add: escape_char_def)
next
  case False
  show ?thesis
  proof (cases "short_escape c")
    case None
    then have "c \<noteq> CHR 0x22" "c \<noteq> CHR 0x5C" by (auto simp: short_escape_def)
    with False have "code c < 32" by simp
    with False None show ?thesis using unicode by (simp add: escape_char_def)
  next
    case (Some e)
    then have "(c, e) \<in> {(CHR 0x5C, CHR 0x5C), (CHR 0x22, CHR 0x22), (CHR 0x08, CHR ''b''), (CHR 0x0C, CHR ''f''),
        (CHR 0x0A, CHR ''n''), (CHR 0x0D, CHR ''r''), (CHR 0x09, CHR ''t'')}"
      unfolding short_escape_def by (simp split: if_splits)
    then have "simple_escape e = Some c" by (elim insertE emptyE) (simp_all add: simple_escape_def)
    moreover have "escape_char c = [CHR 0x5C, e]" unfolding escape_char_def if_not_P [OF False] Some by simp
    ultimately show ?thesis using short by blast
  qed
qed

lemma scan_step:
  assumes "drop p s = c # y"
  shows "scan_string s p k = (if c = CHR 0x22 then Some (p, k)
    else if c = CHR 0x5C then (if y = [] then None else scan_string s (p + 2) (k + 1)) else scan_string s (p + 1) k)"
proof -
  obtain u where u: "s = u @ c # y" "length u = p" using drop_decomp [OF assms] by auto
  show ?thesis by (subst scan_string.simps) (use u in \<open>auto simp: nth_append\<close>)
qed

lemma hex_digit_char: "n < 16 \<Longrightarrow> hex_digit (hex_char n) = Some n"
  by (auto simp: hex_digit_def hex_char_def take_bit_nat_eq_self_iff)

lemma hex_char_plain: "n < 16 \<Longrightarrow> hex_char n \<noteq> CHR 0x22 \<and> hex_char n \<noteq> CHR 0x5C"
proof -
  assume "n < 16"
  then have "code (hex_char n) \<noteq> 0x22" "code (hex_char n) \<noteq> 0x5C" by (auto simp: hex_char_def take_bit_nat_eq_self_iff)
  then show ?thesis by auto
qed

lemma code_hex: "code c div 16 < 16" "code c mod 16 < 16"
  by (rule less_mult_imp_div_less [of _ 16 16, simplified]) simp_all

lemma scan_quoted:
  "drop p s = concat (map escape_char t) @ CHR 0x22 # y \<Longrightarrow>
   scan_string s p k = Some (p + length (concat (map escape_char t)), k + escapes t)"
proof (induction t arbitrary: p k)
  case Nil
  then show ?case by (simp add: scan_step escapes_def)
next
  case (Cons c t)
  define r where "r = concat (map escape_char t) @ CHR 0x22 # y"
  have d: "drop p s = escape_char c @ r" using Cons.prems by (simp add: r_def)
  have ih: "scan_string s (p + length (escape_char c)) k' = Some (p + length (escape_char c) + length (concat (map escape_char t)), k' + escapes t)" for k'
    using Cons.IH [of "p + length (escape_char c)" k'] drop_ahead [OF d] by (simp add: r_def)
  show ?case
  proof (cases rule: escape_cases [of c, case_names plain short unicode])
    case plain
    then show ?thesis using d ih [of k] scan_step [of p s c r k] by (simp add: escapes_def)
  next
    case (short e)
    then show ?thesis using d ih [of "k + 1"] scan_step [of p s "CHR 0x5C" "e # r" k] by (simp add: escapes_def)
  next
    case unicode
    define h1 h2 where "h1 = hex_char (code c div 16)" and "h2 = hex_char (code c mod 16)"
    have h: "h1 \<noteq> CHR 0x22" "h1 \<noteq> CHR 0x5C" "h2 \<noteq> CHR 0x22" "h2 \<noteq> CHR 0x5C"
      using hex_char_plain code_hex by (auto simp: h1_def h2_def)
    have e: "escape_char c = [CHR 0x5C, CHR ''u'', CHR ''0'', CHR ''0'', h1, h2]" using unicode by (simp add: u_escape_def h1_def h2_def)
    have s1: "scan_string s p k = scan_string s (p + 2) (k + 1)" using d scan_step [of p s "CHR 0x5C" "[CHR ''u'', CHR ''0'', CHR ''0'', h1, h2] @ r" k] by (simp add: e)
    have s2: "scan_string s (p + 2) (k + 1) = scan_string s (p + 3) (k + 1)"
      using drop_ahead [of p s "[CHR 0x5C, CHR ''u'']" "[CHR ''0'', CHR ''0'', h1, h2] @ r"] scan_step [of "p + 2" s "CHR ''0''" "[CHR ''0'', h1, h2] @ r" "k + 1"] d by (simp add: e eval_nat_numeral)
    have s3: "scan_string s (p + 3) (k + 1) = scan_string s (p + 4) (k + 1)"
      using drop_ahead [of p s "[CHR 0x5C, CHR ''u'', CHR ''0'']" "[CHR ''0'', h1, h2] @ r"] scan_step [of "p + 3" s "CHR ''0''" "[h1, h2] @ r" "k + 1"] d by (simp add: e eval_nat_numeral)
    have s4: "scan_string s (p + 4) (k + 1) = scan_string s (p + 5) (k + 1)"
      using drop_ahead [of p s "[CHR 0x5C, CHR ''u'', CHR ''0'', CHR ''0'']" "[h1, h2] @ r"] scan_step [of "p + 4" s h1 "h2 # r" "k + 1"] d h by (simp add: e eval_nat_numeral)
    have s5: "scan_string s (p + 5) (k + 1) = scan_string s (p + 6) (k + 1)"
      using drop_ahead [of p s "[CHR 0x5C, CHR ''u'', CHR ''0'', CHR ''0'', h1]" "h2 # r"] scan_step [of "p + 5" s h2 r "k + 1"] d h by (simp add: e eval_nat_numeral)
    show ?thesis unfolding s1 s2 s3 s4 s5 using ih [of "k + 1"] by (simp add: e escapes_def eval_nat_numeral)
  qed
qed

lemma parse_hex4_digits:
  assumes "char_at s q = Some a" "char_at s (q + 1) = Some b" "char_at s (q + 1 + 1) = Some c" "char_at s (q + 1 + 1 + 1) = Some d"
    "hex_digit a = Some w" "hex_digit b = Some x" "hex_digit c = Some y" "hex_digit d = Some z"
  shows "parse_hex4 s q = Some (((w * 16 + x) * 16 + y) * 16 + z)"
proof -
  have four: "(4::nat) = Suc (Suc (Suc (Suc 0)))" by simp
  show ?thesis using assms unfolding parse_hex4_def four by (simp only: hex_loop.simps Option.bind.simps option.case) simp
qed

lemma unicode_code:
  assumes "drop p s = escape_char c @ y" "escape_char c = CHR 0x5C # u_escape c" "code c < 32" "p + 6 \<le> en"
  shows "utf16_literal_to_utf8 s p en = Some (6, [c])"
proof -
  define h1 h2 where "h1 = hex_char (code c div 16)" and "h2 = hex_char (code c mod 16)"
  obtain z where d: "drop p s = [CHR 0x5C, CHR ''u'', CHR ''0'', CHR ''0'', h1, h2] @ z"
    using assms(1,2) by (auto simp: u_escape_def h1_def h2_def)
  have at: "char_at s (p + 2) = Some (CHR ''0'')" "char_at s (p + 3) = Some (CHR ''0'')" "char_at s (p + 4) = Some h1" "char_at s (p + 5) = Some h2"
    using char_ahead [of p s "[CHR 0x5C, CHR ''u'']"] char_ahead [of p s "[CHR 0x5C, CHR ''u'', CHR ''0'']"]
      char_ahead [of p s "[CHR 0x5C, CHR ''u'', CHR ''0'', CHR ''0'']"] char_ahead [of p s "[CHR 0x5C, CHR ''u'', CHR ''0'', CHR ''0'', h1]"] d
    by (simp_all add: eval_nat_numeral)
  have hd: "hex_digit (CHR ''0'') = Some 0" "hex_digit h1 = Some (code c div 16)" "hex_digit h2 = Some (code c mod 16)"
    using hex_digit_char code_hex by (simp_all add: h1_def h2_def) (simp add: hex_digit_def)
  have "parse_hex4 s (p + 2) = Some (((0 * 16 + 0) * 16 + code c div 16) * 16 + code c mod 16)"
    by (rule parse_hex4_digits [OF _ _ _ _ hd(1) hd]) (use at in \<open>simp_all add: eval_nat_numeral\<close>)
  then have "parse_hex4 s (p + 2) = Some (code c div 16 * 16 + code c mod 16)" by simp
  then have "parse_hex4 s (p + 2) = Some (code c)" by (simp only: div_mult_mod_eq)
  moreover have "encode_utf8 (code c) = Some [c]"
  proof -
    have "mask 7 = (127::nat)" by (simp add: mask_eq_exp_minus_1)
    then have "code c AND 0x7F = take_bit 7 (code c)" using take_bit_eq_mask [of 7 "code c"] by simp
    then have "code c AND 0x7F = code c" using assms(3) by (simp add: take_bit_nat_eq_self_iff)
    then show ?thesis using assms(3) by (simp add: encode_utf8_def)
  qed
  ultimately show ?thesis using assms(3,4) by (simp add: utf16_literal_to_utf8_def)
qed

lemma unescape_quoted:
  "\<lbrakk>drop p s = concat (map escape_char t) @ CHR 0x22 # y; length out + length t \<le> cap\<rbrakk> \<Longrightarrow>
   unescape s p (p + length (concat (map escape_char t))) cap out = Some (p + length (concat (map escape_char t)), Some (out @ t))"
proof (induction t arbitrary: p out)
  case Nil
  then show ?case by (subst unescape.simps) simp
next
  case (Cons c t)
  define r where "r = concat (map escape_char t) @ CHR 0x22 # y"
  define E where "E = concat (map escape_char t)"
  have d: "drop p s = escape_char c @ r" using Cons.prems(1) by (simp add: r_def)
  have ih: "unescape s (p + length (escape_char c)) (p + (length (escape_char c) + length E)) cap (out @ [c])
      = Some (p + (length (escape_char c) + length E), Some (out @ c # t))"
    using Cons.IH [of "p + length (escape_char c)" "out @ [c]"] drop_ahead [OF d] Cons.prems(2) by (simp add: r_def E_def add.assoc)
  have em: "emit cap out [c] = Some (out @ [c])" using Cons.prems(2) by (simp add: emit_def)
  show ?case
  proof (cases rule: escape_cases [of c, case_names plain short unicode])
    case plain
    have "char_at s p = Some c" using char_ahead [of p s "[]" c r] d plain by simp
    then show ?thesis using ih em plain by (subst unescape.simps) (simp add: E_def)
  next
    case (short e)
    have "char_at s p = Some (CHR 0x5C)" "char_at s (p + 1) = Some e"
      using char_ahead [of p s "[]" "CHR 0x5C" "e # r"] char_ahead [of p s "[CHR 0x5C]" e r] d short by simp_all
    then show ?thesis using ih em short by (subst unescape.simps) (simp add: E_def)
  next
    case unicode
    have a: "char_at s p = Some (CHR 0x5C)" "char_at s (p + 1) = Some (CHR ''u'')"
      using char_ahead [of p s "[]" "CHR 0x5C" "u_escape c @ r"]
        char_ahead [of p s "[CHR 0x5C]" "CHR ''u''" "tl (u_escape c) @ r"] d unicode by (simp_all add: u_escape_def)
    have l: "length (escape_char c) = 6" using unicode by (simp add: u_escape_def)
    have u: "utf16_literal_to_utf8 s p (p + (6 + length E)) = Some (6, [c])" using unicode_code [of p s c r] d unicode by simp
    have "simple_escape (CHR ''u'') = None" by (simp add: simple_escape_def)
    then show ?thesis using ih em a u unfolding l by (subst unescape.simps) (simp add: E_def l)
  qed
qed

lemma goto_move: "goto_pos (pb_offset b + n) b = move n b"
  by (simp add: goto_pos_def move_def)

lemma parse_string_quoted:
  assumes r: "ready hp a e" and b: "inside b" "ahead b = quoted (Some t) @ y" and t: "clean t" and K: "plenty K hp"
  shows "\<exists>v hp'. parse_string K a b hp = Some (True, move (length (quoted (Some t))) b, hp')
     \<and> filled hp a (e\<lparr>cd_type := 16, cd_valuestring := Some v\<rparr>) [] hp' \<and> ch_strs hp v = None \<and> ch_strs hp' = (ch_strs hp)(v \<mapsto> t)"
proof -
  define E where "E = concat (map escape_char t)"
  define o' where "o' = pb_offset b"
  obtain v where v: "ck_str K (ch_strs hp) = Some v" using K by (auto simp: plenty_def alloc_total_def)
  then have fresh: "ch_strs hp v = None" using K alloc_freshD by (auto simp: plenty_def)
  have d: "drop o' (pb_content b) = CHR 0x22 # E @ CHR 0x22 # y" using b(2) by (simp add: ahead_def o'_def quoted_def E_def)
  then have d1: "drop (o' + 1) (pb_content b) = E @ CHR 0x22 # y" using drop_ahead [of o' "pb_content b" "[CHR 0x22]"] by simp
  have q: "pb_content b ! o' = CHR 0x22"
    using ahead_next [of b "CHR 0x22" "E @ CHR 0x22 # y" "CHR 0x22"] d by (simp add: ahead_def o'_def next_is_iff)
  have s: "scan_string (pb_content b) (o' + 1) 0 = Some (o' + 1 + length E, escapes t)"
    using scan_quoted [of "o' + 1" "pb_content b" t y 0] d1 by (simp add: E_def)
  have le: "length t + escapes t \<le> length E"
  proof (unfold E_def, induction t)
    case (Cons c t)
    have "1 + (if length (escape_char c) \<noteq> 1 then 1 else 0) \<le> length (escape_char c)"
      by (cases rule: escape_cases [of c]) (simp_all add: u_escape_def)
    with Cons show ?case by (auto simp: escapes_def split: if_splits)
  qed (simp add: escapes_def)
  then have le2: "length t \<le> o' + 1 + length E - o' - escapes t" by simp
  have un: "unescape (pb_content b) (o' + 1) (o' + 1 + length E) (o' + 1 + length E - o' - escapes t + 1) [] = Some (o' + 1 + length E, Some t)"
    using unescape_quoted [of "o' + 1" "pb_content b" t y "[]" "o' + 1 + length E - o' - escapes t + 1"] d1 le by (simp add: E_def)
  have len: "o' + 1 + length E < length (pb_content b)"
    using arg_cong [OF d, of length] by simp
  obtain hp' where hp': "parse_string K a b hp = Some (True, goto_pos (o' + 1 + length E + 1) b, hp')"
    "filled hp a (e\<lparr>cd_type := 16, cd_valuestring := Some v\<rparr>) [] hp'" "ch_strs hp' = (ch_strs hp)(v \<mapsto> c_string (t @ [CHR 0x00]))"
    using parse_string_success [OF r b(1), of "o' + 1 + length E" "escapes t" K v "o' + 1 + length E" t] q s len v fresh un le2
    by (auto simp: o'_def)
  have "c_string (t @ [CHR 0x00]) = t" using c_string_text [of t "[]"] t by (simp add: clean_def)
  moreover have "goto_pos (o' + 1 + length E + 1) b = move (length (quoted (Some t))) b"
    using goto_move [of b "1 + length E + 1"] by (simp add: o'_def quoted_def E_def)
  ultimately show ?thesis using hp' fresh by auto
qed

section \<open>Values that come back\<close>

definition text_of :: "string ptr \<Rightarrow> string" where
  "text_of s = (case s of None \<Rightarrow> [] | Some s \<Rightarrow> s)"

lemma quoted_text: "quoted s = quoted (Some (text_of s))"
  by (simp add: quoted_def text_of_def)

text \<open>Numbers whose text is read back as the same number.\<close>

definition survives :: "double \<Rightarrow> bool" where
  "survives d \<longleftrightarrow> strtod (number_buffer d) = (d, length (number_buffer d)) \<and> length (number_buffer d) \<le> 25"

lemma format_finite_shape:
  shows "c \<in> set (format_finite p d) \<Longrightarrow> number_char c" "\<exists>h z. format_finite p d = h # z \<and> (h = CHR ''-'' \<or> is_digit h)"
proof -
  have strip: "set (strip_zeros b) \<subseteq> set b" for b by (auto simp: strip_zeros_def dest: set_dropWhileD)
  have chars: "set (with_fraction a b) \<subseteq> set a \<union> {CHR ''.''} \<union> set b" for a b
    using strip [of b] by (auto simp: with_fraction_def Let_def)
  have head: "with_fraction (h # a) b = h # with_fraction a b" for h a b by (simp add: with_fraction_def Let_def)
  have digit: "number_char x" if "is_digit x" for x using that by (simp add: number_char_def)
  have zero: "is_digit (CHR ''0'')" by (simp add: is_digit_def)
  obtain m k where mk: "scientific p \<bar>d\<bar> = (m, k)" by (cases "scientific p \<bar>d\<bar>")
  define ds where "ds = nat_digits m"
  have ds: "x \<in> set ds \<Longrightarrow> is_digit x" for x using nat_digits_all by (simp add: ds_def)
  obtain h t where ht: "ds = h # t" by (cases ds) (auto simp: ds_def)
  have dsub: "x \<in> set (take n ds) \<Longrightarrow> number_char x" "x \<in> set (drop n ds) \<Longrightarrow> number_char x" for x n
    using ds digit by (auto dest: in_set_takeD in_set_dropD)
  have ex: "x \<in> set (exponent_digits n) \<Longrightarrow> number_char x" for x n
    using nat_digits_all digit zero by (auto simp: exponent_digits_def split: if_splits)
  have rp: "x \<in> set (replicate n (CHR ''0'') @ ds) \<Longrightarrow> number_char x" for x n using ds digit zero by auto
  have signs: "number_char (CHR ''-'')" "number_char (CHR ''+'')" "number_char (CHR ''.'')" "number_char (CHR ''e'')" "number_char (CHR ''0'')"
    by (simp_all add: number_char_def zero)
  have wf: "x \<in> set (with_fraction a b) \<Longrightarrow> (\<And>y. y \<in> set a \<union> set b \<Longrightarrow> number_char y) \<Longrightarrow> number_char x" for x a b
    using chars [of a b] signs(3) by auto
  have sci: "x \<in> set (with_fraction (take 1 ds) (drop 1 ds)) \<Longrightarrow> number_char x" for x using wf dsub by (metis UnE)
  have fix1: "x \<in> set (with_fraction (take n ds) (drop n ds)) \<Longrightarrow> number_char x" for x n using wf dsub by (metis UnE)
  have fix0: "x \<in> set (with_fraction ''0'' (replicate n (CHR ''0'') @ ds)) \<Longrightarrow> number_char x" for x n
  proof -
    assume "x \<in> set (with_fraction ''0'' (replicate n (CHR ''0'') @ ds))"
    then show ?thesis by (rule wf) (use rp signs(5) in auto)
  qed
  show "c \<in> set (format_finite p d) \<Longrightarrow> number_char c"
    using sci fix1 fix0 ex signs by (auto simp: format_finite_def mk ds_def [symmetric] Let_def split: if_splits)
  have hd_digit: "is_digit h" using ds ht by simp
  show "\<exists>h z. format_finite p d = h # z \<and> (h = CHR ''-'' \<or> is_digit h)"
    using hd_digit zero by (auto simp: format_finite_def mk ds_def [symmetric] ht Let_def head nat_add_distrib)
qed

lemma number_buffer_shape:
  assumes "finite_value d \<noteq> None"
  shows "c \<in> set (number_buffer d) \<Longrightarrow> number_char c" "\<exists>h z. number_buffer d = h # z \<and> (h = CHR ''-'' \<or> is_digit h)"
proof -
  have g: "(c \<in> set (format_g p d) \<longrightarrow> number_char c) \<and> (\<exists>h z. format_g p d = h # z \<and> (h = CHR ''-'' \<or> is_digit h))" for p
    using assms format_finite_shape by (cases d) (auto simp: number_char_def is_digit_def)
  have "number_buffer d = format_g 15 d \<or> number_buffer d = format_g 17 d"
    using assms by (auto simp: number_buffer_def Let_def split: prod.split)
  then show "c \<in> set (number_buffer d) \<Longrightarrow> number_char c" "\<exists>h z. number_buffer d = h # z \<and> (h = CHR ''-'' \<or> is_digit h)"
    using g [of 15] g [of 17] by auto
qed

lemma survivesD:
  assumes "survives d"
  shows "strtod (number_buffer d) = (d, length (number_buffer d))" "length (number_buffer d) \<le> 25" "finite_value d \<noteq> None"
proof -
  show s: "strtod (number_buffer d) = (d, length (number_buffer d))" "length (number_buffer d) \<le> 25"
    using assms by (simp_all add: survives_def)
  have "snd (strtod ''null'') = 0" by code_simp
  then show "finite_value d \<noteq> None" using s(1) by (auto simp: number_buffer_def split: if_splits)
qed

lemma survives_int: "\<bar>i\<bar> < 10 ^ 15 \<Longrightarrow> survives (whole i)"
  using strtod_int [of i] int_digits_length [of i] by (simp add: survives_def number_buffer_int)

lemma survives_3_14: "survives double_3_14"
  by (simp add: survives_def number_3_14)

text \<open>Nested at most \<open>n\<close> levels, numbers that come back, no raw text.\<close>

fun plain :: "nat \<Rightarrow> jval \<Rightarrow> bool" where
  "plain n (JVal t s i d nm kids) \<longleftrightarrow>
     (let t = t AND 0xFF in
      t = cJSON_NULL \<or> t = cJSON_False \<or> t = cJSON_True
      \<or> t = cJSON_Number \<and> survives d
      \<or> t = cJSON_String \<and> clean (text_of s)
      \<or> (t = cJSON_Array \<or> t = cJSON_Object) \<and> 0 < n \<and> (\<forall>k \<in> set kids. plain (n - 1) k \<and> clean (text_of (jv_name k))))"

text \<open>What the parser makes of it, under the name \<open>nm\<close>: no flags, and only the fields the type has.\<close>

fun canon :: "string ptr \<Rightarrow> jval \<Rightarrow> jval" where
  "canon nm (JVal t s i d _ kids) =
     (let t = t AND 0xFF in
      JVal t (if t = cJSON_String then Some (text_of s) else None)
        (if t = cJSON_True then 1 else if t = cJSON_Number then saturate_int d else 0)
        (if t = cJSON_Number then d else 0) nm
        (if t = cJSON_Array then map (canon None) kids
         else if t = cJSON_Object then map (\<lambda>k. canon (Some (text_of (jv_name k))) k) kids else []))"

lemma not_number_char: "code c \<le> 32 \<or> c \<in> {CHR '','', CHR '']'', CHR ''}'', CHR '':'', CHR 0x00} \<Longrightarrow> \<not> number_char c"
  by (auto simp: number_char_def is_digit_def)

lemma plain_number:
  assumes "plain n (JVal t s i d nm kids)" "t AND 0xFF = cJSON_Number"
  shows "survives d" "length (number_buffer d) \<le> 25" "\<exists>h z. number_buffer d = h # z \<and> (h = CHR ''-'' \<or> is_digit h)"
proof -
  show d: "survives d" using assms by (simp add: Let_def)
  then show "length (number_buffer d) \<le> 25" by (rule survivesD)
  show "\<exists>h z. number_buffer d = h # z \<and> (h = CHR ''-'' \<or> is_digit h)" by (rule number_buffer_shape(2) [OF survivesD(3) [OF d]])
qed

lemma plain_cases:
  assumes "plain n (JVal t s i d nm kids)"
  obtains (null) "t AND 0xFF = cJSON_NULL" | (no) "t AND 0xFF = cJSON_False" | (yes) "t AND 0xFF = cJSON_True"
  | (number) "t AND 0xFF = cJSON_Number" | (string) "t AND 0xFF = cJSON_String" "clean (text_of s)"
  | (array) "t AND 0xFF = cJSON_Array" "0 < n" "\<forall>k \<in> set kids. plain (n - 1) k"
  | (object) "t AND 0xFF = cJSON_Object" "0 < n" "\<forall>k \<in> set kids. plain (n - 1) k \<and> clean (text_of (jv_name k))"
  using assms unfolding plain.simps Let_def by blast

lemma text_value_types:
  "t AND 0xFF = cJSON_NULL \<Longrightarrow> text_value f n (JVal t s i d nm kids) = Some ''null''"
  "t AND 0xFF = cJSON_False \<Longrightarrow> text_value f n (JVal t s i d nm kids) = Some ''false''"
  "t AND 0xFF = cJSON_True \<Longrightarrow> text_value f n (JVal t s i d nm kids) = Some ''true''"
  "t AND 0xFF = cJSON_Number \<Longrightarrow> length (number_buffer d) \<le> 25 \<Longrightarrow> text_value f n (JVal t s i d nm kids) = Some (number_buffer d)"
  "t AND 0xFF = cJSON_String \<Longrightarrow> text_value f n (JVal t s i d nm kids) = Some (quoted s)"
  "t AND 0xFF = cJSON_Array \<Longrightarrow> text_value f n (JVal t s i d nm kids) = map_option (\<lambda>x. ''['' @ x @ '']'') (text_elements f (n + 1) kids)"
  "t AND 0xFF = cJSON_Object \<Longrightarrow> text_value f n (JVal t s i d nm kids)
     = map_option (\<lambda>x. ''{'' @ newline f @ x @ tabs f n @ ''}'') (text_members f (n + 1) kids)"
  by simp_all

declare text_value.simps [simp del] plain.simps [simp del] canon.simps [simp del]

lemma text_head:
  assumes "text_value f n v = Some x" "plain k v"
  shows "x \<noteq> []" "32 < code (hd x)"
proof -
  obtain t s i d nm kids where v: "v = JVal t s i d nm kids" by (cases v)
  note p = assms(2) [unfolded v] and x = assms(1) [unfolded v]
  have "x \<noteq> [] \<and> 32 < code (hd x)"
  proof (cases rule: plain_cases [OF p, case_names null no yes number string array object])
    case null
    then show ?thesis using x by (simp add: text_value_types(1)) (auto)
  next
    case no
    then show ?thesis using x by (simp add: text_value_types(2)) (auto)
  next
    case yes
    then show ?thesis using x by (simp add: text_value_types(3)) (auto)
  next
    case number
    then have "x = number_buffer d" using x plain_number(2) [OF p number] by (simp add: text_value_types(4))
    then show ?thesis using plain_number(3) [OF p number] by (auto simp: is_digit_def)
  next
    case string
    then show ?thesis using x by (simp add: text_value_types(5) quoted_def) (auto)
  next
    case array
    then show ?thesis using x by (simp add: text_value_types(6)) (auto)
  next
    case object
    then show ?thesis using x by (simp add: text_value_types(7)) (auto)
  qed
  then show "x \<noteq> []" "32 < code (hd x)" by simp_all
qed

text \<open>The strings that are there stay, and so do the values of trees that own theirs.\<close>

definition keeps :: "cheap \<Rightarrow> cheap \<Rightarrow> bool" where
  "keeps hp hp' \<longleftrightarrow> (\<forall>s \<in> dom (ch_strs hp). ch_strs hp' s = ch_strs hp s)"

lemma keeps_trans: "keeps hp hp1 \<Longrightarrow> keeps hp1 hp2 \<Longrightarrow> keeps hp hp2"
  unfolding keeps_def by (metis domIff)

lemma filled_keeps: "filled hp a d kids hp' \<Longrightarrow> keeps hp hp'"
proof -
  assume f: "filled hp a d kids hp'"
  define S where "S = set (ptr_list (cd_valuestring d) @ strs kids)"
  have "S \<inter> dom (ch_strs hp) = {}" "\<forall>s. s \<notin> S \<longrightarrow> ch_strs hp' s = ch_strs hp s"
    using f unfolding filled_def off_same_def S_def by blast+
  then show ?thesis unfolding keeps_def by blast
qed

lemma keeps_values:
  assumes "keeps hp hp'" "set (strs ts) \<subseteq> dom (ch_strs hp)" "const_names ts = []"
  shows "jvalues (ch_strs hp') ts = jvalues (ch_strs hp) ts"
  by (rule jvalues_cong) (use assms in \<open>auto simp: keeps_def\<close>)

lemma spread_strs: "spread hp0 ts hp \<Longrightarrow> set (strs ts) \<subseteq> dom (ch_strs hp)"
  by (simp add: spread_def owned_def)

lemma spread_plenty:
  assumes "plenty K hp0" "spread hp0 ts hp"
  shows "plenty K hp"
proof -
  have "ch_items hp x = ch_items hp0 x" if "x \<notin> set (addrs ts)" for x
    using that assms(2) by (simp add: spread_def off_same_def)
  then have "dom (ch_items hp) \<subseteq> dom (ch_items hp0) \<union> set (addrs ts)" by (auto simp: domIff)
  moreover have "ch_strs hp x = ch_strs hp0 x" if "x \<notin> set (strs ts)" for x
    using that assms(2) by (simp add: spread_def off_same_def)
  then have "dom (ch_strs hp) \<subseteq> dom (ch_strs hp0) \<union> set (strs ts)" by (auto simp: domIff)
  moreover have "finite (dom (ch_items hp0) \<union> set (addrs ts))" "finite (dom (ch_strs hp0) \<union> set (strs ts))"
    using assms(1) by (simp_all add: plenty_def)
  ultimately have "finite (dom (ch_items hp))" "finite (dom (ch_strs hp))" by (meson finite_subset)+
  then show ?thesis using assms(1) by (simp add: plenty_def)
qed

text \<open>A parser that reads the text \<open>x\<close> of the value \<open>v\<close> into a new item.\<close>

definition reads :: "nat \<Rightarrow> chooks \<Rightarrow> value_parser \<Rightarrow> jval \<Rightarrow> string \<Rightarrow> bool" where
  "reads D K pv v x \<longleftrightarrow> (\<forall>hp a e b c y.
     ready hp a e \<and> cd_valueint e = 0 \<and> cd_valuedouble e = 0 \<and> plenty K hp \<and> inside b \<and> pb_depth b = D
     \<and> ahead b = x @ c # y \<and> \<not> number_char c \<longrightarrow>
     (\<exists>hp' d kids. pv a b hp = Some (True, move (length x) b, hp') \<and> filled hp a d kids hp' \<and> const_names kids = []
        \<and> jvalues (ch_strs hp') [LT a d kids] = [canon (content (ch_strs hp') (cd_string e)) v]))"

lemma ahead_inside: "buffer_ok b \<Longrightarrow> ahead b = x @ c # y \<Longrightarrow> n \<le> length x \<Longrightarrow> inside (move n b)"
proof -
  assume a: "buffer_ok b" "ahead b = x @ c # y" "n \<le> length x"
  have "length (pb_content b) - pb_offset b = length x + 1 + length y" using arg_cong [OF a(2), of length] by (simp add: ahead_def)
  moreover have "pb_content b \<noteq> []" "last (pb_content b) = CHR 0x00" using a(1) by (simp_all add: buffer_ok_def)
  moreover have "pb_offset b + n < length (pb_content b)" using calculation(1) a(3) by linarith
  ultimately show ?thesis by (simp add: inside_def buffer_ok_def)
qed

lemma inside_ok: "inside b \<Longrightarrow> buffer_ok b"
  by (simp add: inside_def)

section \<open>Arrays\<close>

lemma zero_values [simp]: "cd_valueint zero_data = 0" "cd_valuedouble zero_data = 0"
  by (simp_all add: zero_data_def)

lemma filled_flags: "filled hp a d kids hp' \<Longrightarrow> \<not> string_is_const d"
  by (simp add: filled_def)

lemma append_new_item_plenty:
  assumes "plenty K hp0" "spread hp0 ts hp"
  obtains a hp1 where "append_new_item K (end_of None ts) hp = Some (Some a, hp1)" "ready hp1 a zero_data"
    "spread hp0 (ts @ [LT a zero_data []]) hp1" "ch_strs hp1 = ch_strs hp"
proof -
  have K: "alloc_fresh (ck_item K)" using assms(1) by (simp add: plenty_def)
  have "plenty K hp" by (rule spread_plenty [OF assms])
  then obtain a0 where "ck_item K (ch_items hp) = Some a0" by (auto simp: plenty_def alloc_total_def)
  then have "append_new_item K (end_of None ts) hp \<noteq> Some (None, hp)"
    by (auto simp: append_new_item_def cJSON_New_Item_def bind_eq_Some_conv)
  with append_new_item_spread [OF assms(2) K] that show ?thesis by blast
qed

text \<open>Space in front of a text.\<close>

lemma skip_none: "ahead b = x @ y \<Longrightarrow> x \<noteq> [] \<Longrightarrow> 32 < code (hd x) \<Longrightarrow> buffer_skip_whitespace b = b"
  using ahead_skip [of b "[]" "hd x" "tl x @ y"] by simp

lemma skip_space:
  assumes "ahead b = w @ x @ y" "\<forall>c \<in> set w. code c \<le> 32" "x \<noteq> []" "32 < code (hd x)"
  shows "buffer_skip_whitespace b = move (length w) b" "ahead (buffer_skip_whitespace b) = x @ y"
proof -
  have "ahead b = w @ hd x # tl x @ y" using assms(1,3) by (metis append_Cons list.collapse)
  then show "buffer_skip_whitespace b = move (length w) b" by (rule ahead_skip) (use assms in auto)
  with ahead_move [OF assms(1)] show "ahead (buffer_skip_whitespace b) = x @ y" by simp
qed

text \<open>The item that was read takes its place in the list.\<close>

lemma read_into_list:
  assumes v: "reads D K pv v x" and n: "ready hp1 a e" "spread hp0 (ts @ [LT a e []]) hp1" and K: "plenty K hp0"
    and e: "cd_valueint e = 0" "cd_valuedouble e = 0" and c: "const_names ts = []"
    and b: "inside b" "pb_depth b = D" "ahead b = x @ h # y" "\<not> number_char h"
  obtains d kids hp2 where "pv a b hp1 = Some (True, move (length x) b, hp2)" "spread hp0 (ts @ [LT a d kids]) hp2"
    "const_names [LT a d kids] = []" "keeps hp1 hp2" "cd_string d = cd_string e"
    "jvalues (ch_strs hp2) (ts @ [LT a d kids]) = jvalues (ch_strs hp1) ts @ [canon (content (ch_strs hp2) (cd_string e)) v]"
proof -
  obtain d kids hp2 where r: "pv a b hp1 = Some (True, move (length x) b, hp2)" "filled hp1 a d kids hp2" "const_names kids = []"
    "jvalues (ch_strs hp2) [LT a d kids] = [canon (content (ch_strs hp2) (cd_string e)) v]"
    using v n(1) e spread_plenty [OF K n(2)] b unfolding reads_def by blast
  have k: "keeps hp1 hp2" by (rule filled_keeps [OF r(2)])
  have "set (strs ts) \<subseteq> dom (ch_strs hp1)" using spread_strs [OF n(2)] by simp
  from keeps_values [OF k this c] have "jvalues (ch_strs hp2) ts = jvalues (ch_strs hp1) ts" .
  moreover have "\<not> string_is_const d" "cd_string d = cd_string e" using r(2) n(1) by (auto simp: filled_def ready_def)
  ultimately show ?thesis
    using that [OF r(1) spread_fill [OF n(2,1) r(2)]] r(3,4) k by simp
qed

lemma next_char: "ahead b = x @ y \<Longrightarrow> x \<noteq> [] \<Longrightarrow> next_is b d \<longleftrightarrow> d = hd x"
  using ahead_next [of b "hd x" "tl x @ y" d] by simp

lemma first_of_step: "first_of (ts @ [LT a d kids]) = (if first_of ts = None then Some a else first_of ts)"
  by (simp add: first_of_def split: list.split)

lemma parse_elements_reads:
  assumes K: "plenty K hp0"
  shows "\<lbrakk>\<And>u x. u \<in> set (v # vs) \<Longrightarrow> text_value f n u = Some x \<Longrightarrow> reads D K pv u x; \<forall>u \<in> set (v # vs). plain k u;
    text_elements f n (v # vs) = Some X; spread hp0 ts hp; const_names ts = []; buffer_ok b;
    b0 = buffer_skip_whitespace (move 1 b); inside b0; ahead b0 = X @ CHR '']'' # y; pb_depth b0 = D\<rbrakk> \<Longrightarrow>
    \<exists>us hp'. parse_elements K pv (first_of ts) (end_of None ts) b hp = Some (True, first_of us, move (length X) b0, hp')
      \<and> spread hp0 us hp' \<and> const_names us = []
      \<and> jvalues (ch_strs hp') us = jvalues (ch_strs hp) ts @ map (canon None) (v # vs)"
proof (induction vs arbitrary: v X ts hp b b0)
  case (Cons u vs)
  obtain x Y where x: "text_value f n v = Some x" "text_elements f n (u # vs) = Some Y"
    "X = x @ (if f then '', '' else '','') @ Y"
    using Cons.prems(3) by (simp only: text_elements.simps) (auto simp: bind_eq_Some_conv simp del: text_elements.simps)
  define w where "w = (if f then '' '' else '''')"
  have X: "X = x @ CHR '','' # w @ Y" using x(3) by (simp add: w_def)
  obtain a hp1 where new: "append_new_item K (end_of None ts) hp = Some (Some a, hp1)" "ready hp1 a zero_data"
    "spread hp0 (ts @ [LT a zero_data []]) hp1" "ch_strs hp1 = ch_strs hp" by (rule append_new_item_plenty [OF K Cons.prems(4)])
  have rv: "reads D K pv v x" using Cons.prems(1) [of v x] x(1) by simp
  have a0: "ahead b0 = x @ CHR '','' # w @ Y @ CHR '']'' # y" using Cons.prems(9) X by simp
  obtain d kids hp2 where r: "pv a b0 hp1 = Some (True, move (length x) b0, hp2)" "spread hp0 (ts @ [LT a d kids]) hp2"
    "const_names [LT a d kids] = []" "keeps hp1 hp2"
    "jvalues (ch_strs hp2) (ts @ [LT a d kids]) = jvalues (ch_strs hp1) ts @ [canon (content (ch_strs hp2) (cd_string zero_data)) v]"
    by (rule read_into_list [OF rv new(2,3) K _ _ Cons.prems(5,8,10) a0]) (simp_all add: not_number_char)
  define b1 where "b1 = move (length x) b0"
  have a1: "ahead b1 = '','' @ w @ Y @ CHR '']'' # y" using ahead_move [OF a0] by (simp add: b1_def)
  have s1: "buffer_skip_whitespace b1 = b1" by (rule skip_none [OF a1]) simp_all
  have n1: "next_is b1 (CHR '','')" using next_char [OF a1] by simp
  have run: "parse_elements K pv (first_of ts) (end_of None ts) b hp
      = parse_elements K pv (first_of (ts @ [LT a d kids])) (end_of None (ts @ [LT a d kids])) b1 hp2"
    using parse_elements_step [where pv = pv, OF new(1) r(1) [unfolded Cons.prems(7)] first_of_step [of ts a d kids]] s1 n1
    by (simp add: b1_def Cons.prems(7) del: first_of_simps)
  define b2 where "b2 = buffer_skip_whitespace (move 1 b1)"
  obtain x' where x': "text_value f n u = Some x'" "\<exists>z. Y = x' @ z" using x(2) by (auto simp: bind_eq_Some_conv)
  have hY: "Y \<noteq> []" "32 < code (hd Y)" using text_head [OF x'(1), of k] Cons.prems(2) x'(2) by auto
  have am: "ahead (move 1 b1) = w @ Y @ CHR '']'' # y" using ahead_move [of b1 "'',''"] a1 by simp
  have b2: "b2 = move (length w) (move 1 b1)" "ahead b2 = Y @ CHR '']'' # y"
    unfolding b2_def by (rule skip_space [OF am _ hY]; simp add: w_def)+
  have ok1: "buffer_ok b1" and ok2: "inside b2"
    using ahead_inside [OF inside_ok [OF Cons.prems(8)], of "x @ CHR '','' # w @ Y" "CHR '']''" y] a0 b2(1)
    by (auto simp: b1_def inside_ok)
  have cn: "const_names (ts @ [LT a d kids]) = []" using Cons.prems(5) r(3) by simp
  obtain us hp' where ih: "parse_elements K pv (first_of (ts @ [LT a d kids])) (end_of None (ts @ [LT a d kids])) b1 hp2
      = Some (True, first_of us, move (length Y) b2, hp')" "spread hp0 us hp'" "const_names us = []"
    "jvalues (ch_strs hp') us = jvalues (ch_strs hp2) (ts @ [LT a d kids]) @ map (canon None) (u # vs)"
    using Cons.IH [OF _ _ x(2) r(2) cn ok1 b2_def ok2 b2(2)] Cons.prems(1,2,10) b2(1) by (auto simp: b1_def)
  have "move (length Y) b2 = move (length X) b0" using b2(1) X by (simp add: b1_def)
  moreover have "jvalues (ch_strs hp') us = jvalues (ch_strs hp) ts @ map (canon None) (v # u # vs)"
    using ih(4) r(5) new(4) by (simp add: content_def)
  ultimately show ?case using run ih(1-3) by auto
next
  case Nil
  have x: "text_value f n v = Some X" using Nil.prems(3) by (auto simp: bind_eq_Some_conv)
  obtain a hp1 where new: "append_new_item K (end_of None ts) hp = Some (Some a, hp1)" "ready hp1 a zero_data"
    "spread hp0 (ts @ [LT a zero_data []]) hp1" "ch_strs hp1 = ch_strs hp" by (rule append_new_item_plenty [OF K Nil.prems(4)])
  have rv: "reads D K pv v X" using Nil.prems(1) [of v X] x(1) by simp
  obtain d kids hp2 where r: "pv a b0 hp1 = Some (True, move (length X) b0, hp2)" "spread hp0 (ts @ [LT a d kids]) hp2"
    "const_names [LT a d kids] = []" "keeps hp1 hp2"
    "jvalues (ch_strs hp2) (ts @ [LT a d kids]) = jvalues (ch_strs hp1) ts @ [canon (content (ch_strs hp2) (cd_string zero_data)) v]"
    by (rule read_into_list [OF rv new(2,3) K _ _ Nil.prems(5,8,10,9)]) (simp_all add: not_number_char)
  define b1 where "b1 = move (length X) b0"
  have a1: "ahead b1 = '']'' @ y" using ahead_move [OF Nil.prems(9)] by (simp add: b1_def)
  have s1: "buffer_skip_whitespace b1 = b1" by (rule skip_none [OF a1]) simp_all
  have n1: "\<not> next_is b1 (CHR '','')" using next_char [OF a1] by simp
  have "parse_elements K pv (first_of ts) (end_of None ts) b hp = Some (True, first_of (ts @ [LT a d kids]), b1, hp2)"
    using parse_elements_step [where pv = pv, OF new(1) r(1) [unfolded Nil.prems(7)] first_of_step [of ts a d kids]] s1 n1
    by (simp add: b1_def Nil.prems(7) del: first_of_simps)
  then show ?case using r Nil.prems(5) new(4) by (auto simp: b1_def content_def intro!: exI [of _ "ts @ [LT a d kids]"])
qed

section \<open>Objects\<close>

text \<open>The name of a member, up to its colon.\<close>

lemma member_name_reads:
  assumes K: "plenty K hp0" and t: "clean t" and s: "spread hp0 ts hp" and b: "buffer_ok b"
    and b0: "b0 = buffer_skip_whitespace (move 1 b)" "inside b0" "ahead b0 = quoted (Some t) @ CHR '':'' # y"
  obtains a b1 e hp1 hp2 hp3 where "append_new_item K (end_of None ts) hp = Some (Some a, hp1)"
    "parse_string K a (buffer_skip_whitespace (move 1 b)) hp1 = Some (True, b1, hp2)"
    "upd_data a (\<lambda>d. d\<lparr>cd_string := cd_valuestring d, cd_valuestring := None\<rparr>) hp2 = Some hp3"
    "b1 = move (length (quoted (Some t))) b0" "buffer_skip_whitespace b1 = b1" "ahead b1 = CHR '':'' # y"
    "ready hp3 a e" "spread hp0 (ts @ [LT a e []]) hp3" "keeps hp hp3"
    "content (ch_strs hp3) (cd_string e) = Some t" "set (ptr_list (cd_string e)) \<subseteq> dom (ch_strs hp3)"
    "cd_valueint e = 0" "cd_valuedouble e = 0"
proof -
  obtain a hp1 where new: "append_new_item K (end_of None ts) hp = Some (Some a, hp1)" "ready hp1 a zero_data"
    "spread hp0 (ts @ [LT a zero_data []]) hp1" "ch_strs hp1 = ch_strs hp" by (rule append_new_item_plenty [OF K s])
  define vd where "vd = (\<lambda>v. zero_data\<lparr>cd_type := 16, cd_valuestring := Some v\<rparr>)"
  define f :: "cjson_data \<Rightarrow> cjson_data" where "f = (\<lambda>d. d\<lparr>cd_string := cd_valuestring d, cd_valuestring := None\<rparr>)"
  define b1 where "b1 = move (length (quoted (Some t))) b0"
  obtain v hp2 where n: "parse_string K a b0 hp1 = Some (True, b1, hp2)" "filled hp1 a (vd v) [] hp2" "ch_strs hp1 v = None"
    "ch_strs hp2 = (ch_strs hp1)(v \<mapsto> t)"
    using parse_string_quoted [OF new(2) b0(2,3) t spread_plenty [OF K new(3)]] by (auto simp: b1_def vd_def)
  have sp2: "spread hp0 (ts @ [LT a (vd v) []]) hp2" by (rule spread_fill [OF new(3,2) n(2)])
  obtain m where m: "ch_items hp2 a = Some m" "cj_next m = None" "cj_child m = None" "cj_data m = vd v"
    using n(2) new(2) by (auto simp: filled_def ready_def)
  have fv: "data_strs (f (vd v)) = data_strs (vd v)" "\<not> is_reference (f (vd v))" "\<not> string_is_const (f (vd v))"
    by (simp_all add: f_def vd_def data_strs_def is_reference_def string_is_const_def zero_data_def)
  obtain hp3 where h3: "upd_data a f hp2 = Some hp3" "ch_items hp3 a = Some (m\<lparr>cj_data := f (vd v)\<rparr>)" "ch_strs hp3 = ch_strs hp2"
    "spread hp0 (ts @ [LT a (f (vd v)) []]) hp3"
    using spread_data [where f = f, OF sp2 fv(1,2) m(1,4)] by blast
  have rd: "ready hp3 a (f (vd v))" using h3(2) m fv by (simp add: ready_def) (simp add: f_def)
  have a1: "ahead b1 = CHR '':'' # y" using ahead_move [OF b0(3)] by (simp add: b1_def)
  have s1: "buffer_skip_whitespace b1 = b1" by (rule skip_none [of _ "'':''"]) (simp_all add: a1)
  have k: "keeps hp hp3" using n(3,4) h3(3) new(4) by (auto simp: keeps_def)
  have nm: "cd_string (f (vd v)) = Some v" "ch_strs hp3 v = Some t" using n(4) h3(3) by (simp_all add: f_def vd_def)
  show ?thesis
    by (rule that [OF new(1) n(1) [unfolded b0(1)] h3(1) [unfolded f_def] b1_def s1 a1 rd h3(4) k])
      (use nm in \<open>auto simp: content_def f_def vd_def zero_data_def\<close>)
qed

lemma newline_space: "c \<in> set (newline f) \<Longrightarrow> code c \<le> 32" "c \<in> set (tabs f n) \<Longrightarrow> code c \<le> 32"
  by (auto simp: newline_def tabs_def split: if_splits)

lemma keeps_content: "keeps hp hp' \<Longrightarrow> set (ptr_list p) \<subseteq> dom (ch_strs hp) \<Longrightarrow> content (ch_strs hp') p = content (ch_strs hp) p"
  by (cases p) (auto simp: keeps_def content_def)

text \<open>A member: its item in the list, and the buffer behind the value.\<close>

lemma member_reads:
  assumes K: "plenty K hp0" and t: "clean (text_of (jv_name v))" and s: "spread hp0 ts hp" "const_names ts = []" and b: "buffer_ok b"
    and b0: "b0 = buffer_skip_whitespace (move 1 b)" "inside b0" "pb_depth b0 = D"
      "ahead b0 = quoted (jv_name v) @ '':'' @ tabs f 1 @ x @ h # y" "\<not> number_char h"
    and v: "reads D K pv v x" "x \<noteq> []" "32 < code (hd x)"
  obtains a d kids b4 hp4 where
    "parse_members K pv (first_of ts) (end_of None ts) b hp =
       (if next_is (buffer_skip_whitespace b4) (CHR '','')
        then parse_members K pv (first_of (ts @ [LT a d kids])) (end_of None (ts @ [LT a d kids])) (buffer_skip_whitespace b4) hp4
        else Some (True, first_of (ts @ [LT a d kids]), buffer_skip_whitespace b4, hp4))"
    "b4 = move (length (quoted (jv_name v) @ '':'' @ tabs f 1 @ x)) b0"
    "spread hp0 (ts @ [LT a d kids]) hp4" "const_names (ts @ [LT a d kids]) = []"
    "jvalues (ch_strs hp4) (ts @ [LT a d kids]) = jvalues (ch_strs hp) ts @ [canon (Some (text_of (jv_name v))) v]"
proof -
  define t where "t = text_of (jv_name v)"
  have q: "quoted (jv_name v) = quoted (Some t)" using quoted_text by (simp add: t_def)
  have a0: "ahead b0 = quoted (Some t) @ CHR '':'' # tabs f 1 @ x @ h # y" using b0(4) q by simp
  obtain a b1 e hp1 hp2 hp3 where n: "append_new_item K (end_of None ts) hp = Some (Some a, hp1)"
    "parse_string K a (buffer_skip_whitespace (move 1 b)) hp1 = Some (True, b1, hp2)"
    "upd_data a (\<lambda>d. d\<lparr>cd_string := cd_valuestring d, cd_valuestring := None\<rparr>) hp2 = Some hp3"
    "b1 = move (length (quoted (Some t))) b0" "buffer_skip_whitespace b1 = b1" "ahead b1 = CHR '':'' # tabs f 1 @ x @ h # y"
    "ready hp3 a e" "spread hp0 (ts @ [LT a e []]) hp3" "keeps hp hp3"
    "content (ch_strs hp3) (cd_string e) = Some t" "set (ptr_list (cd_string e)) \<subseteq> dom (ch_strs hp3)"
    "cd_valueint e = 0" "cd_valuedouble e = 0"
    by (rule member_name_reads [OF K t s(1) b b0(1,2) a0 [unfolded t_def]]) (simp add: t_def)
  define b3 where "b3 = buffer_skip_whitespace (move 1 b1)"
  have am: "ahead (move 1 b1) = tabs f 1 @ x @ h # y" using ahead_move [of b1 "'':''"] n(6) by simp
  have b3: "b3 = move (length (tabs f 1)) (move 1 b1)" "ahead b3 = x @ h # y"
    unfolding b3_def using skip_space [OF am _ v(2,3)] newline_space(2) by blast+
  have i3: "inside b3" "pb_depth b3 = D"
    using ahead_inside [OF inside_ok [OF b0(2)], of "quoted (Some t) @ '':'' @ tabs f 1 @ x" h y] a0 b0(3) b3(1) n(4) by auto
  obtain d kids hp4 where r: "pv a b3 hp3 = Some (True, move (length x) b3, hp4)" "spread hp0 (ts @ [LT a d kids]) hp4"
    "const_names [LT a d kids] = []" "keeps hp3 hp4" "cd_string d = cd_string e"
    "jvalues (ch_strs hp4) (ts @ [LT a d kids]) = jvalues (ch_strs hp3) ts @ [canon (content (ch_strs hp4) (cd_string e)) v]"
    by (rule read_into_list [OF v(1) n(7,8) K n(12,13) s(2) i3 b3(2) b0(5)])
  define b4 where "b4 = move (length x) b3"
  have col: "next_is (buffer_skip_whitespace b1) (CHR '':'')" using n(5,6) ahead_next by simp
  have ts: "jvalues (ch_strs hp3) ts = jvalues (ch_strs hp) ts"
    by (rule keeps_values [OF n(9) spread_strs [OF s(1)] s(2)])
  have nm: "content (ch_strs hp4) (cd_string e) = Some t" using keeps_content [OF r(4) n(11)] n(10) by simp
  have run: "parse_members K pv (first_of ts) (end_of None ts) b hp =
       (if next_is (buffer_skip_whitespace b4) (CHR '','')
        then parse_members K pv (first_of (ts @ [LT a d kids])) (end_of None (ts @ [LT a d kids])) (buffer_skip_whitespace b4) hp4
        else Some (True, first_of (ts @ [LT a d kids]), buffer_skip_whitespace b4, hp4))"
    using parse_members_step [where pv = pv, OF n(1-3) first_of_step [of ts a d kids]] col n(5) r(1)
    by (simp add: b3_def [symmetric] b4_def [symmetric] del: first_of_simps One_nat_def)
  show ?thesis
    by (rule that [OF run _ r(2)]) (use r(3,6) s(2) ts nm in \<open>simp_all add: b4_def b3(1) n(4) q t_def add.assoc\<close>)
qed

lemma parse_members_reads:
  assumes K: "plenty K hp0"
  shows "\<lbrakk>\<And>u x. u \<in> set (v # vs) \<Longrightarrow> text_value f m u = Some x \<Longrightarrow> reads D K pv u x;
    \<forall>u \<in> set (v # vs). plain k u \<and> clean (text_of (jv_name u));
    text_members f m (v # vs) = Some (tabs f m @ X); spread hp0 ts hp; const_names ts = []; buffer_ok b;
    b0 = buffer_skip_whitespace (move 1 b); inside b0; ahead b0 = X @ w @ CHR ''}'' # y; pb_depth b0 = D; \<forall>c \<in> set w. code c \<le> 32\<rbrakk> \<Longrightarrow>
    \<exists>us hp'. parse_members K pv (first_of ts) (end_of None ts) b hp = Some (True, first_of us, move (length X + length w) b0, hp')
      \<and> spread hp0 us hp' \<and> const_names us = []
      \<and> jvalues (ch_strs hp') us = jvalues (ch_strs hp) ts @ map (\<lambda>u. canon (Some (text_of (jv_name u))) u) (v # vs)"
proof (induction vs arbitrary: v X ts hp b b0)
  case (Cons u vs)
  obtain x Y where x: "text_value f m v = Some x" "text_members f m (u # vs) = Some (tabs f m @ Y)"
    "X = quoted (jv_name v) @ '':'' @ tabs f 1 @ x @ '','' @ newline f @ tabs f m @ Y"
    using Cons.prems(3) by (auto simp: bind_eq_Some_conv)
  have rv: "reads D K pv v x" using Cons.prems(1) [of v x] x(1) by simp
  have hx: "x \<noteq> []" "32 < code (hd x)" using text_head [OF x(1), of k] Cons.prems(2) by auto
  have cl: "clean (text_of (jv_name v))" using Cons.prems(2) by simp
  have a0: "ahead b0 = quoted (jv_name v) @ '':'' @ tabs f 1 @ x @ CHR '','' # newline f @ tabs f m @ Y @ w @ CHR ''}'' # y"
    using Cons.prems(9) x(3) by simp
  obtain a d kids b4 hp4 where r: "parse_members K pv (first_of ts) (end_of None ts) b hp =
       (if next_is (buffer_skip_whitespace b4) (CHR '','')
        then parse_members K pv (first_of (ts @ [LT a d kids])) (end_of None (ts @ [LT a d kids])) (buffer_skip_whitespace b4) hp4
        else Some (True, first_of (ts @ [LT a d kids]), buffer_skip_whitespace b4, hp4))"
    "b4 = move (length (quoted (jv_name v) @ '':'' @ tabs f 1 @ x)) b0"
    "spread hp0 (ts @ [LT a d kids]) hp4" "const_names (ts @ [LT a d kids]) = []"
    "jvalues (ch_strs hp4) (ts @ [LT a d kids]) = jvalues (ch_strs hp) ts @ [canon (Some (text_of (jv_name v))) v]"
    by (rule member_reads [OF K cl Cons.prems(4-8,10) a0 _ rv hx]) (simp_all add: not_number_char)
  have a4: "ahead b4 = CHR '','' # newline f @ tabs f m @ Y @ w @ CHR ''}'' # y"
    using ahead_move [of b0 "quoted (jv_name v) @ '':'' @ tabs f 1 @ x"] a0 r(2) by simp
  have s4: "buffer_skip_whitespace b4 = b4" by (rule skip_none [of _ "'',''"]) (simp_all add: a4)
  have n4: "next_is b4 (CHR '','')" using ahead_next [OF a4] by simp
  define b5 where "b5 = buffer_skip_whitespace (move 1 b4)"
  have am: "ahead (move 1 b4) = (newline f @ tabs f m) @ Y @ w @ CHR ''}'' # y" using ahead_move [of b4 "'',''"] a4 by simp
  have hY: "Y \<noteq> []" "32 < code (hd Y)" using x(2) by (auto simp: bind_eq_Some_conv quoted_def)
  have b5: "b5 = move (length (newline f @ tabs f m)) (move 1 b4)" "ahead b5 = Y @ w @ CHR ''}'' # y"
    unfolding b5_def by (rule skip_space [OF am _ hY]; use newline_space in \<open>auto\<close>)+
  have ok4: "buffer_ok b4" and i5: "inside b5" "pb_depth b5 = D"
    using ahead_inside [OF inside_ok [OF Cons.prems(8)], of "X @ w" "CHR ''}''" y] Cons.prems(9,10) b5(1) r(2) x(3)
    by (auto simp: inside_ok)
  obtain us hp' where ih: "parse_members K pv (first_of (ts @ [LT a d kids])) (end_of None (ts @ [LT a d kids])) b4 hp4
      = Some (True, first_of us, move (length Y + length w) b5, hp')" "spread hp0 us hp'" "const_names us = []"
    "jvalues (ch_strs hp') us = jvalues (ch_strs hp4) (ts @ [LT a d kids]) @ map (\<lambda>u. canon (Some (text_of (jv_name u))) u) (u # vs)"
    using Cons.IH [OF _ _ x(2) r(3,4) ok4 b5_def i5(1) b5(2) i5(2) Cons.prems(11)] Cons.prems(1,2) by auto
  have "move (length Y + length w) b5 = move (length X + length w) b0" using b5(1) r(2) x(3) by (simp add: add.assoc add.left_commute)
  then show ?case using r(1,5) s4 n4 ih by (intro exI [of _ us] exI [of _ hp']) simp
next
  case Nil
  obtain x where x: "text_value f m v = Some x" "X = quoted (jv_name v) @ '':'' @ tabs f 1 @ x @ newline f"
    using Nil.prems(3) by (auto simp: bind_eq_Some_conv)
  have rv: "reads D K pv v x" using Nil.prems(1) [of v x] x(1) by simp
  have hx: "x \<noteq> []" "32 < code (hd x)" using text_head [OF x(1), of k] Nil.prems(2) by auto
  have cl: "clean (text_of (jv_name v))" using Nil.prems(2) by simp
  define z where "z = newline f @ w @ CHR ''}'' # y"
  have z1: "z \<noteq> []" by (simp add: z_def)
  have "code (hd z) \<le> 32 \<or> hd z = CHR ''}''"
    using Nil.prems(11) newline_space(1) [of _ f] by (cases "newline f @ w") (auto simp: z_def append_eq_Cons_conv)
  then have z: "z = hd z # tl z" "\<not> number_char (hd z)" using z1 not_number_char [of "hd z"] by auto
  have a0: "ahead b0 = quoted (jv_name v) @ '':'' @ tabs f 1 @ x @ hd z # tl z"
    unfolding z(1) [symmetric] using Nil.prems(9) x(2) by (simp add: z_def)
  obtain a d kids b4 hp4 where r: "parse_members K pv (first_of ts) (end_of None ts) b hp =
       (if next_is (buffer_skip_whitespace b4) (CHR '','')
        then parse_members K pv (first_of (ts @ [LT a d kids])) (end_of None (ts @ [LT a d kids])) (buffer_skip_whitespace b4) hp4
        else Some (True, first_of (ts @ [LT a d kids]), buffer_skip_whitespace b4, hp4))"
    "b4 = move (length (quoted (jv_name v) @ '':'' @ tabs f 1 @ x)) b0"
    "spread hp0 (ts @ [LT a d kids]) hp4" "const_names (ts @ [LT a d kids]) = []"
    "jvalues (ch_strs hp4) (ts @ [LT a d kids]) = jvalues (ch_strs hp) ts @ [canon (Some (text_of (jv_name v))) v]"
    by (rule member_reads [OF K cl Nil.prems(4-8,10) a0 z(2) rv hx])
  have a4: "ahead b4 = (newline f @ w) @ ''}'' @ y"
    using ahead_move [of b0 "quoted (jv_name v) @ '':'' @ tabs f 1 @ x"] a0 r(2) z(1) by (simp add: z_def)
  have s4: "buffer_skip_whitespace b4 = move (length (newline f @ w)) b4" "ahead (buffer_skip_whitespace b4) = ''}'' @ y"
    by (rule skip_space [OF a4]; use Nil.prems(11) newline_space(1) in \<open>auto\<close>)+
  have n4: "\<not> next_is (buffer_skip_whitespace b4) (CHR '','')" using next_char [OF s4(2)] by simp
  have "move (length X + length w) b0 = buffer_skip_whitespace b4" using s4(1) r(2) x(2) by (simp add: add.assoc add.left_commute)
  then show ?case using r n4 by (intro exI [of _ "ts @ [LT a d kids]"] exI [of _ hp4]) simp
qed

section \<open>Values\<close>

lemma text_no_bracket:
  assumes "text_value f n v = Some x" "plain k v"
  shows "hd x \<noteq> CHR '']''"
proof -
  obtain t s i d nm kids where v: "v = JVal t s i d nm kids" by (cases v)
  note p = assms(2) [unfolded v] and x = assms(1) [unfolded v]
  show ?thesis
  proof (cases rule: plain_cases [OF p, case_names null no yes number string array object])
    case number
    then have "x = number_buffer d" using x plain_number(2) [OF p number] by (simp add: text_value_types(4))
    then show ?thesis using plain_number(3) [OF p number] by (auto simp: is_digit_def)
  qed (use x in \<open>auto simp: text_value_types quoted_def\<close>)
qed

lemma finish_reads:
  assumes r: "ready hp a e" "cd_valueint e = 0" "cd_valuedouble e = 0" and s: "spread hp us hp1" and t: "t \<in> {32, 64}"
  obtains hp' where "finish_value t a (first_of us) b hp1 = Some (True, move 1 (b\<lparr>pb_depth := pb_depth b - 1\<rparr>), hp')"
    "filled hp a (e\<lparr>cd_type := t\<rparr>) us hp'"
    "jvalues (ch_strs hp') [LT a (e\<lparr>cd_type := t\<rparr>) us] = [JVal t None 0 0 (content (ch_strs hp') (cd_string e)) (jvalues (ch_strs hp1) us)]"
proof -
  have d: "cd_string (e\<lparr>cd_type := t\<rparr>) = cd_string e" "cd_valuestring (e\<lparr>cd_type := t\<rparr>) = None"
    "\<not> is_reference (e\<lparr>cd_type := t\<rparr>)" "\<not> string_is_const (e\<lparr>cd_type := t\<rparr>)"
    using r t by (auto simp: ready_def is_reference_def string_is_const_def)
  obtain hp' where h: "upd_item a (\<lambda>m. m\<lparr>cj_child := first_of us, cj_data := (cj_data m)\<lparr>cd_type := t\<rparr>\<rparr>) hp1 = Some hp'"
    "filled hp a (e\<lparr>cd_type := t\<rparr>) us hp'" "ch_strs hp' = ch_strs hp1"
    using filled_children [where f = "\<lambda>d. d\<lparr>cd_type := t\<rparr>", OF r(1) s d refl] by blast
  show ?thesis by (rule that [of hp']) (use h d r in \<open>simp_all add: finish_value_def content_def\<close>)
qed

lemma literal_reads:
  assumes r: "ready hp a e" "cd_valueint e = 0" "cd_valuedouble e = 0"
    and f: "f = (\<lambda>d :: cjson_data. d\<lparr>cd_type := t, cd_valueint := i, cd_valuedouble := x\<rparr>)" "t \<in> {4, 1, 2, 8}"
  obtains hp' where "upd_data a f hp = Some hp'" "filled hp a (f e) [] hp'"
    "jvalues (ch_strs hp') [LT a (f e) []] = [JVal t None i x (content (ch_strs hp') (cd_string e)) []]"
proof -
  have d: "cd_string (f e) = cd_string e" "cd_valuestring (f e) = None" "\<not> is_reference (f e)" "\<not> string_is_const (f e)"
    using r f by (auto simp: ready_def is_reference_def string_is_const_def)
  obtain hp' where h: "upd_data a f hp = Some hp'" "filled hp a (f e) [] hp'" using filled_data [where f = f, OF r(1) d] by blast
  show ?thesis by (rule that [OF h]) (use d in \<open>simp add: f(1) content_def\<close>)
qed

lemma literal_update:
  assumes "ready hp a e" "cd_valueint e = 0" "cd_valuedouble e = 0"
  shows "upd_data a (\<lambda>d. d\<lparr>cd_type := t\<rparr>) hp = upd_data a (\<lambda>d. d\<lparr>cd_type := t, cd_valueint := 0, cd_valuedouble := 0\<rparr>) hp"
    "upd_data a (\<lambda>d. d\<lparr>cd_type := t, cd_valueint := i\<rparr>) hp = upd_data a (\<lambda>d. d\<lparr>cd_type := t, cd_valueint := i, cd_valuedouble := 0\<rparr>) hp"
proof -
  obtain m where m: "ch_items hp a = Some m" "cj_data m = e" using assms(1) by (auto simp: ready_def)
  have "e\<lparr>cd_type := t\<rparr> = e\<lparr>cd_type := t, cd_valueint := 0, cd_valuedouble := 0\<rparr>"
    "e\<lparr>cd_type := t, cd_valueint := i\<rparr> = e\<lparr>cd_type := t, cd_valueint := i, cd_valuedouble := 0\<rparr>"
    using assms(2,3) by (cases e; simp)+
  then show "upd_data a (\<lambda>d. d\<lparr>cd_type := t\<rparr>) hp = upd_data a (\<lambda>d. d\<lparr>cd_type := t, cd_valueint := 0, cd_valuedouble := 0\<rparr>) hp"
    "upd_data a (\<lambda>d. d\<lparr>cd_type := t, cd_valueint := i\<rparr>) hp = upd_data a (\<lambda>d. d\<lparr>cd_type := t, cd_valueint := i, cd_valuedouble := 0\<rparr>) hp"
    using m by (simp_all add: upd_data_def upd_item_def)
qed

lemma parse_value_head:
  assumes "ahead b = h # z" "h \<notin> {CHR ''n'', CHR ''f'', CHR ''t''}"
  shows "parse_value (Suc L) K a b hp =
    (if h = CHR 0x22 then parse_string K a b hp else if h = CHR ''-'' \<or> is_digit h then parse_number a b hp
     else if h = CHR ''['' then parse_array K (parse_value L K) a b hp
     else if h = CHR ''{'' then parse_object K (parse_value L K) a b hp else Some (False, b, hp))"
  using assms ahead_looking [of b "h # z"] ahead_next [OF assms(1)] ahead_at [OF assms(1)] by (auto simp: parse_value.simps)

lemma canon_types:
  "t AND 0xFF = cJSON_NULL \<Longrightarrow> canon nm (JVal t s i d n kids) = JVal 4 None 0 0 nm []"
  "t AND 0xFF = cJSON_False \<Longrightarrow> canon nm (JVal t s i d n kids) = JVal 1 None 0 0 nm []"
  "t AND 0xFF = cJSON_True \<Longrightarrow> canon nm (JVal t s i d n kids) = JVal 2 None 1 0 nm []"
  "t AND 0xFF = cJSON_Number \<Longrightarrow> canon nm (JVal t s i d n kids) = JVal 8 None (saturate_int d) d nm []"
  "t AND 0xFF = cJSON_String \<Longrightarrow> canon nm (JVal t s i d n kids) = JVal 16 (Some (text_of s)) 0 0 nm []"
  "t AND 0xFF = cJSON_Array \<Longrightarrow> canon nm (JVal t s i d n kids) = JVal 32 None 0 0 nm (map (canon None) kids)"
  "t AND 0xFF = cJSON_Object \<Longrightarrow> canon nm (JVal t s i d n kids) = JVal 64 None 0 0 nm (map (\<lambda>k. canon (Some (text_of (jv_name k))) k) kids)"
  by (simp_all add: canon.simps)

lemma number_reads:
  assumes p: "plain k (JVal t s i d nm kids)" "t AND 0xFF = cJSON_Number"
    and r: "ready hp a e" "cd_valueint e = 0" "cd_valuedouble e = 0" and b: "ahead b = number_buffer d @ c # y" "\<not> number_char c"
  shows "\<exists>hp' d' kids'. parse_number a b hp = Some (True, move (length (number_buffer d)) b, hp') \<and> filled hp a d' kids' hp' \<and> const_names kids' = []
    \<and> jvalues (ch_strs hp') [LT a d' kids'] = [canon (content (ch_strs hp') (cd_string e)) (JVal t s i d nm kids)]"
proof -
  note n = survivesD [OF plain_number(1) [OF p]]
  define z where "z = number_buffer d"
  have "take 63 (ahead b) = z @ take (63 - length z) (c # y)" using b(1) n(2) by (simp add: z_def)
  moreover have "63 - length z = Suc (62 - length z)" using n(2) by (simp add: z_def)
  ultimately have "number_text b = number_buffer d"
    using b(2) number_buffer_shape(1) [OF n(3)] by (simp add: number_text_def ahead_def takeWhile_append z_def)
  moreover have "number_buffer d \<noteq> []" using number_buffer_shape(2) [OF n(3)] by auto
  moreover define f :: "cjson_data \<Rightarrow> cjson_data" where "f = (\<lambda>e. e\<lparr>cd_type := 8, cd_valueint := saturate_int d, cd_valuedouble := d\<rparr>)"
  obtain hp' where h: "upd_data a f hp = Some hp'" "filled hp a (f e) [] hp'"
    "jvalues (ch_strs hp') [LT a (f e) []] = [JVal 8 None (saturate_int d) d (content (ch_strs hp') (cd_string e)) []]"
    by (rule literal_reads [OF r f_def]) simp
  have "(\<lambda>e. e\<lparr>cd_valuedouble := d, cd_valueint := saturate_int d, cd_type := 8\<rparr>) = f" by (simp add: f_def fun_eq_iff)
  ultimately have "parse_number a b hp = Some (True, move (length (number_buffer d)) b, hp')"
    using h(1) n(1) by (simp add: parse_number_def)
  then show ?thesis
    by (intro exI [of _ hp'] exI [of _ "f e"] exI [of _ "[]"]) (use h(2,3) canon_types(4) [OF p(2)] in simp)
qed

lemma depth_back: "move n (b\<lparr>pb_depth := pb_depth b + 1\<rparr>)\<lparr>pb_depth := pb_depth (move n (b\<lparr>pb_depth := pb_depth b + 1\<rparr>)) - 1\<rparr> = move n b"
  by (cases b) (simp add: move_def)

lemma goto_back: "0 < pb_offset b \<Longrightarrow> move 1 (goto_pos (pb_offset b - 1) b) = b"
  by (simp add: move_def goto_pos_def)

lemma array_reads:
  assumes K: "plenty K hp" and pv: "\<And>u x. u \<in> set kids \<Longrightarrow> text_value f m u = Some x \<Longrightarrow> reads (D + 1) K pv u x"
    and p: "\<forall>u \<in> set kids. plain k u" and X: "text_elements f m kids = Some X"
    and r: "ready hp a e" "cd_valueint e = 0" "cd_valuedouble e = 0"
    and b: "inside b" "pb_depth b = D" "D < CJSON_NESTING_LIMIT" "ahead b = (''['' @ X @ '']'') @ y"
  shows "\<exists>hp' us. parse_array K pv a b hp = Some (True, move (length (''['' @ X @ '']'')) b, hp') \<and> filled hp a (e\<lparr>cd_type := 32\<rparr>) us hp'
    \<and> const_names us = [] \<and> jvalues (ch_strs hp') [LT a (e\<lparr>cd_type := 32\<rparr>) us] = [JVal 32 None 0 0 (content (ch_strs hp') (cd_string e)) (map (canon None) kids)]"
proof -
  define b' where "b' = b\<lparr>pb_depth := pb_depth b + 1\<rparr>"
  have b': "ahead b' = ''['' @ X @ '']'' @ y" "pb_depth b' = D + 1" "inside b'" "pb_offset b' = pb_offset b"
    using b by (simp_all add: b'_def ahead_def inside_def buffer_ok_def)
  have dD: "b\<lparr>pb_depth := D + 1\<rparr> = b'" using b(2) by (simp add: b'_def)
  define b1 where "b1 = move 1 b'"
  have a1: "ahead b1 = X @ '']'' @ y" using ahead_move [of b' "''[''"] b'(1) by (simp add: b1_def)
  have X0: "X \<noteq> [] \<and> 32 < code (hd X)" if "kids = u # us" for u us
    using X that text_head [of f m u _ k] p by (auto simp: bind_eq_Some_conv)
  have "X @ '']'' \<noteq> [] \<and> 32 < code (hd (X @ '']''))" using X0 X by (cases kids) (auto simp: hd_append)
  then have s1: "buffer_skip_whitespace b1 = b1" using skip_none [of b1 "X @ '']''" y] a1 by simp
  have i1: "inside b1" "pb_depth b1 = D + 1" "0 < pb_offset b1"
    using ahead_inside [OF inside_ok [OF b'(3)], of "''['' @ X" "CHR '']''" y 1] b' by (simp_all add: b1_def)
  have at0: "buffer_at b' 0 = Some (CHR ''['')" using ahead_at b'(1) by simp
  define rest where "rest = (if next_is b1 (CHR '']'') then finish_value 32 a None b1 hp
      else do { (ok, head, b, hp) \<leftarrow> parse_elements K pv None None (goto_pos (pb_offset b1 - 1) b1) hp;
            if ok \<and> next_is b (CHR '']'') then finish_value 32 a head b hp
            else do { hp \<leftarrow> cJSON_Delete head hp; Some (False, b, hp) } })"
  have "\<exists>us hp1. rest = finish_value 32 a (first_of us) (move (length X) b1) hp1
      \<and> spread hp us hp1 \<and> const_names us = [] \<and> jvalues (ch_strs hp1) us = map (canon None) kids"
  proof (cases kids)
    case Nil
    then have X0: "X = []" using X by simp
    then have "next_is b1 (CHR '']'')" using next_char [of b1 "'']''" y] a1 by simp
    then show ?thesis using Nil X0 spread_refl by (intro exI [of _ "[]"] exI [of _ hp]) (simp add: rest_def)
  next
    case (Cons u us)
    define bb where "bb = goto_pos (pb_offset b1 - 1) b1"
    have bb: "move 1 bb = b1" "buffer_ok bb" using goto_back [OF i1(3)] i1(1) by (auto simp: bb_def inside_def buffer_ok_def)
    have "\<exists>vs hp1. parse_elements K pv (first_of []) (end_of None []) bb hp = Some (True, first_of vs, move (length X) b1, hp1)
      \<and> spread hp vs hp1 \<and> const_names vs = [] \<and> jvalues (ch_strs hp1) vs = jvalues (ch_strs hp) [] @ map (canon None) (u # us)"
    proof (rule parse_elements_reads [OF K])
      show "reads (D + 1) K pv w x" if "w \<in> set (u # us)" "text_value f m w = Some x" for w x using pv [of w x] that Cons by simp
      show "\<forall>w \<in> set (u # us). plain k w" "text_elements f m (u # us) = Some X" using p X Cons by simp_all
      show "b1 = buffer_skip_whitespace (move 1 bb)" using bb s1 by simp
      show "ahead b1 = X @ CHR '']'' # y" using a1 by simp
    qed (simp_all add: spread_refl bb(2) i1)
    then obtain vs hp1 where l: "parse_elements K pv None None bb hp = Some (True, first_of vs, move (length X) b1, hp1)"
      "spread hp vs hp1" "const_names vs = []" "jvalues (ch_strs hp1) vs = map (canon None) (u # us)" by auto
    have "hd X \<noteq> CHR '']''"
    proof -
      obtain x where x: "text_value f m u = Some x" "\<exists>z. X = x @ z" using X Cons by (auto simp: bind_eq_Some_conv)
      have "plain k u" using p Cons by simp
      then have "hd x \<noteq> CHR '']''" by (rule text_no_bracket [OF x(1)])
      then show ?thesis using x(2) text_head [OF x(1) \<open>plain k u\<close>] by auto
    qed
    then have n1: "\<not> next_is b1 (CHR '']'')" using next_char [of b1 X] a1 X0 [OF Cons] by simp
    have n2: "next_is (move (length X) b1) (CHR '']'')" using next_char [of "move (length X) b1" "'']''" y] ahead_move [OF a1] by simp
    show ?thesis using l n1 n2 by (intro exI [of _ vs] exI [of _ hp1]) (simp add: rest_def bb_def Cons)
  qed
  then obtain us hp1 where u: "rest = finish_value 32 a (first_of us) (move (length X) b1) hp1"
      "spread hp us hp1" "const_names us = []" "jvalues (ch_strs hp1) us = map (canon None) kids" by blast
  have t32: "(32::u32) \<in> {32, 64}" by simp
  obtain hp' where h: "finish_value 32 a (first_of us) (move (length X) b1) hp1
      = Some (True, move 1 ((move (length X) b1)\<lparr>pb_depth := pb_depth (move (length X) b1) - 1\<rparr>), hp')"
    "filled hp a (e\<lparr>cd_type := 32\<rparr>) us hp'"
    "jvalues (ch_strs hp') [LT a (e\<lparr>cd_type := 32\<rparr>) us] = [JVal 32 None 0 0 (content (ch_strs hp') (cd_string e)) (jvalues (ch_strs hp1) us)]"
    by (rule finish_reads [OF r u(2) t32])
  have mv: "move 1 ((move (length X) b1)\<lparr>pb_depth := pb_depth (move (length X) b1) - 1\<rparr>) = move (length (''['' @ X @ '']'')) b"
    using depth_back [of "1 + length X" b] by (simp add: b1_def b'_def)
  have acc: "can_access_at_index b1 0" using i1(1) by (simp add: inside_def can_access_at_index_def)
  have "parse_array K pv a b hp = rest"
    using b(2,3) at0 s1 acc dD by (simp add: rest_def parse_array_def b1_def [symmetric] Let_def del: One_nat_def)
  then have "parse_array K pv a b hp = Some (True, move (length (''['' @ X @ '']'')) b, hp')"
    using u(1) h(1) unfolding mv by simp
  then show ?thesis using h(2,3) u(3,4) by auto
qed

lemma object_reads:
  assumes K: "plenty K hp" and pv: "\<And>u x. u \<in> set kids \<Longrightarrow> text_value f (m + 1) u = Some x \<Longrightarrow> reads (D + 1) K pv u x"
    and p: "\<forall>u \<in> set kids. plain k u \<and> clean (text_of (jv_name u))" and X: "text_members f (m + 1) kids = Some X"
    and r: "ready hp a e" "cd_valueint e = 0" "cd_valuedouble e = 0"
    and b: "inside b" "pb_depth b = D" "D < CJSON_NESTING_LIMIT" "ahead b = (''{'' @ newline f @ X @ tabs f m @ ''}'') @ y"
  shows "\<exists>hp' us. parse_object K pv a b hp = Some (True, move (length (''{'' @ newline f @ X @ tabs f m @ ''}'')) b, hp')
    \<and> filled hp a (e\<lparr>cd_type := 64\<rparr>) us hp' \<and> const_names us = []
    \<and> jvalues (ch_strs hp') [LT a (e\<lparr>cd_type := 64\<rparr>) us]
      = [JVal 64 None 0 0 (content (ch_strs hp') (cd_string e)) (map (\<lambda>k. canon (Some (text_of (jv_name k))) k) kids)]"
proof -
  define b' where "b' = b\<lparr>pb_depth := pb_depth b + 1\<rparr>"
  have b': "ahead b' = ''{'' @ newline f @ X @ tabs f m @ ''}'' @ y" "pb_depth b' = D + 1" "inside b'" "pb_offset b' = pb_offset b"
    using b by (simp_all add: b'_def ahead_def inside_def buffer_ok_def)
  have dD: "b\<lparr>pb_depth := D + 1\<rparr> = b'" using b(2) by (simp add: b'_def)
  define b1 where "b1 = buffer_skip_whitespace (move 1 b')"
  have am: "ahead (move 1 b') = newline f @ X @ tabs f m @ ''}'' @ y" using ahead_move [of b' "''{''"] b'(1) by simp
  define rest where "rest = (if next_is b1 (CHR ''}'') then finish_value 64 a None b1 hp
      else do { (ok, head, b, hp) \<leftarrow> parse_members K pv None None (goto_pos (pb_offset b1 - 1) b1) hp;
            if ok \<and> next_is b (CHR ''}'') then finish_value 64 a head b hp
            else do { hp \<leftarrow> cJSON_Delete head hp; Some (False, b, hp) } })"
  have "\<exists>us hp1. rest = finish_value 64 a (first_of us) (move (length (newline f @ X @ tabs f m)) (move 1 b')) hp1
      \<and> spread hp us hp1 \<and> const_names us = [] \<and> jvalues (ch_strs hp1) us = map (\<lambda>k. canon (Some (text_of (jv_name k))) k) kids"
  proof (cases kids)
    case Nil
    then have X0: "X = []" using X by simp
    have am': "ahead (move 1 b') = (newline f @ tabs f m) @ ''}'' @ y" using am X0 by simp
    have "b1 = move (length (newline f @ tabs f m)) (move 1 b')" "ahead b1 = ''}'' @ y"
      unfolding b1_def by (rule skip_space [OF am']; use newline_space in \<open>auto\<close>)+
    moreover have "next_is b1 (CHR ''}'')" using next_char [OF calculation(2)] by simp
    ultimately show ?thesis using Nil X0 spread_refl by (intro exI [of _ "[]"] exI [of _ hp]) (simp add: rest_def)
  next
    case (Cons u us)
    obtain Y where Y: "X = tabs f (m + 1) @ Y" "\<exists>z. Y = quoted (jv_name u) @ z" using X Cons by (auto simp: bind_eq_Some_conv)
    have hY: "Y \<noteq> []" "32 < code (hd Y)" "hd Y \<noteq> CHR ''}''" using Y(2) by (auto simp: quoted_def)
    have am': "ahead (move 1 b') = (newline f @ tabs f (m + 1)) @ Y @ tabs f m @ ''}'' @ y" using am Y(1) by simp
    have b1: "b1 = move (length (newline f @ tabs f (m + 1))) (move 1 b')" "ahead b1 = Y @ tabs f m @ ''}'' @ y"
      unfolding b1_def by (rule skip_space [OF am' _ hY(1,2)]; use newline_space in \<open>auto\<close>)+
    have i1: "inside b1" "pb_depth b1 = D + 1" "0 < pb_offset b1"
      using ahead_inside [OF inside_ok [OF b'(3)], of "''{'' @ newline f @ X @ tabs f m" "CHR ''}''" y "1 + length (newline f @ tabs f (m + 1))"] b' Y(1) b1(1)
      by simp_all
    define bb where "bb = goto_pos (pb_offset b1 - 1) b1"
    have bb: "move 1 bb = b1" "buffer_ok bb" using goto_back [OF i1(3)] i1(1) by (auto simp: bb_def inside_def buffer_ok_def)
    have s1: "buffer_skip_whitespace b1 = b1" by (rule skip_none [OF b1(2) hY(1,2)])
    have "\<exists>vs hp1. parse_members K pv (first_of []) (end_of None []) bb hp = Some (True, first_of vs, move (length Y + length (tabs f m)) b1, hp1)
      \<and> spread hp vs hp1 \<and> const_names vs = []
      \<and> jvalues (ch_strs hp1) vs = jvalues (ch_strs hp) [] @ map (\<lambda>k. canon (Some (text_of (jv_name k))) k) (u # us)"
    proof (rule parse_members_reads [OF K])
      show "reads (D + 1) K pv w x" if "w \<in> set (u # us)" "text_value f (m + 1) w = Some x" for w x using pv [of w x] that Cons by simp
      show "\<forall>w \<in> set (u # us). plain k w \<and> clean (text_of (jv_name w))" "text_members f (m + 1) (u # us) = Some (tabs f (m + 1) @ Y)"
        using p X Cons Y(1) by simp_all
      show "b1 = buffer_skip_whitespace (move 1 bb)" using bb s1 by simp
      show "ahead b1 = Y @ tabs f m @ CHR ''}'' # y" using b1(2) by simp
    qed (simp_all add: spread_refl bb(2) i1 newline_space)
    then obtain vs hp1 where l: "parse_members K pv None None bb hp = Some (True, first_of vs, move (length Y + length (tabs f m)) b1, hp1)"
      "spread hp vs hp1" "const_names vs = []" "jvalues (ch_strs hp1) vs = map (\<lambda>k. canon (Some (text_of (jv_name k))) k) (u # us)" by auto
    have n1: "\<not> next_is b1 (CHR ''}'')" using next_char [OF b1(2) hY(1)] hY(3) by simp
    have mv: "move (length Y + length (tabs f m)) b1 = move (length (newline f @ X @ tabs f m)) (move 1 b')"
      using b1(1) Y(1) by (simp add: add.assoc add.left_commute)
    have n2: "next_is (move (length Y + length (tabs f m)) b1) (CHR ''}'')"
      using next_char [of "move (length (Y @ tabs f m)) b1" "''}''" y] ahead_move [of b1 "Y @ tabs f m" "''}'' @ y"] b1(2) by simp
    show ?thesis using l n1 n2 mv by (intro exI [of _ vs] exI [of _ hp1]) (simp add: rest_def bb_def Cons)
  qed
  then obtain us hp1 where u: "rest = finish_value 64 a (first_of us) (move (length (newline f @ X @ tabs f m)) (move 1 b')) hp1"
      "spread hp us hp1" "const_names us = []" "jvalues (ch_strs hp1) us = map (\<lambda>k. canon (Some (text_of (jv_name k))) k) kids" by blast
  define b2 where "b2 = move (length (newline f @ X @ tabs f m)) (move 1 b')"
  have t64: "(64::u32) \<in> {32, 64}" by simp
  obtain hp' where h: "finish_value 64 a (first_of us) b2 hp1 = Some (True, move 1 (b2\<lparr>pb_depth := pb_depth b2 - 1\<rparr>), hp')"
    "filled hp a (e\<lparr>cd_type := 64\<rparr>) us hp'"
    "jvalues (ch_strs hp') [LT a (e\<lparr>cd_type := 64\<rparr>) us] = [JVal 64 None 0 0 (content (ch_strs hp') (cd_string e)) (jvalues (ch_strs hp1) us)]"
    by (rule finish_reads [OF r u(2) t64])
  have mv: "move 1 (b2\<lparr>pb_depth := pb_depth b2 - 1\<rparr>) = move (length (''{'' @ newline f @ X @ tabs f m @ ''}'')) b"
    using depth_back [of "1 + length (newline f @ X @ tabs f m)" b] by (simp add: b2_def b'_def add.assoc)
  have nx: "next_is b' (CHR ''{'')" using ahead_next b'(1) by simp
  have "inside b1" using inside_skip(1) [of "move 1 b'"] ahead_inside [OF inside_ok [OF b'(3)], of "''{'' @ newline f @ X @ tabs f m" "CHR ''}''" y 1] b'(1)
    by (simp add: b1_def inside_ok)
  then have acc: "can_access_at_index b1 0" by (simp add: inside_def can_access_at_index_def)
  have "parse_object K pv a b hp = rest"
    using b(2,3) nx acc dD by (simp add: rest_def parse_object_def b1_def [symmetric] Let_def del: One_nat_def)
  then have "parse_object K pv a b hp = Some (True, move (length (''{'' @ newline f @ X @ tabs f m @ ''}'')) b, hp')"
    using u(1) [folded b2_def] h(1) unfolding mv by simp
  then show ?thesis using h(2,3) u(3,4) by auto
qed

lemma value_reads:
  assumes al: "alloc_fresh (ck_item K)"
  shows "\<lbrakk>plain k v; text_value f n v = Some x; D + k \<le> CJSON_NESTING_LIMIT; CJSON_NESTING_LIMIT < D + L\<rbrakk> \<Longrightarrow> reads D K (parse_value L K) v x"
proof (induction L arbitrary: D k n v x)
  case (Suc L)
  obtain t s i d nm kids where v: "v = JVal t s i d nm kids" by (cases v)
  note p = Suc.prems(1) [unfolded v] and x = Suc.prems(2) [unfolded v]
  have inner: "reads (D + 1) K (parse_value L K) u z"
    if "plain (k - 1) u" "text_value f (n + 1) u = Some z" "0 < k" for u z
    using Suc.IH [OF that(1,2), of "D + 1"] Suc.prems(3,4) that(3) by simp
  show ?case unfolding reads_def
  proof (intro allI impI, elim conjE)
    fix hp a e b c y
    assume r: "ready hp a e" "cd_valueint e = 0" "cd_valuedouble e = 0" and K: "plenty K hp"
      and b: "inside b" "pb_depth b = D" "ahead b = x @ c # y" "\<not> number_char c"
    let ?goal = "\<exists>hp' d' kids'. parse_value (Suc L) K a b hp = Some (True, move (length x) b, hp') \<and> filled hp a d' kids' hp' \<and> const_names kids' = []
        \<and> jvalues (ch_strs hp') [LT a d' kids'] = [canon (content (ch_strs hp') (cd_string e)) v]"
    have lk: "looking_at b w \<longleftrightarrow> take (length w) (x @ c # y) = w" for w by (rule ahead_looking [OF b(3)]) simp
    have lit: ?goal if u: "upd_data a g hp = upd_data a (\<lambda>d :: cjson_data. d\<lparr>cd_type := tt, cd_valueint := ii, cd_valuedouble := 0\<rparr>) hp"
      and pv: "parse_value (Suc L) K a b hp = do { hp \<leftarrow> upd_data a g hp; Some (True, move (length x) b, hp) }"
      and tt: "tt \<in> {4, 1, 2, 8}" and cn: "\<And>nm. canon nm v = JVal tt None ii 0 nm []" for g tt ii
    proof -
      define h :: "cjson_data \<Rightarrow> cjson_data" where "h = (\<lambda>d. d\<lparr>cd_type := tt, cd_valueint := ii, cd_valuedouble := 0\<rparr>)"
      obtain hp' where l: "upd_data a h hp = Some hp'" "filled hp a (h e) [] hp'"
        "jvalues (ch_strs hp') [LT a (h e) []] = [JVal tt None ii 0 (content (ch_strs hp') (cd_string e)) []]"
        by (rule literal_reads [OF r h_def tt])
      show ?thesis
        by (intro exI [of _ hp'] exI [of _ "h e"] exI [of _ "[]"]) (use l u pv cn h_def in simp)
    qed
    show ?goal
    proof (cases rule: plain_cases [OF p, case_names null no yes number string array object])
      case null
      then have "x = ''null''" using x by (simp add: text_value_types(1))
      then show ?thesis
        by (intro lit [OF literal_update(1) [OF r]]) (use lk v null in \<open>simp_all add: parse_value.simps canon_types(1) eval_nat_numeral\<close>)
    next
      case no
      then have "x = ''false''" using x by (simp add: text_value_types(2))
      then show ?thesis
        by (intro lit [OF literal_update(1) [OF r]]) (use lk v no in \<open>simp_all add: parse_value.simps canon_types(2) eval_nat_numeral\<close>)
    next
      case yes
      then have "x = ''true''" using x by (simp add: text_value_types(3))
      then show ?thesis
        by (intro lit [OF literal_update(2) [OF r]]) (use lk v yes in \<open>simp_all add: parse_value.simps canon_types(3) eval_nat_numeral\<close>)
    next
      case number
      then have xn: "x = number_buffer d" using x plain_number(2) [OF p number] by (simp add: text_value_types(4))
      obtain h z where h: "x = h # z" "h = CHR ''-'' \<or> is_digit h"
        using plain_number(3) [OF p number] xn by auto
      then have "h \<notin> {CHR ''n'', CHR ''f'', CHR ''t'', CHR 0x22}" by (auto simp: is_digit_def)
      then have "parse_value (Suc L) K a b hp = parse_number a b hp"
        using parse_value_head [of b h "z @ c # y" L K a hp] b(3) h by auto
      then show ?thesis using number_reads [OF p number r, of b c y] b(3,4) xn v by simp
    next
      case string
      then have xs: "x = quoted (Some (text_of s))" using x quoted_text [of s] by (simp add: text_value_types(5))
      then have "parse_value (Suc L) K a b hp = parse_string K a b hp"
        using parse_value_head [of b "CHR 0x22" "tl x @ c # y" L K a hp] b(3) by (simp add: quoted_def)
      then obtain w hp' where w: "parse_value (Suc L) K a b hp = Some (True, move (length x) b, hp')"
        "filled hp a (e\<lparr>cd_type := 16, cd_valuestring := Some w\<rparr>) [] hp'" "ch_strs hp' = (ch_strs hp)(w \<mapsto> text_of s)"
        using parse_string_quoted [OF r(1) b(1) b(3) [unfolded xs] string(2) K] xs by auto
      show ?thesis
        by (intro exI [of _ hp'] exI [of _ "e\<lparr>cd_type := 16, cd_valuestring := Some w\<rparr>"] exI [of _ "[]"])
          (use w r v canon_types(5) [OF string(1)] in \<open>simp add: content_def\<close>)
    next
      case array
      then obtain X where X: "text_elements f (n + 1) kids = Some X" "x = ''['' @ X @ '']''" using x by (auto simp: text_value_types(6))
      have "parse_value (Suc L) K a b hp = parse_array K (parse_value L K) a b hp"
        using parse_value_head [of b "CHR ''[''" "X @ '']'' @ c # y" L K a hp] b(3) X(2) by (simp add: is_digit_def)
      moreover have "D < CJSON_NESTING_LIMIT" using Suc.prems(3) array(2) by simp
      moreover note array_reads [OF K inner array(3) X(1) r b(1,2) _ b(3) [unfolded X(2)]]
      ultimately obtain hp' us where w: "parse_value (Suc L) K a b hp = Some (True, move (length x) b, hp')"
        "filled hp a (e\<lparr>cd_type := 32\<rparr>) us hp'" "const_names us = []"
        "jvalues (ch_strs hp') [LT a (e\<lparr>cd_type := 32\<rparr>) us] = [canon (content (ch_strs hp') (cd_string e)) v]"
        using array X(2) unfolding v canon_types(6) [OF array(1)] by auto
      then show ?thesis by blast
    next
      case object
      then obtain X where X: "text_members f (n + 1) kids = Some X" "x = ''{'' @ newline f @ X @ tabs f n @ ''}''"
        using x by (auto simp: text_value_types(7))
      have "parse_value (Suc L) K a b hp = parse_object K (parse_value L K) a b hp"
        using parse_value_head [of b "CHR ''{''" "newline f @ X @ tabs f n @ ''}'' @ c # y" L K a hp] b(3) X(2) by (simp add: is_digit_def)
      moreover have "D < CJSON_NESTING_LIMIT" using Suc.prems(3) object(2) by simp
      moreover note object_reads [OF K inner object(3) X(1) r b(1,2) _ b(3) [unfolded X(2)]]
      ultimately obtain hp' us where w: "parse_value (Suc L) K a b hp = Some (True, move (length x) b, hp')"
        "filled hp a (e\<lparr>cd_type := 64\<rparr>) us hp'" "const_names us = []"
        "jvalues (ch_strs hp') [LT a (e\<lparr>cd_type := 64\<rparr>) us] = [canon (content (ch_strs hp') (cd_string e)) v]"
        using object X(2) unfolding v canon_types(7) [OF object(1)] by auto
      then show ?thesis by blast
    qed
  qed
qed simp

section \<open>The round trip\<close>

lemma text_ascii:
  assumes "text_value f n v = Some x" "plain k v"
  shows "code (hd x) < 128"
proof -
  obtain t s i d nm kids where v: "v = JVal t s i d nm kids" by (cases v)
  note p = assms(2) [unfolded v] and x = assms(1) [unfolded v]
  show ?thesis
  proof (cases rule: plain_cases [OF p, case_names null no yes number string array object])
    case number
    then have "x = number_buffer d" using x plain_number(2) [OF p number] by (simp add: text_value_types(4))
    then show ?thesis using plain_number(3) [OF p number] by (auto simp: is_digit_def)
  qed (use x in \<open>auto simp: text_value_types quoted_def\<close>)
qed

lemma parse_text:
  assumes K: "plenty K hp" and v: "plain CJSON_NESTING_LIMIT v" "text_value f n v = Some x"
  shows "\<exists>u hp'. cJSON_ParseWithOpts K (Some x) True hp = Some (Some (lt_addr u), length x, None, hp')
    \<and> cJSON_ParseWithOpts K (Some x) False hp = Some (Some (lt_addr u), length x, None, hp')
    \<and> spread hp [u] hp' \<and> the_value hp' u = canon None v"
proof -
  obtain a where a: "ck_item K (ch_items hp) = Some a" using K by (auto simp: plenty_def alloc_total_def)
  then have fresh: "ch_items hp a = None" using K alloc_freshD by (auto simp: plenty_def)
  define hp1 where "hp1 = hp\<lparr>ch_items := (ch_items hp)(a \<mapsto> \<lparr>cj_next = None, cj_prev = None, cj_child = None, cj_data = zero_data\<rparr>)\<rparr>"
  have n: "ready hp1 a zero_data" "spread hp [LT a zero_data []] hp1" unfolding hp1_def by (rule new_item_spread [OF fresh])+
  define b where "b = \<lparr>pb_content = x @ [CHR 0x00], pb_offset = 0, pb_depth = 0\<rparr>"
  have hx: "x \<noteq> []" "32 < code (hd x)" "code (hd x) < 128" using text_head [OF v(2,1)] text_ascii [OF v(2,1)] by simp_all
  have "code (char_of (0xEF::nat)) = 0xEF" by simp
  then have "take 3 (x @ [CHR 0x00]) \<noteq> [char_of (0xEF::nat), char_of (0xBB::nat), char_of (0xBF::nat)]"
    using hx(1,3) by (cases x) auto
  then have bom: "skip_utf8_bom b = Some b" by (simp add: skip_utf8_bom_def b_def)
  have bi: "inside b" "pb_depth b = 0" "ahead b = x @ CHR 0x00 # []" by (simp_all add: b_def inside_def buffer_ok_def ahead_def)
  have s: "buffer_skip_whitespace b = b" by (rule skip_none [OF bi(3) hx(1,2)])
  have "reads 0 K (parse_value (CJSON_NESTING_LIMIT + 1) K) v x"
    using value_reads [OF _ v] K by (simp add: plenty_def)
  then obtain hp' d kids where r: "parse_value (CJSON_NESTING_LIMIT + 1) K a b hp1 = Some (True, move (length x) b, hp')"
    "filled hp1 a d kids hp'" "const_names kids = []"
    "jvalues (ch_strs hp') [LT a d kids] = [canon (content (ch_strs hp') (cd_string zero_data)) v]"
    using n(1) spread_plenty [OF K n(2)] bi not_number_char [of "CHR 0x00"] unfolding reads_def by fastforce
  have e: "next_is (move (length x) b) (CHR 0x00)" "buffer_skip_whitespace (move (length x) b) = move (length x) b"
    by (simp_all add: b_def next_is_iff move_def buffer_skip_whitespace_def)
  have new: "cJSON_New_Item K hp = (Some a, hp1)" using a by (simp add: cJSON_New_Item_def hp1_def)
  have run: "cJSON_ParseWithOpts K (Some x) full hp = Some (Some a, length x, None, hp')" for full
    using new bom s r(1) e by (cases full) (simp_all add: cJSON_ParseWithOpts_def b_def [symmetric] Let_def, simp_all add: b_def move_def)
  have sp: "spread hp [LT a d kids] hp'" using spread_fill [of hp "[]" a zero_data hp1 d kids hp'] n r(2) by simp
  show ?thesis
    by (intro exI [of _ "LT a d kids"] exI [of _ hp']) (use run sp r(4) in \<open>simp add: the_value_def content_def\<close>)
qed


text \<open>A heap with the single item 3.14.\<close>

definition cheap_3_14 :: cheap where
  "cheap_3_14 = \<lparr>ch_items = [30 \<mapsto> \<lparr>cj_next = None, cj_prev = None, cj_child = None,
       cj_data = \<lparr>cd_type = cJSON_Number, cd_valuestring = None, cd_valueint = 3, cd_valuedouble = double_3_14, cd_string = None\<rparr>\<rparr>],
     ch_strs = Map.empty\<rparr>"


end
