(* ===== verification/CJson_More.thy ===== *)
theory CJson_More
  imports CJson_Parse CJson_Print
begin

text \<open>
  The rest of \<^verbatim>\<open>common/cjson/cJSON.c\<close>: the tests of an item's type, arrays created from C arrays, the
  comparison of two trees and the removal of white space and comments from a text.
\<close>

section \<open>Type tests\<close>

definition has_type :: "u32 \<Rightarrow> addr ptr \<Rightarrow> cheap \<Rightarrow> bool option" where
  "has_type t item hp =
     (case item of None \<Rightarrow> Some False
      | Some a \<Rightarrow> do { n \<leftarrow> ch_items hp a; Some (cd_type (cj_data n) AND 0xFF = t) })"

definition cJSON_IsInvalid where "cJSON_IsInvalid = has_type cJSON_Invalid"
definition cJSON_IsFalse where "cJSON_IsFalse = has_type cJSON_False"
definition cJSON_IsTrue where "cJSON_IsTrue = has_type cJSON_True"

definition cJSON_IsBool :: "addr ptr \<Rightarrow> cheap \<Rightarrow> bool option" where
  "cJSON_IsBool item hp =
     (case item of None \<Rightarrow> Some False
      | Some a \<Rightarrow> do { n \<leftarrow> ch_items hp a; Some (cd_type (cj_data n) AND (cJSON_True OR cJSON_False) \<noteq> 0) })"

definition cJSON_IsNull where "cJSON_IsNull = has_type cJSON_NULL"
definition cJSON_IsNumber where "cJSON_IsNumber = has_type cJSON_Number"
definition cJSON_IsString where "cJSON_IsString = has_type cJSON_String"
definition cJSON_IsArray where "cJSON_IsArray = has_type cJSON_Array"
definition cJSON_IsObject where "cJSON_IsObject = has_type cJSON_Object"
definition cJSON_IsRaw where "cJSON_IsRaw = has_type cJSON_Raw"

definition cJSON_GetStringValue :: "addr ptr \<Rightarrow> cheap \<Rightarrow> addr ptr option" where
  "cJSON_GetStringValue item hp = do {
     ok \<leftarrow> cJSON_IsString item hp;
     (case item of
        Some a \<Rightarrow> if ok then do { n \<leftarrow> ch_items hp a; Some (cd_valuestring (cj_data n)) } else Some None
      | None \<Rightarrow> Some None) }"

section \<open>Arrays from C arrays\<close>

text \<open>
  The loop that the four functions share: the element \<open>mk\<close> creates is linked behind the one before; the
  first becomes the child.  Without memory for an element the array is deleted.
\<close>

fun fill_array :: "(cheap \<Rightarrow> (addr ptr \<times> cheap) option) list \<Rightarrow> addr \<Rightarrow> addr ptr \<Rightarrow> cheap \<Rightarrow> (addr ptr \<times> cheap) option" where
  "fill_array [] a p hp = Some (Some a, hp)"
| "fill_array (mk # mks) a p hp = do {
     (n, hp) \<leftarrow> mk hp;
     (case n of
        None \<Rightarrow> do { hp \<leftarrow> cJSON_Delete (Some a) hp; Some (None, hp) }
      | Some m \<Rightarrow> do {
          hp \<leftarrow> (case p of None \<Rightarrow> upd_item a (\<lambda>x. x\<lparr>cj_child := n\<rparr>) hp | Some l \<Rightarrow> suffix_object l m hp);
          fill_array mks a n hp }) }"

definition create_array_of ::
    "chooks \<Rightarrow> ('a \<Rightarrow> cheap \<Rightarrow> (addr ptr \<times> cheap) option) \<Rightarrow> 'a list ptr \<Rightarrow> int \<Rightarrow> cheap \<Rightarrow> (addr ptr \<times> cheap) option" where
  "create_array_of K mk elems count hp =
     (case elems of
        None \<Rightarrow> Some (None, hp)
      | Some xs \<Rightarrow>
          if count < 0 then Some (None, hp)
          else (case cJSON_CreateArray K hp of
              (None, hp) \<Rightarrow> Some (None, hp)
            | (Some a, hp) \<Rightarrow>
                fill_array (map (\<lambda>i hp. if i < length xs then mk (xs ! i) hp else None) [0..<nat count]) a None hp))"

definition cJSON_CreateIntArray :: "chooks \<Rightarrow> int list ptr \<Rightarrow> int \<Rightarrow> cheap \<Rightarrow> (addr ptr \<times> cheap) option" where
  "cJSON_CreateIntArray K = create_array_of K (\<lambda>n hp. Some (cJSON_CreateNumber K (whole n) hp))"

definition cJSON_CreateFloatArray :: "chooks \<Rightarrow> double list ptr \<Rightarrow> int \<Rightarrow> cheap \<Rightarrow> (addr ptr \<times> cheap) option" where
  "cJSON_CreateFloatArray K = create_array_of K (\<lambda>n hp. Some (cJSON_CreateNumber K n hp))"

definition cJSON_CreateDoubleArray :: "chooks \<Rightarrow> double list ptr \<Rightarrow> int \<Rightarrow> cheap \<Rightarrow> (addr ptr \<times> cheap) option" where
  "cJSON_CreateDoubleArray K = create_array_of K (\<lambda>n hp. Some (cJSON_CreateNumber K n hp))"

definition cJSON_CreateStringArray :: "chooks \<Rightarrow> string ptr list ptr \<Rightarrow> int \<Rightarrow> cheap \<Rightarrow> (addr ptr \<times> cheap) option" where
  "cJSON_CreateStringArray K = create_array_of K (cJSON_CreateString K)"

section \<open>Comparing\<close>

text \<open>
  \<^verbatim>\<open>cJSON_Compare\<close> and its three loops: \<open>Items\<close> is a call on two items, \<open>Elements\<close> the loop over two arrays,
  \<open>Members\<close> the loop over the members of one object that looks each of them up in the other.
\<close>

datatype compare_task = Items "addr ptr" "addr ptr" | Elements "addr ptr" "addr ptr" | Members "addr ptr" addr

definition comparable_types :: "u32 list" where
  "comparable_types = [cJSON_False, cJSON_True, cJSON_NULL, cJSON_Number, cJSON_String, cJSON_Raw, cJSON_Array, cJSON_Object]"

partial_function (option) compare_run :: "bool \<Rightarrow> compare_task \<Rightarrow> cheap \<Rightarrow> bool option" where
  "compare_run case_sensitive task hp =
     (case task of
        Items p q \<Rightarrow>
          (case (p, q) of
             (Some a, Some b) \<Rightarrow> do {
               n \<leftarrow> ch_items hp a;
               m \<leftarrow> ch_items hp b;
               let t = cd_type (cj_data n) AND 0xFF;
               if t \<noteq> cd_type (cj_data m) AND 0xFF \<or> t = cJSON_Invalid then Some False
               else if t \<notin> set comparable_types then Some False
               else if a = b then Some True
               else if t = cJSON_False \<or> t = cJSON_True \<or> t = cJSON_NULL then Some True
               else if t = cJSON_Number
               then Some (compare_double (cd_valuedouble (cj_data n)) (cd_valuedouble (cj_data m)))
               else if t = cJSON_String \<or> t = cJSON_Raw then
                 (if cd_valuestring (cj_data n) = None \<or> cd_valuestring (cj_data m) = None then Some False
                  else do {
                    s \<leftarrow> read_str (cd_valuestring (cj_data n)) hp;
                    s' \<leftarrow> read_str (cd_valuestring (cj_data m)) hp;
                    Some (s = s') })
               else if t = cJSON_Array then compare_run case_sensitive (Elements (cj_child n) (cj_child m)) hp
               else do {
                 ok \<leftarrow> compare_run case_sensitive (Members (cj_child n) b) hp;
                 if ok then compare_run case_sensitive (Members (cj_child m) a) hp else Some False } }
           | _ \<Rightarrow> Some False)
      | Elements p q \<Rightarrow>
          (case (p, q) of
             (Some a, Some b) \<Rightarrow> do {
               ok \<leftarrow> compare_run case_sensitive (Items p q) hp;
               if ok then do {
                 n \<leftarrow> ch_items hp a;
                 m \<leftarrow> ch_items hp b;
                 compare_run case_sensitive (Elements (cj_next n) (cj_next m)) hp }
               else Some False }
           | _ \<Rightarrow> Some (p = q))
      | Members p other \<Rightarrow>
          (case p of
             None \<Rightarrow> Some True
           | Some a \<Rightarrow> do {
               n \<leftarrow> ch_items hp a;
               s \<leftarrow> read_str (cd_string (cj_data n)) hp;
               e \<leftarrow> get_object_item (Some other) s case_sensitive hp;
               if e = None then Some False
               else do {
                 ok \<leftarrow> compare_run case_sensitive (Items p e) hp;
                 if ok then compare_run case_sensitive (Members (cj_next n) other) hp else Some False } }))"

definition cJSON_Compare :: "addr ptr \<Rightarrow> addr ptr \<Rightarrow> bool \<Rightarrow> cheap \<Rightarrow> bool option" where
  "cJSON_Compare a b case_sensitive hp = compare_run case_sensitive (Items a b) hp"

section \<open>Minifying\<close>

text \<open>
  The text is changed in place: one block holds it, with its zero byte, and two positions walk over it.  A
  read or write outside the block is undefined.
\<close>

definition put_char :: "string \<Rightarrow> nat \<Rightarrow> char \<Rightarrow> string option" where
  "put_char blk i c = (if i < length blk then Some (blk[i := c]) else None)"

partial_function (option) oneline_loop :: "string \<Rightarrow> nat \<Rightarrow> nat option" where
  "oneline_loop blk i = do {
     c \<leftarrow> char_at blk i;
     if c = CHR 0x00 then Some i
     else if c = CHR 0x0A then Some (i + 1)
     else oneline_loop blk (i + 1) }"

definition skip_oneline_comment :: "string \<Rightarrow> nat \<Rightarrow> nat option" where
  "skip_oneline_comment blk i = oneline_loop blk (i + 2)"

partial_function (option) multiline_loop :: "string \<Rightarrow> nat \<Rightarrow> nat option" where
  "multiline_loop blk i = do {
     c \<leftarrow> char_at blk i;
     if c = CHR 0x00 then Some i
     else do {
       close \<leftarrow> (if c = CHR ''*'' then map_option (\<lambda>d. d = CHR ''/'') (char_at blk (i + 1)) else Some False);
       if close then Some (i + 2) else multiline_loop blk (i + 1) } }"

definition skip_multiline_comment :: "string \<Rightarrow> nat \<Rightarrow> nat option" where
  "skip_multiline_comment blk i = multiline_loop blk (i + 2)"

partial_function (option) minify_string_loop :: "string \<Rightarrow> nat \<Rightarrow> nat \<Rightarrow> (string \<times> nat \<times> nat) option" where
  "minify_string_loop blk i out = do {
     c \<leftarrow> char_at blk i;
     if c = CHR 0x00 then Some (blk, i, out)
     else do {
       blk \<leftarrow> put_char blk out c;
       if c = CHR 0x22 then Some (blk, i + 1, out + 1)
       else do {
         esc \<leftarrow> (if c = CHR 0x5C then map_option (\<lambda>d. d = CHR 0x22) (char_at blk (i + 1)) else Some False);
         if esc then do {
           blk \<leftarrow> put_char blk (out + 1) (CHR 0x22);
           minify_string_loop blk (i + 2) (out + 2) }
         else minify_string_loop blk (i + 1) (out + 1) } } }"

definition minify_string :: "string \<Rightarrow> nat \<Rightarrow> nat \<Rightarrow> (string \<times> nat \<times> nat) option" where
  "minify_string blk i out = do {
     c \<leftarrow> char_at blk i;
     blk \<leftarrow> put_char blk out c;
     minify_string_loop blk (i + 1) (out + 1) }"

partial_function (option) minify_loop :: "string \<Rightarrow> nat \<Rightarrow> nat \<Rightarrow> string option" where
  "minify_loop blk i out = do {
     c \<leftarrow> char_at blk i;
     if c = CHR 0x00 then put_char blk out (CHR 0x00)
     else if c = CHR '' '' \<or> c = CHR 0x09 \<or> c = CHR 0x0D \<or> c = CHR 0x0A then minify_loop blk (i + 1) out
     else if c = CHR ''/'' then do {
       d \<leftarrow> char_at blk (i + 1);
       if d = CHR ''/'' then do { i \<leftarrow> skip_oneline_comment blk i; minify_loop blk i out }
       else if d = CHR ''*'' then do { i \<leftarrow> skip_multiline_comment blk i; minify_loop blk i out }
       else minify_loop blk (i + 1) out }
     else if c = CHR 0x22 then do {
       (blk, i, out) \<leftarrow> minify_string blk i out;
       minify_loop blk i out }
     else do { blk \<leftarrow> put_char blk out c; minify_loop blk (i + 1) (out + 1) } }"

definition cJSON_Minify :: "string ptr \<Rightarrow> string ptr option" where
  "cJSON_Minify json =
     (case json of None \<Rightarrow> Some None | Some blk \<Rightarrow> map_option Some (minify_loop blk 0 0))"

end
