(* ===== verification/CJson_Build.thy ===== *)
theory CJson_Build
  imports CJson_Roundtrip CJson_More
begin

text \<open>
  Building trees with the operations of \<^verbatim>\<open>common/cjson/cJSON.c\<close> when memory is left: several trees on top of
  a heap, creating an item, adding one tree to another as a member, and looking members up by name.
\<close>

section \<open>Trees on top of a heap\<close>

definition stacked :: "cheap \<Rightarrow> ltree list \<Rightarrow> cheap \<Rightarrow> bool" where
  "stacked hp0 ts hp \<longleftrightarrow> (\<forall>t \<in> set ts. tree hp t) \<and> distinct (addrs ts) \<and> distinct (strs ts)
     \<and> off_same (set (addrs ts)) (set (strs ts)) hp0 hp
     \<and> set (addrs ts) \<inter> dom (ch_items hp0) = {} \<and> set (strs ts) \<inter> dom (ch_strs hp0) = {}
     \<and> set (const_names ts) \<subseteq> dom (ch_strs hp0)"

lemma addrs_Cons: "addrs (t # ts) = addrs [t] @ addrs ts" by (cases t) simp
lemma strs_Cons: "strs (t # ts) = strs [t] @ strs ts" by (cases t) simp
lemma const_names_Cons: "const_names (t # ts) = const_names [t] @ const_names ts" by (cases t) simp

lemma part_of:
  assumes "t \<in> set ts"
  shows "set (addrs [t]) \<subseteq> set (addrs ts)" "set (strs [t]) \<subseteq> set (strs ts)" "set (const_names [t]) \<subseteq> set (const_names ts)"
proof -
  obtain us vs where ts: "ts = us @ [t] @ vs" using assms split_list by fastforce
  show "set (addrs [t]) \<subseteq> set (addrs ts)" "set (strs [t]) \<subseteq> set (strs ts)" "set (const_names [t]) \<subseteq> set (const_names ts)"
    unfolding ts addrs_append strs_append const_names_append by auto
qed

lemma stackedD:
  assumes "stacked hp0 ts hp"
  shows "t \<in> set ts \<Longrightarrow> tree hp t" "distinct (addrs ts)" "distinct (strs ts)" "off_same (set (addrs ts)) (set (strs ts)) hp0 hp"
    "set (addrs ts) \<inter> dom (ch_items hp0) = {}" "set (strs ts) \<inter> dom (ch_strs hp0) = {}" "set (const_names ts) \<subseteq> dom (ch_strs hp0)"
  using assms by (simp_all add: stacked_def)

lemma stacked_refl: "stacked hp [] hp"
  by (simp add: stacked_def off_same_def)

lemma stacked_delete:
  assumes "stacked hp0 [t] hp"
  shows "cJSON_Delete (Some (lt_addr t)) hp = Some hp0"
  by (rule delete_added) (use assms in \<open>simp_all add: stacked_def off_same_def\<close>)

lemma stacked_plenty:
  assumes "plenty K hp0" "stacked hp0 ts hp"
  shows "plenty K hp"
proof -
  have "dom (ch_items hp) \<subseteq> dom (ch_items hp0) \<union> set (addrs ts)" "dom (ch_strs hp) \<subseteq> dom (ch_strs hp0) \<union> set (strs ts)"
    using assms(2) by (auto simp: stacked_def off_same_def domIff)
  moreover have "finite (dom (ch_items hp0) \<union> set (addrs ts))" "finite (dom (ch_strs hp0) \<union> set (strs ts))"
    using assms(1) by (simp_all add: plenty_def)
  ultimately have "finite (dom (ch_items hp))" "finite (dom (ch_strs hp))" by (meson finite_subset)+
  then show ?thesis using assms(1) by (simp add: plenty_def)
qed

lemma stacked_dom:
  assumes "stacked hp0 ts hp"
  shows "dom (ch_items hp0) \<subseteq> dom (ch_items hp)" "dom (ch_strs hp0) \<subseteq> dom (ch_strs hp)"
  by (rule off_same_dom [OF stackedD(4) [OF assms]], rule stackedD [OF assms])+

lemma stacked_readable:
  assumes "stacked hp0 ts hp" "t \<in> set ts"
  shows "readable hp [t]"
proof -
  have "set (const_names [t]) \<subseteq> dom (ch_strs hp)"
    using part_of(3) [OF assms(2)] stackedD(7) [OF assms(1)] stacked_dom(2) [OF assms(1)] by blast
  moreover have "set (strs [t]) \<subseteq> dom (ch_strs hp)" using tree_strs stackedD(1) [OF assms] by blast
  ultimately show ?thesis by (simp add: readable_def)
qed

lemma stacked_sub:
  assumes "stacked hp0 ts hp"
  shows "set (addrs ts) \<subseteq> dom (ch_items hp)" "set (strs ts) \<subseteq> dom (ch_strs hp)"
proof -
  have "set (addrs us) \<subseteq> dom (ch_items hp) \<and> set (strs us) \<subseteq> dom (ch_strs hp)" if "set us \<subseteq> set ts" for us
    using that
  proof (induction us)
    case (Cons u us)
    then have "tree hp u" using stackedD(1) [OF assms] by auto
    with Cons show ?case using tree_addrs [of hp u] tree_strs [of hp u] by (simp add: addrs_Cons [of u us] strs_Cons [of u us])
  qed simp
  then show "set (addrs ts) \<subseteq> dom (ch_items hp)" "set (strs ts) \<subseteq> dom (ch_strs hp)" by auto
qed

text \<open>A new tree at fresh addresses.\<close>

lemma disjoint_below: "A \<inter> D = {} \<Longrightarrow> D0 \<subseteq> D \<Longrightarrow> A' \<inter> D0 = {} \<Longrightarrow> (A \<union> A') \<inter> D0 = {}"
  by blast

lemma disjoint_sub: "A \<inter> D = {} \<Longrightarrow> A' \<subseteq> D \<Longrightarrow> A \<inter> A' = {}"
  by blast

lemma stacked_push:
  assumes s: "stacked hp0 ts hp" and a: "added hp t hp'" "set (const_names [t]) \<subseteq> dom (ch_strs hp0)"
  shows "stacked hp0 (t # ts) hp'"
proof -
  have tr: "tree hp' u" "apart u t" if "u \<in> set ts" for u using that s added_apart [OF a(1)] by (auto simp: stacked_def)
  have n: "set (addrs [t]) \<inter> dom (ch_items hp) = {}" "set (strs [t]) \<inter> dom (ch_strs hp) = {}" "tree hp' t"
    "\<And>x. x \<notin> set (addrs [t]) \<Longrightarrow> ch_items hp' x = ch_items hp x" "\<And>x. x \<notin> set (strs [t]) \<Longrightarrow> ch_strs hp' x = ch_strs hp x"
    using a(1) by (auto simp: added_def)
  have d: "distinct (addrs [t])" "distinct (strs [t])" using n(3) by (simp_all add: tree_def owned_def)
  have sub: "set (addrs ts) \<subseteq> dom (ch_items hp)" "set (strs ts) \<subseteq> dom (ch_strs hp)"
    using stacked_sub [OF s] by simp_all
  define A A' C C' where "A = set (addrs [t])" and "A' = set (addrs ts)" and "C = set (strs [t])" and "C' = set (strs ts)"
  note S = stackedD(2-7) [OF s, folded A'_def C'_def] and D = stacked_dom [OF s]
  note n' = n(1,2,4,5) [folded A_def C_def] and sub' = sub [folded A'_def C'_def]
  have U: "set (addrs (t # ts)) = A \<union> A'" "set (strs (t # ts)) = C \<union> C'"
    "set (const_names (t # ts)) = set (const_names [t]) \<union> set (const_names ts)"
    by (simp_all only: addrs_Cons [of t ts] strs_Cons [of t ts] const_names_Cons [of t ts] set_append A_def A'_def C_def C'_def)
  have "A \<inter> A' = {}" "C \<inter> C' = {}" by (rule disjoint_sub [OF n'(1) sub'(1)], rule disjoint_sub [OF n'(2) sub'(2)])
  then have "distinct (addrs (t # ts))" "distinct (strs (t # ts))"
    unfolding addrs_Cons [of t ts] strs_Cons [of t ts] distinct_append A_def A'_def C_def C'_def
    using d stackedD(2,3) [OF s] by simp_all
  moreover have "off_same (A \<union> A') (C \<union> C') hp0 hp'"
    using S(3) n'(3,4) by (simp add: off_same_def)
  moreover have "(A \<union> A') \<inter> dom (ch_items hp0) = {}" "(C \<union> C') \<inter> dom (ch_strs hp0) = {}"
    by (rule disjoint_below [OF n'(1) D(1) S(4)], rule disjoint_below [OF n'(2) D(2) S(5)])
  moreover have "\<forall>u \<in> set (t # ts). tree hp' u" using tr(1) n(3) by simp
  moreover have "set (const_names (t # ts)) \<subseteq> dom (ch_strs hp0)" unfolding U using S(6) a(2) by (rule Un_least [rotated])
  ultimately show ?thesis unfolding stacked_def U by (intro conjI)
qed

section \<open>Creating\<close>

lemma fresh_added:
  assumes "fresh_item hp b e hp'" "\<not> is_reference e"
  shows "added hp (LT b e []) hp'"
proof -
  have "tree hp' (LT b e [])" by (rule fresh_item_tree [OF assms])
  then show ?thesis using assms(1) by (simp add: added_def fresh_item_def domIff)
qed

lemma create_fresh:
  assumes K: "plenty K hp" and f: "data_strs (f zero_data) = []"
  shows "\<exists>a hp'. create_with K f hp = (Some a, hp') \<and> fresh_item hp a (f zero_data) hp' \<and> ch_strs hp' = ch_strs hp"
proof -
  obtain a where a: "ck_item K (ch_items hp) = Some a" using K by (auto simp: plenty_def alloc_total_def)
  then have "ch_items hp a = None" using K alloc_freshD by (auto simp: plenty_def)
  then show ?thesis using a f
    by (auto simp: create_with_def cJSON_New_Item_def upd_data_def upd_item_def fresh_item_def)
qed

lemma create_with_new:
  assumes "plenty K hp" "data_strs (f zero_data) = []" "\<not> is_reference (f zero_data)"
  shows "\<exists>a hp'. create_with K f hp = (Some a, hp') \<and> added hp (LT a (f zero_data) []) hp' \<and> ch_strs hp' = ch_strs hp"
  using create_fresh [OF assms(1), of f] assms(2,3) fresh_added by metis

definition text_data :: "addr \<Rightarrow> cjson_data" where
  "text_data b = zero_data\<lparr>cd_type := cJSON_String, cd_valuestring := Some b\<rparr>"

lemma zero_strs [simp]: "data_strs (zero_data\<lparr>cd_type := t\<rparr>) = []" "data_strs (zero_data\<lparr>cd_type := t, cd_valuedouble := d, cd_valueint := i\<rparr>) = []"
  by (simp_all add: data_strs_def zero_data_def)

lemma zero_type [simp]: "zero_data\<lparr>cd_type := t\<rparr> = zero_data\<lparr>cd_type := t'\<rparr> \<longleftrightarrow> t = t'"
  by (simp add: zero_data_def)

lemma create_string_new:
  assumes K: "plenty K hp"
  shows "\<exists>a b hp'. cJSON_CreateString K (Some s) hp = Some (Some a, hp') \<and> added hp (LT a (text_data b) []) hp'
     \<and> ch_strs hp b = None \<and> ch_strs hp' = (ch_strs hp)(b \<mapsto> s)"
proof -
  obtain a hp1 where a: "create_with K (\<lambda>d. d\<lparr>cd_type := cJSON_String\<rparr>) hp = (Some a, hp1)"
    "fresh_item hp a (zero_data\<lparr>cd_type := cJSON_String\<rparr>) hp1" "ch_strs hp1 = ch_strs hp"
    using create_fresh [OF K, of "\<lambda>d. d\<lparr>cd_type := cJSON_String\<rparr>"] by auto
  obtain b where b: "ck_str K (ch_strs hp) = Some b" using K by (auto simp: plenty_def alloc_total_def)
  then have fb: "ch_strs hp b = None" using K alloc_freshD by (auto simp: plenty_def)
  define hp' where "hp' = \<lparr>ch_items = (ch_items hp)(a \<mapsto> \<lparr>cj_next = None, cj_prev = None, cj_child = None, cj_data = text_data b\<rparr>),
     ch_strs = (ch_strs hp)(b \<mapsto> s)\<rparr>"
  have "fresh_item hp a (text_data b) hp'"
    using a(2) fb by (simp add: fresh_item_def hp'_def text_data_def data_strs_def zero_data_def string_is_const_def domIff)
  then have "added hp (LT a (text_data b) []) hp'" by (rule fresh_added) (simp add: text_data_def is_reference_def)
  moreover have "cJSON_CreateString K (Some s) hp = Some (Some a, hp')"
    using a b by (simp add: cJSON_CreateString_def create_text_def cJSON_strdup_def upd_data_def upd_item_def fresh_item_def hp'_def text_data_def)
  ultimately show ?thesis using fb by (auto simp: hp'_def)
qed

section \<open>Adding a member\<close>

definition named :: "addr \<Rightarrow> ltree \<Rightarrow> ltree" where
  "named k t = LT (lt_addr t) ((lt_data t)\<lparr>cd_string := Some k, cd_type := cd_type (lt_data t) AND NOT cJSON_StringIsConst\<rparr>) (lt_kids t)"

text \<open>The renaming that comes first: the new name is copied, the old one freed.\<close>

definition rename_heap :: "cheap \<Rightarrow> addr \<Rightarrow> string \<Rightarrow> ltree \<Rightarrow> cheap" where
  "rename_heap hp k nm t = \<lparr>ch_items = (ch_items hp)(lt_addr t \<mapsto> (the (ch_items hp (lt_addr t)))\<lparr>cj_data := lt_data (named k t)\<rparr>),
     ch_strs = (ch_strs hp)(k \<mapsto> nm) |` (- set (if string_is_const (lt_data t) then [] else ptr_list (cd_string (lt_data t))))\<rparr>"

lemma add_named_rename:
  assumes K: "plenty K hp" and n: "ch_items hp (lt_addr t) = Some n" "cj_data n = lt_data t"
    and old: "\<not> string_is_const (lt_data t) \<Longrightarrow> set (ptr_list (cd_string (lt_data t))) \<subseteq> dom (ch_strs hp)"
  shows "\<exists>k. ch_strs hp k = None \<and> add_named K (Some o') (Some nm) (Some (lt_addr t)) hp
     = add_item_to_array (Some o') (Some (lt_addr t)) (rename_heap hp k nm t)"
proof -
  obtain k where k: "ck_str K (ch_strs hp) = Some k" using K by (auto simp: plenty_def alloc_total_def)
  then have fk: "ch_strs hp k = None" using K alloc_freshD by (auto simp: plenty_def)
  define m1 where "m1 = (ch_strs hp)(k \<mapsto> nm)"
  have rec: "hp\<lparr>ch_strs := m, ch_items := i\<rparr> = \<lparr>ch_items = i, ch_strs = m\<rparr>" for m i by (cases hp) simp
  have "add_named K (Some o') (Some nm) (Some (lt_addr t)) hp
     = add_item_to_array (Some o') (Some (lt_addr t)) (rename_heap hp k nm t)"
  proof (cases "string_is_const (lt_data t)")
    case True
    then show ?thesis using n k unfolding m1_def [symmetric]
      by (simp add: add_named_def add_item_to_object_def cJSON_strdup_def upd_data_def upd_item_def rename_heap_def named_def rec
          flip: m1_def)
  next
    case False
    then have "set (ptr_list (cd_string (lt_data t))) \<subseteq> dom (ch_strs (hp\<lparr>ch_strs := m1\<rparr>))"
      using old by (auto simp: m1_def)
    from free_str_owned [OF this] have "free_str (cd_string (lt_data t)) (hp\<lparr>ch_strs := m1\<rparr>)
        = Some (hp\<lparr>ch_strs := m1 |` (- set (ptr_list (cd_string (lt_data t))))\<rparr>)" by simp
    then show ?thesis using False n k
      by (simp add: add_named_def add_item_to_object_def cJSON_strdup_def upd_data_def upd_item_def rename_heap_def named_def rec
          flip: m1_def)
  qed
  with fk show ?thesis by blast
qed

lemma named_flags:
  "\<not> string_is_const (lt_data (named k t))" "is_reference (lt_data (named k t)) \<longleftrightarrow> is_reference (lt_data t)"
proof -
  have "(cd_type (lt_data t) AND NOT 512) AND 512 = 0" "(cd_type (lt_data t) AND NOT 512) AND 256 = cd_type (lt_data t) AND 256"
    by (simp_all add: and.assoc)
  then show "\<not> string_is_const (lt_data (named k t))" "is_reference (lt_data (named k t)) \<longleftrightarrow> is_reference (lt_data t)"
    by (simp_all add: named_def string_is_const_def is_reference_def)
qed

definition old_name :: "ltree \<Rightarrow> addr list" where
  "old_name t = (if string_is_const (lt_data t) then [] else ptr_list (cd_string (lt_data t)))"

lemma strs_split: "strs [t] = ptr_list (cd_valuestring (lt_data t)) @ old_name t @ strs (lt_kids t)"
  by (cases t) (simp add: data_strs_def old_name_def)

lemma named_parts:
  "addrs [named k t] = addrs [t]" "strs [named k t] = ptr_list (cd_valuestring (lt_data t)) @ k # strs (lt_kids t)"
  "const_names [named k t] = const_names (lt_kids t)" "lt_addr (named k t) = lt_addr t" "lt_kids (named k t) = lt_kids t"
  using named_flags(1) [of k t] by (cases t; simp add: named_def data_strs_def)+

lemma rename_strs:
  "ch_strs (rename_heap hp k nm t) s = (if s \<in> set (old_name t) then None else if s = k then Some nm else ch_strs hp s)"
  by (simp add: rename_heap_def old_name_def restrict_map_def)

lemma rename_tree:
  assumes t: "tree hp t" and k: "ch_strs hp k = None"
  shows "tree (rename_heap hp k nm t) (named k t)"
    "\<And>x. x \<noteq> lt_addr t \<Longrightarrow> ch_items (rename_heap hp k nm t) x = ch_items hp x"
proof -
  obtain a d cs where l: "t = LT a d cs" by (cases t)
  obtain n where n: "ch_items hp a = Some n" "cj_next n = None" "cj_prev n = None" "cj_data n = d"
    "chain (ch_items hp) (cj_child n) None cs" "a \<notin> set (addrs cs)" "distinct (addrs cs)" "distinct (data_strs d @ strs cs)"
    "set (data_strs d @ strs cs) \<subseteq> dom (ch_strs hp)" "\<not> is_reference d" "no_refs cs" using t l treeE by metis
  have data: "data_strs d = ptr_list (cd_valuestring d) @ old_name t" by (simp add: data_strs_def old_name_def l)
  define S where "S = set (ptr_list (cd_valuestring d) @ strs cs)"
  have k': "k \<notin> S" "k \<notin> set (old_name t)" using n(9) k unfolding data S_def by (auto simp: domIff)
  have keep: "S \<inter> set (old_name t) = {}" "S \<subseteq> dom (ch_strs hp)" using n(8,9) unfolding data S_def by auto
  define e where "e = lt_data (named k t)"
  have e: "data_strs e = ptr_list (cd_valuestring d) @ [k]" "\<not> is_reference e"
    using named_flags [of k t] n(10) by (simp_all add: e_def data_strs_def l, simp add: named_def)
  have "S \<subseteq> dom (ch_strs (rename_heap hp k nm t))" "k \<in> dom (ch_strs (rename_heap hp k nm t))"
    using keep k' by (auto simp: rename_strs domIff)
  then have sub: "set (data_strs e @ strs cs) \<subseteq> dom (ch_strs (rename_heap hp k nm t))" by (simp add: e(1) S_def)
  have dist: "distinct (data_strs e @ strs cs)" using n(8) k'(1) unfolding e(1) data S_def by auto
  have "tree (rename_heap hp k nm t) (LT a e cs)"
    by (rule treeI [of _ _ "n\<lparr>cj_data := e\<rparr>"])
       (use n sub dist e(2) in \<open>simp_all add: rename_heap_def l e_def\<close>)
  then show "tree (rename_heap hp k nm t) (named k t)" by (simp add: named_def l e_def)
  show "ch_items (rename_heap hp k nm t) x = ch_items hp x" if "x \<noteq> lt_addr t" for x
    using that by (simp add: rename_heap_def)
qed

lemma stacked_apart:
  assumes "stacked hp0 (us @ t # vs) hp" "u \<in> set us \<union> set vs"
  shows "set (addrs [u]) \<inter> set (addrs [t]) = {}" "set (strs [u]) \<inter> set (strs [t]) = {}"
proof -
  have "distinct (addrs (us @ [t] @ vs))" "distinct (strs (us @ [t] @ vs))" using stackedD(2,3) [OF assms(1)] by simp_all
  then have d: "set (addrs us) \<inter> set (addrs [t]) = {}" "set (addrs [t]) \<inter> set (addrs vs) = {}"
    "set (strs us) \<inter> set (strs [t]) = {}" "set (strs [t]) \<inter> set (strs vs) = {}"
    unfolding addrs_append strs_append distinct_append set_append by blast+
  show "set (addrs [u]) \<inter> set (addrs [t]) = {}"
    using assms(2) part_of(1) [of u us] part_of(1) [of u vs] d(1,2) by blast
  show "set (strs [u]) \<inter> set (strs [t]) = {}"
    using assms(2) part_of(2) [of u us] part_of(2) [of u vs] d(3,4) by blast
qed

lemma rename_stacked:
  assumes s: "stacked hp0 (t # ts) hp" and k: "ch_strs hp k = None"
  shows "stacked hp0 (named k t # ts) (rename_heap hp k nm t)"
proof -
  define R where "R = rename_heap hp k nm t"
  note S = stackedD [OF s]
  have fk: "k \<notin> set (strs (t # ts))" "k \<notin> dom (ch_strs hp0)"
    using stacked_sub(2) [OF s] stacked_dom(2) [OF s] k by (auto simp: domIff)
  have U: "set (addrs (named k t # ts)) = set (addrs (t # ts))"
    by (simp only: addrs_Cons [of _ ts] set_append named_parts)
  have V: "strs (named k t # ts) = ptr_list (cd_valuestring (lt_data t)) @ k # strs (lt_kids t) @ strs ts"
    "strs (t # ts) = ptr_list (cd_valuestring (lt_data t)) @ old_name t @ strs (lt_kids t) @ strs ts"
    by (simp_all only: strs_Cons [of _ ts] strs_split [of t] named_parts append.assoc append.simps)
  have "tree R u" if u: "u \<in> set ts" for u
  proof (rule tree_frame [of hp])
    show "tree hp u" using S(1) u by simp
    have ap: "set (addrs [u]) \<inter> set (addrs [t]) = {}" "set (strs [u]) \<inter> set (strs [t]) = {}"
      using stacked_apart [of hp0 "[]" t ts hp u] s u by simp_all
    show "ch_items R x = ch_items hp x" if "x \<in> set (addrs [u])" for x
      unfolding R_def by (rule rename_tree(2) [OF S(1) k]) (use that ap(1) addr_mem [of t] in auto)
    show "ch_strs R x = ch_strs hp x" if x: "x \<in> set (strs [u])" for x
    proof -
      have "x \<notin> set (old_name t)" using x ap(2) strs_split [of t] by auto
      moreover have "x \<noteq> k" using x part_of(2) [of u "t # ts"] u fk(1) by auto
      ultimately show ?thesis by (simp add: R_def rename_strs)
    qed
  qed
  moreover have "tree R (named k t)" unfolding R_def by (rule rename_tree(1) [OF S(1) k]) simp
  moreover have "distinct (addrs (named k t # ts))"
    using S(2) by (simp only: addrs_Cons [of _ ts] named_parts)
  moreover have "distinct (strs (named k t # ts))" using S(3) fk(1) unfolding V by auto
  moreover have "off_same (set (addrs (named k t # ts))) (set (strs (named k t # ts))) hp0 R"
    unfolding off_same_def U
  proof (intro conjI allI impI)
    fix x assume x: "x \<notin> set (addrs (t # ts))"
    then have "x \<noteq> lt_addr t" using part_of(1) [of t "t # ts"] addr_mem [of t] by auto
    then show "ch_items R x = ch_items hp0 x"
      using x S(4) rename_tree(2) [OF S(1) k] by (simp add: R_def off_same_def)
  next
    fix x assume x: "x \<notin> set (strs (named k t # ts))"
    show "ch_strs R x = ch_strs hp0 x"
    proof (cases "x \<in> set (old_name t)")
      case True
      then have "x \<in> set (strs (t # ts))" by (simp add: V)
      then have "ch_strs hp0 x = None" using S(6) by (auto simp: domIff)
      with True show ?thesis by (simp add: R_def rename_strs)
    next
      case False
      then have "x \<notin> set (strs (t # ts))" "x \<noteq> k" using x by (simp_all add: V)
      with False show ?thesis using S(4) by (simp add: R_def rename_strs off_same_def)
    qed
  qed
  moreover have "set (strs (named k t # ts)) \<inter> dom (ch_strs hp0) = {}" using S(6) fk(2) unfolding V by auto
  moreover have "set (const_names (named k t # ts)) \<subseteq> dom (ch_strs hp0)"
  proof -
    have "set (const_names (lt_kids t)) \<subseteq> set (const_names [t])" by (cases t) auto
    then show ?thesis using S(7) unfolding const_names_Cons [of _ ts] named_parts by auto
  qed
  ultimately show ?thesis using S(5) unfolding stacked_def U R_def by (intro conjI) auto
qed

lemma link_stacked:
  assumes s: "stacked hp0 (t # LT o' d us # ts) hp"
  shows "\<exists>hp'. add_item_to_array (Some o') (Some (lt_addr t)) hp = Some (True, hp') \<and> stacked hp0 (LT o' d (us @ [t]) # ts) hp'
     \<and> ch_strs hp' = ch_strs hp"
proof -
  note S = stackedD [OF s]
  have "apart (LT o' d us) t"
    unfolding apart_def using stacked_apart [of hp0 "[]" t "LT o' d us # ts" hp "LT o' d us"] s by simp
  then obtain hp' where h: "add_item_to_array (Some o') (Some (lt_addr t)) hp = Some (True, hp')"
    "tree hp' (LT o' d (us @ [t]))" "only_items [LT o' d us, t] hp hp'"
    using add_item_to_array_tree [of hp o' d us t] S(1) by auto
  have A: "addrs [LT o' d us, t] = addrs [LT o' d us] @ addrs [t]" by (simp only: addrs_Cons [of "LT o' d us" "[t]"])
  have sets: "set (addrs (LT o' d (us @ [t]) # ts)) = set (addrs (t # LT o' d us # ts))"
    "set (strs (LT o' d (us @ [t]) # ts)) = set (strs (t # LT o' d us # ts))"
    "set (const_names (LT o' d (us @ [t]) # ts)) = set (const_names (t # LT o' d us # ts))"
    unfolding addrs_Cons [of t "LT o' d us # ts"] strs_Cons [of t "LT o' d us # ts"] const_names_Cons [of t "LT o' d us # ts"] by auto
  have dist: "distinct (addrs (LT o' d (us @ [t]) # ts))" "distinct (strs (LT o' d (us @ [t]) # ts))"
    using S(2,3) unfolding addrs_Cons [of t "LT o' d us # ts"] strs_Cons [of t "LT o' d us # ts"] by auto
  have strs: "ch_strs hp' = ch_strs hp" using h(3) by (simp add: only_items_def)
  have tr: "tree hp' u" if u: "u \<in> set ts" for u
  proof (rule tree_frame [of hp])
    show "tree hp u" using S(1) u by simp
    have "set (addrs [u]) \<inter> set (addrs [t]) = {}" "set (addrs [u]) \<inter> set (addrs [LT o' d us]) = {}"
      using stacked_apart(1) [of hp0 "[]" t "LT o' d us # ts" hp u] stacked_apart(1) [of hp0 "[t]" "LT o' d us" ts hp u] s u by simp_all
    then show "ch_items hp' x = ch_items hp x" if "x \<in> set (addrs [u])" for x
      using that h(3) A by (auto simp: only_items_def)
  qed (simp add: strs)
  have "off_same (set (addrs (t # LT o' d us # ts))) (set (strs (t # LT o' d us # ts))) hp0 hp'"
    using S(4) h(3) strs A unfolding off_same_def only_items_def addrs_Cons [of t "LT o' d us # ts"] by auto
  then have "stacked hp0 (LT o' d (us @ [t]) # ts) hp'"
    using S(5-7) dist tr h(2) unfolding stacked_def sets by simp
  with h(1) strs show ?thesis by blast
qed

text \<open>What a member becomes, and its object.\<close>

definition with_name :: "string \<Rightarrow> jval \<Rightarrow> jval" where
  "with_name nm v = (case v of JVal t s i d _ kids \<Rightarrow> JVal (t AND NOT cJSON_StringIsConst) s i d (Some nm) kids)"

definition with_member :: "jval \<Rightarrow> jval \<Rightarrow> jval" where
  "with_member v w = (case v of JVal t s i d nm kids \<Rightarrow> JVal t s i d nm (kids @ [w]))"

lemma the_value_simp: "the_value hp (LT a d us) = JVal (cd_type d) (content (ch_strs hp) (cd_valuestring d)) (cd_valueint d)
    (cd_valuedouble d) (content (ch_strs hp) (cd_string d)) (jvalues (ch_strs hp) us)"
  by (simp add: the_value_def)

lemma the_value_cong:
  "(\<And>s. s \<in> set (strs [t]) \<union> set (const_names [t]) \<Longrightarrow> ch_strs hp' s = ch_strs hp s) \<Longrightarrow> the_value hp' t = the_value hp t"
  unfolding the_value_def using jvalues_cong [of "[t]" "ch_strs hp'" "ch_strs hp"] by simp

lemma add_member:
  assumes s: "stacked hp0 (t # LT o' d us # ts) hp" and K: "plenty K hp0"
  shows "\<exists>k hp'. add_named K (Some o') (Some nm) (Some (lt_addr t)) hp = Some (True, hp')
     \<and> stacked hp0 (LT o' d (us @ [named k t]) # ts) hp'
     \<and> the_value hp' (LT o' d (us @ [named k t])) = with_member (the_value hp (LT o' d us)) (with_name nm (the_value hp t))
     \<and> (\<forall>u \<in> set ts. the_value hp' u = the_value hp u) \<and> (\<forall>x \<in> dom (ch_strs hp0). ch_strs hp' x = ch_strs hp0 x)"
proof -
  obtain a e cs where t: "t = LT a e cs" by (cases t)
  have tr: "tree hp t" using stackedD(1) [OF s] by simp
  then obtain n where n: "ch_items hp a = Some n" "cj_data n = e" "set (data_strs e @ strs cs) \<subseteq> dom (ch_strs hp)"
    using t treeE by metis
  have "set (ptr_list (cd_string (lt_data t))) \<subseteq> dom (ch_strs hp)" if "\<not> string_is_const (lt_data t)"
    using that n(3) t by (simp add: data_strs_def)
  from add_named_rename [OF stacked_plenty [OF K s] _ _ this, of n o' nm]
  obtain k where k: "ch_strs hp k = None" "add_named K (Some o') (Some nm) (Some (lt_addr t)) hp
     = add_item_to_array (Some o') (Some (lt_addr t)) (rename_heap hp k nm t)"
    using n(1,2) t by auto
  define R where "R = rename_heap hp k nm t"
  have r: "stacked hp0 (named k t # LT o' d us # ts) R" unfolding R_def by (rule rename_stacked [OF s k(1)])
  obtain hp' where h: "add_item_to_array (Some o') (Some (lt_addr t)) R = Some (True, hp')"
    "stacked hp0 (LT o' d (us @ [named k t]) # ts) hp'" "ch_strs hp' = ch_strs R"
    using link_stacked [OF r] by (auto simp: named_parts)
  have other: "ch_strs hp' x = ch_strs hp x" if "x \<in> dom (ch_strs hp)" "x \<notin> set (old_name t)" for x
    using that k(1) by (auto simp: h(3) R_def rename_strs domIff)
  have old: "x \<notin> set (old_name t)" if x: "x \<in> set (strs [u]) \<union> set (const_names [u])" and u: "u \<in> set (LT o' d us # ts)" for u x
  proof
    assume o: "x \<in> set (old_name t)"
    then have xt: "x \<in> set (strs [t])" by (simp add: strs_split)
    then have "x \<notin> dom (ch_strs hp0)" using stackedD(6) [OF s] part_of(2) [of t "t # LT o' d us # ts"] by auto
    then have "x \<notin> set (const_names [u])" using stackedD(7) [OF s] part_of(3) [of u "t # LT o' d us # ts"] u by auto
    moreover have "x \<notin> set (strs [u])" using xt stacked_apart(2) [of hp0 "[]" t "LT o' d us # ts" hp u] s u by auto
    ultimately show False using x by blast
  qed
  have dm: "x \<in> dom (ch_strs hp)" if x: "x \<in> set (strs [u]) \<union> set (const_names [u])" and u: "u \<in> set (t # LT o' d us # ts)" for u x
    using stacked_readable [OF s u] x by (auto simp: readable_def)
  have vals: "the_value hp' u = the_value hp u" if u: "u \<in> set (LT o' d us # ts)" for u
  proof (rule the_value_cong)
    fix x assume x: "x \<in> set (strs [u]) \<union> set (const_names [u])"
    show "ch_strs hp' x = ch_strs hp x"
      by (rule other [OF dm [OF x] old [OF x u]]) (use u in simp)
  qed
  have cs: "jvalues (ch_strs hp') cs = jvalues (ch_strs hp) cs"
  proof (rule jvalues_cong)
    fix x assume x: "x \<in> set (strs cs) \<union> set (const_names cs)"
    have xt: "x \<in> set (strs [t]) \<union> set (const_names [t])" using x t by auto
    have "x \<notin> set (old_name t)"
    proof
      assume o: "x \<in> set (old_name t)"
      have "distinct (strs [t])" using tr by (simp add: tree_def owned_def)
      then have "x \<notin> set (strs cs)" using o t unfolding strs_split by auto
      moreover have "x \<notin> dom (ch_strs hp0)"
        using o stackedD(6) [OF s] part_of(2) [of t "t # LT o' d us # ts"] strs_split [of t] by auto
      then have "x \<notin> set (const_names cs)" using stackedD(7) [OF s] part_of(3) [of t "t # LT o' d us # ts"] t by auto
      ultimately show False using x by blast
    qed
    then show "ch_strs hp' x = ch_strs hp x" using other dm [OF xt] by simp
  qed
  have kn: "k \<notin> set (old_name t)" using k(1) n(3) t by (auto simp: old_name_def data_strs_def domIff split: if_splits)
  have vs: "content (ch_strs hp') (cd_valuestring e) = content (ch_strs hp) (cd_valuestring e)"
  proof (cases "cd_valuestring e")
    case (Some x)
    have "distinct (strs [t])" using tr by (simp add: tree_def owned_def)
    then have "x \<notin> set (old_name t)" using Some t unfolding strs_split by auto
    moreover have "x \<in> dom (ch_strs hp)" using n(3) Some by (auto simp: data_strs_def)
    ultimately show ?thesis using other Some by (simp add: content_def)
  qed (simp add: content_def)
  have "ch_strs hp' k = Some nm" using kn by (simp add: h(3) R_def rename_strs)
  then have "jvalues (ch_strs hp') [named k t] = [with_name nm (the_value hp t)]"
    using t cs vs by (simp add: named_def with_name_def the_value_simp content_def)
  moreover have "the_value hp' (LT o' d us) = the_value hp (LT o' d us)" by (rule vals) simp
  ultimately have "the_value hp' (LT o' d (us @ [named k t])) = with_member (the_value hp (LT o' d us)) (with_name nm (the_value hp t))"
    by (simp add: the_value_simp with_member_def)
  moreover have "ch_strs hp' x = ch_strs hp0 x" if "x \<in> dom (ch_strs hp0)" for x
    using stackedD(4,6) [OF h(2)] that by (auto simp: off_same_def)
  ultimately show ?thesis using k(2) h(1,2) vals R_def by (intro exI [of _ k] exI [of _ hp']) auto
qed

section \<open>Addresses and values\<close>

text \<open>On top of \<open>hp0\<close> there are exactly the trees at the given addresses, with the given values.\<close>

definition holds :: "cheap \<Rightarrow> (addr \<times> jval) list \<Rightarrow> cheap \<Rightarrow> bool" where
  "holds hp0 avs hp \<longleftrightarrow> (\<exists>ts. stacked hp0 ts hp \<and> avs = map (\<lambda>t. (lt_addr t, the_value hp t)) ts)"

lemma holds_refl: "holds hp [] hp"
  unfolding holds_def by (intro exI [of _ "[]"]) (simp add: stacked_refl)

lemma holds_one:
  assumes "holds hp0 [(a, v)] hp"
  obtains t where "stacked hp0 [t] hp" "lt_addr t = a" "the_value hp t = v"
  using assms unfolding holds_def by (auto simp: Cons_eq_map_conv)

lemma holds_delete: "holds hp0 [(a, v)] hp \<Longrightarrow> cJSON_Delete (Some a) hp = Some hp0"
  by (erule holds_one) (use stacked_delete in auto)

lemma holds_plenty: "plenty K hp0 \<Longrightarrow> holds hp0 avs hp \<Longrightarrow> plenty K hp"
  unfolding holds_def using stacked_plenty by blast

lemma stacked_swap: "stacked hp0 (t # u # ts) hp \<Longrightarrow> stacked hp0 (u # t # ts) hp"
proof -
  assume s: "stacked hp0 (t # u # ts) hp"
  have A: "addrs (x # y # ts) = addrs [x] @ addrs [y] @ addrs ts" "strs (x # y # ts) = strs [x] @ strs [y] @ strs ts"
    "const_names (x # y # ts) = const_names [x] @ const_names [y] @ const_names ts" for x y
    by (simp_all only: addrs_Cons [of x "y # ts"] addrs_Cons [of y ts] strs_Cons [of x "y # ts"] strs_Cons [of y ts]
        const_names_Cons [of x "y # ts"] const_names_Cons [of y ts])
  have eq: "set (addrs (u # t # ts)) = set (addrs (t # u # ts))" "set (strs (u # t # ts)) = set (strs (t # u # ts))"
    "set (const_names (u # t # ts)) = set (const_names (t # u # ts))"
    unfolding A by auto
  have "distinct (addrs (u # t # ts))" "distinct (strs (u # t # ts))"
    using stackedD(2,3) [OF s] unfolding A by auto
  then show ?thesis using s unfolding stacked_def eq by auto
qed

lemma holds_two:
  assumes "holds hp0 (x # y # avs) hp"
  obtains t u ts where "stacked hp0 (t # u # ts) hp" "x # y # avs = map (\<lambda>t. (lt_addr t, the_value hp t)) (t # u # ts)"
proof -
  obtain ts where ts: "stacked hp0 ts hp" "x # y # avs = map (\<lambda>t. (lt_addr t, the_value hp t)) ts"
    using assms unfolding holds_def by (elim exE conjE)
  obtain t us where t: "ts = t # us" using ts(2) by (cases ts) simp_all
  obtain u vs where u: "us = u # vs" using ts(2) t by (cases us) simp_all
  show ?thesis by (rule that [of t u vs]) (use ts t u in simp_all)
qed

lemma holds_swap: "holds hp0 (x # y # avs) hp \<Longrightarrow> holds hp0 (y # x # avs) hp"
proof -
  assume "holds hp0 (x # y # avs) hp"
  then obtain t u ts where s: "stacked hp0 (t # u # ts) hp"
    "x # y # avs = map (\<lambda>t. (lt_addr t, the_value hp t)) (t # u # ts)"
    by (rule holds_two)
  then show ?thesis unfolding holds_def using stacked_swap [OF s(1)] by (intro exI [of _ "u # t # ts"]) simp
qed

lemma holds_push:
  assumes "holds hp0 avs hp" "added hp t hp'" "set (const_names [t]) \<subseteq> dom (ch_strs hp0)"
    "\<And>x. x \<in> dom (ch_strs hp) \<Longrightarrow> ch_strs hp' x = ch_strs hp x"
  shows "holds hp0 ((lt_addr t, the_value hp' t) # avs) hp'"
proof -
  obtain ts where ts: "stacked hp0 ts hp" "avs = map (\<lambda>t. (lt_addr t, the_value hp t)) ts" using assms(1) unfolding holds_def by blast
  have "the_value hp' u = the_value hp u" if "u \<in> set ts" for u
  proof (rule the_value_cong)
    fix x assume "x \<in> set (strs [u]) \<union> set (const_names [u])"
    then have "x \<in> dom (ch_strs hp)" using stacked_readable [OF ts(1) that] unfolding readable_def by blast
    then show "ch_strs hp' x = ch_strs hp x" by (rule assms(4))
  qed
  then show ?thesis unfolding holds_def
    by (intro exI [of _ "t # ts"]) (use stacked_push [OF ts(1) assms(2,3)] ts(2) in simp)
qed

lemma holds_add:
  assumes K: "plenty K hp0" and h: "holds hp0 ((a, w) # (b, v) # avs) hp"
  shows "\<exists>hp'. add_named K (Some b) (Some nm) (Some a) hp = Some (True, hp') \<and> holds hp0 ((b, with_member v (with_name nm w)) # avs) hp'"
proof -
  obtain t u ts where s: "stacked hp0 (t # u # ts) hp"
    "(a, w) # (b, v) # avs = map (\<lambda>t. (lt_addr t, the_value hp t)) (t # u # ts)"
    using h by (rule holds_two)
  obtain b' d us where u: "u = LT b' d us" by (cases u)
  obtain k hp' where r: "add_named K (Some b') (Some nm) (Some (lt_addr t)) hp = Some (True, hp')"
    "stacked hp0 (LT b' d (us @ [named k t]) # ts) hp'"
    "the_value hp' (LT b' d (us @ [named k t])) = with_member (the_value hp (LT b' d us)) (with_name nm (the_value hp t))"
    "\<forall>u \<in> set ts. the_value hp' u = the_value hp u"
    using add_member [OF s(1) [unfolded u] K] by blast
  have "holds hp0 ((b, with_member v (with_name nm w)) # avs) hp'"
    unfolding holds_def using r s(2) u by (intro exI [of _ "LT b' d (us @ [named k t]) # ts"]) auto
  then show ?thesis using r(1) s(2) u by auto
qed

lemma holds_new:
  assumes K: "plenty K hp0" and h: "holds hp0 avs hp"
    and f: "data_strs (f zero_data) = []" "\<not> is_reference (f zero_data)" "cd_valuestring (f zero_data) = None" "cd_string (f zero_data) = None"
  shows "\<exists>a hp'. create_with K f hp = (Some a, hp')
     \<and> holds hp0 ((a, JVal (cd_type (f zero_data)) None (cd_valueint (f zero_data)) (cd_valuedouble (f zero_data)) None []) # avs) hp'"
proof -
  obtain a hp' where a: "create_with K f hp = (Some a, hp')" "added hp (LT a (f zero_data) []) hp'" "ch_strs hp' = ch_strs hp"
    using create_with_new [where f = f, OF holds_plenty [OF K h] f(1,2)] by blast
  then show ?thesis using holds_push [OF h a(2)] f(3,4) by (auto simp: the_value_simp content_def)
qed

lemma holds_create:
  assumes "plenty K hp0" "holds hp0 avs hp"
  shows "\<exists>a hp'. cJSON_CreateObject K hp = (Some a, hp') \<and> holds hp0 ((a, JVal cJSON_Object None 0 0 None []) # avs) hp'"
    "\<exists>a hp'. cJSON_CreateArray K hp = (Some a, hp') \<and> holds hp0 ((a, JVal cJSON_Array None 0 0 None []) # avs) hp'"
    "\<exists>a hp'. cJSON_CreateNull K hp = (Some a, hp') \<and> holds hp0 ((a, JVal cJSON_NULL None 0 0 None []) # avs) hp'"
    "\<exists>a hp'. cJSON_CreateNumber K num hp = (Some a, hp')
       \<and> holds hp0 ((a, JVal cJSON_Number None (saturate_int num) num None []) # avs) hp'"
  using holds_new [OF assms, of "\<lambda>d. d\<lparr>cd_type := cJSON_Object\<rparr>"] holds_new [OF assms, of "\<lambda>d. d\<lparr>cd_type := cJSON_Array\<rparr>"]
    holds_new [OF assms, of "\<lambda>d. d\<lparr>cd_type := cJSON_NULL\<rparr>"]
    holds_new [OF assms, of "\<lambda>d. d\<lparr>cd_type := cJSON_Number, cd_valuedouble := num, cd_valueint := saturate_int num\<rparr>"]
  by (simp_all add: cJSON_CreateObject_def cJSON_CreateArray_def cJSON_CreateNull_def cJSON_CreateNumber_def zero_data_def
      is_reference_def data_strs_def)

lemma holds_create_string:
  assumes K: "plenty K hp0" and h: "holds hp0 avs hp"
  shows "\<exists>a hp'. cJSON_CreateString K (Some s) hp = Some (Some a, hp') \<and> holds hp0 ((a, JVal cJSON_String (Some s) 0 0 None []) # avs) hp'"
proof -
  obtain a b hp' where a: "cJSON_CreateString K (Some s) hp = Some (Some a, hp')" "added hp (LT a (text_data b) []) hp'"
    "ch_strs hp b = None" "ch_strs hp' = (ch_strs hp)(b \<mapsto> s)"
    using create_string_new [OF holds_plenty [OF K h]] by blast
  have "holds hp0 ((a, the_value hp' (LT a (text_data b) [])) # avs) hp'"
  proof (rule holds_push [OF h a(2), simplified])
    show "ch_strs hp' x = ch_strs hp x" if "x \<in> dom (ch_strs hp)" for x using that a(3,4) by (auto simp: domIff)
  qed (simp add: text_data_def string_is_const_def zero_data_def)
  then show ?thesis using a(1,4) by (auto simp: the_value_simp text_data_def zero_data_def content_def)
qed

lemma add_created_ok:
  assumes "add_named K p nm q hp = Some (True, hp')"
  shows "add_created K p nm (q, hp) = Some (q, hp')"
  using assms by (simp add: add_created_def)

text \<open>Adding a new string, number or null to the object on top.\<close>

lemma holds_add_new:
  assumes K: "plenty K hp0" and h: "holds hp0 ((b, v) # avs) hp"
  shows "\<exists>a hp'. cJSON_AddStringToObject K (Some b) (Some nm) (Some s) hp = Some (Some a, hp')
       \<and> holds hp0 ((b, with_member v (JVal cJSON_String (Some s) 0 0 (Some nm) [])) # avs) hp'"
    "\<exists>a hp'. cJSON_AddNumberToObject K (Some b) (Some nm) num hp = Some (Some a, hp')
       \<and> holds hp0 ((b, with_member v (JVal cJSON_Number None (saturate_int num) num (Some nm) [])) # avs) hp'"
    "\<exists>a hp'. cJSON_AddNullToObject K (Some b) (Some nm) hp = Some (Some a, hp')
       \<and> holds hp0 ((b, with_member v (JVal cJSON_NULL None 0 0 (Some nm) [])) # avs) hp'"
proof -
  obtain a hp1 where a: "cJSON_CreateString K (Some s) hp = Some (Some a, hp1)"
    "holds hp0 ((a, JVal cJSON_String (Some s) 0 0 None []) # (b, v) # avs) hp1" using holds_create_string [OF assms] by blast
  then show "\<exists>a hp'. cJSON_AddStringToObject K (Some b) (Some nm) (Some s) hp = Some (Some a, hp')
       \<and> holds hp0 ((b, with_member v (JVal cJSON_String (Some s) 0 0 (Some nm) [])) # avs) hp'"
    using holds_add [OF K a(2), of nm] by (auto simp: cJSON_AddStringToObject_def add_created_ok with_name_def)
  obtain a hp1 where a: "cJSON_CreateNumber K num hp = (Some a, hp1)"
    "holds hp0 ((a, JVal cJSON_Number None (saturate_int num) num None []) # (b, v) # avs) hp1"
    using holds_create(4) [OF assms] by blast
  then show "\<exists>a hp'. cJSON_AddNumberToObject K (Some b) (Some nm) num hp = Some (Some a, hp')
       \<and> holds hp0 ((b, with_member v (JVal cJSON_Number None (saturate_int num) num (Some nm) [])) # avs) hp'"
    using holds_add [OF K a(2), of nm] by (auto simp: cJSON_AddNumberToObject_def add_created_ok with_name_def)
  obtain a hp1 where a: "cJSON_CreateNull K hp = (Some a, hp1)" "holds hp0 ((a, JVal cJSON_NULL None 0 0 None []) # (b, v) # avs) hp1"
    using holds_create(3) [OF assms] by blast
  then show "\<exists>a hp'. cJSON_AddNullToObject K (Some b) (Some nm) hp = Some (Some a, hp')
       \<and> holds hp0 ((b, with_member v (JVal cJSON_NULL None 0 0 (Some nm) [])) # avs) hp'"
    using holds_add [OF K a(2), of nm] by (auto simp: cJSON_AddNullToObject_def add_created_ok with_name_def)
qed

lemma holds_add_item:
  assumes "plenty K hp0" "holds hp0 ((a, w) # (b, v) # avs) hp"
  shows "\<exists>hp'. cJSON_AddItemToObject K (Some b) (Some nm) (Some a) hp = Some hp' \<and> holds hp0 ((b, with_member v (with_name nm w)) # avs) hp'"
  using holds_add [OF assms, of nm] by (auto simp: cJSON_AddItemToObject_def)

lemma holds_printable:
  assumes "holds hp0 ((a, v) # avs) hp" "clean_texts [v]"
  obtains t where "lt_addr t = a" "printable hp t" "the_value hp t = v"
proof -
  obtain t ts where t: "stacked hp0 (t # ts) hp" "lt_addr t = a" "the_value hp t = v"
    using assms(1) unfolding holds_def by (auto simp: Cons_eq_map_conv)
  have "tree hp t" "readable hp [t]" using stackedD(1) [OF t(1)] stacked_readable [OF t(1)] by simp_all
  moreover have "jvalues (ch_strs hp) [t] = [v]" using t(3) by (cases t) (simp add: the_value_def)
  ultimately show ?thesis using t that assms(2) by (simp add: printable_def)
qed

end
