(* ===== verification/Json_Rpc.thy ===== *)
theory Json_Rpc
  imports XList Readn CJson_More
begin

text \<open>
  \<^verbatim>\<open>common/jsonrpc/\<close>: the messages (\<^verbatim>\<open>jsonrpc.c\<close>), the service (\<^verbatim>\<open>jsonrpcService.c\<close>) and the client
  (\<^verbatim>\<open>jsonrpcClient.c\<close>), on the intrusive list of \<^verbatim>\<open>xlist.c\<close> and the trees of \<^verbatim>\<open>cJSON.c\<close>.  A message
  travels as its length in four bytes, most significant first, and its text.
\<close>

section \<open>Messages\<close>

definition JSONRPC_VERSION :: string where "JSONRPC_VERSION = ''2.0''"

datatype jsonrpc_error_code =
    JSONRPC_PARSE_ERROR | JSONRPC_INVALID_REQUEST | JSONRPC_METHOD_NOT_FOUND
  | JSONRPC_INVALID_PARAMS | JSONRPC_INTERNAL_ERROR

primrec error_code_value :: "jsonrpc_error_code \<Rightarrow> int" where
  "error_code_value JSONRPC_PARSE_ERROR = -32700"
| "error_code_value JSONRPC_INVALID_REQUEST = -32600"
| "error_code_value JSONRPC_METHOD_NOT_FOUND = -32601"
| "error_code_value JSONRPC_INVALID_PARAMS = -32602"
| "error_code_value JSONRPC_INTERNAL_ERROR = -32603"

definition jsonrpc_create_request ::
    "chooks \<Rightarrow> string ptr \<Rightarrow> addr ptr \<Rightarrow> addr ptr \<Rightarrow> cheap \<Rightarrow> (addr ptr \<times> cheap) option" where
  "jsonrpc_create_request K name params id_item hp =
     (case cJSON_CreateObject K hp of
        (None, hp) \<Rightarrow> Some (None, hp)
      | (request, hp) \<Rightarrow> do {
          (_, hp) \<leftarrow> cJSON_AddStringToObject K request (Some ''jsonrpc'') (Some JSONRPC_VERSION) hp;
          (_, hp) \<leftarrow> cJSON_AddStringToObject K request (Some ''method'') name hp;
          hp \<leftarrow> (if params \<noteq> None then cJSON_AddItemToObject K request (Some ''params'') params hp else Some hp);
          hp \<leftarrow> (if id_item \<noteq> None then cJSON_AddItemToObject K request (Some ''id'') id_item hp
                 else map_option snd (cJSON_AddNullToObject K request (Some ''id'') hp));
          Some (request, hp) })"

definition jsonrpc_create_response :: "chooks \<Rightarrow> addr ptr \<Rightarrow> addr ptr \<Rightarrow> cheap \<Rightarrow> (addr ptr \<times> cheap) option" where
  "jsonrpc_create_response K result id_item hp =
     (case cJSON_CreateObject K hp of
        (None, hp) \<Rightarrow> Some (None, hp)
      | (response, hp) \<Rightarrow> do {
          (_, hp) \<leftarrow> cJSON_AddStringToObject K response (Some ''jsonrpc'') (Some JSONRPC_VERSION) hp;
          hp \<leftarrow> (if result \<noteq> None then cJSON_AddItemToObject K response (Some ''result'') result hp
                 else map_option snd (cJSON_AddNullToObject K response (Some ''result'') hp));
          hp \<leftarrow> (if id_item \<noteq> None then cJSON_AddItemToObject K response (Some ''id'') id_item hp else Some hp);
          Some (response, hp) })"

definition jsonrpc_create_error ::
    "chooks \<Rightarrow> int \<Rightarrow> string ptr \<Rightarrow> addr ptr \<Rightarrow> addr ptr \<Rightarrow> cheap \<Rightarrow> (addr ptr \<times> cheap) option" where
  "jsonrpc_create_error K error_code message data id_item hp =
     (let (error_obj, hp) = cJSON_CreateObject K hp; (response, hp) = cJSON_CreateObject K hp in
      if error_obj = None \<or> response = None then do {
        hp \<leftarrow> (if error_obj \<noteq> None then cJSON_Delete error_obj hp else Some hp);
        hp \<leftarrow> (if response \<noteq> None then cJSON_Delete response hp else Some hp);
        Some (None, hp) }
      else do {
        (_, hp) \<leftarrow> cJSON_AddNumberToObject K error_obj (Some ''code'') (whole error_code) hp;
        (_, hp) \<leftarrow> cJSON_AddStringToObject K error_obj (Some ''message'') message hp;
        hp \<leftarrow> (if data \<noteq> None then cJSON_AddItemToObject K error_obj (Some ''data'') data hp else Some hp);
        (_, hp) \<leftarrow> cJSON_AddStringToObject K response (Some ''jsonrpc'') (Some JSONRPC_VERSION) hp;
        hp \<leftarrow> cJSON_AddItemToObject K response (Some ''error'') error_obj hp;
        hp \<leftarrow> (if id_item \<noteq> None then cJSON_AddItemToObject K response (Some ''id'') id_item hp else Some hp);
        Some (response, hp) })"

definition jsonrpc_error_message :: "int \<Rightarrow> string" where
  "jsonrpc_error_message n =
     (if n = error_code_value JSONRPC_PARSE_ERROR then ''Parse error''
      else if n = error_code_value JSONRPC_INVALID_REQUEST then ''Invalid Request''
      else if n = error_code_value JSONRPC_METHOD_NOT_FOUND then ''Method not found''
      else if n = error_code_value JSONRPC_INVALID_PARAMS then ''Invalid params''
      else if n = error_code_value JSONRPC_INTERNAL_ERROR then ''Internal error''
      else ''Unknown error'')"

section \<open>The stream\<close>

text \<open>
  One end of a connection: the kernel's side of the calls still to come, the bytes that will arrive before
  the end of the stream, and the bytes sent.  A call with \<^verbatim>\<open>MSG_WAITALL\<close> is one that transfers all it was
  asked for unless a signal or the end of the stream cuts it short.
\<close>

record sock =
  so_events :: "io_event list"
  so_in :: string
  so_out :: string

definition htonl_bytes :: "nat \<Rightarrow> string" where
  "htonl_bytes n = map (\<lambda>k. char_of (n div 2 ^ k mod 256)) [24, 16, 8, 0]"

definition ntohl_bytes :: "string \<Rightarrow> nat" where
  "ntohl_bytes bs = foldl (\<lambda>n c. n * 256 + of_char c) 0 bs"

definition sock_send :: "string \<Rightarrow> sock \<Rightarrow> (int \<times> sock) outcome" where
  "sock_send bs so =
     (case so_events so of [] \<Rightarrow> Blocked
      | e # evs \<Rightarrow> (case sys_write e bs of (n, _, acc) \<Rightarrow>
          Returned (n, so\<lparr>so_events := evs, so_out := so_out so @ acc\<rparr>)))"

definition sock_recv :: "nat \<Rightarrow> sock \<Rightarrow> (int \<times> string \<times> sock) outcome" where
  "sock_recv len so =
     (case so_events so of [] \<Rightarrow> Blocked
      | e # evs \<Rightarrow> (case sys_read e (so_in so) (int len) of (n, _, bs, rest) \<Rightarrow>
          Returned (n, bs, so\<lparr>so_events := evs, so_in := rest\<rparr>)))"

text \<open>The loop of \<^verbatim>\<open>socket_send\<close>; it takes one event in every round.\<close>

function socket_send_loop :: "string \<Rightarrow> nat \<Rightarrow> sock \<Rightarrow> (int \<times> sock) outcome" where
  "socket_send_loop data sent so =
     (if sent < length data then
        (case so_events so of [] \<Rightarrow> Blocked
         | e # evs \<Rightarrow> (case sys_write e (drop sent data) of (n, _, acc) \<Rightarrow>
             (let so = so\<lparr>so_events := evs, so_out := so_out so @ acc\<rparr> in
              if n \<le> 0 then Returned (-1, so) else socket_send_loop data (sent + nat n) so)))
      else Returned (0, so))"
  by pat_completeness auto
termination by (relation "measure (\<lambda>(_, _, so). length (so_events so))") auto

declare socket_send_loop.simps [simp del]

definition socket_send :: "string \<Rightarrow> sock \<Rightarrow> (int \<times> sock) outcome" where
  "socket_send data so = socket_send_loop data 0 so"

text \<open>The loop that receives the text into the block \<open>buf\<close>.\<close>

function recv_loop :: "nat \<Rightarrow> nat \<Rightarrow> string \<Rightarrow> sock \<Rightarrow> (bool \<times> string \<times> sock) outcome option" where
  "recv_loop msg_len received buf so =
     (if received < msg_len then
        (case so_events so of [] \<Rightarrow> Some Blocked
         | e # evs \<Rightarrow> (case sys_read e (so_in so) (int (msg_len - received)) of (n, _, bs, rest) \<Rightarrow>
             (let so = so\<lparr>so_events := evs, so_in := rest\<rparr> in
              if n \<le> 0 then Some (Returned (False, buf, so))
              else case mem_write buf received bs of None \<Rightarrow> None
                | Some buf \<Rightarrow> recv_loop msg_len (received + nat n) buf so)))
      else Some (Returned (True, buf, so)))"
  by pat_completeness auto
termination by (relation "measure (\<lambda>(_, _, _, so). length (so_events so))") auto

declare recv_loop.simps [simp del]

text \<open>Both sides then store the zero byte behind the text and return its length.\<close>

definition recv_text :: "nat \<Rightarrow> string \<Rightarrow> sock \<Rightarrow> (int \<times> string \<times> sock) outcome option" where
  "recv_text msg_len buf so =
     (case recv_loop msg_len 0 buf so of
        None \<Rightarrow> None
      | Some Blocked \<Rightarrow> Some Blocked
      | Some (Returned (ok, buf, so)) \<Rightarrow>
          if ok then map_option (\<lambda>buf. Returned (int msg_len, buf, so)) (mem_write buf msg_len [CHR 0x00])
          else Some (Returned (-1, buf, so)))"

definition socket_recv :: "string \<Rightarrow> nat \<Rightarrow> sock \<Rightarrow> (int \<times> string \<times> sock) outcome option" where
  "socket_recv buf max_len so =
     (case sock_recv 4 so of
        Blocked \<Rightarrow> Some Blocked
      | Returned (n, bs, so) \<Rightarrow>
          if n \<noteq> 4 then Some (Returned (-1, buf, so))
          else (let msg_len = ntohl_bytes bs in
            if msg_len = 0 \<or> msg_len > max_len - 1 then Some (Returned (-1, buf, so))
            else recv_text msg_len buf so))"

text \<open>What both replies do with the text: its length first, and the text only if that could be sent.\<close>

definition send_framed :: "string \<Rightarrow> sock \<Rightarrow> (bool \<times> sock) outcome" where
  "send_framed text so =
     (case socket_send (htonl_bytes (length text)) so of
        Blocked \<Rightarrow> Blocked
      | Returned (r, so) \<Rightarrow>
          if r = 0 then (case socket_send text so of Blocked \<Rightarrow> Blocked | Returned (_, so) \<Rightarrow> Returned (True, so))
          else Returned (False, so))"

end
