(* ===== verification/Json_Rpc_Service.thy ===== *)
theory Json_Rpc_Service
  imports Json_Rpc
begin

text \<open>
  \<^verbatim>\<open>common/jsonrpc/jsonrpcService.c\<close>: the table of methods in an intrusive list, the handling of one
  request and of a connection, the asynchronous reply, and the life of the service with its accepting
  thread (\<^verbatim>\<open>TSK_create\<close> and \<^verbatim>\<open>TSK_delete\<close> of \<^verbatim>\<open>common/tsk.c\<close>).
\<close>

section \<open>State\<close>

type_synonym jsonrpc_method_handler = "addr ptr \<Rightarrow> addr ptr \<Rightarrow> addr ptr \<Rightarrow> cheap \<Rightarrow> (addr ptr \<times> cheap) option"

record jsonrpc_method_t =
  jm_method_name :: "string ptr"
  jm_handler :: jsonrpc_method_handler
  jm_user_data :: "addr ptr"

text \<open>A field of type \<open>'a option\<close> that is \<open>None\<close> has not been written since the \<^verbatim>\<open>malloc\<close>.\<close>

record jsonrpc_service_t =
  js_port :: int
  js_server_fd :: int
  js_hDetectTsk :: "addr ptr option"
  js_bTskDone :: bool
  js_tMethodList :: T_StdList
  js_user_data :: "addr ptr"
  js_client_fd :: "int option"

text \<open>The nodes of the table: each has the list's links and the method's fields.\<close>

record method_heap =
  mh_nodes :: nheap
  mh_methods :: "addr \<rightharpoonup> jsonrpc_method_t"

section \<open>Methods\<close>

partial_function (option) find_node :: "string \<Rightarrow> addr ptr \<Rightarrow> method_heap \<Rightarrow> addr ptr option" where
  "find_node name ptNode mh =
     (case ptNode of None \<Rightarrow> Some None
      | Some a \<Rightarrow> do {
          ptNextNode \<leftarrow> StdListGetNextNode (Some a) (mh_nodes mh);
          m \<leftarrow> mh_methods mh a;
          s \<leftarrow> jm_method_name m;
          if s = name then Some (Some a) else find_node name ptNextNode mh })"

definition MethodFindNode :: "jsonrpc_service_t \<Rightarrow> string \<Rightarrow> method_heap \<Rightarrow> addr ptr option" where
  "MethodFindNode s name mh = find_node name (StdListGetHeadNode (Some (js_tMethodList s))) mh"

text \<open>
  The second half of the registration, from the allocation of the node on; the search before it runs without
  the lock.  \<open>al\<close> is the allocator of nodes, \<open>dup\<close> tells whether \<^verbatim>\<open>strdup\<close> has memory.
\<close>

definition register_link ::
    "(nheap \<Rightarrow> addr ptr) \<Rightarrow> bool \<Rightarrow> jsonrpc_service_t \<Rightarrow> string \<Rightarrow> jsonrpc_method_handler \<Rightarrow> addr ptr \<Rightarrow> method_heap
     \<Rightarrow> (E_StateCode \<times> jsonrpc_service_t \<times> method_heap) option" where
  "register_link al dup s name handler user_data mh =
     (case al (mh_nodes mh) of
        None \<Rightarrow> Some (STATE_CODE_ALLOCATION_FAILURE, s, mh)
      | Some a \<Rightarrow> do {
          (l, nodes) \<leftarrow> StdListPushBack (Some (js_tMethodList s)) (Some a)
             ((mh_nodes mh)(a \<mapsto> \<lparr>sn_next = None, sn_prev = None\<rparr>));
          l \<leftarrow> l;
          Some (STATE_CODE_NO_ERROR, s\<lparr>js_tMethodList := l\<rparr>,
            \<lparr>mh_nodes = nodes, mh_methods = (mh_methods mh)(a \<mapsto>
               \<lparr>jm_method_name = (if dup then Some name else None), jm_handler = handler, jm_user_data = user_data\<rparr>)\<rparr>) })"

definition jsonrpc_service_register_method ::
    "(nheap \<Rightarrow> addr ptr) \<Rightarrow> bool \<Rightarrow> jsonrpc_service_t ptr \<Rightarrow> string ptr \<Rightarrow> jsonrpc_method_handler ptr \<Rightarrow> addr ptr \<Rightarrow> method_heap
     \<Rightarrow> (E_StateCode \<times> jsonrpc_service_t ptr \<times> method_heap) option" where
  "jsonrpc_service_register_method al dup hservice name handler user_data mh =
     (case hservice of
        None \<Rightarrow> Some (STATE_CODE_INVALID_HANDLE, None, mh)
      | Some s \<Rightarrow>
          (case (name, handler) of
             (Some nm, Some f) \<Rightarrow> do {
               ptNode \<leftarrow> MethodFindNode s nm mh;
               if ptNode \<noteq> None then Some (STATE_CODE_NO_ERROR, hservice, mh)
               else map_option (\<lambda>(c, s, mh). (c, Some s, mh)) (register_link al dup s nm f user_data mh) }
           | _ \<Rightarrow> Some (STATE_CODE_INVALID_PARAM, hservice, mh)))"

definition jsonrpc_service_unregister_method ::
    "jsonrpc_service_t ptr \<Rightarrow> string ptr \<Rightarrow> method_heap \<Rightarrow> (E_StateCode \<times> jsonrpc_service_t ptr \<times> method_heap) option" where
  "jsonrpc_service_unregister_method hservice name mh =
     (case hservice of
        None \<Rightarrow> Some (STATE_CODE_INVALID_HANDLE, None, mh)
      | Some s \<Rightarrow>
          (case name of
             None \<Rightarrow> Some (STATE_CODE_INVALID_PARAM, hservice, mh)
           | Some nm \<Rightarrow> do {
               ptNode \<leftarrow> MethodFindNode s nm mh;
               (case ptNode of
                  None \<Rightarrow> Some (STATE_CODE_NO_ERROR, hservice, mh)
                | Some a \<Rightarrow> do {
                    (l, nodes) \<leftarrow> StdListRemove (Some (js_tMethodList s)) (Some a) (mh_nodes mh);
                    l \<leftarrow> l;
                    nodes \<leftarrow> h_free nodes a;
                    methods \<leftarrow> h_free (mh_methods mh) a;
                    Some (STATE_CODE_NO_ERROR, Some (s\<lparr>js_tMethodList := l\<rparr>), \<lparr>mh_nodes = nodes, mh_methods = methods\<rparr>) }) }))"

section \<open>Requests\<close>

text \<open>
  The response to a request that was parsed: the checks in their order, then the method.  The handler and
  its result are the table's; an item of the request is used where it is.
\<close>

definition request_response ::
    "chooks \<Rightarrow> jsonrpc_service_t \<Rightarrow> method_heap \<Rightarrow> addr ptr \<Rightarrow> cheap \<Rightarrow> (addr ptr \<times> cheap) option" where
  "request_response K s mh request_json hp = do {
     version \<leftarrow> cJSON_GetObjectItem request_json (Some ''jsonrpc'') hp;
     version_ok \<leftarrow> do {
       ok \<leftarrow> cJSON_IsString version hp;
       (case version of
          Some v \<Rightarrow> if ok then do {
              n \<leftarrow> ch_items hp v;
              p \<leftarrow> cd_valuestring (cj_data n);
              str \<leftarrow> ch_strs hp p;
              Some (str = JSONRPC_VERSION) } else Some False
        | None \<Rightarrow> Some False) };
     if \<not> version_ok then jsonrpc_create_error K (error_code_value JSONRPC_INVALID_REQUEST) (Some ''Invalid JSON-RPC version'') None None hp
     else do {
       meth \<leftarrow> cJSON_GetObjectItem request_json (Some ''method'') hp;
       is_str \<leftarrow> cJSON_IsString meth hp;
       (case meth of
          Some m \<Rightarrow>
            if \<not> is_str then jsonrpc_create_error K (error_code_value JSONRPC_INVALID_REQUEST) (Some ''Method not specified'') None None hp
            else do {
              id_item \<leftarrow> cJSON_GetObjectItem request_json (Some ''id'') hp;
              n \<leftarrow> ch_items hp m;
              p \<leftarrow> cd_valuestring (cj_data n);
              name \<leftarrow> ch_strs hp p;
              node \<leftarrow> MethodFindNode s name mh;
              (case node of
                 None \<Rightarrow> jsonrpc_create_error K (error_code_value JSONRPC_METHOD_NOT_FOUND) (Some ''Method not found'') None id_item hp
               | Some nd \<Rightarrow> do {
                   mt \<leftarrow> mh_methods mh nd;
                   params \<leftarrow> cJSON_GetObjectItem request_json (Some ''params'') hp;
                   (result, hp) \<leftarrow> jm_handler mt params id_item (jm_user_data mt) hp;
                   if result \<noteq> None then jsonrpc_create_response K result id_item hp
                   else jsonrpc_create_error K (error_code_value JSONRPC_INTERNAL_ERROR) (Some ''error'') None id_item hp }) }
        | None \<Rightarrow> jsonrpc_create_error K (error_code_value JSONRPC_INVALID_REQUEST) (Some ''Method not specified'') None None hp) } }"

text \<open>
  Sending the text of a response when there is one, freeing it, and deleting the response; what is returned
  tells whether the length was sent.
\<close>

definition send_text ::
    "addr ptr \<Rightarrow> addr ptr \<Rightarrow> sock \<Rightarrow> cheap \<Rightarrow> (bool \<times> sock \<times> cheap) outcome option" where
  "send_text response_str response_json so hp =
     (case response_str of
        None \<Rightarrow> map_option (\<lambda>hp. Returned (False, so, hp)) (cJSON_Delete response_json hp)
      | Some b \<Rightarrow> do {
          text \<leftarrow> ch_strs hp b;
          (case send_framed text so of
             Blocked \<Rightarrow> Some Blocked
           | Returned (sent, so) \<Rightarrow> do {
               hp \<leftarrow> free_str response_str hp;
               map_option (\<lambda>hp. Returned (sent, so, hp)) (cJSON_Delete response_json hp) }) })"

definition send_response ::
    "phooks \<Rightarrow> addr ptr \<Rightarrow> sock \<Rightarrow> cheap \<Rightarrow> (bool \<times> sock \<times> cheap) outcome option" where
  "send_response P response_json so hp =
     (if response_json = None then Some (Returned (False, so, hp))
      else do {
        (response_str, hp) \<leftarrow> cJSON_PrintUnformatted P response_json hp;
        send_text response_str response_json so hp })"

definition handle_jsonrpc_request ::
    "chooks \<Rightarrow> phooks \<Rightarrow> jsonrpc_service_t \<Rightarrow> method_heap \<Rightarrow> string \<Rightarrow> sock \<Rightarrow> cheap \<Rightarrow> (int \<times> sock \<times> cheap) outcome option" where
  "handle_jsonrpc_request K P s mh request so hp = do {
     (request_json, hp) \<leftarrow> cJSON_Parse K (Some request) hp;
     (response_json, hp) \<leftarrow>
       (if request_json = None
        then jsonrpc_create_error K (error_code_value JSONRPC_PARSE_ERROR) (Some ''Parse error'') None None hp
        else request_response K s mh request_json hp);
     r \<leftarrow> send_response P response_json so hp;
     (case r of
        Blocked \<Rightarrow> Some Blocked
      | Returned (sent, so, hp) \<Rightarrow> do {
          hp \<leftarrow> (if request_json \<noteq> None then cJSON_Delete request_json hp else Some hp);
          Some (Returned (if sent then 0 else -1, so, hp)) }) }"

text \<open>The thread of a connection: requests are handled until receiving fails; \<open>buffer\<close> is the local array.\<close>

partial_function (option) handle_client_connection ::
    "chooks \<Rightarrow> phooks \<Rightarrow> jsonrpc_service_t \<Rightarrow> method_heap \<Rightarrow> string \<Rightarrow> sock \<Rightarrow> cheap \<Rightarrow> (sock \<times> cheap) outcome option" where
  "handle_client_connection K P s mh buffer so hp = do {
     r \<leftarrow> socket_recv buffer 4096 so;
     (case r of
        Blocked \<Rightarrow> Some Blocked
      | Returned (len, buffer, so) \<Rightarrow>
          if len \<le> 0 then Some (Returned (so, hp))
          else do {
            r \<leftarrow> handle_jsonrpc_request K P s mh (c_string buffer) so hp;
            (case r of
               Blocked \<Rightarrow> Some Blocked
             | Returned (_, so, hp) \<Rightarrow> handle_client_connection K P s mh buffer so hp) }) }"

text \<open>
  The reply to a call that was answered later; \<open>so\<close> is the stream of \<^verbatim>\<open>client_fd\<close>, which is read once
  there is a text to send.
\<close>

definition JsonRpcServerReply ::
    "chooks \<Rightarrow> phooks \<Rightarrow> jsonrpc_service_t ptr \<Rightarrow> u32 \<Rightarrow> E_StateCode \<Rightarrow> string ptr \<Rightarrow> sock \<Rightarrow> cheap \<Rightarrow> (sock \<times> cheap) outcome option" where
  "JsonRpcServerReply K P hService uiCallId eCode data so hp =
     (case hService of
        None \<Rightarrow> Some (Returned (so, hp))
      | Some s \<Rightarrow> do {
          (result, hp) \<leftarrow> cJSON_Parse K data hp;
          let (id_item, hp) = cJSON_CreateNumber K (whole (uint uiCallId)) hp;
          (response_json, hp) \<leftarrow> jsonrpc_create_response K result id_item hp;
          (_, hp) \<leftarrow> cJSON_AddNumberToObject K response_json (Some ''eCode'') (whole (state_code_value eCode)) hp;
          r \<leftarrow> (if response_json = None then Some (Returned (False, so, hp))
             else do {
               (response_str, hp) \<leftarrow> cJSON_PrintUnformatted P response_json hp;
               _ \<leftarrow> (if response_str \<noteq> None then js_client_fd s else Some 0);
               send_text response_str response_json so hp });
          (case r of
             Blocked \<Rightarrow> Some Blocked
           | Returned (_, so, hp) \<Rightarrow> map_option (\<lambda>hp. Returned (so, hp)) (cJSON_Delete result hp)) })"

section \<open>The life of the service\<close>

text \<open>Threads are known by their handles, which \<^verbatim>\<open>TSK_delete\<close> joins and frees.\<close>

definition TSK_create :: "((addr \<rightharpoonup> unit) \<Rightarrow> addr ptr) \<Rightarrow> bool \<Rightarrow> 'f ptr \<Rightarrow> (addr \<rightharpoonup> unit) \<Rightarrow> addr ptr \<times> (addr \<rightharpoonup> unit)" where
  "TSK_create al created fxn th =
     (case fxn of None \<Rightarrow> (None, th)
      | Some _ \<Rightarrow> (case al th of None \<Rightarrow> (None, th)
         | Some t \<Rightarrow> if created then (Some t, th(t \<mapsto> ())) else (None, th)))"

definition TSK_delete :: "addr ptr \<Rightarrow> (addr \<rightharpoonup> unit) \<Rightarrow> (addr \<rightharpoonup> unit) option" where
  "TSK_delete hTsk th = (case hTsk of None \<Rightarrow> Some th | Some t \<Rightarrow> h_free th t)"

definition jsonrpc_service_create :: "bool \<Rightarrow> int \<Rightarrow> addr ptr \<Rightarrow> jsonrpc_service_t ptr" where
  "jsonrpc_service_create mem port user_data =
     (if mem then Some \<lparr>js_port = port, js_server_fd = -1, js_hDetectTsk = None, js_bTskDone = False,
         js_tMethodList = \<lparr>sl_head = None, sl_tail = None, sl_size = 0\<rparr>, js_user_data = user_data, js_client_fd = None\<rparr>
      else None)"

definition jsonrpc_service_start ::
    "((addr \<rightharpoonup> unit) \<Rightarrow> addr ptr) \<Rightarrow> bool \<Rightarrow> jsonrpc_service_t ptr \<Rightarrow> (addr \<rightharpoonup> unit) \<Rightarrow> E_StateCode \<times> jsonrpc_service_t ptr \<times> (addr \<rightharpoonup> unit)" where
  "jsonrpc_service_start al created hservice th =
     (case hservice of
        None \<Rightarrow> (STATE_CODE_INVALID_HANDLE, None, th)
      | Some s \<Rightarrow>
          (case TSK_create al created (Some ()) th of (tsk, th) \<Rightarrow>
            (if tsk = None then STATE_CODE_ALLOCATION_FAILURE else STATE_CODE_NO_ERROR,
             Some (s\<lparr>js_bTskDone := False, js_hDetectTsk := Some tsk\<rparr>), th)))"

text \<open>\<open>fds\<close> are the open descriptors.\<close>

definition jsonrpc_service_stop ::
    "jsonrpc_service_t ptr \<Rightarrow> (addr \<rightharpoonup> unit) \<Rightarrow> int set \<Rightarrow> (jsonrpc_service_t ptr \<times> (addr \<rightharpoonup> unit) \<times> int set) option" where
  "jsonrpc_service_stop hservice th fds =
     (case hservice of
        None \<Rightarrow> Some (None, th, fds)
      | Some s \<Rightarrow> do {
          let fds = (if js_server_fd s \<noteq> -1 then fds - {js_server_fd s} else fds);
          hTsk \<leftarrow> js_hDetectTsk s;
          th \<leftarrow> TSK_delete hTsk th;
          Some (Some (s\<lparr>js_bTskDone := True, js_server_fd := -1, js_hDetectTsk := Some None\<rparr>), th, fds) })"

definition jsonrpc_service_free ::
    "jsonrpc_service_t ptr \<Rightarrow> (addr \<rightharpoonup> unit) \<Rightarrow> int set \<Rightarrow> ((addr \<rightharpoonup> unit) \<times> int set) option" where
  "jsonrpc_service_free hService th fds =
     (case hService of None \<Rightarrow> Some (th, fds)
      | Some s \<Rightarrow> map_option snd (jsonrpc_service_stop hService th fds))"

end
