(* ===== verification/Json_Rpc_Client.thy ===== *)
theory Json_Rpc_Client
  imports Json_Rpc
begin

text \<open>
  \<^verbatim>\<open>common/jsonrpc/jsonrpcClient.c\<close>: one connection, opened on demand, and calls that send a request and
  wait for its response.
\<close>

record jsonrpc_client_t =
  jc_host :: "string ptr"
  jc_port :: int
  jc_sock_fd :: int
  jc_connected :: bool

text \<open>
  What the kernel answers to the next attempt to connect: the descriptor of \<^verbatim>\<open>socket\<close>, whether the
  address is one and the connection is accepted, and the new stream.
\<close>

record dial =
  dl_fd :: int
  dl_address :: bool
  dl_accepted :: bool
  dl_stream :: sock

text \<open>The state a call works on: the client, its stream and the open descriptors.\<close>

type_synonym client_state = "jsonrpc_client_t \<times> sock \<times> int set"

definition jsonrpc_client_create :: "bool \<Rightarrow> string ptr \<Rightarrow> int \<Rightarrow> jsonrpc_client_t ptr" where
  "jsonrpc_client_create mem host port =
     (if mem then Some \<lparr>jc_host = host, jc_port = port, jc_sock_fd = -1, jc_connected = False\<rparr> else None)"

definition jsonrpc_client_free :: "jsonrpc_client_t ptr \<Rightarrow> int set \<Rightarrow> int set" where
  "jsonrpc_client_free hclient fds =
     (case hclient of None \<Rightarrow> fds | Some c \<Rightarrow> if jc_sock_fd c \<noteq> -1 then fds - {jc_sock_fd c} else fds)"

definition client_connect :: "dial \<Rightarrow> client_state \<Rightarrow> int \<times> client_state" where
  "client_connect d = (\<lambda>(c, so, fds).
     if jc_connected c then (0, c, so, fds)
     else (let c = c\<lparr>jc_sock_fd := dl_fd d\<rparr> in
       if dl_fd d < 0 then (-1, c, so, fds)
       else (let opened = insert (dl_fd d) fds in
         if \<not> dl_address d then (-1, c, so, opened - {dl_fd d})
         else if \<not> dl_accepted d then (-1, c, so, opened - {dl_fd d})
         else (0, c\<lparr>jc_connected := True\<rparr>, dl_stream d, opened))))"

text \<open>The conversation after the connection is there; \<open>response\<close> is the caller's array.\<close>

definition exchange ::
    "jsonrpc_client_t \<Rightarrow> string \<Rightarrow> string \<Rightarrow> nat \<Rightarrow> sock \<Rightarrow> (int \<times> string \<times> jsonrpc_client_t \<times> sock) outcome option" where
  "exchange c request response max_response so =
     (let lost = c\<lparr>jc_connected := False\<rparr> in
      case sock_send (htonl_bytes (length request)) so of
        Blocked \<Rightarrow> Some Blocked
      | Returned (n, so) \<Rightarrow>
          if n \<noteq> 4 then Some (Returned (-1, response, lost, so))
          else (case sock_send request so of
              Blocked \<Rightarrow> Some Blocked
            | Returned (n, so) \<Rightarrow>
                if n \<noteq> int (length request) then Some (Returned (-1, response, lost, so))
                else (case sock_recv 4 so of
                    Blocked \<Rightarrow> Some Blocked
                  | Returned (n, bs, so) \<Rightarrow>
                      if n \<noteq> 4 then Some (Returned (-1, response, lost, so))
                      else (let response_len = ntohl_bytes bs in
                        if response_len = 0 \<or> max_response \<le> response_len then Some (Returned (-1, response, c, so))
                        else (case recv_text response_len response so of
                            None \<Rightarrow> None
                          | Some Blocked \<Rightarrow> Some Blocked
                          | Some (Returned (r, response, so)) \<Rightarrow>
                              Some (Returned (r, response, if r < 0 then lost else c, so)))))))"

definition client_send_request ::
    "dial \<Rightarrow> string \<Rightarrow> string \<Rightarrow> nat \<Rightarrow> client_state \<Rightarrow> (int \<times> string \<times> client_state) outcome option" where
  "client_send_request d request response max_response st =
     (case (if jc_connected (fst st) then (0, st) else client_connect d st) of (r, c, so, fds) \<Rightarrow>
       if r \<noteq> 0 then Some (Returned (-1, response, c, so, fds))
       else map_option (\<lambda>x. case x of Blocked \<Rightarrow> Blocked
           | Returned (n, response, c, so) \<Rightarrow> Returned (n, response, c, so, fds))
         (exchange c request response max_response so))"

text \<open>
  What is done with the text of the response: the code, and \<open>res\<close>, the caller's result pointer, which is
  only written when there is a result.
\<close>

definition read_response :: "chooks \<Rightarrow> string \<Rightarrow> addr ptr \<Rightarrow> cheap \<Rightarrow> (int \<times> addr ptr \<times> cheap) option" where
  "read_response K text res hp = do {
     (response, hp) \<leftarrow> cJSON_Parse K (Some text) hp;
     if response = None then Some (state_code_value STATE_CODE_INVALID_PARAM, res, hp)
     else do {
       error \<leftarrow> cJSON_GetObjectItem response (Some ''error'') hp;
       if error \<noteq> None then do {
         code_item \<leftarrow> cJSON_GetObjectItem error (Some ''code'') hp;
         eCode \<leftarrow> (case code_item of None \<Rightarrow> Some (state_code_value STATE_CODE_FAILED_TO_PROCEED_COMMAND)
                  | Some a \<Rightarrow> map_option (\<lambda>n. cd_valueint (cj_data n)) (ch_items hp a));
         hp \<leftarrow> cJSON_Delete response hp;
         Some (eCode, res, hp) }
       else do {
         temp \<leftarrow> cJSON_GetObjectItem response (Some ''result'') hp;
         (res, hp) \<leftarrow> (if temp \<noteq> None then cJSON_Duplicate K temp True hp else Some (res, hp));
         hp \<leftarrow> cJSON_Delete response hp;
         Some (state_code_value STATE_CODE_NO_ERROR, res, hp) } } }"

text \<open>
  A call.  \<open>request_id\<close> is the static counter; \<open>response_buf\<close> is the local array of 4096 bytes.  The
  results are the code, the caller's result pointer, the counter, the client's state and the heap.
\<close>

definition jsonrpc_client_call ::
    "chooks \<Rightarrow> phooks \<Rightarrow> dial \<Rightarrow> string \<Rightarrow> jsonrpc_client_t ptr \<Rightarrow> string ptr \<Rightarrow> addr ptr \<Rightarrow> addr ptr \<Rightarrow> int \<Rightarrow> sock \<Rightarrow> int set \<Rightarrow> cheap
     \<Rightarrow> (int \<times> addr ptr \<times> int \<times> jsonrpc_client_t ptr \<times> sock \<times> int set \<times> cheap) outcome option" where
  "jsonrpc_client_call K P d response_buf hclient meth params res request_id so fds hp =
     (case hclient of
        None \<Rightarrow> Some (Returned (state_code_value STATE_CODE_INVALID_PARAM, res, request_id, None, so, fds, hp))
      | Some c \<Rightarrow>
          if meth = None then Some (Returned (state_code_value STATE_CODE_INVALID_PARAM, res, request_id, hclient, so, fds, hp))
          else if request_id = 2147483647 then None
          else (let cur_id = request_id; request_id = request_id + 1; (id_item, hp) = cJSON_CreateNumber K (whole cur_id) hp in do {
            (request, hp) \<leftarrow> jsonrpc_create_request K meth params id_item hp;
            if request = None
            then Some (Returned (state_code_value STATE_CODE_FAILED_TO_PROCEED_COMMAND, res, request_id, hclient, so, fds, hp))
            else do {
              (request_str, hp) \<leftarrow> cJSON_PrintUnformatted P request hp;
              hp \<leftarrow> cJSON_Delete request hp;
              (case request_str of
                 None \<Rightarrow> Some (Returned (state_code_value STATE_CODE_INVALID_PARAM, res, request_id, hclient, so, fds, hp))
               | Some b \<Rightarrow> do {
                   text \<leftarrow> ch_strs hp b;
                   r \<leftarrow> client_send_request d text response_buf 4096 (c, so, fds);
                   (case r of
                      Blocked \<Rightarrow> Some Blocked
                    | Returned (response_len, response_buf, c, so, fds) \<Rightarrow> do {
                        hp \<leftarrow> free_str request_str hp;
                        if response_len \<le> 0
                        then Some (Returned (state_code_value STATE_CODE_INVALID_PARAM, res, request_id, Some c, so, fds, hp))
                        else do {
                          (eCode, res, hp) \<leftarrow> read_response K (c_string response_buf) res hp;
                          Some (Returned (eCode, res, request_id, Some c, so, fds, hp)) } }) }) } }))"

end
