(* ===== verification/Json_Rpc_Replies.thy ===== *)
theory Json_Rpc_Replies
  imports CJson_Build Json_Rpc_Service Json_Rpc_Client
begin

text \<open>
  What the service of \<^verbatim>\<open>common/jsonrpc/jsonrpcService.c\<close> does with a request, with memory left: the responses it
  builds and sends, the memory it gives back, and what goes wrong when the request has an id.
\<close>

section \<open>Looking up a member\<close>

fun find_member :: "(addr \<rightharpoonup> string) \<Rightarrow> string \<Rightarrow> ltree list \<Rightarrow> ltree ptr" where
  "find_member m nm [] = None"
| "find_member m nm (t # ts) =
     (if (\<exists>s. content m (cd_string (lt_data t)) = Some s \<and> ci_compare nm s = 0) then Some t else find_member m nm ts)"

lemma find_item_seg:
  assumes "seg (ch_items hp) p pv ts None" "readable hp ts"
  shows "find_item False nm p hp = Some (map_option lt_addr (find_member (ch_strs hp) nm ts))"
  using assms
proof (induction ts arbitrary: p pv)
  case Nil
  then have "p = None" by simp
  then show ?case by (subst find_item.simps) simp
next
  case (Cons t ts)
  obtain a d cs where t: "t = LT a d cs" by (cases t)
  with Cons.prems obtain n where n: "p = Some a" "ch_items hp a = Some n" "cj_data n = d" "seg (ch_items hp) (cj_next n) (Some a) ts None"
    by (auto split: option.splits)
  have r: "readable hp ts" "read_str (cd_string d) hp = Some (content (ch_strs hp) (cd_string d))"
    using readable_Cons [of hp a d cs ts] Cons.prems(2) t by simp_all
  show ?case
    using n r(2) Cons.IH [OF n(4) r(1)] t
    by (subst find_item.simps) (auto simp: case_insensitive_strcmp_def split: option.split)
qed

lemma get_object_item_tree:
  assumes "tree hp (LT a d ts)" "readable hp ts"
  shows "cJSON_GetObjectItem (Some a) (Some nm) hp = Some (map_option lt_addr (find_member (ch_strs hp) nm ts))"
proof -
  obtain n where "ch_items hp a = Some n" "chain (ch_items hp) (cj_child n) None ts" by (rule treeE [OF assms(1)])
  with find_item_seg [OF _ assms(2)] show ?thesis by (simp add: cJSON_GetObjectItem_def get_object_item_def)
qed

lemma find_member_split:
  assumes "find_member m nm ts = Some t"
  obtains us vs where "ts = us @ t # vs"
  using assms by (induction ts) (auto split: if_splits, metis append_Cons)

section \<open>Responses\<close>

definition version_member :: jval where
  "version_member = JVal cJSON_String (Some JSONRPC_VERSION) 0 0 (Some ''jsonrpc'') []"

definition response_value :: "jval \<Rightarrow> jval" where
  "response_value w = JVal cJSON_Object None 0 0 None [version_member, with_name ''result'' w]"

definition error_value :: "int \<Rightarrow> string \<Rightarrow> jval" where
  "error_value n msg = JVal cJSON_Object None 0 0 None [version_member,
     JVal cJSON_Object None 0 0 (Some ''error'') [JVal cJSON_Number None (saturate_int (whole n)) (whole n) (Some ''code'') [],
       JVal cJSON_String (Some msg) 0 0 (Some ''message'') []]]"

lemma with_member_simp [simp]: "with_member (JVal t s i d nm kids) w = JVal t s i d nm (kids @ [w])"
  by (simp add: with_member_def)

lemma create_response_ok:
  assumes K: "plenty K hp0" and h: "holds hp0 ((a, w) # avs) hp"
  shows "\<exists>r hp'. jsonrpc_create_response K (Some a) None hp = Some (Some r, hp') \<and> holds hp0 ((r, response_value w) # avs) hp'"
proof -
  obtain r hp1 where 1: "cJSON_CreateObject K hp = (Some r, hp1)" "holds hp0 ((r, JVal cJSON_Object None 0 0 None []) # (a, w) # avs) hp1"
    using holds_create(1) [OF assms] by blast
  obtain x hp2 where 2: "cJSON_AddStringToObject K (Some r) (Some ''jsonrpc'') (Some JSONRPC_VERSION) hp1 = Some (Some x, hp2)"
    "holds hp0 ((r, JVal cJSON_Object None 0 0 None [version_member]) # (a, w) # avs) hp2"
    using holds_add_new(1) [OF K 1(2), of "''jsonrpc''" JSONRPC_VERSION] by (auto simp: version_member_def)
  obtain hp3 where 3: "cJSON_AddItemToObject K (Some r) (Some ''result'') (Some a) hp2 = Some hp3"
    "holds hp0 ((r, response_value w) # avs) hp3"
    using holds_add_item [OF K holds_swap [OF 2(2)], of "''result''"] by (auto simp: response_value_def)
  show ?thesis using 1(1) 2(1) 3 by (simp add: jsonrpc_create_response_def)
qed

lemma create_error_ok:
  assumes K: "plenty K hp0" and h: "holds hp0 avs hp"
  shows "\<exists>r hp'. jsonrpc_create_error K n (Some msg) None None hp = Some (Some r, hp') \<and> holds hp0 ((r, error_value n msg) # avs) hp'"
proof -
  obtain e hp1 where 1: "cJSON_CreateObject K hp = (Some e, hp1)" "holds hp0 ((e, JVal cJSON_Object None 0 0 None []) # avs) hp1"
    using holds_create(1) [OF assms] by blast
  obtain r hp2 where 2: "cJSON_CreateObject K hp1 = (Some r, hp2)"
    "holds hp0 ((r, JVal cJSON_Object None 0 0 None []) # (e, JVal cJSON_Object None 0 0 None []) # avs) hp2"
    using holds_create(1) [OF K 1(2)] by blast
  obtain x hp3 where 3: "cJSON_AddNumberToObject K (Some e) (Some ''code'') (whole n) hp2 = Some (Some x, hp3)"
    "holds hp0 ((e, JVal cJSON_Object None 0 0 None [JVal cJSON_Number None (saturate_int (whole n)) (whole n) (Some ''code'') []])
        # (r, JVal cJSON_Object None 0 0 None []) # avs) hp3"
    using holds_add_new(2) [OF K holds_swap [OF 2(2)], of "''code''" "whole n"] by auto
  obtain y hp4 where 4: "cJSON_AddStringToObject K (Some e) (Some ''message'') (Some msg) hp3 = Some (Some y, hp4)"
    "holds hp0 ((e, JVal cJSON_Object None 0 0 None [JVal cJSON_Number None (saturate_int (whole n)) (whole n) (Some ''code'') [],
        JVal cJSON_String (Some msg) 0 0 (Some ''message'') []]) # (r, JVal cJSON_Object None 0 0 None []) # avs) hp4"
    using holds_add_new(1) [OF K 3(2), of "''message''" msg] by auto
  obtain z hp5 where 5: "cJSON_AddStringToObject K (Some r) (Some ''jsonrpc'') (Some JSONRPC_VERSION) hp4 = Some (Some z, hp5)"
    "holds hp0 ((r, JVal cJSON_Object None 0 0 None [version_member])
        # (e, JVal cJSON_Object None 0 0 None [JVal cJSON_Number None (saturate_int (whole n)) (whole n) (Some ''code'') [],
        JVal cJSON_String (Some msg) 0 0 (Some ''message'') []]) # avs) hp5"
    using holds_add_new(1) [OF K holds_swap [OF 4(2)], of "''jsonrpc''" JSONRPC_VERSION] by (auto simp: version_member_def)
  obtain hp6 where 6: "cJSON_AddItemToObject K (Some r) (Some ''error'') (Some e) hp5 = Some hp6"
    "holds hp0 ((r, error_value n msg) # avs) hp6"
    using holds_add_item [OF K holds_swap [OF 5(2)], of "''error''"] by (auto simp: error_value_def with_name_def)
  show ?thesis using 1(1) 2(1) 3(1) 4(1) 5(1) 6 by (simp add: jsonrpc_create_error_def)
qed

section \<open>Sending a response\<close>

text \<open>The outcome once the text of the response is there.\<close>

definition sent :: "string \<Rightarrow> sock \<Rightarrow> cheap \<Rightarrow> (bool \<times> sock \<times> cheap) outcome option" where
  "sent x so hp = (case send_framed x so of Blocked \<Rightarrow> Some Blocked | Returned (ok, so) \<Rightarrow> Some (Returned (ok, so, hp)))"

lemma send_text_ok:
  assumes b: "ch_strs hp b = None" and d: "cJSON_Delete r hp = Some hp0"
  shows "send_text (Some b) r so (hp\<lparr>ch_strs := (ch_strs hp)(b \<mapsto> x)\<rparr>) = sent x so hp0"
proof -
  have "(ch_strs hp)(b := None) = ch_strs hp" using b by auto
  then have "free_str (Some b) (hp\<lparr>ch_strs := (ch_strs hp)(b \<mapsto> x)\<rparr>) = Some hp" by (simp add: free_str_def h_free_def)
  then show ?thesis using d by (simp add: send_text_def sent_def split: outcome.split)
qed

lemma send_response_ok:
  assumes P: "blocks_ok P" and h: "holds hp0 [(r, v)] hp" "clean_texts [v]"
  shows "send_response P (Some r) so hp = Some (Returned (False, so, hp0))
    \<or> (\<exists>x. text_value False 0 v = Some x \<and> send_response P (Some r) so hp = sent x so hp0)"
    "text_value False 0 v = Some x \<Longrightarrow> never_full P \<Longrightarrow> plenty K hp0 \<Longrightarrow> length x + 4 \<le> INT_MAX
      \<Longrightarrow> send_response P (Some r) so hp = sent x so hp0"
proof -
  obtain t where t: "lt_addr t = r" "printable hp t" "the_value hp t = v" by (rule holds_printable [OF h])
  obtain T where T: "printed hp T (cJSON_PrintUnformatted P (Some r) hp)" "T = None \<or> T = text_value False 0 v"
    "\<And>x. never_full P \<Longrightarrow> finite (dom (ch_strs hp)) \<Longrightarrow> text_value False 0 v = Some x \<Longrightarrow> length x + 4 \<le> INT_MAX \<Longrightarrow> T = Some x"
    using print_text_result [OF P t(2), of False] t(1,3) unfolding cJSON_PrintUnformatted_def by blast
  have d: "cJSON_Delete (Some r) hp = Some hp0" by (rule holds_delete [OF h(1)])
  have run: "send_response P (Some r) so hp = (case T of None \<Rightarrow> Some (Returned (False, so, hp0)) | Some x \<Rightarrow> sent x so hp0)"
  proof (cases T)
    case None
    then show ?thesis using T(1) d by (simp add: printed_def send_response_def send_text_def)
  next
    case (Some x)
    then obtain b where "ch_strs hp b = None" "cJSON_PrintUnformatted P (Some r) hp = Some (Some b, hp\<lparr>ch_strs := (ch_strs hp)(b \<mapsto> x)\<rparr>)"
      using T(1) by (auto simp: printed_def)
    then show ?thesis using Some send_text_ok [OF _ d] by (simp add: send_response_def)
  qed
  show "send_response P (Some r) so hp = Some (Returned (False, so, hp0))
    \<or> (\<exists>x. text_value False 0 v = Some x \<and> send_response P (Some r) so hp = sent x so hp0)"
  proof (cases T)
    case (Some x)
    then have "text_value False 0 v = Some x" using T(2) by simp
    with Some run show ?thesis by simp
  qed (simp add: run)
  show "send_response P (Some r) so hp = sent x so hp0"
    if "text_value False 0 v = Some x" "never_full P" "plenty K hp0" "length x + 4 \<le> INT_MAX"
  proof -
    obtain t where "stacked hp0 [t] hp" using h(1) by (auto elim: holds_one)
    then have "finite (dom (ch_strs hp))" using stacked_plenty [OF that(3)] by (simp add: plenty_def)
    then show ?thesis using run T(3) [OF that(2) _ that(1,4)] by simp
  qed
qed

section \<open>A request with an id\<close>

text \<open>
  An item of one tree that is added to another one stays a child of the first: deleting both, the second
  deletion reaches an item that is already free.
\<close>

lemma delete_shared:
  assumes t: "tree hp1 (LT a d (pre @ i # post))" and s: "stacked hp1 [LT r rd us] hp2" "us \<noteq> []" and K: "plenty K hp2"
  shows "\<exists>hp3 hp4. cJSON_AddItemToObject K (Some r) (Some nm) (Some (lt_addr i)) hp2 = Some hp3
    \<and> cJSON_Delete (Some r) hp3 = Some hp4 \<and> cJSON_Delete (Some a) hp4 = None"
proof -
  obtain b e cs where i: "i = LT b e cs" by (cases i)
  obtain n where n: "ch_items hp1 a = Some n" "cj_data n = d" "chain (ch_items hp1) (cj_child n) None (pre @ i # post)"
    "a \<notin> set (addrs (pre @ i # post))" "distinct (addrs (pre @ i # post))" "distinct (data_strs d @ strs (pre @ i # post))"
    "set (data_strs d @ strs (pre @ i # post)) \<subseteq> dom (ch_strs hp1)" "\<not> is_reference d" "no_refs (pre @ i # post)"
    by (rule treeE [OF t])
  note S = stackedD [OF s(1)]
  define A where "A = set (addrs [LT r rd us])"
  define W where "W = set (strs [LT r rd us])"
  have old: "set (addrs (pre @ i # post)) \<subseteq> dom (ch_items hp1)" "a \<in> dom (ch_items hp1)" "set (strs (pre @ i # post)) \<subseteq> dom (ch_strs hp1)"
    using item_seg_dom [OF n(3)] n(1,7) by auto
  have "A \<inter> dom (ch_items hp1) = {}" "W \<inter> dom (ch_strs hp1) = {}" using S(5,6) by (simp_all add: A_def W_def)
  then have apart: "a \<notin> A" "A \<inter> set (addrs (pre @ i # post)) = {}" "W \<inter> set (strs (pre @ i # post)) = {}" using old by auto
  have keep: "ch_items hp2 x = ch_items hp1 x" if "x \<notin> A" for x using S(4) that by (simp add: off_same_def A_def)
  have keeps: "ch_strs hp2 x = ch_strs hp1 x" if "x \<notin> W" for x using S(4) that by (simp add: off_same_def W_def)
  have c2: "chain (ch_items hp2) (cj_child n) None (pre @ i # post)"
    by (rule iffD2 [OF item_seg_cong n(3)]) (use keep apart in auto)
  then have seg2: "seg (ch_items hp2) (cj_child n) None pre (Some b)" "chain (ch_items hp2) (Some b) (end_of None pre) (i # post)"
    unfolding item_seg_append by (auto simp: i)
  have parts: "b \<notin> set (addrs pre)" "b \<notin> set (addrs cs)" "b \<notin> set (addrs post)" "distinct (addrs pre)" "distinct (addrs cs)"
    "distinct (addrs post)" "set (addrs pre) \<inter> (set (addrs cs) \<union> set (addrs post)) = {}" "set (addrs cs) \<inter> set (addrs post) = {}"
    "b \<noteq> a" "a \<notin> set (addrs cs)" "a \<notin> set (addrs post)" "b \<notin> A" "A \<inter> set (addrs cs) = {}" "A \<inter> set (addrs post) = {}" "A \<inter> set (addrs pre) = {}"
    using n(4,5) apart by (auto simp: i)
  have sp: "strs (i # post) = ptr_list (cd_valuestring e) @ old_name i @ strs cs @ strs post"
    by (simp add: i data_strs_def old_name_def)
  have sparts: "distinct (ptr_list (cd_valuestring e) @ old_name i @ strs cs @ strs post)" "distinct (strs pre)"
    "set (strs pre) \<inter> set (old_name i) = {}" "set (strs (i # post)) \<subseteq> dom (ch_strs hp2)" "set (strs pre) \<subseteq> dom (ch_strs hp2)"
    "W \<inter> set (strs (i # post)) = {}" "W \<inter> set (strs pre) = {}"
  proof -
    have "distinct (strs pre @ strs (i # post))" using n(6) by simp
    then show "distinct (ptr_list (cd_valuestring e) @ old_name i @ strs cs @ strs post)" "distinct (strs pre)"
      "set (strs pre) \<inter> set (old_name i) = {}" unfolding sp by auto
    show w: "W \<inter> set (strs (i # post)) = {}" "W \<inter> set (strs pre) = {}" using apart(3) by auto
    have "x \<in> dom (ch_strs hp2)" if "x \<in> set (strs (pre @ i # post))" for x
    proof -
      have "x \<notin> W" using that apart(3) by blast
      moreover have "x \<in> dom (ch_strs hp1)" using that old(3) by (rule set_mp [rotated])
      ultimately show ?thesis using keeps [of x] by (simp add: domIff)
    qed
    then show "set (strs (i # post)) \<subseteq> dom (ch_strs hp2)" "set (strs pre) \<subseteq> dom (ch_strs hp2)" by auto
  qed
  obtain m where m: "ch_items hp2 b = Some m" "cj_data m = e" "cj_prev m = end_of None pre" "chain (ch_items hp2) (cj_child m) None cs"
    "chain (ch_items hp2) (cj_next m) (Some b) post" using seg2(2) i by (auto split: option.splits)
  have "set (ptr_list (cd_string (lt_data i))) \<subseteq> dom (ch_strs hp2)" if "\<not> string_is_const (lt_data i)"
    using that sparts(4) unfolding sp old_name_def by auto
  from add_named_rename [OF K _ _ this, of m r nm] m(1,2)
  obtain k where k: "ch_strs hp2 k = None" "add_named K (Some r) (Some nm) (Some b) hp2
     = add_item_to_array (Some r) (Some b) (rename_heap hp2 k nm i)" by (auto simp: i)
  define R where "R = rename_heap hp2 k nm i"
  have Ri: "ch_items R x = (if x = b then Some (m\<lparr>cj_data := lt_data (named k i)\<rparr>) else ch_items hp2 x)" for x
    using m(1) by (simp add: R_def rename_heap_def i)
  have kf: "k \<notin> set (strs (i # post))" "k \<notin> set (strs pre)" "k \<notin> W"
    using k(1) sparts(4,5) stacked_sub(2) [OF s(1)] by (auto simp: domIff W_def)
  have Rs: "ch_strs R x = ch_strs hp2 x" if "x \<noteq> k" "x \<notin> set (old_name i)" for x
    using that by (simp add: R_def rename_strs)
  have WR: "ch_strs R x = ch_strs hp2 x" if "x \<in> W" for x
  proof (rule Rs)
    show "x \<noteq> k" using that kf by auto
    show "x \<notin> set (old_name i)" using that sparts(6) unfolding sp by auto
  qed
  have trR: "tree R (LT r rd us)"
    by (rule tree_frame [OF S(1)]) (use WR parts(12) in \<open>auto simp: Ri A_def W_def\<close>)
  have chR: "chain (ch_items R) (Some (lt_addr (named k i))) (end_of None pre) (named k i # post)"
  proof -
    have "chain (ch_items R) (cj_child m) None cs" "chain (ch_items R) (cj_next m) (Some b) post"
      by (rule iffD2 [OF item_seg_cong m(4)], use Ri parts(2) in auto)
         (rule iffD2 [OF item_seg_cong m(5)], use Ri parts(3) in auto)
    then show ?thesis using m(3) by (simp add: named_def i Ri)
  qed
  have ss: "strs (named k i # post) = ptr_list (cd_valuestring e) @ k # strs cs @ strs post"
    using strs_Cons [of "named k i" post] by (simp add: named_parts i)
  have aa: "addrs (named k i # post) = b # addrs cs @ addrs post" by (simp add: named_def i)
  have dR: "distinct (addrs (LT r rd us # named k i # post))" "distinct (strs (LT r rd us # named k i # post))"
    "set (strs (named k i # post)) \<subseteq> dom (ch_strs R)" "no_refs (named k i # post)"
  proof -
    show "distinct (addrs (LT r rd us # named k i # post))"
      unfolding addrs_Cons [of "LT r rd us" "named k i # post"] aa
      using S(2) parts unfolding A_def [symmetric] distinct_append by (auto simp: A_def)
    have "distinct (strs (named k i # post))" unfolding ss using sparts(1) kf(1) unfolding sp by auto
    moreover have "W \<inter> set (strs (named k i # post)) = {}" unfolding ss using sparts(6) kf(3) unfolding sp by auto
    ultimately show "distinct (strs (LT r rd us # named k i # post))"
      unfolding strs_Cons [of "LT r rd us" "named k i # post"] distinct_append using S(3) by (simp add: W_def)
    have "x \<in> dom (ch_strs R)" if "x \<in> set (strs (named k i # post))" for x
    proof (cases "x = k")
      case True
      have "k \<notin> set (old_name i)" using kf(1) unfolding sp by auto
      then show ?thesis using True by (simp add: R_def rename_strs domIff)
    next
      case False
      then have x: "x \<in> set (strs (i # post))" "x \<notin> set (old_name i)" using that sparts(1) unfolding ss sp by auto
      then show ?thesis using Rs [OF False x(2)] sparts(4) by (auto simp: domIff)
    qed
    then show "set (strs (named k i # post)) \<subseteq> dom (ch_strs R)" by blast
    show "no_refs (named k i # post)" using n(9) named_flags(2) [of k i] by (simp add: named_def i)
  qed
  obtain hp3 where h3: "add_item_to_array (Some r) (Some b) R = Some (True, hp3)" "tree hp3 (LT r rd (us @ named k i # post))"
    "ch_strs hp3 = ch_strs R" "\<And>x. x \<notin> A \<Longrightarrow> x \<noteq> b \<Longrightarrow> ch_items hp3 x = ch_items R x"
    using add_item_chain [OF trR chR _ dR] s(2) by (auto simp: named_parts i A_def)
  have add: "cJSON_AddItemToObject K (Some r) (Some nm) (Some (lt_addr i)) hp2 = Some hp3"
    using k(2) h3(1) by (simp add: cJSON_AddItemToObject_def i R_def)
  define D where "D = set (addrs [LT r rd (us @ named k i # post)])"
  have D: "D = A \<union> insert b (set (addrs cs) \<union> set (addrs post))" by (auto simp: D_def A_def aa)
  define hp4 where "hp4 = \<lparr>ch_items = ch_items hp3 |` (- D), ch_strs = ch_strs hp3 |` (- set (strs [LT r rd (us @ named k i # post)]))\<rparr>"
  have del: "cJSON_Delete (Some r) hp3 = Some hp4"
    using cJSON_Delete_chain [of hp3 "Some r" None "[LT r rd (us @ named k i # post)]"] h3(2)
    by (simp add: tree_def owned_def hp4_def D_def)
  have i4: "ch_items hp4 x = ch_items hp2 x" if "x \<notin> D" for x
    using that h3(4) [of x] by (simp add: hp4_def D Ri restrict_map_def)
  have a4: "ch_items hp4 a = Some n" using i4 [of a] keep [OF apart(1)] n(1) parts apart(1) by (simp add: D)
  have seg4: "seg (ch_items hp4) (cj_child n) None pre (Some b)"
    by (rule iffD2 [OF item_seg_cong seg2(1)], rule i4) (use parts D in auto)
  have str4: "set (strs pre) \<subseteq> dom (ch_strs hp4)"
  proof
    fix x assume x: "x \<in> set (strs pre)"
    have "set (strs [LT r rd (us @ named k i # post)]) = W \<union> set (strs (named k i # post))" by (auto simp: W_def)
    moreover have "x \<notin> set (strs (i # post))" using n(6) x by auto
    moreover have "x \<noteq> k" "x \<notin> W" "x \<notin> set (old_name i)" using x kf(2) sparts(3,7) by auto
    ultimately have "ch_strs hp4 x = ch_strs hp2 x"
      using Rs [of x] by (simp add: hp4_def h3(3) ss sp restrict_map_def)
    then show "x \<in> dom (ch_strs hp4)" using sparts(5) x by (auto simp: domIff)
  qed
  have "no_refs pre" using n(9) by simp
  then have "cJSON_Delete (cj_child n) hp4 = cJSON_Delete (Some b) \<lparr>ch_items = ch_items hp4 |` (- set (addrs pre)), ch_strs = ch_strs hp4 |` (- set (strs pre))\<rparr>"
    by (rule cJSON_Delete_seg [OF seg4 parts(4) sparts(2) str4])
  also have "\<dots> = None"
    by (subst cJSON_Delete.simps) (simp add: hp4_def D restrict_map_def)
  finally have gone: "cJSON_Delete (cj_child n) hp4 = None" .
  have "cj_child n \<noteq> None"
  proof (cases pre)
    case (Cons t ts)
    then show ?thesis using seg4 by (cases t) simp
  qed (use seg4 in simp)
  then have "cJSON_Delete (Some a) hp4 = None"
    using a4 n(2,8) gone by (subst cJSON_Delete.simps) simp
  with add del show ?thesis by blast
qed

section \<open>The table of methods\<close>

text \<open>The methods in the order of their registration, with the addresses of their nodes.\<close>

definition entries :: "(addr \<rightharpoonup> jsonrpc_method_t) \<Rightarrow> (addr \<times> jsonrpc_method_t) list \<Rightarrow> bool" where
  "entries h ms \<longleftrightarrow> (\<forall>(a, m) \<in> set ms. h a = Some m \<and> jm_method_name m \<noteq> None)"

lemma entries_simps [simp]:
  "entries h []" "entries h ((a, m) # ms) \<longleftrightarrow> h a = Some m \<and> jm_method_name m \<noteq> None \<and> entries h ms"
  "entries h (ms @ ns) \<longleftrightarrow> entries h ms \<and> entries h ns"
  by (simp_all add: entries_def ball_Un)

lemma entries_upd: "a \<notin> set (map fst ms) \<Longrightarrow> entries (h(a := x)) ms \<longleftrightarrow> entries h ms"
  by (induction ms) auto

definition registry :: "jsonrpc_service_t \<Rightarrow> method_heap \<Rightarrow> (addr \<times> jsonrpc_method_t) list \<Rightarrow> bool" where
  "registry s mh ms \<longleftrightarrow> list_inv (js_tMethodList s) (mh_nodes mh) (map fst ms)
     \<and> entries (mh_methods mh) ms"

fun lookup_method :: "string \<Rightarrow> (addr \<times> jsonrpc_method_t) list \<Rightarrow> (addr \<times> jsonrpc_method_t) ptr" where
  "lookup_method nm [] = None"
| "lookup_method nm (x # ms) = (if jm_method_name (snd x) = Some nm then Some x else lookup_method nm ms)"

lemma find_node_dl:
  assumes "dl (mh_nodes mh) pr p (map fst ms) None l" "entries (mh_methods mh) ms"
  shows "find_node nm p mh = Some (map_option fst (lookup_method nm ms))"
  using assms
proof (induction ms arbitrary: pr p)
  case Nil
  then show ?case by (subst find_node.simps) simp
next
  case (Cons x ms)
  obtain a m where x: "x = (a, m)" by (cases x)
  obtain n where n: "mh_nodes mh a = Some n" "p = Some a" "dl (mh_nodes mh) (Some a) (sn_next n) (map fst ms) None l"
    using Cons.prems(1) x by auto
  obtain s where "mh_methods mh a = Some m" "jm_method_name m = Some s" using Cons.prems(2) x by auto
  then show ?case using n x Cons.IH [OF n(3)] Cons.prems(2)
    by (subst find_node.simps) (simp add: StdListGetNextNode_def)
qed

lemma MethodFindNode_lookup:
  "registry s mh ms \<Longrightarrow> MethodFindNode s nm mh = Some (map_option fst (lookup_method nm ms))"
  using find_node_dl [of mh None "sl_head (js_tMethodList s)" ms "sl_tail (js_tMethodList s)" nm]
  by (simp add: registry_def list_inv_def MethodFindNode_def StdListGetHeadNode_def)

lemma lookup_None: "lookup_method nm ms = None \<longleftrightarrow> Some nm \<notin> set (map (jm_method_name \<circ> snd) ms)"
  by (induction nm ms rule: lookup_method.induct) auto

lemma lookup_Some:
  assumes "lookup_method nm ms = Some x"
  obtains us vs where "ms = us @ x # vs" "jm_method_name (snd x) = Some nm" "lookup_method nm us = None"
  using assms
proof (induction ms arbitrary: thesis)
  case (Cons y ms)
  show ?case
  proof (cases "jm_method_name (snd y) = Some nm")
    case True
    then show ?thesis using Cons.prems(1) [of "[]" ms] Cons.prems(2) by simp
  next
    case False
    then obtain us vs where "ms = us @ x # vs" "jm_method_name (snd x) = Some nm" "lookup_method nm us = None"
      using Cons by auto
    then show ?thesis using Cons.prems(1) [of "y # us" vs] False by simp
  qed
qed simp

text \<open>What registering and unregistering do to the methods.\<close>

lemma register_link_ok:
  assumes r: "registry s mh ms" and al: "al (mh_nodes mh) = Some a" "mh_nodes mh a = None" and len: "length ms < 2147483647"
  shows "\<exists>s' mh'. register_link al True s nm f ud mh = Some (STATE_CODE_NO_ERROR, s', mh')
    \<and> registry s' mh' (ms @ [(a, \<lparr>jm_method_name = Some nm, jm_handler = f, jm_user_data = ud\<rparr>)])
    \<and> dom (mh_nodes mh') = insert a (dom (mh_nodes mh))"
proof -
  define h where "h = (mh_nodes mh)(a \<mapsto> \<lparr>sn_next = None, sn_prev = None\<rparr>)"
  note I = list_invD [OF conjunct1 [OF r [unfolded registry_def]]]
  have na: "a \<notin> set (map fst ms)" using dl_dom [OF I(1)] al(2) by (auto simp: domIff)
  have "list_inv (js_tMethodList s) h (map fst ms)"
    using I dl_frame [OF na] by (simp add: list_inv_def h_def)
  then obtain l' h' where p: "StdListPushBack (Some (js_tMethodList s)) (Some a) h = Some (Some l', h')"
    "list_inv l' h' (map fst ms @ [a])" "dom h' = dom h"
    using push_back_ok [of "js_tMethodList s" h "map fst ms" a "\<lparr>sn_next = None, sn_prev = None\<rparr>"] na len by (auto simp: h_def)
  define m where "m = \<lparr>jm_method_name = Some nm, jm_handler = f, jm_user_data = ud\<rparr>"
  have "entries ((mh_methods mh)(a \<mapsto> m)) (ms @ [(a, m)])" using r entries_upd [OF na] by (simp add: registry_def m_def)
  then have "registry (s\<lparr>js_tMethodList := l'\<rparr>) \<lparr>mh_nodes = h', mh_methods = (mh_methods mh)(a \<mapsto> m)\<rparr> (ms @ [(a, m)])"
    using p(2) by (simp add: registry_def)
  moreover have "register_link al True s nm f ud mh = Some (STATE_CODE_NO_ERROR, s\<lparr>js_tMethodList := l'\<rparr>,
      \<lparr>mh_nodes = h', mh_methods = (mh_methods mh)(a \<mapsto> m)\<rparr>)"
    using al(1) p(1) by (simp add: register_link_def h_def m_def)
  ultimately show ?thesis using p(3) by (auto simp: h_def m_def)
qed

lemma unregister_ok:
  assumes r: "registry s mh (us @ (a, m) # vs)" and nm: "jm_method_name m = Some nm" "lookup_method nm us = None"
  shows "\<exists>s' mh'. jsonrpc_service_unregister_method (Some s) (Some nm) mh = Some (STATE_CODE_NO_ERROR, Some s', mh')
    \<and> registry s' mh' (us @ vs) \<and> dom (mh_nodes mh') = dom (mh_nodes mh) - {a}"
proof -
  have "lookup_method nm (us @ (a, m) # vs) = Some (a, m)" using nm by (induction us) (auto split: if_splits)
  then have f: "MethodFindNode s nm mh = Some (Some a)" using MethodFindNode_lookup [OF r] by simp
  have inv: "list_inv (js_tMethodList s) (mh_nodes mh) (map fst us @ a # map fst vs)" using r by (simp add: registry_def)
  obtain l' h' where p: "StdListRemove (Some (js_tMethodList s)) (Some a) (mh_nodes mh) = Some (Some l', h')"
    "list_inv l' h' (map fst us @ map fst vs)" "h' a = Some \<lparr>sn_next = None, sn_prev = None\<rparr>" "dom h' = dom (mh_nodes mh)"
    using remove_ok [OF inv] by blast
  have na: "a \<notin> set (map fst us @ map fst vs)" using inv by (auto simp: list_inv_def)
  then have "list_inv l' (h'(a := None)) (map fst us @ map fst vs)"
    using p(2) dl_frame [of a "map fst us @ map fst vs"] by (simp add: list_inv_def)
  moreover have m: "mh_methods mh a = Some m" "entries ((mh_methods mh)(a := None)) (us @ vs)"
    using r na entries_upd [of a us] entries_upd [of a vs] by (simp_all add: registry_def)
  ultimately have "registry (s\<lparr>js_tMethodList := l'\<rparr>) \<lparr>mh_nodes = h'(a := None), mh_methods = (mh_methods mh)(a := None)\<rparr> (us @ vs)"
    by (simp add: registry_def)
  moreover have "jsonrpc_service_unregister_method (Some s) (Some nm) mh = Some (STATE_CODE_NO_ERROR, Some (s\<lparr>js_tMethodList := l'\<rparr>),
      \<lparr>mh_nodes = h'(a := None), mh_methods = (mh_methods mh)(a := None)\<rparr>)"
    using f p(1,3) m(1) by (simp add: jsonrpc_service_unregister_method_def mem_simps)
  ultimately show ?thesis using p(4) by auto
qed

section \<open>Requests\<close>

text \<open>The members of a value, by name, and what the service demands of a request.\<close>

fun member_value :: "string \<Rightarrow> jval list \<Rightarrow> jval ptr" where
  "member_value nm [] = None"
| "member_value nm (v # vs) = (if (\<exists>s. jv_name v = Some s \<and> ci_compare nm s = 0) then Some v else member_value nm vs)"

definition string_value :: "jval ptr \<Rightarrow> string ptr" where
  "string_value p = (case p of None \<Rightarrow> None | Some v \<Rightarrow> (case v of JVal t s i d nm kids \<Rightarrow> if t AND 0xFF = cJSON_String then s else None))"

definition request_check :: "jval list \<Rightarrow> (int \<times> string) + string" where
  "request_check kids =
     (if string_value (member_value ''jsonrpc'' kids) \<noteq> Some JSONRPC_VERSION
      then Inl (error_code_value JSONRPC_INVALID_REQUEST, ''Invalid JSON-RPC version'')
      else (case string_value (member_value ''method'' kids) of
          None \<Rightarrow> Inl (error_code_value JSONRPC_INVALID_REQUEST, ''Method not specified'')
        | Some nm \<Rightarrow> Inr nm))"

lemma member_value_find:
  "member_value nm (jvalues m ts) = map_option (\<lambda>t. hd (jvalues m [t])) (find_member m nm ts)"
proof (induction ts)
  case (Cons t ts)
  then show ?case by (cases t) auto
qed simp

lemma child_item:
  assumes "tree hp (LT a d (us @ t # vs))"
  shows "\<exists>n. ch_items hp (lt_addr t) = Some n \<and> cj_data n = lt_data t"
proof -
  obtain n :: cJSON where "chain (ch_items hp) (cj_child n) None (us @ t # vs)" by (rule treeE [OF assms])
  then have "\<exists>p q. chain (ch_items hp) p q (t # vs)" unfolding item_seg_append by blast
  then show ?thesis by (cases t) (auto split: option.splits)
qed

lemma well_typed_part: "well_typed (us @ t # vs) \<Longrightarrow> typed_item (lt_data t) (lt_kids t)"
  by (cases t) simp

lemma typed_string:
  assumes "typed_item d kids" "cd_type d AND 0xFF = cJSON_String"
  shows "cd_valuestring d \<noteq> None"
  using assms by (auto simp: typed_item_def)

text \<open>Reading a string member as the service does.\<close>

lemma member_string:
  assumes t: "tree hp (LT a d kids)" "readable hp kids" "well_typed kids" and f: "find_member (ch_strs hp) nm kids = Some u"
  shows "cJSON_IsString (Some (lt_addr u)) hp = Some (cd_type (lt_data u) AND 0xFF = cJSON_String)"
    "\<exists>n. ch_items hp (lt_addr u) = Some n \<and> cj_data n = lt_data u"
    "cd_type (lt_data u) AND 0xFF = cJSON_String \<Longrightarrow> \<exists>p s. cd_valuestring (lt_data u) = Some p \<and> ch_strs hp p = Some s
       \<and> string_value (member_value nm (jvalues (ch_strs hp) kids)) = Some s"
    "cd_type (lt_data u) AND 0xFF \<noteq> cJSON_String \<Longrightarrow> string_value (member_value nm (jvalues (ch_strs hp) kids)) = None"
proof -
  obtain us vs where k: "kids = us @ u # vs" using f by (rule find_member_split)
  obtain b e cs where u: "u = LT b e cs" by (cases u)
  show n: "\<exists>n. ch_items hp (lt_addr u) = Some n \<and> cj_data n = lt_data u" using child_item t(1) k by blast
  then show "cJSON_IsString (Some (lt_addr u)) hp = Some (cd_type (lt_data u) AND 0xFF = cJSON_String)"
    by (auto simp: cJSON_IsString_def has_type_def)
  have v: "member_value nm (jvalues (ch_strs hp) kids) = Some (hd (jvalues (ch_strs hp) [u]))"
    using f by (simp add: member_value_find)
  show "string_value (member_value nm (jvalues (ch_strs hp) kids)) = None" if "cd_type (lt_data u) AND 0xFF \<noteq> cJSON_String"
    using that v u by (simp add: string_value_def)
  assume s: "cd_type (lt_data u) AND 0xFF = cJSON_String"
  have "typed_item e cs" using well_typed_part [of us u vs] t(3) k u by simp
  then obtain p where p: "cd_valuestring e = Some p" using typed_string s u by auto
  have "p \<in> set (strs kids)" unfolding k strs_append using p by (simp add: u data_strs_def)
  then obtain x where "ch_strs hp p = Some x" using t(2) by (auto simp: readable_def)
  then show "\<exists>p s. cd_valuestring (lt_data u) = Some p \<and> ch_strs hp p = Some s
       \<and> string_value (member_value nm (jvalues (ch_strs hp) kids)) = Some s"
    using p v u s by (simp add: string_value_def content_def)
qed

lemma request_rejected:
  assumes t: "tree hp (LT a d kids)" "readable hp kids" "well_typed kids"
    and c: "request_check (jvalues (ch_strs hp) kids) = Inl (n, msg)"
  shows "request_response K s mh (Some a) hp = jsonrpc_create_error K n (Some msg) None None hp"
proof (cases "string_value (member_value ''jsonrpc'' (jvalues (ch_strs hp) kids)) = Some JSONRPC_VERSION")
  case False
  then have e: "n = error_code_value JSONRPC_INVALID_REQUEST" "msg = ''Invalid JSON-RPC version''" using c by (auto simp: request_check_def)
  show ?thesis
  proof (cases "find_member (ch_strs hp) ''jsonrpc'' kids")
    case None
    then show ?thesis by (simp add: request_response_def get_object_item_tree [OF t(1,2)] cJSON_IsString_def has_type_def e)
  next
    case (Some u)
    note M = member_string [OF t Some]
    show ?thesis
    proof (cases "cd_type (lt_data u) AND 0xFF = cJSON_String")
      case True
      then obtain p x where "cd_valuestring (lt_data u) = Some p" "ch_strs hp p = Some x" "x \<noteq> JSONRPC_VERSION" using M(3) False by auto
      then show ?thesis using M(1,2) Some True by (auto simp: request_response_def get_object_item_tree [OF t(1,2)] e)
    next
      case False
      then show ?thesis using M(1) Some by (simp add: request_response_def get_object_item_tree [OF t(1,2)] e)
    qed
  qed
next
  case True
  then have n0: "string_value (member_value ''method'' (jvalues (ch_strs hp) kids)) = None"
    and e: "n = error_code_value JSONRPC_INVALID_REQUEST" "msg = ''Method not specified''"
    using c by (auto simp: request_check_def split: option.splits)
  obtain u where u: "find_member (ch_strs hp) ''jsonrpc'' kids = Some u"
    using True by (cases "find_member (ch_strs hp) ''jsonrpc'' kids") (auto simp: member_value_find string_value_def)
  note M = member_string [OF t u]
  have us: "cd_type (lt_data u) AND 0xFF = cJSON_String" using M(4) True by auto
  then obtain p where p: "cd_valuestring (lt_data u) = Some p" "ch_strs hp p = Some JSONRPC_VERSION" using M(3) True by auto
  show ?thesis
  proof (cases "find_member (ch_strs hp) ''method'' kids")
    case None
    then show ?thesis using M(1,2) us p u by (auto simp: request_response_def get_object_item_tree [OF t(1,2)] cJSON_IsString_def has_type_def e)
  next
    case (Some w)
    note N = member_string [OF t Some]
    have "cd_type (lt_data w) AND 0xFF \<noteq> cJSON_String" using N(3) n0 by auto
    then show ?thesis using M(1,2) us p u N(1) Some by (auto simp: request_response_def get_object_item_tree [OF t(1,2)] e)
  qed
qed

text \<open>A request that passes the checks: the method is looked up with the item of the id.\<close>

lemma request_accepted:
  assumes t: "tree hp (LT a d kids)" "readable hp kids" "well_typed kids" and r: "registry s mh ms"
    and c: "request_check (jvalues (ch_strs hp) kids) = Inr nm"
  shows "request_response K s mh (Some a) hp =
    (case lookup_method nm ms of
       None \<Rightarrow> jsonrpc_create_error K (error_code_value JSONRPC_METHOD_NOT_FOUND) (Some ''Method not found'') None
                 (map_option lt_addr (find_member (ch_strs hp) ''id'' kids)) hp
     | Some (nd, mt) \<Rightarrow> do {
         (result, hp') \<leftarrow> jm_handler mt (map_option lt_addr (find_member (ch_strs hp) ''params'' kids))
            (map_option lt_addr (find_member (ch_strs hp) ''id'' kids)) (jm_user_data mt) hp;
         if result \<noteq> None then jsonrpc_create_response K result (map_option lt_addr (find_member (ch_strs hp) ''id'' kids)) hp'
         else jsonrpc_create_error K (error_code_value JSONRPC_INTERNAL_ERROR) (Some ''error'') None
                (map_option lt_addr (find_member (ch_strs hp) ''id'' kids)) hp' })"
proof -
  have v: "string_value (member_value ''jsonrpc'' (jvalues (ch_strs hp) kids)) = Some JSONRPC_VERSION"
    "string_value (member_value ''method'' (jvalues (ch_strs hp) kids)) = Some nm"
    using c by (auto simp: request_check_def split: if_splits option.splits)
  obtain u where u: "find_member (ch_strs hp) ''jsonrpc'' kids = Some u"
    using v(1) by (cases "find_member (ch_strs hp) ''jsonrpc'' kids") (auto simp: member_value_find string_value_def)
  obtain w where w: "find_member (ch_strs hp) ''method'' kids = Some w"
    using v(2) by (cases "find_member (ch_strs hp) ''method'' kids") (auto simp: member_value_find string_value_def)
  note M = member_string [OF t u] and N = member_string [OF t w]
  have us: "cd_type (lt_data u) AND 0xFF = cJSON_String" "cd_type (lt_data w) AND 0xFF = cJSON_String" using M(4) N(4) v by auto
  obtain p where p: "cd_valuestring (lt_data u) = Some p" "ch_strs hp p = Some JSONRPC_VERSION" using M(3) v(1) us by auto
  obtain q where q: "cd_valuestring (lt_data w) = Some q" "ch_strs hp q = Some nm" using N(3) v(2) us by auto
  obtain k where k: "ch_items hp (lt_addr u) = Some k" "cj_data k = lt_data u" using M(2) by blast
  obtain l where l: "ch_items hp (lt_addr w) = Some l" "cj_data l = lt_data w" using N(2) by blast
  have e: "entries (mh_methods mh) ms" using r by (simp add: registry_def)
  show ?thesis
  proof (cases "lookup_method nm ms")
    case None
    then show ?thesis using M(1) N(1) us p q k l u w MethodFindNode_lookup [OF r]
      by (simp add: request_response_def get_object_item_tree [OF t(1,2)])
  next
    case (Some x)
    obtain nd mt where x: "x = (nd, mt)" by (cases x)
    have "mh_methods mh nd = Some mt" using Some x e by (auto elim!: lookup_Some)
    then show ?thesis using M(1) N(1) us p q k l u w MethodFindNode_lookup [OF r] Some x
      by (simp add: request_response_def get_object_item_tree [OF t(1,2)])
  qed
qed

text \<open>A parsed request: its tree on top of the heap, and its value.\<close>

lemma parse_cases:
  assumes "plenty K hp"
  shows "cJSON_Parse K (Some str) hp = Some (None, hp)
    \<or> (\<exists>t hp1. cJSON_Parse K (Some str) hp = Some (Some (lt_addr t), hp1) \<and> stacked hp [t] hp1 \<and> well_typed [t])"
proof -
  have no_const: "const_names ts = []" if "well_typed ts" for ts
    using that
  proof (induction ts rule: const_names.induct)
    case (2 a d cs ts)
    then have "\<not> string_is_const d" by (auto simp: typed_item_def string_is_const_def)
    with 2 show ?case by simp
  qed simp
  have K: "alloc_fresh (ck_item K)" "alloc_fresh (ck_str K)" using assms by (simp_all add: plenty_def)
  from parse_with_opts_cases [OF K, of str False hp] show ?thesis
  proof (elim disjE exE conjE)
    fix t stop hp1
    assume a: "cJSON_ParseWithOpts K (Some str) False hp = Some (Some (lt_addr t), stop, None, hp1)" "spread hp [t] hp1" "well_typed [t]"
    have "stacked hp [t] hp1"
      using a(2) no_const [OF a(3)] by (simp add: spread_def stacked_def owned_def tree_def)
    then show ?thesis using a by (auto simp: cJSON_Parse_def)
  qed (simp add: cJSON_Parse_def)
qed

lemma seg_unique: "seg h p pr ts None \<Longrightarrow> seg h p pr' us None \<Longrightarrow> ts = us"
proof (induction ts arbitrary: p pr pr' us rule: addrs.induct)
  case 1
  then show ?case by (simp add: chain_Nil_iff)
next
  case (2 a d cs ts)
  obtain b e ds vs where us: "us = LT b e ds # vs" using 2(3,4) by (cases us rule: addrs.cases) auto
  with 2(3,4) obtain n where "b = a" "h a = Some n" "cj_data n = d" "cj_data n = e" "seg h (cj_child n) None cs None"
    "seg h (cj_child n) None ds None" "seg h (cj_next n) (Some a) ts None" "seg h (cj_next n) (Some a) vs None"
    by (auto split: option.splits)
  then show ?case using 2(1,2) us by blast
qed

text \<open>The item at an address is a tree with a value.\<close>

definition item_value :: "cheap \<Rightarrow> addr \<Rightarrow> jval \<Rightarrow> bool" where
  "item_value hp a v \<longleftrightarrow> (\<exists>t. tree hp t \<and> lt_addr t = a \<and> the_value hp t = v)"

lemma parsed_tree:
  assumes K: "plenty K hp" and p: "cJSON_Parse K (Some str) hp = Some (Some a, hp1)" and v: "item_value hp1 a (JVal ty sv i x nm kids)"
  obtains d ts where "stacked hp [LT a d ts] hp1" "well_typed ts" "jvalues (ch_strs hp1) ts = kids" "readable hp1 ts"
proof -
  obtain t where t: "lt_addr t = a" "stacked hp [t] hp1" "well_typed [t]"
    using parse_cases [OF K, of str] p by auto
  obtain u where u: "tree hp1 u" "lt_addr u = a" "the_value hp1 u = JVal ty sv i x nm kids" using v by (auto simp: item_value_def)
  have "[t] = [u]"
    using seg_unique [of "ch_items hp1" "Some a" None "[t]" None "[u]"] stackedD(1) [OF t(2), of t] u(1,2) t(1)
    by (simp add: tree_def owned_def)
  then have "t = u" by simp
  obtain b d ts where l: "t = LT b d ts" by (cases t)
  have "readable hp1 ts" using stacked_readable [OF t(2), of t] readable_Cons(1) [of hp1 b d ts "[]"] l by simp
  then show ?thesis using that [of d ts] t l u(3) \<open>t = u\<close> by (auto simp: the_value_simp)
qed

definition error_text :: "int \<Rightarrow> string \<Rightarrow> string" where
  "error_text n msg = ''{\"jsonrpc\":\"2.0\",\"error\":{\"code\":'' @ int_digits n @ '',\"message\":'' @ quoted (Some msg) @ ''}}''"

lemma quoted_names: "quoted (Some ''jsonrpc'') = ''\"jsonrpc\"''" "quoted (Some ''error'') = ''\"error\"''"
  "quoted (Some ''code'') = ''\"code\"''" "quoted (Some ''message'') = ''\"message\"''" "quoted (Some ''2.0'') = ''\"2.0\"''"
  "quoted (Some ''result'') = ''\"result\"''" "quoted (Some ''id'') = ''\"id\"''"
  by code_simp+

lemma error_value_text:
  assumes "\<bar>n\<bar> < 10 ^ 15"
  shows "text_value False 0 (error_value n msg) = Some (error_text n msg)"
  using assms int_digits_length [OF assms]
  by (simp add: error_value_def version_member_def JSONRPC_VERSION_def error_text_def number_buffer_int quoted_names tabs_def newline_def
      text_value.simps text_members.simps)

text \<open>The outcome of a request whose response is the text \<open>x\<close>.\<close>

definition answered :: "string \<Rightarrow> sock \<Rightarrow> cheap \<Rightarrow> (int \<times> sock \<times> cheap) outcome" where
  "answered x so hp = (case send_framed x so of Blocked \<Rightarrow> Blocked | Returned (ok, so) \<Rightarrow> Returned (if ok then 0 else -1, so, hp))"

lemma handle_answered:
  assumes "cJSON_Parse K (Some str) hp = Some (p, hp1)" "case p of None \<Rightarrow> hp1 = hp | Some a \<Rightarrow> cJSON_Delete (Some a) hp1 = Some hp"
    "(if p = None then jsonrpc_create_error K (error_code_value JSONRPC_PARSE_ERROR) (Some ''Parse error'') None None hp1
      else request_response K s mh p hp1) = Some (Some r, hp2)"
    "send_response P (Some r) so hp2 = sent x so hp1"
  shows "handle_jsonrpc_request K P s mh str so hp = Some (answered x so hp)"
  using assms by (cases p) (auto simp: handle_jsonrpc_request_def sent_def answered_def split: outcome.split)

definition parsed_value :: "chooks \<Rightarrow> string \<Rightarrow> cheap \<Rightarrow> jval ptr \<Rightarrow> bool" where
  "parsed_value K str hp v \<longleftrightarrow> (case v of
     None \<Rightarrow> cJSON_Parse K (Some str) hp = Some (None, hp)
   | Some v \<Rightarrow> (\<exists>a hp1. cJSON_Parse K (Some str) hp = Some (Some a, hp1) \<and> item_value hp1 a v))"

text \<open>The error a request gets before a method runs.\<close>

definition request_error :: "(addr \<times> jsonrpc_method_t) list \<Rightarrow> jval ptr \<Rightarrow> (int \<times> string) ptr" where
  "request_error ms v = (case v of
     None \<Rightarrow> Some (error_code_value JSONRPC_PARSE_ERROR, ''Parse error'')
   | Some v \<Rightarrow> (case request_check (jv_kids v) of
         Inl e \<Rightarrow> Some e
       | Inr nm \<Rightarrow> if lookup_method nm ms = None then Some (error_code_value JSONRPC_METHOD_NOT_FOUND, ''Method not found'') else None))"

definition reply_errors :: "(int \<times> string) set" where
  "reply_errors = {(-32700, ''Parse error''), (-32600, ''Invalid JSON-RPC version''), (-32600, ''Method not specified''),
      (-32601, ''Method not found''), (-32603, ''error'')}"

lemma request_errors:
  assumes "request_error ms v = Some (n, msg)"
  shows "(n, msg) \<in> reply_errors"
  using assms by (auto simp: reply_errors_def request_error_def request_check_def split: option.splits sum.splits if_splits)

lemma error_reply_sent:
  assumes K: "plenty K hp1" and P: "blocks_ok P" "never_full P"
    and e: "(n, msg) \<in> reply_errors"
  shows "\<exists>r hp2. jsonrpc_create_error K n (Some msg) None None hp1 = Some (Some r, hp2) \<and> send_response P (Some r) so hp2 = sent (error_text n msg) so hp1"
proof -
  obtain r hp2 where r: "jsonrpc_create_error K n (Some msg) None None hp1 = Some (Some r, hp2)" "holds hp1 [(r, error_value n msg)] hp2"
    using create_error_ok [OF K holds_refl] by blast
  have n: "\<bar>n\<bar> < 10 ^ 15" using e by (auto simp: reply_errors_def)
  have "clean msg" using e by (auto simp: clean_def reply_errors_def)
  then have c: "clean_texts [error_value n msg]" by (simp add: error_value_def version_member_def JSONRPC_VERSION_def)
  have q: "quoted (Some ''Parse error'') = ''\"Parse error\"''" "quoted (Some ''Invalid JSON-RPC version'') = ''\"Invalid JSON-RPC version\"''"
    "quoted (Some ''Method not specified'') = ''\"Method not specified\"''" "quoted (Some ''Method not found'') = ''\"Method not found\"''"
    "quoted (Some ''error'') = ''\"error\"''" by code_simp+
  have "length (quoted (Some msg)) \<le> 30" using e q by (auto simp: reply_errors_def)
  then have "length (error_text n msg) + 4 \<le> INT_MAX"
    using int_digits_length [OF n] by (simp add: error_text_def INT_MAX_def)
  then show ?thesis using send_response_ok(2) [OF P(1) r(2) c error_value_text [OF n] P(2) K] r(1) by blast
qed

lemma rpc_error_answers:
  assumes K: "plenty K hp" and P: "blocks_ok P" "never_full P" and r: "registry s mh ms"
    and v: "parsed_value K str hp v" "request_error ms v = Some (n, msg)"
    and i: "n = error_code_value JSONRPC_METHOD_NOT_FOUND \<longrightarrow> member_value ''id'' (jv_kids (the v)) = None"
  shows "handle_jsonrpc_request K P s mh str so hp = Some (answered (error_text n msg) so hp)"
proof (cases v)
  case None
  then have p: "cJSON_Parse K (Some str) hp = Some (None, hp)" using v(1) by (simp add: parsed_value_def)
  have n: "n = error_code_value JSONRPC_PARSE_ERROR" "msg = ''Parse error''" using v(2) None by (auto simp: request_error_def)
  obtain r hp2 where r: "jsonrpc_create_error K n (Some msg) None None hp = Some (Some r, hp2)"
    "send_response P (Some r) so hp2 = sent (error_text n msg) so hp"
    using error_reply_sent [OF K P request_errors [OF v(2)]] by blast
  show ?thesis by (rule handle_answered [OF p _ _ r(2)]) (use r(1) n in simp_all)
next
  case (Some w)
  obtain ty sv i x nm kids where w: "w = JVal ty sv i x nm kids" by (cases w)
  obtain a hp1 where p: "cJSON_Parse K (Some str) hp = Some (Some a, hp1)" "item_value hp1 a (JVal ty sv i x nm kids)"
    using v(1) Some w by (auto simp: parsed_value_def)
  obtain d ts where t: "stacked hp [LT a d ts] hp1" "well_typed ts" "jvalues (ch_strs hp1) ts = kids" "readable hp1 ts"
    by (rule parsed_tree [OF K p])
  have tr: "tree hp1 (LT a d ts)" and del: "cJSON_Delete (Some a) hp1 = Some hp"
    using stackedD(1) [OF t(1)] stacked_delete [OF t(1)] by simp_all
  have K1: "plenty K hp1" by (rule stacked_plenty [OF K t(1)])
  have resp: "request_response K s mh (Some a) hp1 = jsonrpc_create_error K n (Some msg) None None hp1"
  proof (cases "request_check kids")
    case (Inl e)
    then show ?thesis using request_rejected [OF tr t(4,2)] t(3) v(2) Some w by (simp add: request_error_def)
  next
    case (Inr name)
    then have l: "lookup_method name ms = None" "n = error_code_value JSONRPC_METHOD_NOT_FOUND" "msg = ''Method not found''"
      using v(2) Some w by (auto simp: request_error_def split: if_splits)
    then have "find_member (ch_strs hp1) ''id'' ts = None" using assms(7) Some w t(3) member_value_find [of "''id''" "ch_strs hp1" ts] by simp
    then show ?thesis using request_accepted [OF tr t(4,2) r] t(3) Inr l by simp
  qed
  obtain q hp2 where q: "jsonrpc_create_error K n (Some msg) None None hp1 = Some (Some q, hp2)"
    "send_response P (Some q) so hp2 = sent (error_text n msg) so hp1"
    using error_reply_sent [OF K1 P request_errors [OF v(2)]] by blast
  show ?thesis by (rule handle_answered [OF p(1) _ _ q(2)]) (use del resp q(1) in simp_all)
qed

section \<open>Methods that run\<close>

text \<open>What a handler returns: NULL, or a new tree; it leaves everything else as it was.\<close>

definition handler_result :: "cheap \<Rightarrow> (addr ptr \<times> cheap) option \<Rightarrow> jval ptr \<Rightarrow> bool" where
  "handler_result hp r w \<longleftrightarrow> (case w of
     None \<Rightarrow> r = Some (None, hp)
   | Some v \<Rightarrow> (\<exists>a hp'. r = Some (Some a, hp') \<and> holds hp [(a, v)] hp'))"

definition method_reply :: "jval ptr \<Rightarrow> jval" where
  "method_reply w = (case w of None \<Rightarrow> error_value (error_code_value JSONRPC_INTERNAL_ERROR) ''error'' | Some v \<Rightarrow> response_value v)"

lemma method_reply_built:
  assumes K: "plenty K hp1" and h: "handler_result hp1 (Some (q, hp2)) w"
  shows "\<exists>r hp3. (if q \<noteq> None then jsonrpc_create_response K q None hp2
      else jsonrpc_create_error K (error_code_value JSONRPC_INTERNAL_ERROR) (Some ''error'') None None hp2) = Some (Some r, hp3)
    \<and> holds hp1 [(r, method_reply w)] hp3"
proof (cases w)
  case None
  then have q: "q = None" "hp2 = hp1" using h by (simp_all add: handler_result_def)
  obtain r hp3 where "jsonrpc_create_error K (error_code_value JSONRPC_INTERNAL_ERROR) (Some ''error'') None None hp1 = Some (Some r, hp3)"
    "holds hp1 [(r, error_value (error_code_value JSONRPC_INTERNAL_ERROR) ''error'')] hp3"
    using create_error_ok [OF K holds_refl] by blast
  then show ?thesis using q None by (intro exI [of _ r] exI [of _ hp3]) (simp add: method_reply_def)
next
  case (Some v)
  then obtain a where q: "q = Some a" "holds hp1 [(a, v)] hp2" using h by (auto simp: handler_result_def)
  obtain r hp3 where "jsonrpc_create_response K (Some a) None hp2 = Some (Some r, hp3)" "holds hp1 [(r, response_value v)] hp3"
    using create_response_ok [OF K q(2)] by blast
  then show ?thesis using q(1) Some by (intro exI [of _ r] exI [of _ hp3]) (simp add: method_reply_def)
qed

lemma rpc_method_answers:
  assumes K: "plenty K hp" and P: "blocks_ok P" "never_full P" and r: "registry s mh ms"
    and p: "cJSON_Parse K (Some str) hp = Some (Some a, hp1)" "item_value hp1 a v"
    and m: "request_check (jv_kids v) = Inr nm" "lookup_method nm ms = Some (nd, mt)" "member_value ''id'' (jv_kids v) = None"
    and f: "cJSON_GetObjectItem (Some a) (Some ''params'') hp1 = Some params"
      "handler_result hp1 (jm_handler mt params None (jm_user_data mt) hp1) w"
    and x: "text_value False 0 (method_reply w) = Some x" "length x + 4 \<le> INT_MAX" "clean_texts [method_reply w]"
  shows "handle_jsonrpc_request K P s mh str so hp = Some (answered x so hp)"
proof -
  obtain ty sv i y nn kids where v: "v = JVal ty sv i y nn kids" by (cases v)
  obtain d ts where t: "stacked hp [LT a d ts] hp1" "well_typed ts" "jvalues (ch_strs hp1) ts = kids" "readable hp1 ts"
    by (rule parsed_tree [OF K p(1) p(2) [unfolded v]])
  have tr: "tree hp1 (LT a d ts)" and del: "cJSON_Delete (Some a) hp1 = Some hp"
    using stackedD(1) [OF t(1)] stacked_delete [OF t(1)] by simp_all
  have K1: "plenty K hp1" by (rule stacked_plenty [OF K t(1)])
  have i: "find_member (ch_strs hp1) ''id'' ts = None" using m(3) v t(3) member_value_find [of "''id''" "ch_strs hp1" ts] by simp
  have pm: "params = map_option lt_addr (find_member (ch_strs hp1) ''params'' ts)"
    using f(1) get_object_item_tree [OF tr t(4)] by simp
  obtain q hp2 where q: "jm_handler mt params None (jm_user_data mt) hp1 = Some (q, hp2)"
    using f(2) by (cases w) (auto simp: handler_result_def)
  obtain r hp3 where b: "(if q \<noteq> None then jsonrpc_create_response K q None hp2
      else jsonrpc_create_error K (error_code_value JSONRPC_INTERNAL_ERROR) (Some ''error'') None None hp2) = Some (Some r, hp3)"
    "holds hp1 [(r, method_reply w)] hp3"
    using method_reply_built [OF K1 f(2) [unfolded q]] by blast
  have resp: "request_response K s mh (Some a) hp1 = Some (Some r, hp3)"
    using request_accepted [OF tr t(4,2) assms(4), of nm K] m t(3) v i q b(1) pm by (cases q) simp_all
  have snd: "send_response P (Some r) so hp3 = sent x so hp1"
    by (rule send_response_ok(2) [OF P(1) b(2) x(3) x(1) P(2) K1 x(2)])
  show ?thesis by (rule handle_answered [OF p(1) _ _ snd]) (use del resp in simp_all)
qed

text \<open>With an id: the item of the request is added to the response behind the rest.\<close>

lemma create_error_id:
  "jsonrpc_create_error K n msg data (Some i) hp = do {
     (r, hp) \<leftarrow> jsonrpc_create_error K n msg data None hp;
     if r = None then Some (None, hp) else do { hp \<leftarrow> cJSON_AddItemToObject K r (Some ''id'') (Some i) hp; Some (r, hp) } }"
  by (simp add: jsonrpc_create_error_def Let_def split_def del: not_None_eq)

lemma create_response_id:
  "jsonrpc_create_response K res (Some i) hp = do {
     (r, hp) \<leftarrow> jsonrpc_create_response K res None hp;
     if r = None then Some (None, hp) else do { hp \<leftarrow> cJSON_AddItemToObject K r (Some ''id'') (Some i) hp; Some (r, hp) } }"
  by (cases "cJSON_CreateObject K hp"; cases "fst (cJSON_CreateObject K hp)")
     (simp_all add: jsonrpc_create_response_def Let_def split_def del: not_None_eq)

definition well_behaved :: "jsonrpc_method_handler \<Rightarrow> bool" where
  "well_behaved f \<longleftrightarrow> (\<forall>params id_item ud hp. finite (dom (ch_items hp)) \<longrightarrow> finite (dom (ch_strs hp)) \<longrightarrow>
     (\<exists>w. handler_result hp (f params id_item ud hp) w))"

lemma reply_with_id:
  assumes t: "stacked hp [LT a d (pre @ u # post)] hp1" and K: "plenty K hp1"
    and b: "holds hp1 [(r, JVal ty sv i x nm kids)] hp2" "kids \<noteq> []"
  shows "\<exists>hp3 hp4. cJSON_AddItemToObject K (Some r) (Some nm') (Some (lt_addr u)) hp2 = Some hp3
    \<and> cJSON_Delete (Some r) hp3 = Some hp4 \<and> cJSON_Delete (Some a) hp4 = None"
proof -
  obtain q where q: "stacked hp1 [q] hp2" "lt_addr q = r" "the_value hp2 q = JVal ty sv i x nm kids" by (rule holds_one [OF b(1)])
  obtain c rd us where l: "q = LT c rd us" by (cases q)
  have "us \<noteq> []" using b(2) q(3) l by (auto simp: the_value_simp)
  moreover have "tree hp1 (LT a d (pre @ u # post))" using stackedD(1) [OF t] by simp
  ultimately show ?thesis using delete_shared q(1,2) l stacked_plenty [OF K q(1)] by auto
qed

lemma error_kids: "\<exists>ty sv i x nm kids. error_value n msg = JVal ty sv i x nm kids \<and> kids \<noteq> []"
  by (simp add: error_value_def)

lemma response_kids: "\<exists>ty sv i x nm kids. response_value w = JVal ty sv i x nm kids \<and> kids \<noteq> []"
  by (simp add: response_value_def)

lemma response_with_id:
  assumes t: "stacked hp [LT a d (pre @ u # post)] hp1" and K: "plenty K hp1"
  shows "\<exists>r hp3 hp4. jsonrpc_create_error K n (Some msg) None (Some (lt_addr u)) hp1 = Some (Some r, hp3)
      \<and> cJSON_Delete (Some r) hp3 = Some hp4 \<and> cJSON_Delete (Some a) hp4 = None"
    "holds hp1 [(b, w)] hp2 \<Longrightarrow> \<exists>r hp3 hp4. jsonrpc_create_response K (Some b) (Some (lt_addr u)) hp2 = Some (Some r, hp3)
      \<and> cJSON_Delete (Some r) hp3 = Some hp4 \<and> cJSON_Delete (Some a) hp4 = None"
proof -
  obtain r hp3 where r: "jsonrpc_create_error K n (Some msg) None None hp1 = Some (Some r, hp3)" "holds hp1 [(r, error_value n msg)] hp3"
    using create_error_ok [OF K holds_refl] by blast
  obtain ty sv i x nm kids where k: "error_value n msg = JVal ty sv i x nm kids" "kids \<noteq> []" using error_kids by blast
  obtain hp4 hp5 where "cJSON_AddItemToObject K (Some r) (Some ''id'') (Some (lt_addr u)) hp3 = Some hp4"
    "cJSON_Delete (Some r) hp4 = Some hp5" "cJSON_Delete (Some a) hp5 = None"
    using reply_with_id [OF t K r(2) [unfolded k(1)] k(2), of "''id''"] by blast
  then show "\<exists>r hp3 hp4. jsonrpc_create_error K n (Some msg) None (Some (lt_addr u)) hp1 = Some (Some r, hp3)
      \<and> cJSON_Delete (Some r) hp3 = Some hp4 \<and> cJSON_Delete (Some a) hp4 = None"
    by (intro exI [of _ r] exI [of _ hp4] exI [of _ hp5]) (simp add: create_error_id r(1))
next
  assume b: "holds hp1 [(b, w)] hp2"
  obtain r hp3 where r: "jsonrpc_create_response K (Some b) None hp2 = Some (Some r, hp3)" "holds hp1 [(r, response_value w)] hp3"
    using create_response_ok [OF K b] by blast
  obtain ty sv i x nm kids where k: "response_value w = JVal ty sv i x nm kids" "kids \<noteq> []" using response_kids by blast
  obtain hp4 hp5 where "cJSON_AddItemToObject K (Some r) (Some ''id'') (Some (lt_addr u)) hp3 = Some hp4"
    "cJSON_Delete (Some r) hp4 = Some hp5" "cJSON_Delete (Some a) hp5 = None"
    using reply_with_id [OF t K r(2) [unfolded k(1)] k(2), of "''id''"] by blast
  then show "\<exists>r hp3 hp4. jsonrpc_create_response K (Some b) (Some (lt_addr u)) hp2 = Some (Some r, hp3)
      \<and> cJSON_Delete (Some r) hp3 = Some hp4 \<and> cJSON_Delete (Some a) hp4 = None"
    by (intro exI [of _ r] exI [of _ hp4] exI [of _ hp5]) (simp add: create_response_id r(1))
qed

text \<open>
  The response to a request with an id contains the id's item, which stays a child of the request: when the
  two are deleted one after the other, as \<^verbatim>\<open>handle_jsonrpc_request\<close> does, the second deletion reaches an item
  that is already free.
\<close>

lemma rpc_request_with_id:
  assumes K: "plenty K hp" and r: "registry s mh ms" and v: "parsed_value K str hp (Some v)"
    and m: "request_check (jv_kids v) = Inr nm" "member_value ''id'' (jv_kids v) \<noteq> None"
    and f: "\<And>nd mt. lookup_method nm ms = Some (nd, mt) \<Longrightarrow> well_behaved (jm_handler mt)"
  shows "\<exists>a q hp1 hp3 hp4. cJSON_Parse K (Some str) hp = Some (Some a, hp1) \<and> request_response K s mh (Some a) hp1 = Some (Some q, hp3)
    \<and> cJSON_Delete (Some q) hp3 = Some hp4 \<and> cJSON_Delete (Some a) hp4 = None"
proof -
  obtain ty sv i y nn kids where w: "v = JVal ty sv i y nn kids" by (cases v)
  obtain a hp1 where p: "cJSON_Parse K (Some str) hp = Some (Some a, hp1)" "item_value hp1 a (JVal ty sv i y nn kids)"
    using v w by (auto simp: parsed_value_def)
  obtain d ts where t: "stacked hp [LT a d ts] hp1" "well_typed ts" "jvalues (ch_strs hp1) ts = kids" "readable hp1 ts"
    by (rule parsed_tree [OF K p])
  have tr: "tree hp1 (LT a d ts)" using stackedD(1) [OF t(1)] by simp
  have K1: "plenty K hp1" by (rule stacked_plenty [OF K t(1)])
  obtain u where u: "find_member (ch_strs hp1) ''id'' ts = Some u"
    using m(2) w t(3) member_value_find [of "''id''" "ch_strs hp1" ts] by auto
  obtain pre post where ts: "ts = pre @ u # post" using u by (rule find_member_split)
  note id1 = response_with_id(1) [OF t(1) [unfolded ts] K1] and id2 = response_with_id(2) [OF t(1) [unfolded ts] K1]
  have c: "request_check (jvalues (ch_strs hp1) ts) = Inr nm" using m(1) w t(3) by simp
  have "\<exists>q hp3 hp4. request_response K s mh (Some a) hp1 = Some (Some q, hp3) \<and> cJSON_Delete (Some q) hp3 = Some hp4
      \<and> cJSON_Delete (Some a) hp4 = None"
  proof (cases "lookup_method nm ms")
    case None
    then show ?thesis using request_accepted [OF tr t(4,2) r c] u id1 by simp
  next
    case (Some x)
    obtain nd mt where x: "x = (nd, mt)" by (cases x)
    define params where "params = map_option lt_addr (find_member (ch_strs hp1) ''params'' ts)"
    obtain w where w: "handler_result hp1 (jm_handler mt params (Some (lt_addr u)) (jm_user_data mt) hp1) w"
      using f Some x K1 unfolding well_behaved_def plenty_def by blast
    show ?thesis
    proof (cases w)
      case None
      then have "jm_handler mt params (Some (lt_addr u)) (jm_user_data mt) hp1 = Some (None, hp1)" using w by (simp add: handler_result_def)
      then show ?thesis using request_accepted [OF tr t(4,2) r c] u id1 Some x by (simp add: params_def)
    next
      case (Some v)
      then obtain b hp2 where b: "jm_handler mt params (Some (lt_addr u)) (jm_user_data mt) hp1 = Some (Some b, hp2)" "holds hp1 [(b, v)] hp2"
        using w by (auto simp: handler_result_def)
      then show ?thesis using request_accepted [OF tr t(4,2) r c] u id2 [OF b(2)] \<open>lookup_method nm ms = Some x\<close> x
        by (simp add: params_def)
    qed
  qed
  then show ?thesis using p(1) by blast
qed

end
