(* ===== verification/Json_Rpc_Serve.thy ===== *)
theory Json_Rpc_Serve
  imports Json_Rpc_Replies
begin

text \<open>
  What a client sees of the service: a length-prefixed message arrives as it was sent under any schedule of
  partial transfers, a connection answers its requests in the order they came, and the reply to a request
  without an id is the printed response or error object, with every block of the exchange freed.
\<close>

section \<open>Frames\<close>

definition rpc_frame :: "string \<Rightarrow> string" where
  "rpc_frame x = htonl_bytes (length x) @ x"

text \<open>\<open>n\<close> calls that all transfer something.\<close>

definition flows :: "nat \<Rightarrow> io_event list \<Rightarrow> bool" where
  "flows n evs \<longleftrightarrow> n \<le> length evs \<and> (\<forall>e \<in> set evs. is_transfer e)"

lemma flows_Cons: "flows n (e # evs) \<Longrightarrow> \<exists>k. e = Transfer k \<and> flows (n - 1) evs"
  by (cases e) (auto simp: flows_def is_transfer_def)

lemma flows_mono: "flows n evs \<Longrightarrow> m \<le> n \<Longrightarrow> flows m evs"
  by (simp add: flows_def)

lemma htonl_length [simp]: "length (htonl_bytes n) = 4"
  by (simp add: htonl_bytes_def)

lemma ntohl_htonl:
  assumes "n < 2 ^ 32"
  shows "ntohl_bytes (htonl_bytes n) = n"
proof -
  have "((n div 2 ^ 24 * 256 + n div 2 ^ 16 mod 256) * 256 + n div 2 ^ 8 mod 256) * 256 + n mod 256 = n"
  proof -
    have "n div 2 ^ 16 = n div 2 ^ 24 * 256 + n div 2 ^ 16 mod 256"
      using div_mult_mod_eq [of "n div 2 ^ 16" 256] by (simp add: div_mult2_eq [symmetric])
    moreover have "n div 2 ^ 8 = n div 2 ^ 16 * 256 + n div 2 ^ 8 mod 256"
      using div_mult_mod_eq [of "n div 2 ^ 8" 256] by (simp add: div_mult2_eq [symmetric])
    moreover have "n = n div 2 ^ 8 * 256 + n mod 256" using div_mult_mod_eq [of n 256] by simp
    ultimately show ?thesis by presburger
  qed
  then show ?thesis using assms by (simp add: ntohl_bytes_def htonl_bytes_def)
qed

lemma socket_send_loop_ok:
  "flows (length data - n) (so_events so) \<Longrightarrow> n \<le> length data \<Longrightarrow>
   \<exists>k. k \<le> length data - n \<and> socket_send_loop data n so = Returned (0, so\<lparr>so_events := drop k (so_events so), so_out := so_out so @ drop n data\<rparr>)"
proof (induction data n so rule: socket_send_loop.induct)
  case (1 data sent so)
  show ?case
  proof (cases "sent < length data")
    case False
    then show ?thesis using 1(3) by (subst socket_send_loop.simps) simp
  next
    case True
    obtain e evs where ev: "so_events so = e # evs" using True 1(2) by (cases "so_events so") (auto simp: flows_def)
    obtain k where e: "e = Transfer k" "flows (length data - sent - 1) evs" using flows_Cons [of "length data - sent" e evs] 1(2) ev by auto
    define m where "m = min (max 1 k) (length data - sent)"
    have m: "1 \<le> m" "m \<le> length data - sent" using True by (auto simp: m_def)
    have w: "sys_write e (drop sent data) = (int m, False, take m (drop sent data))" by (simp add: e(1) m_def Let_def)
    define so' where "so' = so\<lparr>so_events := evs, so_out := so_out so @ take m (drop sent data)\<rparr>"
    have f: "flows (length data - (sent + m)) (so_events so')" using e(2) m by (auto simp: so'_def intro: flows_mono)
    have ih: "\<exists>k. k \<le> length data - (sent + m) \<and> socket_send_loop data (sent + m) so'
        = Returned (0, so'\<lparr>so_events := drop k (so_events so'), so_out := so_out so' @ drop (sent + m) data\<rparr>)"
      using 1(1) [OF True ev w [symmetric] refl so'_def] m f by simp
    then obtain j where j: "j \<le> length data - (sent + m)" "socket_send_loop data (sent + m) so'
        = Returned (0, so'\<lparr>so_events := drop j evs, so_out := so_out so' @ drop (sent + m) data\<rparr>)" by (auto simp: so'_def)
    have app: "take m (drop sent data) @ drop (sent + m) data = drop sent data"
      by (metis add.commute append_take_drop_id drop_drop)
    have "socket_send_loop data sent so = socket_send_loop data (sent + m) so'"
      using True ev w m by (subst socket_send_loop.simps) (simp add: so'_def Let_def)
    then show ?thesis using j m app
      by (intro exI [of _ "Suc j"]) (auto simp: so'_def ev)
  qed
qed

lemma socket_send_ok:
  assumes "flows (length data) (so_events so)"
  shows "\<exists>k. k \<le> length data \<and> socket_send data so = Returned (0, so\<lparr>so_events := drop k (so_events so), so_out := so_out so @ data\<rparr>)"
  using socket_send_loop_ok [of data 0 so] assms by (simp add: socket_send_def)

lemma flows_drop: "flows (n + m) evs \<Longrightarrow> k \<le> n \<Longrightarrow> flows m (drop k evs)"
  by (auto simp: flows_def dest: in_set_dropD)

lemma send_framed_ok:
  assumes "flows (4 + length x) (so_events so)"
  shows "\<exists>k. k \<le> 4 + length x \<and> send_framed x so = Returned (True, so\<lparr>so_events := drop k (so_events so), so_out := so_out so @ rpc_frame x\<rparr>)"
proof -
  have "flows (length (htonl_bytes (length x))) (so_events so)" using assms by (simp add: flows_def)
  then obtain k where k: "k \<le> 4" "socket_send (htonl_bytes (length x)) so
      = Returned (0, so\<lparr>so_events := drop k (so_events so), so_out := so_out so @ htonl_bytes (length x)\<rparr>)"
    using socket_send_ok by fastforce
  have "flows (length x) (drop k (so_events so))" by (rule flows_drop [OF assms k(1)])
  then obtain j where j: "j \<le> length x" "socket_send x (so\<lparr>so_events := drop k (so_events so), so_out := so_out so @ htonl_bytes (length x)\<rparr>)
     = Returned (0, so\<lparr>so_events := drop j (drop k (so_events so)), so_out := (so_out so @ htonl_bytes (length x)) @ x\<rparr>)"
    using socket_send_ok [of x "so\<lparr>so_events := drop k (so_events so), so_out := so_out so @ htonl_bytes (length x)\<rparr>"] by auto
  show ?thesis using k j by (intro exI [of _ "j + k"]) (simp add: send_framed_def rpc_frame_def)
qed

lemma recv_loop_ok:
  "\<lbrakk>flows (n - r) (so_events so); r \<le> n; n - r \<le> length (so_in so); n < length buf\<rbrakk> \<Longrightarrow>
   \<exists>k. k \<le> n - r \<and> recv_loop n r buf so = Some (Returned (True, take r buf @ take (n - r) (so_in so) @ drop n buf,
      so\<lparr>so_events := drop k (so_events so), so_in := drop (n - r) (so_in so)\<rparr>))"
proof (induction n r buf so rule: recv_loop.induct)
  case (1 n r buf so)
  show ?case
  proof (cases "r < n")
    case False
    then have "r = n" using 1(3) by simp
    then show ?thesis by (subst recv_loop.simps) simp
  next
    case True
    obtain e evs where ev: "so_events so = e # evs" using True 1(2) by (cases "so_events so") (auto simp: flows_def)
    obtain k where e: "e = Transfer k" "flows (n - r - 1) evs" using flows_Cons [of "n - r" e evs] 1(2) ev by auto
    define m where "m = min (min (max 1 k) (n - r)) (length (so_in so))"
    have m: "1 \<le> m" "m \<le> n - r" "m \<le> length (so_in so)" using True 1(4) by (auto simp: m_def)
    have w: "sys_read e (so_in so) (int (n - r)) = (int m, False, take m (so_in so), drop m (so_in so))"
      by (simp add: e(1) m_def Let_def)
    define so' where "so' = so\<lparr>so_events := evs, so_in := drop m (so_in so)\<rparr>"
    define buf' where "buf' = take r buf @ take m (so_in so) @ drop (r + m) buf"
    have mw: "mem_write buf r (take m (so_in so)) = Some buf'" using m 1(5) True by (simp add: mem_write_Some buf'_def)
    have f: "flows (n - (r + m)) (so_events so')" using e(2) m by (auto simp: so'_def intro: flows_mono)
    have lb: "length buf' = length buf" using m True 1(5) by (simp add: buf'_def)
    have le: "r + m \<le> n" "n - (r + m) \<le> length (so_in so) - m" using m 1(4) True by linarith+
    obtain j where j: "j \<le> n - (r + m)" "recv_loop n (r + m) buf' so' = Some (Returned (True, take (r + m) buf' @ take (n - (r + m)) (so_in so') @ drop n buf',
        so'\<lparr>so_events := drop j (so_events so'), so_in := drop (n - (r + m)) (so_in so')\<rparr>))"
      using 1(1) [OF True ev w [symmetric] refl refl so'_def _ mw] m f lb le 1(5) by (auto simp: so'_def)
    have "recv_loop n r buf so = recv_loop n (r + m) buf' so'"
      using True ev w m mw by (subst recv_loop.simps) (simp add: so'_def Let_def)
    moreover have "take (r + m) buf' = take r buf @ take m (so_in so)" using m True 1(5) by (simp add: buf'_def)
    moreover have "drop n buf' = drop n buf" using m True 1(5) by (simp add: buf'_def)
    moreover have "take m (so_in so) @ take (n - (r + m)) (drop m (so_in so)) = take (n - r) (so_in so)"
      using m take_add [of m "n - (r + m)" "so_in so"] by simp
    moreover have "drop (n - (r + m)) (drop m (so_in so)) = drop (n - r) (so_in so)" using m by (simp add: add.commute)
    ultimately show ?thesis using j m by (intro exI [of _ "Suc j"]) (auto simp: so'_def ev)
  qed
qed

lemma recv_text_ok:
  assumes "flows n (so_events so)" "n \<le> length (so_in so)" "n < length buf" "clean (take n (so_in so))"
  shows "\<exists>k b. k \<le> n \<and> recv_text n buf so = Some (Returned (int n, b, so\<lparr>so_events := drop k (so_events so), so_in := drop n (so_in so)\<rparr>))
    \<and> c_string b = take n (so_in so) \<and> length b = length buf"
proof -
  obtain k where k: "k \<le> n" "recv_loop n 0 buf so = Some (Returned (True, take n (so_in so) @ drop n buf,
      so\<lparr>so_events := drop k (so_events so), so_in := drop n (so_in so)\<rparr>))"
    using recv_loop_ok [of n 0 so buf] assms(1-3) by auto
  define b where "b = take n (so_in so) @ CHR 0x00 # drop (n + 1) buf"
  have "mem_write (take n (so_in so) @ drop n buf) n [CHR 0x00] = Some b"
    using assms(2,3) by (simp add: mem_write_Some b_def)
  moreover have "c_string b = take n (so_in so)"
    using c_string_text [of "take n (so_in so)"] assms(4) by (simp add: b_def clean_def)
  moreover have "length b = length buf" using assms(2,3) by (simp add: b_def)
  ultimately show ?thesis using k by (intro exI [of _ k] exI [of _ b]) (simp add: recv_text_def)
qed

lemma socket_recv_ok:
  assumes x: "so_in so = rpc_frame x @ rest" "x \<noteq> []" "length x < max_len" "max_len \<le> length buf" "length x < 2 ^ 32" "clean x"
    and ev: "so_events so = Transfer j # evs" "4 \<le> j" "flows (length x) evs"
  shows "\<exists>k b. k \<le> length x \<and> socket_recv buf max_len so = Some (Returned (int (length x), b, so\<lparr>so_events := drop k evs, so_in := rest\<rparr>))
    \<and> c_string b = x \<and> length b = length buf"
proof -
  define so' where "so' = so\<lparr>so_events := evs, so_in := x @ rest\<rparr>"
  have h: "sock_recv 4 so = Returned (4, htonl_bytes (length x), so')"
    using x(1) ev(1,2) by (simp add: sock_recv_def rpc_frame_def so'_def Let_def)
  obtain k b where k: "k \<le> length x" "recv_text (length x) buf so' = Some (Returned (int (length x), b, so'\<lparr>so_events := drop k evs, so_in := rest\<rparr>))"
    "c_string b = x" "length b = length buf"
    using recv_text_ok [of "length x" so' buf] ev(3) x(3,4,6) by (auto simp: so'_def)
  show ?thesis using h k x by (intro exI [of _ k] exI [of _ b]) (simp add: socket_recv_def ntohl_htonl so'_def Let_def)
qed

text \<open>
  C9: A message that is sent as a frame is received as it was: with calls that may transfer only parts of
  it in both directions, \<^verbatim>\<open>socket_send\<close> of the length and of the text appends exactly one frame to the stream, and
  \<^verbatim>\<open>socket_recv\<close> of a stream that begins with this frame returns the length of the text, the text as a C
  string in the buffer, and leaves the stream behind the frame.  This holds for every text shorter than the
  buffer that is not empty and has no zero byte.
\<close>

theorem rpc_frame_roundtrip:
  assumes "flows (4 + length x) (so_events so)" "x \<noteq> []" "clean x" "length x < max_len" "max_len \<le> length buf" "length x < 2 ^ 32"
    and "so_events si = Transfer j # evs" "4 \<le> j" "flows (length x) evs" "so_in si = rpc_frame x @ rest"
  shows "\<exists>so' si' b. send_framed x so = Returned (True, so') \<and> so_out so' = so_out so @ rpc_frame x
    \<and> socket_recv buf max_len si = Some (Returned (int (length x), b, si')) \<and> c_string b = x \<and> so_in si' = rest"
proof -
  obtain k where k: "send_framed x so = Returned (True, so\<lparr>so_events := drop k (so_events so), so_out := so_out so @ rpc_frame x\<rparr>)"
    using send_framed_ok [OF assms(1)] by blast
  obtain l b where "socket_recv buf max_len si = Some (Returned (int (length x), b, si\<lparr>so_events := drop l evs, so_in := rest\<rparr>))" "c_string b = x"
    using socket_recv_ok [OF assms(10,2,4,5,6,3,7,8,9)] by blast
  with k show ?thesis
    by (intro exI [of _ "so\<lparr>so_events := drop k (so_events so), so_out := so_out so @ rpc_frame x\<rparr>"]
        exI [of _ "si\<lparr>so_events := drop l evs, so_in := rest\<rparr>"] exI [of _ b]) simp
qed

lemma rpc_frame_roundtrip_witness:
  "\<exists>so' si' b. send_framed ''[]'' \<lparr>so_events = replicate 6 (Transfer 1), so_in = [], so_out = []\<rparr> = Returned (True, so')
    \<and> so_out so' = [] @ rpc_frame ''[]''
    \<and> socket_recv (replicate 4096 (CHR ''x'')) 4096 \<lparr>so_events = [Transfer 4, Transfer 1, Transfer 1], so_in = rpc_frame ''[]'' @ ''rest'', so_out = []\<rparr>
        = Some (Returned (int (length ''[]''), b, si')) \<and> c_string b = ''[]'' \<and> so_in si' = ''rest''"
  using rpc_frame_roundtrip [of "''[]''" "\<lparr>so_events = replicate 6 (Transfer 1), so_in = [], so_out = []\<rparr>" 4096 "replicate 4096 (CHR ''x'')"
      "\<lparr>so_events = [Transfer 4, Transfer 1, Transfer 1], so_in = rpc_frame ''[]'' @ ''rest'', so_out = []\<rparr>" 4 "[Transfer 1, Transfer 1]" "''rest''"]
  by (simp add: flows_def is_transfer_def clean_def)

section \<open>A connection\<close>

text \<open>At least \<open>n\<close> calls, each of which transfers the four bytes of a length when they are there.\<close>

definition brisk :: "nat \<Rightarrow> io_event list \<Rightarrow> bool" where
  "brisk n evs \<longleftrightarrow> n \<le> length evs \<and> (\<forall>e \<in> set evs. \<exists>k. e = Transfer k \<and> 4 \<le> k)"

lemma brisk_flows: "brisk n evs \<Longrightarrow> flows n evs"
  by (auto simp: brisk_def flows_def is_transfer_def)

lemma brisk_drop: "brisk (n + m) evs \<Longrightarrow> k \<le> n \<Longrightarrow> brisk m (drop k evs)"
  by (auto simp: brisk_def dest: in_set_dropD)

lemma brisk_Suc: "brisk (Suc n) evs \<Longrightarrow> \<exists>k evs'. evs = Transfer k # evs' \<and> 4 \<le> k \<and> brisk n evs'"
  by (cases evs) (auto simp: brisk_def)

definition frames :: "string list \<Rightarrow> string" where
  "frames xs = concat (map rpc_frame xs)"

lemma frames_simps [simp]: "frames [] = []" "frames (x # xs) = rpc_frame x @ frames xs"
  by (simp_all add: frames_def)

definition exchange_cost :: "(string \<times> string) list \<Rightarrow> nat" where
  "exchange_cost xys = (\<Sum>(x, y) \<leftarrow> xys. 1 + length x + (4 + length y))"

lemma connection_end:
  assumes "brisk 1 (so_events so)" "so_in so = []" "4096 \<le> length buf"
  shows "\<exists>evs. handle_client_connection K P s mh buf so hp = Some (Returned (so\<lparr>so_events := evs\<rparr>, hp))"
proof -
  obtain k evs where ev: "so_events so = Transfer k # evs" using brisk_Suc [of 0 "so_events so"] assms(1) by auto
  have "sock_recv 4 so = Returned (0, [], so\<lparr>so_events := evs\<rparr>)" 
  proof -
    have "so\<lparr>so_events := evs, so_in := []\<rparr> = so\<lparr>so_events := evs\<rparr>" using assms(2) by (cases so) simp
    then show ?thesis using assms(2) by (simp add: sock_recv_def ev Let_def)
  qed
  then have "socket_recv buf 4096 so = Some (Returned (-1, buf, so\<lparr>so_events := evs\<rparr>))" by (simp add: socket_recv_def)
  then show ?thesis by (subst handle_client_connection.simps) auto
qed

text \<open>The thread of a connection whose requests are all answered with one text.\<close>

lemma connection_answers:
  assumes "\<And>x y so. (x, y) \<in> set xys \<Longrightarrow> handle_jsonrpc_request K P s mh x so hp = Some (answered y so hp)"
    and "\<And>x y. (x, y) \<in> set xys \<Longrightarrow> x \<noteq> [] \<and> clean x \<and> length x < 4096"
    and "so_in so = frames (map fst xys)" "brisk (exchange_cost xys + 1) (so_events so)" "4096 \<le> length buf"
  shows "\<exists>so'. handle_client_connection K P s mh buf so hp = Some (Returned (so', hp))
    \<and> so_out so' = so_out so @ frames (map snd xys)"
  using assms
proof (induction xys arbitrary: so buf)
  case Nil
  then obtain evs where "handle_client_connection K P s mh buf so hp = Some (Returned (so\<lparr>so_events := evs\<rparr>, hp))"
    using connection_end [of so buf K P s mh hp] by (auto simp: exchange_cost_def)
  then show ?case by (intro exI [of _ "so\<lparr>so_events := evs\<rparr>"]) simp
next
  case (Cons xy xys)
  obtain x y where xy: "xy = (x, y)" by (cases xy)
  define R where "R = exchange_cost xys + 1"
  have cost: "brisk (Suc (length x + (4 + length y + R))) (so_events so)"
    using Cons.prems(4) by (simp add: exchange_cost_def xy R_def add.assoc)
  obtain k evs where ev: "so_events so = Transfer k # evs" "4 \<le> k" "brisk (length x + (4 + length y + R)) evs"
    using brisk_Suc [OF cost] by blast
  have x: "x \<noteq> []" "clean x" "length x < 4096" using Cons.prems(2) [of x y] xy by simp_all
  have inp: "so_in so = rpc_frame x @ frames (map fst xys)" using Cons.prems(3) xy by simp
  have "flows (length x) evs" by (rule flows_mono [OF brisk_flows [OF ev(3)]]) simp
  then obtain j b where j: "j \<le> length x" "socket_recv buf 4096 so = Some (Returned (int (length x), b,
      so\<lparr>so_events := drop j evs, so_in := frames (map fst xys)\<rparr>))" "c_string b = x" "length b = length buf"
    using socket_recv_ok [OF inp x(1,3) Cons.prems(5) _ x(2) ev(1,2)] x(3) by fastforce
  define so1 where "so1 = so\<lparr>so_events := drop j evs, so_in := frames (map fst xys)\<rparr>"
  have b1: "brisk (4 + length y + R) (drop j evs)" by (rule brisk_drop [OF ev(3) j(1)])
  then have "flows (4 + length y) (so_events so1)" by (auto simp: so1_def intro: flows_mono [OF brisk_flows])
  then obtain l where l: "l \<le> 4 + length y" "send_framed y so1 = Returned (True, so1\<lparr>so_events := drop l (so_events so1), so_out := so_out so1 @ rpc_frame y\<rparr>)"
    using send_framed_ok by blast
  define so2 where "so2 = so1\<lparr>so_events := drop l (so_events so1), so_out := so_out so1 @ rpc_frame y\<rparr>"
  have h: "handle_jsonrpc_request K P s mh x so1 hp = Some (Returned (0, so2, hp))"
    using Cons.prems(1) [of x y so1] xy l(2) by (simp add: answered_def so2_def)
  have b2: "brisk R (so_events so2)" using brisk_drop [OF b1 l(1)] by (simp add: so2_def so1_def)
  have "\<exists>so'. handle_client_connection K P s mh b so2 hp = Some (Returned (so', hp)) \<and> so_out so' = so_out so2 @ frames (map snd xys)"
  proof (rule Cons.IH)
    show "x \<noteq> [] \<and> clean x \<and> length x < 4096" if "(x, y) \<in> set xys" for x y using Cons.prems(2) [of x y] that by simp
    show "handle_jsonrpc_request K P s mh x so hp = Some (answered y so hp)" if "(x, y) \<in> set xys" for x y so
      using Cons.prems(1) [of x y so] that by simp
    show "brisk (exchange_cost xys + 1) (so_events so2)" using b2 by (simp add: R_def)
  qed (use Cons.prems(5) j(4) in \<open>simp_all add: so2_def so1_def\<close>)
  then obtain so' where so': "handle_client_connection K P s mh b so2 hp = Some (Returned (so', hp))"
    "so_out so' = so_out so2 @ frames (map snd xys)" by blast
  have "handle_client_connection K P s mh buf so hp = handle_client_connection K P s mh b so2 hp"
    using j(2,3) x(1) h by (subst handle_client_connection.simps) (simp add: so1_def)
  then show ?case using so' xy by (simp add: so2_def so1_def)
qed

section \<open>Requests of our own\<close>

text \<open>A printed request is parsed to its value.\<close>

lemma parsed_text:
  assumes "plenty K hp" "plain CJSON_NESTING_LIMIT v" "text_value f n v = Some x"
  shows "parsed_value K x hp (Some (canon None v))"
proof -
  obtain u hp' where "cJSON_ParseWithOpts K (Some x) False hp = Some (Some (lt_addr u), length x, None, hp')" "spread hp [u] hp'"
    "the_value hp' u = canon None v" using parse_text [OF assms] by blast
  then show ?thesis by (auto simp: parsed_value_def cJSON_Parse_def item_value_def spread_def tree_def)
qed

definition request_value :: "string \<Rightarrow> int ptr \<Rightarrow> jval" where
  "request_value m i = JVal cJSON_Object None 0 0 None
     (JVal cJSON_String (Some ''2.0'') 0 0 (Some ''jsonrpc'') [] # JVal cJSON_String (Some m) 0 0 (Some ''method'') [] #
      (case i of None \<Rightarrow> [] | Some n \<Rightarrow> [JVal cJSON_Number None (saturate_int (whole n)) (whole n) (Some ''id'') []]))"

lemma request_value_plain: "plain CJSON_NESTING_LIMIT (request_value m i)" if "clean m" "\<forall>n. i = Some n \<longrightarrow> \<bar>n\<bar> < 10 ^ 15"
  using that survives_int by (cases i) (simp_all add: request_value_def plain.simps CJSON_NESTING_LIMIT_def text_of_def clean_def)

lemma request_value_text:
  "text_value False 0 (request_value ''m'' None) = Some ''{\"jsonrpc\":\"2.0\",\"method\":\"m\"}''"
  "text_value False 0 (request_value ''m'' (Some 1)) = Some ''{\"jsonrpc\":\"2.0\",\"method\":\"m\",\"id\":1}''"
proof -
  have "int_digits 1 = ''1''" by code_simp
  then have n: "number_buffer (Fin 1) = ''1''" using number_buffer_int [of 1] by simp
  have q: "quoted (Some ''method'') = ''\"method\"''" "quoted (Some ''m'') = ''\"m\"''" by code_simp+
  show "text_value False 0 (request_value ''m'' None) = Some ''{\"jsonrpc\":\"2.0\",\"method\":\"m\"}''"
    "text_value False 0 (request_value ''m'' (Some 1)) = Some ''{\"jsonrpc\":\"2.0\",\"method\":\"m\",\"id\":1}''"
    by (simp_all add: request_value_def text_value.simps text_members.simps quoted_names q n tabs_def newline_def)
qed

lemma request_value_check:
  "request_check (jv_kids (canon None (request_value m i))) = Inr m"
  "member_value ''id'' (jv_kids (canon None (request_value m i))) = None \<longleftrightarrow> i = None"
proof -
  have c: "ci_compare ''jsonrpc'' ''jsonrpc'' = 0" "ci_compare ''method'' ''jsonrpc'' \<noteq> 0" "ci_compare ''method'' ''method'' = 0"
    "ci_compare ''id'' ''jsonrpc'' \<noteq> 0" "ci_compare ''id'' ''method'' \<noteq> 0" "ci_compare ''id'' ''id'' = 0" by code_simp+
  show "request_check (jv_kids (canon None (request_value m i))) = Inr m"
    "member_value ''id'' (jv_kids (canon None (request_value m i))) = None \<longleftrightarrow> i = None"
    using c by (cases i; simp add: request_value_def canon.simps request_check_def string_value_def text_of_def JSONRPC_VERSION_def)+
qed

text \<open>A heap without anything in it, and a service with at most one method.\<close>

abbreviation (input) rpc_hooks :: chooks where "rpc_hooks \<equiv> \<lparr>ck_item = alloc0, ck_str = alloc0\<rparr>"
abbreviation (input) no_heap :: cheap where "no_heap \<equiv> \<lparr>ch_items = Map.empty, ch_strs = Map.empty\<rparr>"

lemma rpc_hooks_plenty: "plenty rpc_hooks no_heap"
  by (simp add: plenty_def alloc0_fresh alloc0_total)

definition service0 :: jsonrpc_service_t where
  "service0 = \<lparr>js_port = 8080, js_server_fd = -1, js_hDetectTsk = None, js_bTskDone = False,
     js_tMethodList = \<lparr>sl_head = None, sl_tail = None, sl_size = 0\<rparr>, js_user_data = None, js_client_fd = None\<rparr>"

definition service1 :: jsonrpc_service_t where
  "service1 = service0\<lparr>js_tMethodList := \<lparr>sl_head = Some 5, sl_tail = Some 5, sl_size = 1\<rparr>\<rparr>"

definition one_method :: "jsonrpc_method_handler \<Rightarrow> method_heap" where
  "one_method f = \<lparr>mh_nodes = [5 \<mapsto> \<lparr>sn_next = None, sn_prev = None\<rparr>],
     mh_methods = [5 \<mapsto> \<lparr>jm_method_name = Some ''m'', jm_handler = f, jm_user_data = None\<rparr>]\<rparr>"

lemma registries:
  "registry service0 \<lparr>mh_nodes = Map.empty, mh_methods = Map.empty\<rparr> []"
  "registry service1 (one_method f) [(5, \<lparr>jm_method_name = Some ''m'', jm_handler = f, jm_user_data = None\<rparr>)]"
  by (simp_all add: registry_def service0_def service1_def one_method_def list_inv_def)

section \<open>Claims on one request\<close>

text \<open>The reply to a request without an id: an error before any method runs, or what the method gives.\<close>

definition expected_reply :: "chooks \<Rightarrow> (addr \<times> jsonrpc_method_t) list \<Rightarrow> string \<Rightarrow> cheap \<Rightarrow> jval ptr \<Rightarrow> jval \<Rightarrow> bool" where
  "expected_reply K ms str hp v reply \<longleftrightarrow> (case request_error ms v of
     Some (n, msg) \<Rightarrow> reply = error_value n msg
   | None \<Rightarrow> (\<exists>a hp1 nm nd mt params w. cJSON_Parse K (Some str) hp = Some (Some a, hp1)
       \<and> request_check (jv_kids (the v)) = Inr nm \<and> lookup_method nm ms = Some (nd, mt)
       \<and> cJSON_GetObjectItem (Some a) (Some ''params'') hp1 = Some params
       \<and> handler_result hp1 (jm_handler mt params None (jm_user_data mt) hp1) w \<and> reply = method_reply w))"

text \<open>The request \<open>str\<close> has no id and its reply is the text \<open>x\<close>.\<close>

definition replies :: "chooks \<Rightarrow> (addr \<times> jsonrpc_method_t) list \<Rightarrow> cheap \<Rightarrow> string \<Rightarrow> string \<Rightarrow> bool" where
  "replies K ms hp str x \<longleftrightarrow> (\<exists>v reply. parsed_value K str hp v \<and> (v \<noteq> None \<longrightarrow> member_value ''id'' (jv_kids (the v)) = None)
     \<and> expected_reply K ms str hp v reply \<and> text_value False 0 reply = Some x \<and> length x + 4 \<le> INT_MAX \<and> clean_texts [reply])"

lemma reply_sent:
  assumes "plenty K hp" "blocks_ok P" "never_full P" "registry s mh ms" "parsed_value K str hp v"
    and "v \<noteq> None \<Longrightarrow> member_value ''id'' (jv_kids (the v)) = None" "expected_reply K ms str hp v reply"
    and "text_value False 0 reply = Some x" "length x + 4 \<le> INT_MAX" "clean_texts [reply]"
  shows "handle_jsonrpc_request K P s mh str so hp = Some (answered x so hp)"
proof (cases "request_error ms v")
  case (Some e)
  obtain n msg where e: "e = (n, msg)" by (cases e)
  have "(n, msg) \<in> reply_errors" by (rule request_errors [OF Some [unfolded e]])
  then have n: "\<bar>n\<bar> < 10 ^ 15" by (auto simp: reply_errors_def)
  have "reply = error_value n msg" using assms(7) Some e by (simp add: expected_reply_def)
  then have x: "x = error_text n msg" using assms(8) error_value_text [OF n] by simp
  have "v \<noteq> None" if "n = error_code_value JSONRPC_METHOD_NOT_FOUND" using that Some e by (cases v) (auto simp: request_error_def)
  then show ?thesis unfolding x using rpc_error_answers [OF assms(1-5)] Some e assms(6) by blast
next
  case None
  then obtain w where w: "v = Some w" by (auto simp: request_error_def split: option.splits)
  obtain a hp1 nm nd mt params r where p: "cJSON_Parse K (Some str) hp = Some (Some a, hp1)"
    "request_check (jv_kids w) = Inr nm" "lookup_method nm ms = Some (nd, mt)"
    "cJSON_GetObjectItem (Some a) (Some ''params'') hp1 = Some params"
    "handler_result hp1 (jm_handler mt params None (jm_user_data mt) hp1) r" "reply = method_reply r"
    using assms(7) None w unfolding expected_reply_def by auto
  have "item_value hp1 a w" using assms(5) w p(1) by (auto simp: parsed_value_def)
  moreover have "member_value ''id'' (jv_kids w) = None" using assms(6) w by simp
  ultimately show ?thesis
    using rpc_method_answers [OF assms(1-4) p(1) _ p(2,3) _ p(4,5)] assms(8-10) p(6) by simp
qed

text \<open>
  C8: A request without an id is answered and leaves no memory behind: text that is no JSON gets the parse
  error, a request without the version 2.0 or without a method name the invalid-request error, an unknown
  method the method-not-found error, and a known method is called with the request's params, its result
  becoming the member \<^verbatim>\<open>result\<close> (or the internal error when it returns NULL).  The text of this reply is
  sent as a frame, the heap is the one before, and the returned value tells whether the length was sent.
\<close>

theorem rpc_request_answered:
  assumes "plenty K hp" "blocks_ok P" "never_full P" "registry s mh ms" "parsed_value K str hp v"
    and "v \<noteq> None \<Longrightarrow> member_value ''id'' (jv_kids (the v)) = None" "expected_reply K ms str hp v reply"
    and "text_value False 0 reply = Some x" "length x + 4 \<le> INT_MAX" "clean_texts [reply]"
  shows "handle_jsonrpc_request K P s mh str so hp = Some (answered x so hp)"
  by (rule reply_sent [OF assms])


definition seven :: jsonrpc_method_handler where
  "seven params id_item ud hp = (case cJSON_CreateNumber rpc_hooks (whole 7) hp of (a, hp) \<Rightarrow> Some (a, hp))"

lemma seven_result:
  assumes "plenty rpc_hooks hp"
  shows "handler_result hp (seven params id_item ud hp) (Some (JVal cJSON_Number None 7 (whole 7) None []))"
proof -
  obtain a hp' where "cJSON_CreateNumber rpc_hooks (whole 7) hp = (Some a, hp')" "holds hp [(a, JVal cJSON_Number None (saturate_int (whole 7)) (whole 7) None [])] hp'"
    using holds_create(4) [OF assms holds_refl] by blast
  moreover have "saturate_int (whole 7) = 7" by simp
  ultimately show ?thesis by (simp add: handler_result_def seven_def)
qed

lemma replies_seven:
  "replies rpc_hooks [(5, \<lparr>jm_method_name = Some ''m'', jm_handler = seven, jm_user_data = None\<rparr>)] no_heap
     ''{\"jsonrpc\":\"2.0\",\"method\":\"m\"}'' ''{\"jsonrpc\":\"2.0\",\"result\":7}''"
proof -
  define m where "m = \<lparr>jm_method_name = Some ''m'', jm_handler = seven, jm_user_data = None\<rparr>"
  define v where "v = canon None (request_value ''m'' None)"
  define str where "str = ''{\"jsonrpc\":\"2.0\",\"method\":\"m\"}''"
  define w where "w = JVal cJSON_Number None 7 (whole 7) None []"
  have pv: "parsed_value rpc_hooks str no_heap (Some v)"
    unfolding v_def str_def by (rule parsed_text [OF rpc_hooks_plenty request_value_plain request_value_text(1)]) simp_all
  then obtain a hp1 where p: "cJSON_Parse rpc_hooks (Some str) no_heap = Some (Some a, hp1)" "item_value hp1 a v"
    by (auto simp: parsed_value_def)
  obtain ty sv i y nn kids where vk: "v = JVal ty sv i y nn kids" by (cases v)
  obtain d ts where t: "stacked no_heap [LT a d ts] hp1" "readable hp1 ts"
    using parsed_tree [OF rpc_hooks_plenty p(1) p(2) [unfolded vk]] by metis
  have par: "cJSON_GetObjectItem (Some a) (Some ''params'') hp1 = Some (map_option lt_addr (find_member (ch_strs hp1) ''params'' ts))"
    by (rule get_object_item_tree [OF stackedD(1) [OF t(1)] t(2)]) simp
  have res: "handler_result hp1 (jm_handler m params None (jm_user_data m) hp1) (Some w)" for params
    unfolding m_def w_def using seven_result [OF stacked_plenty [OF rpc_hooks_plenty t(1)]] by simp
  have c: "request_check (jv_kids v) = Inr ''m''" "member_value ''id'' (jv_kids v) = None" unfolding v_def by (simp_all add: request_value_check)
  then have "request_error [(5, m)] (Some v) = None" by (simp add: request_error_def m_def)
  then have e: "expected_reply rpc_hooks [(5, m)] str no_heap (Some v) (method_reply (Some w))"
    unfolding expected_reply_def using p(1) c(1) par res [of "map_option lt_addr (find_member (ch_strs hp1) ''params'' ts)"]
    by (intro option.case_eq_if [THEN iffD2]) (auto simp: m_def intro!: exI [of _ a] exI [of _ hp1])
  have "int_digits 7 = ''7''" by code_simp
  then have n: "number_buffer (Fin 7) = ''7''" using number_buffer_int [of 7] by simp
  have x: "text_value False 0 (method_reply (Some w)) = Some ''{\"jsonrpc\":\"2.0\",\"result\":7}''"
    by (simp add: method_reply_def response_value_def version_member_def JSONRPC_VERSION_def with_name_def w_def n quoted_names tabs_def newline_def
        text_value.simps text_members.simps)
  have cl: "clean_texts [method_reply (Some w)]"
    by (simp add: method_reply_def response_value_def version_member_def JSONRPC_VERSION_def with_name_def w_def)
  show ?thesis using pv c(2) e x cl unfolding str_def m_def replies_def
    by (intro exI [of _ "Some v"] exI [of _ "method_reply (Some w)"]) (simp add: INT_MAX_def)
qed

lemma rpc_request_answered_witness:
  "handle_jsonrpc_request rpc_hooks plain_blocks service1 (one_method seven) ''{\"jsonrpc\":\"2.0\",\"method\":\"m\"}''
     \<lparr>so_events = replicate 50 (Transfer 4), so_in = [], so_out = []\<rparr> no_heap
   = Some (answered ''{\"jsonrpc\":\"2.0\",\"result\":7}'' \<lparr>so_events = replicate 50 (Transfer 4), so_in = [], so_out = []\<rparr> no_heap)"
proof -
  obtain v reply where v: "parsed_value rpc_hooks ''{\"jsonrpc\":\"2.0\",\"method\":\"m\"}'' no_heap v"
    "v \<noteq> None \<longrightarrow> member_value ''id'' (jv_kids (the v)) = None"
    "expected_reply rpc_hooks [(5, \<lparr>jm_method_name = Some ''m'', jm_handler = seven, jm_user_data = None\<rparr>)] ''{\"jsonrpc\":\"2.0\",\"method\":\"m\"}'' no_heap v reply"
    "text_value False 0 reply = Some ''{\"jsonrpc\":\"2.0\",\"result\":7}''" "clean_texts [reply]"
    using replies_seven unfolding replies_def by blast
  show ?thesis
    by (rule rpc_request_answered [OF rpc_hooks_plenty plain_blocks_ok registries(2) v(1) _ v(3,4) _ v(5)])
       (use v(2) in \<open>simp_all add: INT_MAX_def\<close>)
qed


end
