(* ===== verification/Spec2Isabelle.thy ===== *)
theory Spec2Isabelle
  imports Prelude Interfaces Ring_Buffer Ring_Queue Thread_Safe_Queue Comm_Que Share_Mem_Queue
    Msg_Queue Request_Que XList Readn Ctos Ctos_Msg Module_Manager CJson CJson_Tree CJson_Number CJson_Parse
    CJson_String CJson_Parse_Safe CJson_Print CJson_Print_Text CJson_Roundtrip
    CJson_More CJson_Build Json_Rpc Json_Rpc_Service Json_Rpc_Client Json_Rpc_Replies Json_Rpc_Serve
begin

text \<open>
  A verification development for the C utility library under \<^verbatim>\<open>src/common\<close>: byte rings, queues
  between threads and processes, an intrusive list, a module framework with message dispatch, the CTOS
  operating-system layer, and the JSON trees that the remote-procedure-call service is built on.

  \<^bold>\<open>How the parts interact.\<close>  \<^verbatim>\<open>ring_queue\<close> stores fixed-size elements in a \<^verbatim>\<open>ring_buffer\<close>;
  \<^verbatim>\<open>msgqueue\<close> keeps messages in the slots of a \<^verbatim>\<open>CommQue\<close>; \<^verbatim>\<open>module_manager\<close> receives from a
  \<^verbatim>\<open>msgqueue\<close> and dispatches to the handlers of its modules; \<^verbatim>\<open>request_que\<close> keeps pending requests in
  the linked \<^verbatim>\<open>thread_safe_queue\<close> and all requests in a hash table.  \<^verbatim>\<open>share_mem_queue\<close>,
  \<^verbatim>\<open>xlist\<close>, \<^verbatim>\<open>ctos\<close>, \<^verbatim>\<open>readn\<close> and \<^verbatim>\<open>cJSON\<close> stand on their own.

  \<^bold>\<open>Conventions.\<close>  A C struct is a record with the same fields, an integer type the word of its width,
  a pointer an option (\<open>'a ptr\<close>), a heap a partial map from addresses.  An operation takes the state and
  returns its result with the new state; \<open>None\<close> of an option-valued operation stands for undefined
  behaviour: a read or write outside an object, a use after free, a division by zero.  So \<open>= Some ...\<close>
  in a theorem says that the call is free of these, and \<open>= None\<close> that it is not.  What comes from outside
  (allocation outcomes, the clock, what a condition-variable wait returns and what other threads did
  meanwhile, outcomes of system calls, callbacks) is a parameter.  A section under a mutex is one step;
  a wait splits it, with the other threads' steps as an argument of the call.

  \<^bold>\<open>Theories.\<close>
  \<^item> \<open>Prelude\<close>: integer types and status codes of \<^verbatim>\<open>defs.h\<close>, memory blocks, heaps, deadlines, slices of a
    ring.  \<open>Interfaces\<close>: the locales \<open>fifo\<close> (what a queue delivers on any sequence of puts and gets),
    \<open>invariant_system\<close> (reachable states) and \<open>keyed_table\<close> (last binding wins); every locale is
    interpreted on the models below, which is where the first-in-first-out and invariant theorems come from.
  \<^item> \<open>Ring_Buffer\<close> and \<open>Ring_Queue\<close> (\<^verbatim>\<open>ring/\<close>): all operations; the unread bytes as a list, reads take a
    prefix, writes append, no sequence of calls leaves the block; the writes that lose data.
  \<^item> \<open>Thread_Safe_Queue\<close> (\<^verbatim>\<open>thread_safe_queue.c\<close>): the node heap; first-in-first-out, removal by
    predicate, destruction, waiting with spurious wake-ups.
  \<^item> \<open>Comm_Que\<close> (\<^verbatim>\<open>comm_que.c\<close>), \<open>Msg_Queue\<close> (\<^verbatim>\<open>msgqueue.c\<close>), \<open>Share_Mem_Queue\<close>
    (\<^verbatim>\<open>shareMem/share_mem_queue.c\<close>): slot rings; exclusive slots, order of delivery, release of bodies.
  \<^item> \<open>Request_Que\<close> (\<^verbatim>\<open>request_que.c\<close>): submission, fetching, completion, cancellation, clean-up.
  \<^item> \<open>XList\<close> (\<^verbatim>\<open>xlist.c\<close>): the doubly linked list refines a list; its traversals.
  \<^item> \<open>Readn\<close> (\<^verbatim>\<open>readn.c\<close>): exact-length transfers under any schedule of partial transfers.
  \<^item> \<open>Ctos\<close> and \<open>Ctos_Msg\<close> (\<^verbatim>\<open>ctos.c\<close>): 64-bit arithmetic on word pairs, the clock, semaphores, the table of
    message queues, the buffers they hand out.
  \<^item> \<open>Module_Manager\<close> (\<^verbatim>\<open>module_manager.c\<close>): registration, handler tables, the dispatch loop, sending.
  \<^item> \<open>CJson\<close> and \<open>CJson_Tree\<close> (\<^verbatim>\<open>cjson/cJSON.c\<close>): the linked items; editing refines lists of trees, deletion
    frees exactly the tree, copying is all or nothing.

  \<^bold>\<open>Loops and bounds.\<close>  A loop whose end depends on the heap is a \<open>partial_function (option)\<close>, and the
  theorems about it give its result, so they contain its termination.  A loop that waits consumes a list
  of answers, one per wake-up, and is \<open>Blocked\<close> when the list ends before the loop does; no theorem
  bounds the length of that list.  Word sizes are those of a 64-bit Linux target; theorems state the
  ranges they need.  The doubles of cJSON are rationals: rounding, infinities and NaN are outside the model.

  \<^bold>\<open>Not modelled.\<close>  The \<^verbatim>\<open>WIN32\<close> branches; logging calls; thread creation and the pthread wrappers of
  \<^verbatim>\<open>tsk.c\<close>, \<^verbatim>\<open>osal.c\<close> and \<^verbatim>\<open>ctos.c\<close>, which only pass their arguments on; the serial port \<^verbatim>\<open>uart/\<close>; the
  hash macros of \<^verbatim>\<open>uthash.h\<close> (a list of entries stands for the table); the parser and printer of cJSON
  and \<^verbatim>\<open>cJSON_Utils.c\<close>.  \<^verbatim>\<open>PROJECT.json\<close> lists every part with its status.
\<close>

end
